(* ===== verification/Beacon_Prelude.thy ===== *)
theory Beacon_Prelude
  imports Complex_Main "HOL-Library.Word"
begin

text \<open>
  Shared ground of the development: the machine integer types of the sources, the
  result type for code that may throw or leave the defined behaviour of C++, the
  list lemmas more than one component needs.

  \<^item> \<open>u8\<close>, \<open>u16\<close>, \<open>u32\<close>, \<open>u64\<close> are the unsigned types of the code
    (\<open>size_t\<close> is 64 bits wide, as on the platforms the code targets).
  \<^item> \<open>'a res\<close> is \<open>Inl fault\<close> or \<open>Inr value\<close>. A \<open>fault\<close> is a thrown
    \<open>std::runtime_error\<close> with its text, an \<open>std::out_of_range\<close> thrown by
    \<open>vector::at\<close>, a container that cannot grow any more
    (\<open>std::length_error\<close>, or \<open>std::bad_alloc\<close> before it), a division by zero (of
    machine integers, or the inverse of a field's zero), a failed \<open>assert\<close>, a read outside an object, which C++ leaves
    undefined, a signed integer expression that leaves the range of its type (an overflow or a shift of
    a 1 out of the value bits, undefined too), a loop that does not end, or a \<open>DrgError\<close>,
    with its text and the replica it names. A theorem that excludes \<open>Undefined_Read\<close> and
    \<open>Int_Overflow\<close> excludes undefined behaviour there.
\<close>

unbundle bit_operations_syntax

section \<open>Machine integers\<close>

type_synonym u8 = "8 word"
type_synonym u16 = "16 word"
type_synonym u32 = "32 word"
type_synonym u64 = "64 word"
type_synonym bytes = "u8 list"

abbreviation SIZE_MAX :: nat where
  "SIZE_MAX \<equiv> 2 ^ 64 - 1"

abbreviation size_wrap :: "nat \<Rightarrow> nat" where
  "size_wrap n \<equiv> n mod 2 ^ 64"

text \<open>Subtraction of two \<open>size_t\<close> values wraps around.\<close>

definition size_sub :: "nat \<Rightarrow> nat \<Rightarrow> nat" where
  "size_sub a b = nat ((int a - int b) mod 2 ^ 64)"

section \<open>Results\<close>

datatype fault =
    Runtime_Error string
  | Out_Of_Range
  | Assertion_Failed
  | Undefined_Read
  | Division_By_Zero
  | Length_Error
  | Int_Overflow
  | No_Return
  | Drg_Error string u16

type_synonym 'a res = "fault + 'a"

fun res_bind :: "'a res \<Rightarrow> ('a \<Rightarrow> 'b res) \<Rightarrow> 'b res" where
  "res_bind (Inl e) f = Inl e"
| "res_bind (Inr x) f = f x"

fun is_ok :: "'a res \<Rightarrow> bool" where
  "is_ok (Inl e) = False"
| "is_ok (Inr x) = True"

text \<open>\<open>vector::at\<close>: an index out of range throws.\<close>

definition vec_at :: "'a list \<Rightarrow> nat \<Rightarrow> 'a res" where
  "vec_at xs i = (if i < length xs then Inr (xs ! i) else Inl Out_Of_Range)"

text \<open>\<open>vector::operator[]\<close>: an index out of range is a read of foreign memory.\<close>

definition vec_get :: "'a list \<Rightarrow> nat \<Rightarrow> 'a res" where
  "vec_get xs i = (if i < length xs then Inr (xs ! i) else Inl Undefined_Read)"

text \<open>A loop that pushes one result after the other to a vector and stops at the first fault.\<close>

fun res_map :: "('a \<Rightarrow> 'b res) \<Rightarrow> 'a list \<Rightarrow> 'b list res" where
  "res_map f [] = Inr []"
| "res_map f (x # xs) = res_bind (f x) (\<lambda>y. res_bind (res_map f xs) (\<lambda>ys. Inr (y # ys)))"

section \<open>Text and bytes\<close>

definition string_bytes :: "string \<Rightarrow> bytes" where
  "string_bytes s = map (\<lambda>c. word_of_nat (of_char c)) s"

definition bytes_string :: "bytes \<Rightarrow> string" where
  "bytes_string bs = map (\<lambda>b. char_of (unat b)) bs"

abbreviation newline :: string where
  "newline \<equiv> [CHR 0x0A]"

section \<open>Generic lemmas\<close>

lemma res_bind_Inr_iff: "res_bind r f = Inr y \<longleftrightarrow> (\<exists>x. r = Inr x \<and> f x = Inr y)"
  by (cases r) auto

lemma res_bind_Inl_iff:
  "res_bind r f = Inl e \<longleftrightarrow> r = Inl e \<or> (\<exists>x. r = Inr x \<and> f x = Inl e)"
  by (cases r) auto

lemma res_bind_assoc: "res_bind (res_bind r f) g = res_bind r (\<lambda>x. res_bind (f x) g)"
  by (cases r) auto

lemma is_ok_iff: "is_ok r \<longleftrightarrow> (\<exists>x. r = Inr x)"
  by (cases r) auto

lemma vec_at_less [simp]: "i < length xs \<Longrightarrow> vec_at xs i = Inr (xs ! i)"
  by (simp add: vec_at_def)

lemma vec_at_geq [simp]: "length xs \<le> i \<Longrightarrow> vec_at xs i = Inl Out_Of_Range"
  by (simp add: vec_at_def)

lemma vec_get_less [simp]: "i < length xs \<Longrightarrow> vec_get xs i = Inr (xs ! i)"
  by (simp add: vec_get_def)

lemma vec_get_geq [simp]: "length xs \<le> i \<Longrightarrow> vec_get xs i = Inl Undefined_Read"
  by (simp add: vec_get_def)

lemma size_sub_le: "b \<le> a \<Longrightarrow> a < 2 ^ 64 \<Longrightarrow> size_sub a b = a - b"
  by (simp add: size_sub_def nat_diff_distrib flip: of_nat_diff)

lemma size_sub_gt:
  assumes "a < b" and "b \<le> 2 ^ 64"
  shows "size_sub a b = 2 ^ 64 - (b - a)"
proof -
  have "(int a - int b) mod 2 ^ 64 = (int a - int b + 2 ^ 64) mod 2 ^ 64"
    by simp
  also have "\<dots> = int a - int b + 2 ^ 64"
    using assms by (intro mod_pos_pos_trivial) auto
  also have "\<dots> = int (2 ^ 64 - (b - a))"
    using assms by simp
  finally show ?thesis
    by (simp add: size_sub_def)
qed

lemma unat_of_nat_u64: "n < 2 ^ 64 \<Longrightarrow> unat (of_nat n :: u64) = n"
  by (simp add: unat_of_nat)

lemma unat_u8_less [simp]: "unat (b :: u8) < 256"
  by (rule order_less_le_trans [OF unsigned_less]) simp

lemma take_append_length: "take (length xs) (xs @ ys) = xs"
  by simp

lemma nth_append_length_plus': "(xs @ ys) ! (length xs + i) = ys ! i"
  by (simp add: nth_append)

lemma nth_map_upt_shift:
  "i < n \<Longrightarrow> map f [m..<m + n] ! i = f (m + i)"
  by simp

text \<open>An array filled from index \<open>a\<close> to \<open>b\<close>, each entry computed from those before it.\<close>

lemma foldl_fill:
  assumes "\<And>i ys. a \<le> i \<Longrightarrow> i < b \<Longrightarrow> length ys = n \<Longrightarrow> (\<And>j. j < i \<Longrightarrow> ys ! j = g j) \<Longrightarrow>
      step ys i = ys[i := g i]"
    and "length ys = n" and "\<And>j. j < a \<Longrightarrow> ys ! j = g j" and "a \<le> b" and "b \<le> n"
  shows "length (foldl step ys [a..<b]) = n \<and> (\<forall>j<b. foldl step ys [a..<b] ! j = g j)"
  using assms(4,1,5)
proof (induction b rule: dec_induct)
  case base
  then show ?case using assms(2,3) by simp
next
  case (step b)
  let ?zs = "foldl step ys [a..<b]"
  have IH: "length ?zs = n" "\<And>j. j < b \<Longrightarrow> ?zs ! j = g j"
    using step by auto
  have "foldl step ys [a..<Suc b] = ?zs[b := g b]"
    using step.hyps step.prems IH by simp
  then show ?case
    using IH step.prems(2) by (auto simp: nth_list_update less_Suc_eq)
qed

lemma res_map_ok: "(\<And>x. x \<in> set xs \<Longrightarrow> f x = Inr (g x)) \<Longrightarrow> res_map f xs = Inr (map g xs)"
  by (induction xs) simp_all

lemma res_map_nth:
  "res_map f xs = Inr ys \<Longrightarrow> length ys = length xs \<and> (\<forall>i<length xs. f (xs ! i) = Inr (ys ! i))"
proof (induction xs arbitrary: ys)
  case (Cons x xs)
  then obtain y zs where "f x = Inr y" "res_map f xs = Inr zs" "ys = y # zs"
    by (auto simp: res_bind_Inr_iff)
  with Cons.IH show ?case
    by (auto simp: nth_Cons split: nat.splits)
qed simp

lemma bytes_string_of [simp]: "bytes_string (string_bytes s) = s"
proof -
  have "unat (word_of_nat (of_char c) :: u8) = (of_char c :: nat)" for c
    by (simp add: unat_of_nat)
  then show ?thesis
    by (induction s) (simp_all add: bytes_string_def string_bytes_def)
qed

lemma length_string_bytes [simp]: "length (string_bytes s) = length s"
  by (simp add: string_bytes_def)

end
