(* ===== verification/Merkle_Hash.thy ===== *)
theory Merkle_Hash
  imports Beacon_Prelude
begin

text \<open>
  Byte strings of the Merkle library (\<open>include/merklecpp.h\<close>): the big-endian coding of
  64-bit numbers (\<open>serialise_uint64_t\<close>, \<open>deserialise_uint64_t\<close>) and the fixed-size
  hashes (\<open>HashT<SIZE>\<close>). A hash is the list of its bytes; \<open>SIZE\<close> is the first
  argument of the operations that need it. A buffer position (\<open>size_t &position\<close>) is
  passed in and returned.
\<close>

section \<open>64-bit numbers\<close>

definition serialise_uint64_t :: "u64 \<Rightarrow> bytes \<Rightarrow> bytes" where
  "serialise_uint64_t n bs =
     bs @ map (\<lambda>i. ucast (drop_bit (8 * (8 - i - 1)) n AND 0xFF)) [0..<8]"

fun deserialise_uint64_loop :: "bytes \<Rightarrow> nat \<Rightarrow> nat \<Rightarrow> u64 \<Rightarrow> nat \<Rightarrow> (u64 \<times> nat) res" where
  "deserialise_uint64_loop bs index i r 0 = Inr (r, index)"
| "deserialise_uint64_loop bs index i r (Suc k) =
     res_bind (vec_get bs index)
       (\<lambda>b. deserialise_uint64_loop bs (index + 1) (i + 1)
              (r OR push_bit (8 * (8 - i - 1)) (ucast b)) k)"

definition deserialise_uint64_t :: "bytes \<Rightarrow> nat \<Rightarrow> (u64 \<times> nat) res" where
  "deserialise_uint64_t bs index = deserialise_uint64_loop bs index 0 0 8"

definition uint64_bytes :: "u64 \<Rightarrow> bytes" where
  "uint64_bytes n = map (\<lambda>i. ucast (drop_bit (8 * (7 - i)) n)) [0..<8]"

lemma ucast_and_byte: "(ucast (x AND 0xFF :: u64) :: u8) = ucast x"
proof -
  have "(x AND 0xFF :: u64) = take_bit 8 x"
    by (simp add: take_bit_eq_mask mask_numeral)
  then show ?thesis
    by (simp only: unsigned_take_bit_eq) (simp add: unsigned_ucast_eq take_bit_word_eq_self)
qed

lemma serialise_uint64_eq: "serialise_uint64_t n bs = bs @ uint64_bytes n"
  by (simp add: serialise_uint64_t_def uint64_bytes_def ucast_and_byte)

lemma length_uint64_bytes [simp]: "length (uint64_bytes n) = 8"
  by (simp add: uint64_bytes_def)

lemma nth_uint64_bytes [simp]:
  "i < 8 \<Longrightarrow> uint64_bytes n ! i = ucast (drop_bit (8 * (7 - i)) n)"
  by (simp add: uint64_bytes_def del: upt_Suc)

lemma ucast_ucast_byte: "(ucast (ucast x :: u8) :: u64) = take_bit 8 x"
  by (rule bit_word_eqI) (auto simp: bit_simps)

text \<open>A byte put back above the bits below it; the eight bytes cover the word.\<close>

lemma or_next_byte:
  fixes n :: u64
  shows "push_bit a (take_bit 8 (drop_bit a n)) OR take_bit a n = take_bit (a + 8) n"
  by (rule bit_word_eqI) (auto simp: bit_simps not_less)

text \<open>Reading the last \<open>k\<close> of the eight bytes adds the low \<open>8 * k\<close> bits.\<close>

lemma deserialise_uint64_tail:
  assumes get: "\<And>i. i < 8 \<Longrightarrow> vec_get bs (index + i) = Inr (ucast (drop_bit (8 * (7 - i)) n))"
  shows "k \<le> 8 \<Longrightarrow> deserialise_uint64_loop bs (index + (8 - k)) (8 - k) r k =
    Inr (r OR take_bit (8 * k) n, index + 8)"
proof (induction k arbitrary: r)
  case 0
  then show ?case by simp
next
  case (Suc k)
  then have k: "8 - Suc k < 8" "8 * (7 - (8 - Suc k)) = 8 * k" "8 * (8 - (8 - Suc k) - 1) = 8 * k"
    "8 - Suc k + 1 = 8 - k" "index + (8 - Suc k) + 1 = index + (8 - k)"
    by auto
  have "k \<le> 8"
    using Suc.prems by simp
  have "deserialise_uint64_loop bs (index + (8 - Suc k)) (8 - Suc k) r (Suc k) =
      deserialise_uint64_loop bs (index + (8 - k)) (8 - k)
        (r OR push_bit (8 * k) (take_bit 8 (drop_bit (8 * k) n))) k"
    by (simp only: deserialise_uint64_loop.simps get [OF k(1)] res_bind.simps k ucast_ucast_byte)
  also have "\<dots> = Inr ((r OR push_bit (8 * k) (take_bit 8 (drop_bit (8 * k) n)))
      OR take_bit (8 * k) n, index + 8)"
    by (rule Suc.IH) fact
  also have "\<dots> = Inr (r OR take_bit (8 * Suc k) n, index + 8)"
    by (simp only: or.assoc or_next_byte) (simp add: add.commute)
  finally show ?case .
qed

lemma deserialise_uint64_at:
  assumes "drop index bs = uint64_bytes n @ rest" and "index \<le> length bs"
  shows "deserialise_uint64_t bs index = Inr (n, index + 8)"
proof -
  have "length (drop index bs) = length (uint64_bytes n @ rest)"
    by (simp only: assms(1))
  with assms(2) have len: "index + 8 \<le> length bs"
    by simp
  have get: "vec_get bs (index + i) = Inr (ucast (drop_bit (8 * (7 - i)) n))" if "i < 8" for i
  proof -
    have "bs ! (index + i) = drop index bs ! i"
      using assms(2) by simp
    also have "\<dots> = uint64_bytes n ! i"
      using that by (simp only: assms(1) nth_append length_uint64_bytes if_True)
    finally show ?thesis
      using that len by simp
  qed
  show ?thesis
    using deserialise_uint64_tail [of bs index n 8 0, OF get]
    by (simp add: deserialise_uint64_t_def take_bit_word_eq_self)
qed

section \<open>Hashes\<close>

type_synonym hash = bytes

definition hash_ok :: "nat \<Rightarrow> hash \<Rightarrow> bool" where
  "hash_ok sz h \<longleftrightarrow> length h = sz"

text \<open>The constructor without arguments: all bytes zero.\<close>

definition hash_zero :: "nat \<Rightarrow> hash" where
  "hash_zero sz = replicate sz 0"

text \<open>
  The constructor from a pointer into a buffer copies \<open>SIZE\<close> bytes without a check.
\<close>

definition hash_of_pointer :: "nat \<Rightarrow> bytes \<Rightarrow> nat \<Rightarrow> hash res" where
  "hash_of_pointer sz buffer position =
     (if position + sz \<le> length buffer then Inr (take sz (drop position buffer))
      else Inl Undefined_Read)"

fun hash_read_loop :: "bytes \<Rightarrow> nat \<Rightarrow> nat \<Rightarrow> hash \<Rightarrow> (hash \<times> nat) res" where
  "hash_read_loop buffer position 0 acc = Inr (acc, position)"
| "hash_read_loop buffer position (Suc k) acc =
     res_bind (vec_get buffer position)
       (\<lambda>b. hash_read_loop buffer (position + 1) k (acc @ [b]))"

text \<open>
  \<open>HashT::deserialise\<close>. The remaining length is a difference of two \<open>size_t\<close>
  values, so a position behind the end of the buffer passes the check.
\<close>

definition hash_deserialise :: "nat \<Rightarrow> bytes \<Rightarrow> nat \<Rightarrow> (hash \<times> nat) res" where
  "hash_deserialise sz buffer position =
     (if size_sub (length buffer) position < sz then Inl (Runtime_Error ''not enough bytes'')
      else hash_read_loop buffer position sz [])"

text \<open>The constructors from a vector of bytes, with and without a position.\<close>

definition hash_of_vector :: "nat \<Rightarrow> bytes \<Rightarrow> hash res" where
  "hash_of_vector sz bs =
     (if length bs < sz then Inl (Runtime_Error ''not enough bytes'')
      else res_bind (hash_deserialise sz bs 0) (\<lambda>(h, _). Inr h))"

definition hash_of_vector_at :: "nat \<Rightarrow> bytes \<Rightarrow> nat \<Rightarrow> (hash \<times> nat) res" where
  "hash_of_vector_at sz bs position =
     (if size_sub (length bs) position < sz then Inl (Runtime_Error ''not enough bytes'')
      else hash_deserialise sz bs position)"

definition hash_serialise :: "hash \<Rightarrow> bytes \<Rightarrow> bytes" where
  "hash_serialise h buffer = fold (\<lambda>b buf. buf @ [b]) h buffer"

lemma hash_serialise_eq [simp]: "hash_serialise h buffer = buffer @ h"
proof -
  have "fold (\<lambda>b buf. buf @ [b]) h buffer = buffer @ h"
    by (induction h arbitrary: buffer) auto
  then show ?thesis
    by (simp add: hash_serialise_def)
qed

lemma hash_read_loop_eq:
  "position + k \<le> length buffer \<Longrightarrow>
   hash_read_loop buffer position k acc = Inr (acc @ take k (drop position buffer), position + k)"
proof (induction k arbitrary: position acc)
  case 0
  then show ?case by simp
next
  case (Suc k)
  then have "hash_read_loop buffer position (Suc k) acc =
      Inr ((acc @ [buffer ! position]) @ take k (drop (position + 1) buffer), position + 1 + k)"
    by (simp del: append_assoc)
  moreover have "take (Suc k) (drop position buffer) =
      buffer ! position # take k (drop (position + 1) buffer)"
    using Suc.prems by (simp flip: Cons_nth_drop_Suc)
  ultimately show ?case by simp
qed

lemma hash_deserialise_ok:
  assumes "position + sz \<le> length buffer" and "length buffer < 2 ^ 64"
  shows "hash_deserialise sz buffer position = Inr (take sz (drop position buffer), position + sz)"
  using assms by (simp add: hash_deserialise_def size_sub_le hash_read_loop_eq)

lemma hash_of_vector_at_ok:
  assumes "position + sz \<le> length buffer" and "length buffer < 2 ^ 64"
  shows "hash_of_vector_at sz buffer position = Inr (take sz (drop position buffer), position + sz)"
  using assms by (simp add: hash_of_vector_at_def size_sub_le hash_deserialise_ok)

lemma hash_of_vector_ok:
  "sz \<le> length bs \<Longrightarrow> length bs < 2 ^ 64 \<Longrightarrow> hash_of_vector sz bs = Inr (take sz bs)"
  by (simp add: hash_of_vector_def hash_deserialise_ok)

lemma hash_of_vector_short:
  "length bs < sz \<Longrightarrow> hash_of_vector sz bs = Inl (Runtime_Error ''not enough bytes'')"
  by (simp add: hash_of_vector_def)

lemma hash_deserialise_at:
  assumes "drop position buffer = h @ rest" and "position \<le> length buffer"
    and "length h = sz" and "length buffer < 2 ^ 64"
  shows "hash_deserialise sz buffer position = Inr (h, position + sz)"
    and "hash_of_vector_at sz buffer position = Inr (h, position + sz)"
proof -
  have "length (drop position buffer) = length (h @ rest)"
    by (simp only: assms(1))
  with assms(2,3) have "position + sz \<le> length buffer"
    by simp
  with assms show "hash_deserialise sz buffer position = Inr (h, position + sz)"
    and "hash_of_vector_at sz buffer position = Inr (h, position + sz)"
    by (simp_all add: hash_deserialise_ok hash_of_vector_at_ok)
qed

section \<open>Codecs at a position\<close>

text \<open>
  The contract of the library's byte formats: a value written into a buffer is read back at the
  position where it starts, and the position moves behind it. Reading several values in a row is
  derived once; the formats of numbers, hashes and paths are instances.
\<close>

locale position_codec =
  fixes valid :: "'a \<Rightarrow> bool"
    and put :: "'a \<Rightarrow> bytes"
    and get :: "bytes \<Rightarrow> nat \<Rightarrow> ('a \<times> nat) res"
  assumes get_at: "valid x \<Longrightarrow> length (pre @ put x @ post) < 2 ^ 64 \<Longrightarrow>
    get (pre @ put x @ post) (length pre) = Inr (x, length pre + length (put x))"
begin

lemma get_drop:
  assumes "valid x" and "drop position bs = put x @ rest" and "position \<le> length bs"
    and "length bs < 2 ^ 64"
  shows "get bs position = Inr (x, position + length (put x))"
proof -
  have bs: "bs = take position bs @ put x @ rest"
    using assms(2) by (metis append_take_drop_id)
  have "length (take position bs) = position"
    using assms(3) by simp
  with get_at [OF assms(1), of "take position bs" rest] bs assms(4) show ?thesis
    by simp
qed

fun get_seq :: "nat \<Rightarrow> bytes \<Rightarrow> nat \<Rightarrow> 'a list \<Rightarrow> ('a list \<times> nat) res" where
  "get_seq 0 bs position acc = Inr (acc, position)"
| "get_seq (Suc k) bs position acc =
     res_bind (get bs position) (\<lambda>(x, position). get_seq k bs position (acc @ [x]))"

lemma get_seq_put:
  "\<forall>x\<in>set xs. valid x \<Longrightarrow> drop position bs = concat (map put xs) @ rest \<Longrightarrow>
   position \<le> length bs \<Longrightarrow> length bs < 2 ^ 64 \<Longrightarrow>
   get_seq (length xs) bs position acc = Inr (acc @ xs, position + length (concat (map put xs)))"
proof (induction xs arbitrary: position acc)
  case Nil
  then show ?case by simp
next
  case (Cons x xs)
  have x: "get bs position = Inr (x, position + length (put x))"
    using Cons.prems by (intro get_drop) auto
  have "length (drop position bs) = length (put x @ concat (map put xs) @ rest)"
    using Cons.prems(2) by simp
  then have le: "position + length (put x) \<le> length bs"
    using Cons.prems(3) by simp
  have "drop (position + length (put x)) bs = drop (length (put x)) (drop position bs)"
    by (simp add: add.commute)
  also have "\<dots> = concat (map put xs) @ rest"
    using Cons.prems(2) by simp
  finally show ?case
    using Cons.IH [OF _ _ le Cons.prems(4), of "acc @ [x]"] Cons.prems(1) x by simp
qed

end

interpretation uint64_codec: position_codec "\<lambda>n. True" uint64_bytes deserialise_uint64_t
proof
  fix n pre post
  show "deserialise_uint64_t (pre @ uint64_bytes n @ post) (length pre) =
      Inr (n, length pre + length (uint64_bytes n))"
    using deserialise_uint64_at [of "length pre" "pre @ uint64_bytes n @ post" n post] by simp
qed

interpretation hash_codec: position_codec "hash_ok sz" "\<lambda>h. h" "hash_deserialise sz" for sz
proof
  fix h pre post
  assume "hash_ok sz h" and "length (pre @ h @ post) < 2 ^ 64"
  then show "hash_deserialise sz (pre @ h @ post) (length pre) = Inr (h, length pre + length h)"
    using hash_deserialise_at(1) [of "length pre" "pre @ h @ post" h post sz]
    by (simp add: hash_ok_def)
qed

end
