(* ===== verification/Merkle_Path.thy ===== *)
theory Merkle_Path
  imports Merkle_Hash
begin

text \<open>
  Merkle paths (\<open>PathT\<close> of \<open>include/merklecpp.h\<close>): the elements with their direction,
  the root at the end of a path, verification, comparison, and the byte format. The hash
  function is a template parameter of the code and an argument \<open>hf\<close> here; the tree of
  the protocol instantiates it with \<open>sha256_compress\<close>.
\<close>

section \<open>Data\<close>

datatype direction = PATH_LEFT | PATH_RIGHT

record element =
  e_hash :: hash
  e_direction :: direction

record path =
  path_leaf :: hash
  path_leaf_index :: nat
  path_max_index :: nat
  path_elements :: "element list"

text \<open>The constructor from a leaf, its index, the elements and the greatest index.\<close>

definition path_make :: "hash \<Rightarrow> nat \<Rightarrow> element list \<Rightarrow> nat \<Rightarrow> path" where
  "path_make leaf leaf_index elements max_index =
     \<lparr>path_leaf = leaf, path_leaf_index = leaf_index, path_max_index = max_index,
      path_elements = elements\<rparr>"

text \<open>
  The copy constructor copies the leaf and the elements only: the two indices of the
  copy keep whatever its memory held, here the indices of \<open>uninit\<close>.
\<close>

definition path_copy :: "path \<Rightarrow> path \<Rightarrow> path" where
  "path_copy uninit other =
     uninit\<lparr>path_leaf := path_leaf other, path_elements := path_elements other\<rparr>"

section \<open>Root and verification\<close>

definition path_step :: "(hash \<Rightarrow> hash \<Rightarrow> hash) \<Rightarrow> hash \<Rightarrow> element \<Rightarrow> hash" where
  "path_step hf result e =
     (if e_direction e = PATH_LEFT then hf (e_hash e) result else hf result (e_hash e))"

definition path_root :: "(hash \<Rightarrow> hash \<Rightarrow> hash) \<Rightarrow> path \<Rightarrow> hash" where
  "path_root hf p = foldl (path_step hf) (path_leaf p) (path_elements p)"

definition path_verify :: "(hash \<Rightarrow> hash \<Rightarrow> hash) \<Rightarrow> path \<Rightarrow> hash \<Rightarrow> bool" where
  "path_verify hf p expected_root \<longleftrightarrow> path_root hf p = expected_root"

definition path_size :: "path \<Rightarrow> nat" where
  "path_size p = length (path_elements p)"

text \<open>
  \<open>PathT::serialised_size\<close>: \<open>sizeof(Element)\<close> is the hash followed by an
  enumerator, which the compiler stores in an aligned 4-byte field.
\<close>

definition sizeof_element :: "nat \<Rightarrow> nat" where
  "sizeof_element sz = (sz + 3) div 4 * 4 + 4"

definition path_serialised_size :: "nat \<Rightarrow> path \<Rightarrow> nat" where
  "path_serialised_size sz p = sz + length (path_elements p) * sizeof_element sz"

text \<open>\<open>operator==\<close> walks the two element lists side by side.\<close>

fun elements_equal :: "element list \<Rightarrow> element list \<Rightarrow> bool" where
  "elements_equal (a # as) (b # bs) =
     (if e_hash a \<noteq> e_hash b \<or> e_direction a \<noteq> e_direction b then False
      else elements_equal as bs)"
| "elements_equal _ _ = True"

definition path_equal :: "path \<Rightarrow> path \<Rightarrow> bool" where
  "path_equal p q =
     (if path_leaf p \<noteq> path_leaf q \<or> length (path_elements p) \<noteq> length (path_elements q)
      then False else elements_equal (path_elements p) (path_elements q))"

section \<open>Byte format\<close>

definition element_serialise :: "element \<Rightarrow> bytes \<Rightarrow> bytes" where
  "element_serialise e bs =
     hash_serialise (e_hash e) bs @ [if e_direction e = PATH_LEFT then 1 else 0]"

definition path_serialise :: "path \<Rightarrow> bytes \<Rightarrow> bytes" where
  "path_serialise p bs =
     (let bs = hash_serialise (path_leaf p) bs;
          bs = serialise_uint64_t (of_nat (path_leaf_index p)) bs;
          bs = serialise_uint64_t (of_nat (path_max_index p)) bs;
          bs = serialise_uint64_t (of_nat (length (path_elements p))) bs
      in fold element_serialise (path_elements p) bs)"

fun path_elements_loop ::
  "nat \<Rightarrow> bytes \<Rightarrow> nat \<Rightarrow> nat \<Rightarrow> element list \<Rightarrow> (element list \<times> nat) res" where
  "path_elements_loop sz bs position 0 es = Inr (es, position)"
| "path_elements_loop sz bs position (Suc n) es =
     res_bind (hash_of_vector_at sz bs position) (\<lambda>(h, position).
     res_bind (vec_get bs position) (\<lambda>d.
       path_elements_loop sz bs (position + 1) n
         (es @ [\<lparr>e_hash = h, e_direction = (if d \<noteq> 0 then PATH_LEFT else PATH_RIGHT)\<rparr>])))"

definition path_deserialise :: "nat \<Rightarrow> bytes \<Rightarrow> nat \<Rightarrow> (path \<times> nat) res" where
  "path_deserialise sz bs position =
     res_bind (hash_deserialise sz bs position) (\<lambda>(leaf, position).
     res_bind (deserialise_uint64_t bs position) (\<lambda>(leaf_index, position).
     res_bind (deserialise_uint64_t bs position) (\<lambda>(max_index, position).
     res_bind (deserialise_uint64_t bs position) (\<lambda>(num_elements, position).
     res_bind (path_elements_loop sz bs position (unat num_elements) []) (\<lambda>(es, position).
       Inr (path_make leaf (unat leaf_index) es (unat max_index), position))))))"

definition path_of_bytes :: "nat \<Rightarrow> bytes \<Rightarrow> path res" where
  "path_of_bytes sz bs = res_bind (path_deserialise sz bs 0) (\<lambda>(p, _). Inr p)"

section \<open>Round trip\<close>

definition path_ok :: "nat \<Rightarrow> path \<Rightarrow> bool" where
  "path_ok sz p \<longleftrightarrow> hash_ok sz (path_leaf p) \<and> path_leaf_index p < 2 ^ 64 \<and>
     path_max_index p < 2 ^ 64 \<and> (\<forall>e \<in> set (path_elements p). hash_ok sz (e_hash e))"

definition element_bytes :: "element \<Rightarrow> bytes" where
  "element_bytes e = e_hash e @ [if e_direction e = PATH_LEFT then 1 else 0]"

definition path_bytes :: "path \<Rightarrow> bytes" where
  "path_bytes p = path_leaf p @ uint64_bytes (of_nat (path_leaf_index p)) @
     uint64_bytes (of_nat (path_max_index p)) @
     uint64_bytes (of_nat (length (path_elements p))) @
     concat (map element_bytes (path_elements p))"

lemma path_serialise_eq: "path_serialise p bs = bs @ path_bytes p"
proof -
  have "fold element_serialise es bs = bs @ concat (map element_bytes es)" for es bs
    by (induction es arbitrary: bs) (simp_all add: element_serialise_def element_bytes_def)
  then show ?thesis
    by (simp add: path_serialise_def path_bytes_def serialise_uint64_eq Let_def)
qed

lemma length_path_elements_bytes:
  "\<forall>e \<in> set es. hash_ok sz (e_hash e) \<Longrightarrow>
   length (concat (map element_bytes es)) = (sz + 1) * length es"
  by (induction es) (auto simp: element_bytes_def hash_ok_def)

lemma length_path_bytes:
  "path_ok sz p \<Longrightarrow> length (path_bytes p) = sz + 24 + (sz + 1) * length (path_elements p)"
  using length_path_elements_bytes [of "path_elements p" sz]
  by (simp add: path_ok_def path_bytes_def hash_ok_def)

lemma path_elements_loop_at:
  assumes "drop position bs = concat (map element_bytes es) @ rest" and "position \<le> length bs"
    and "\<forall>e \<in> set es. hash_ok sz (e_hash e)" and "length bs < 2 ^ 64"
  shows "path_elements_loop sz bs position (length es) acc =
    Inr (acc @ es, position + (sz + 1) * length es)"
  using assms
proof (induction es arbitrary: position acc)
  case Nil
  then show ?case by simp
next
  case (Cons e es)
  let ?d = "if e_direction e = PATH_LEFT then 1 else (0 :: u8)"
  have "hash_ok sz (e_hash e)"
    using Cons.prems(3) by simp
  have shape: "drop position bs = e_hash e @ (?d # concat (map element_bytes es) @ rest)"
    using Cons.prems(1) by (simp add: element_bytes_def [of e])
  then have at: "hash_of_vector_at sz bs position = Inr (e_hash e, position + sz)"
    using Cons.prems \<open>hash_ok sz (e_hash e)\<close> by (intro hash_deserialise_at) (auto simp: hash_ok_def)
  have tail: "drop (position + sz) bs = ?d # concat (map element_bytes es) @ rest"
  proof -
    have "drop (position + sz) bs = drop sz (drop position bs)"
      by (simp add: add.commute)
    also have "\<dots> = ?d # concat (map element_bytes es) @ rest"
      using \<open>hash_ok sz (e_hash e)\<close> unfolding shape by (simp add: hash_ok_def)
    finally show ?thesis .
  qed
  then have lt: "position + sz < length bs"
    by (metis drop_eq_Nil list.distinct(1) not_le_imp_less)
  from tail lt have get: "vec_get bs (position + sz) = Inr ?d"
    by (simp flip: hd_drop_conv_nth)
  have rest: "drop (position + sz + 1) bs = concat (map element_bytes es) @ rest"
    using tail by (metis Suc_eq_plus1 drop_Suc list.sel(3) tl_drop)
  have elem: "\<lparr>e_hash = e_hash e,
      e_direction = (if ?d \<noteq> 0 then PATH_LEFT else PATH_RIGHT)\<rparr> = e"
    by (cases e, cases "e_direction e") auto
  have "path_elements_loop sz bs position (length (e # es)) acc =
      path_elements_loop sz bs (position + sz + 1) (length es) (acc @ [e])"
    by (simp only: list.size add_Suc_right add_0_right path_elements_loop.simps at get
        res_bind.simps prod.case elem)
  also have "\<dots> = Inr ((acc @ [e]) @ es, position + sz + 1 + (sz + 1) * length es)"
    using Cons.prems lt by (intro Cons.IH rest) auto
  finally show ?case
    by (simp add: algebra_simps)
qed

lemma path_elements_bound:
  assumes "path_ok sz p" and "length (path_bytes p) < 2 ^ 64"
  shows "length (path_elements p) < 2 ^ 64"
  using assms by (simp add: length_path_bytes)

lemma path_deserialise_at:
  assumes ok: "path_ok sz p" and len: "length (pre @ path_bytes p @ post) < 2 ^ 64"
  shows "path_deserialise sz (pre @ path_bytes p @ post) (length pre) =
    Inr (p, length pre + length (path_bytes p))"
proof -
  let ?bs = "pre @ path_bytes p @ post"
  let ?n = "length pre"
  let ?es = "path_elements p"
  have sz: "length (path_leaf p) = sz" and ix: "path_leaf_index p < 2 ^ 64"
      "path_max_index p < 2 ^ 64" and es: "\<forall>e \<in> set ?es. hash_ok sz (e_hash e)"
    using ok by (auto simp: path_ok_def hash_ok_def)
  note lbs = len
  have nes: "length ?es < 2 ^ 64"
    using path_elements_bound [OF ok] lbs by simp
  have leaf: "hash_deserialise sz ?bs ?n = Inr (path_leaf p, ?n + sz)"
    by (rule hash_deserialise_at(1)) (use sz lbs in \<open>simp_all add: path_bytes_def\<close>)
  have li: "deserialise_uint64_t ?bs (?n + sz) = Inr (of_nat (path_leaf_index p), ?n + sz + 8)"
    by (rule deserialise_uint64_at) (use sz in \<open>simp_all add: path_bytes_def\<close>)
  have mi: "deserialise_uint64_t ?bs (?n + sz + 8) =
      Inr (of_nat (path_max_index p), ?n + sz + 8 + 8)"
    by (rule deserialise_uint64_at) (use sz in \<open>simp_all add: path_bytes_def\<close>)
  have ne: "deserialise_uint64_t ?bs (?n + sz + 8 + 8) =
      Inr (of_nat (length ?es), ?n + sz + 8 + 8 + 8)"
    by (rule deserialise_uint64_at) (use sz in \<open>simp_all add: path_bytes_def\<close>)
  have el: "path_elements_loop sz ?bs (?n + sz + 8 + 8 + 8) (length ?es) [] =
      Inr ([] @ ?es, ?n + sz + 8 + 8 + 8 + (sz + 1) * length ?es)"
    by (rule path_elements_loop_at) (use sz es lbs in \<open>simp_all add: path_bytes_def\<close>)
  have words: "unat (of_nat (path_leaf_index p) :: u64) = path_leaf_index p"
      "unat (of_nat (path_max_index p) :: u64) = path_max_index p"
      "unat (of_nat (length ?es) :: u64) = length ?es"
    using ix nes by (simp_all add: unat_of_nat_u64)
  show ?thesis
    unfolding path_deserialise_def leaf res_bind.simps prod.case li mi ne words el
    by (simp add: path_make_def length_path_bytes [OF ok])
qed

interpretation path_codec: position_codec "path_ok sz" path_bytes "path_deserialise sz" for sz
  by unfold_locales (rule path_deserialise_at)

lemma path_of_bytes_serialise:
  assumes "path_ok sz p" and "length (path_serialise p []) < 2 ^ 64"
  shows "path_of_bytes sz (path_serialise p []) = Inr p"
  using assms path_codec.get_at [of sz p "[]" "[]"] by (simp add: path_of_bytes_def path_serialise_eq)

text \<open>Reading back what \<open>PathT::serialise\<close> wrote gives the same path (leaf, both
  indices, every element with its direction) and the position behind it, wherever in a
  buffer the path stands and whatever follows it.\<close>

theorem path_roundtrip:
  assumes ok: "path_ok sz p"
    and len: "length (path_serialise p pre @ post) < 2 ^ 64"
  shows "path_deserialise sz (path_serialise p pre @ post) (length pre) =
    Inr (p, length (path_serialise p pre))"
  using path_codec.get_at [OF ok, of pre post] len by (simp add: path_serialise_eq)

theorem path_roundtrip_witness:
  "path_deserialise 2 (path_serialise (path_make [1, 2] 1 [\<lparr>e_hash = [3, 4], e_direction = PATH_LEFT\<rparr>] 1)
      [9] @ [7, 7]) 1 =
   Inr (path_make [1, 2] 1 [\<lparr>e_hash = [3, 4], e_direction = PATH_LEFT\<rparr>] 1, 30)"
  using path_roundtrip
    [of 2 "path_make [1, 2] 1 [\<lparr>e_hash = [3, 4], e_direction = PATH_LEFT\<rparr>] 1" "[9]" "[7, 7]"]
  by (simp add: path_ok_def path_make_def hash_ok_def path_serialise_eq length_path_bytes
      path_bytes_def element_bytes_def)

section \<open>Binding\<close>

text \<open>The pairs a path hashes, in order.\<close>

fun path_inputs ::
  "(hash \<Rightarrow> hash \<Rightarrow> hash) \<Rightarrow> hash \<Rightarrow> element list \<Rightarrow> (hash \<times> hash) list" where
  "path_inputs hf h [] = []"
| "path_inputs hf h (e # es) =
     (if e_direction e = PATH_LEFT then (e_hash e, h) else (h, e_hash e))
       # path_inputs hf (path_step hf h e) es"

lemma path_root_binding:
  assumes "map e_direction es = map e_direction es'"
    and "foldl (path_step hf) h es = foldl (path_step hf) h' es'"
  shows "h = h' \<and> es = es' \<or>
    (\<exists>x \<in> set (path_inputs hf h es). \<exists>y \<in> set (path_inputs hf h' es').
       x \<noteq> y \<and> hf (fst x) (snd x) = hf (fst y) (snd y))"
  using assms
proof (induction es arbitrary: es' h h')
  case Nil
  then show ?case by simp
next
  case (Cons e es)
  then obtain e' es'' where es': "es' = e' # es''"
    by (cases es') auto
  have "path_step hf h e = path_step hf h' e' \<and> es = es'' \<or>
    (\<exists>x \<in> set (path_inputs hf (path_step hf h e) es).
     \<exists>y \<in> set (path_inputs hf (path_step hf h' e') es'').
       x \<noteq> y \<and> hf (fst x) (snd x) = hf (fst y) (snd y))"
    using Cons.prems unfolding es' by (intro Cons.IH) auto
  then show ?case
  proof
    assume eq: "path_step hf h e = path_step hf h' e' \<and> es = es''"
    have "e_direction e = e_direction e'"
      using Cons.prems(1) by (simp add: es')
    with eq show ?thesis
      by (cases e; cases e') (auto simp: es' path_step_def split: if_splits)
  next
    assume "\<exists>x \<in> set (path_inputs hf (path_step hf h e) es).
     \<exists>y \<in> set (path_inputs hf (path_step hf h' e') es'').
       x \<noteq> y \<and> hf (fst x) (snd x) = hf (fst y) (snd y)"
    then show ?thesis
      unfolding es' by (intro disjI2) (simp, blast)
  qed
qed

text \<open>C18: a verified path binds its leaf. If two paths with the same directions both
  verify against one root, either they are the same leaf with the same elements, or two
  different pairs that the two verifications hash collide under the hash function.\<close>

theorem path_verify_binding:
  assumes "path_verify hf p expected" and "path_verify hf q expected"
    and "map e_direction (path_elements p) = map e_direction (path_elements q)"
  shows "path_leaf p = path_leaf q \<and> path_elements p = path_elements q \<or>
    (\<exists>x \<in> set (path_inputs hf (path_leaf p) (path_elements p)).
     \<exists>y \<in> set (path_inputs hf (path_leaf q) (path_elements q)).
       x \<noteq> y \<and> hf (fst x) (snd x) = hf (fst y) (snd y))"
  using assms by (intro path_root_binding) (auto simp: path_verify_def path_root_def)

theorem path_verify_binding_witness:
  "path_leaf (path_make [1] 0 [\<lparr>e_hash = [3], e_direction = PATH_RIGHT\<rparr>] 1) =
     path_leaf (path_make [1] 5 [\<lparr>e_hash = [3], e_direction = PATH_RIGHT\<rparr>] 9)"
  using path_verify_binding [of "\<lambda>a b. a @ b"
      "path_make [1] 0 [\<lparr>e_hash = [3], e_direction = PATH_RIGHT\<rparr>] 1" "[1, 3]"
      "path_make [1] 5 [\<lparr>e_hash = [3], e_direction = PATH_RIGHT\<rparr>] 9"]
  by (simp add: path_verify_def path_root_def path_step_def path_make_def)

lemma elements_equal_iff:
  "length as = length bs \<Longrightarrow> elements_equal as bs \<longleftrightarrow> as = bs"
proof (induction as bs rule: list_induct2)
  case Nil
  then show ?case by simp
next
  case (Cons x xs y ys)
  then show ?case
    by (cases x; cases y) auto
qed

lemma path_equal_iff:
  "path_equal p q \<longleftrightarrow> path_leaf p = path_leaf q \<and> path_elements p = path_elements q"
  by (auto simp: path_equal_def elements_equal_iff)

lemma path_equal_root: "path_equal p q \<Longrightarrow> path_root hf p = path_root hf q"
  by (simp add: path_equal_iff path_root_def)

text \<open>A copy verifies exactly where its original does, but may have lost the indices.\<close>

lemma path_copy_equal: "path_equal (path_copy uninit p) p"
  by (simp add: path_equal_iff path_copy_def)

lemma path_copy_verify: "path_verify hf (path_copy uninit p) expected = path_verify hf p expected"
  by (simp add: path_verify_def path_equal_root [OF path_copy_equal])

end
