(* ===== verification/Merkle_Node.thy ===== *)
theory Merkle_Node
  imports Merkle_Path
begin

text \<open>
  Nodes of the Merkle tree (\<open>TreeT::Node\<close> of \<open>include/merklecpp.h\<close>) and the
  computation of their hashes. A \<open>Node*\<close> is a value of the datatype \<open>node\<close> with
  \<open>Null\<close> for the null pointer: every node of a tree has one owner, so an update through
  a pointer is the update of the value in its parent. \<open>size\<close> is a \<open>size_t\<close> and
  \<open>height\<close> a \<open>uint8_t\<close>; their wrap-around is written out, and
  \<open>1 << height\<close> is a 32-bit shift as in the code.

  The abstract side is \<open>merkle_root\<close>, the root of a list of leaves split at the largest
  power of two below its length, and \<open>represents\<close>, which says that a node stands for a
  list of leaves, parts of which may have been conflated into one node by a flush.
\<close>

section \<open>Nodes\<close>

datatype node =
    Null
  | Node (nd_hash: hash) (nd_left: node) (nd_right: node) (nd_size: nat) (nd_height: nat)
      (nd_dirty: bool)

fun update_sizes :: "node \<Rightarrow> node" where
  "update_sizes Null = Null"
| "update_sizes (Node h l r s ht d) =
     (if l \<noteq> Null \<and> r \<noteq> Null
      then Node h l r (size_wrap (nd_size l + nd_size r + 1))
        ((max (nd_height l) (nd_height r) + 1) mod 2 ^ 8) d
      else Node h l r 1 1 d)"

definition node_make :: "hash \<Rightarrow> node" where
  "node_make h = update_sizes (Node h Null Null 0 0 False)"

definition node_make2 :: "nat \<Rightarrow> node \<Rightarrow> node \<Rightarrow> node" where
  "node_make2 sz l r = update_sizes (Node (hash_zero sz) l r 0 0 True)"

text \<open>
  \<open>size_t max_size = (1 << height) - 1\<close>: an \<open>int\<close>, converted to \<open>size_t\<close>. C++ defines the
  expression for heights up to \<open>30\<close> (for \<open>31\<close> the subtraction overflows, from \<open>32\<close> on
  the shift is too long), which is the height of a tree of \<open>2 ^ 29\<close> leaves. \<open>is_full\<close> is used here
  on nodes of at most that height (\<open>wf_node_bounds\<close>); reading a tree from bytes
  (\<open>restore_extra\<close>) and the operations over the heap (\<open>is_full_h\<close>) check the height.
\<close>

definition max_size :: "nat \<Rightarrow> nat" where
  "max_size ht = unat (scast (push_bit ht (1 :: 32 word) - 1) :: u64)"

definition is_full :: "node \<Rightarrow> bool" where
  "is_full n \<longleftrightarrow> nd_size n = max_size (nd_height n)"

fun node_invariant :: "node \<Rightarrow> bool" where
  "node_invariant Null \<longleftrightarrow> True"
| "node_invariant (Node h l r s ht d) \<longleftrightarrow>
     ((l \<noteq> Null \<and> r \<noteq> Null) \<or> (l = Null \<and> r = Null)) \<and>
     (l = Null \<or> r = Null \<or> s = size_wrap (nd_size l + nd_size r + 1)) \<and>
     (l = Null \<or> node_invariant l) \<and> (r = Null \<or> node_invariant r) \<and> ht \<le> 8 * 8"

text \<open>
  \<open>copy_node\<close> appends the leaves it meets to \<open>leaf_nodes\<close>, skipping the first
  \<open>num_flushed\<close> of them.
\<close>

fun copy_node :: "node \<Rightarrow> node list \<Rightarrow> nat \<Rightarrow> node \<times> node list \<times> nat" where
  "copy_node Null leaf_nodes num_flushed = (Null, leaf_nodes, num_flushed)"
| "copy_node (Node h l r s ht d) leaf_nodes num_flushed =
     (let (l', leaf_nodes, num_flushed) = copy_node l leaf_nodes num_flushed;
          (r', leaf_nodes, num_flushed) = copy_node r leaf_nodes num_flushed;
          n = Node h l' r' s ht d
      in if s = 1 \<and> l' = Null \<and> r' = Null
         then if num_flushed = 0 then (n, leaf_nodes @ [n], num_flushed)
              else (n, leaf_nodes, num_flushed - 1)
         else (n, leaf_nodes, num_flushed))"

text \<open>
  \<open>TreeT::hash\<close>: dirty children first, left before right, then the node itself. The code
  keeps the pending nodes on an explicit stack; the number of hashes taken goes into the
  statistics.
\<close>

fun hash_node :: "(hash \<Rightarrow> hash \<Rightarrow> hash) \<Rightarrow> node \<Rightarrow> node \<times> nat" where
  "hash_node hf Null = (Null, 0)"
| "hash_node hf (Node h l r s ht d) =
     (let (l', a) = (if l \<noteq> Null \<and> nd_dirty l then hash_node hf l else (l, 0));
          (r', b) = (if r \<noteq> Null \<and> nd_dirty r then hash_node hf r else (r, 0))
      in (Node (hf (nd_hash l') (nd_hash r')) l' r' s ht False, a + b + 1))"

section \<open>The abstract root\<close>

function pow2_below_from :: "nat \<Rightarrow> nat \<Rightarrow> nat" where
  "pow2_below_from k n = (if 0 < k \<and> 2 * k < n then pow2_below_from (2 * k) n else k)"
  by pat_completeness auto
termination
  by (relation "measure (\<lambda>(k, n). n - k)") auto

declare pow2_below_from.simps [simp del]

definition pow2_below :: "nat \<Rightarrow> nat" where
  "pow2_below n = pow2_below_from 1 n"

lemma pow2_below_from_eq:
  "0 < k \<Longrightarrow> k * 2 ^ j < n \<Longrightarrow> n \<le> k * 2 ^ (j + 1) \<Longrightarrow> pow2_below_from k n = k * 2 ^ j"
proof (induction j arbitrary: k)
  case 0
  then show ?case by (subst pow2_below_from.simps) simp
next
  case (Suc j)
  have "k * 2 \<le> k * 2 ^ Suc j"
    by simp
  with Suc.prems have "2 * k < n"
    by linarith
  then have "pow2_below_from k n = pow2_below_from (2 * k) n"
    using Suc.prems by (subst pow2_below_from.simps) simp
  also have "\<dots> = 2 * k * 2 ^ j"
    using Suc.prems by (intro Suc.IH) (auto simp: mult.assoc mult.left_commute)
  finally show ?case by simp
qed

lemma pow2_below_eq: "2 ^ j < n \<Longrightarrow> n \<le> 2 ^ (j + 1) \<Longrightarrow> pow2_below n = 2 ^ j"
  using pow2_below_from_eq [of 1 j n] by (simp add: pow2_below_def)

lemma pow2_below_from_bounds:
  "0 < k \<Longrightarrow> k < n \<Longrightarrow> 0 < pow2_below_from k n \<and> pow2_below_from k n < n"
proof (induction k n rule: pow2_below_from.induct)
  case (1 k n)
  then show ?case
    by (subst (1 2) pow2_below_from.simps) auto
qed

lemma pow2_below_bounds: "1 < n \<Longrightarrow> 0 < pow2_below n \<and> pow2_below n < n"
  using pow2_below_from_bounds [of 1 n] by (simp add: pow2_below_def)

lemma pow2_below_less: "Suc 0 < n \<Longrightarrow> pow2_below n < n"
  and pow2_below_pos: "Suc 0 < n \<Longrightarrow> 0 < pow2_below n"
  using pow2_below_bounds [of n] by simp_all

function merkle_root :: "(hash \<Rightarrow> hash \<Rightarrow> hash) \<Rightarrow> hash list \<Rightarrow> hash" where
  "merkle_root hf xs =
     (if length xs \<le> 1 then hd xs
      else hf (merkle_root hf (take (pow2_below (length xs)) xs))
              (merkle_root hf (drop (pow2_below (length xs)) xs)))"
  by pat_completeness auto
termination
  by (relation "measure (\<lambda>(hf, xs). length xs)") (auto simp: not_le pow2_below_less pow2_below_pos intro: diff_less)

declare merkle_root.simps [simp del]

lemma merkle_root_single [simp]: "merkle_root hf [x] = x"
  by (simp add: merkle_root.simps)

lemma length_merkle_root:
  assumes "xs \<noteq> []" and "\<forall>x\<in>set xs. length x = sz" and "\<And>a b. length (hf a b) = sz"
  shows "length (merkle_root hf xs) = sz"
  using assms by (subst merkle_root.simps) simp

lemma merkle_root_split:
  assumes "length xs = 2 ^ j" and "0 < length ys" and "length ys \<le> 2 ^ j"
  shows "merkle_root hf (xs @ ys) = hf (merkle_root hf xs) (merkle_root hf ys)"
proof -
  have "pow2_below (length (xs @ ys)) = 2 ^ j"
    using assms by (intro pow2_below_eq) auto
  moreover have "1 < length (xs @ ys)"
    using assms by (metis Suc_leI add_le_less_mono le_add1 length_append less_add_same_cancel1
        less_one nat_less_le one_le_numeral one_le_power order_less_le_trans)
  ultimately show ?thesis
    using assms(1) by (subst merkle_root.simps) (simp del: length_append)
qed

section \<open>Well-formed nodes\<close>

text \<open>
  A node without children is a leaf or a conflated subtree; a node with children has a
  perfect left subtree that is at least as high as the right one. Sizes and heights are
  exact, without wrap-around.
\<close>

fun wf_node :: "node \<Rightarrow> bool" where
  "wf_node Null = False"
| "wf_node (Node h l r s ht d) =
     (if l = Null \<and> r = Null then 1 \<le> ht \<and> s = 2 ^ ht - 1 \<and> \<not> d
      else wf_node l \<and> wf_node r \<and> nd_size l = 2 ^ nd_height l - 1 \<and>
        nd_height r \<le> nd_height l \<and> ht = nd_height l + 1 \<and> s = nd_size l + nd_size r + 1)"

fun nleaves :: "node \<Rightarrow> nat" where
  "nleaves Null = 0"
| "nleaves (Node h l r s ht d) =
     (if l = Null \<and> r = Null then 2 ^ (ht - 1) else nleaves l + nleaves r)"

fun represents :: "(hash \<Rightarrow> hash \<Rightarrow> hash) \<Rightarrow> node \<Rightarrow> hash list \<Rightarrow> bool" where
  "represents hf Null xs = False"
| "represents hf (Node h l r s ht d) xs =
     (if l = Null \<and> r = Null then length xs = 2 ^ (ht - 1) \<and> h = merkle_root hf xs
      else represents hf l (take (nleaves l) xs) \<and> represents hf r (drop (nleaves l) xs))"

fun tree_hash :: "(hash \<Rightarrow> hash \<Rightarrow> hash) \<Rightarrow> node \<Rightarrow> hash" where
  "tree_hash hf Null = []"
| "tree_hash hf (Node h l r s ht d) =
     (if l = Null \<and> r = Null then h else hf (tree_hash hf l) (tree_hash hf r))"

fun hash_inv :: "(hash \<Rightarrow> hash \<Rightarrow> hash) \<Rightarrow> node \<Rightarrow> bool" where
  "hash_inv hf Null = True"
| "hash_inv hf (Node h l r s ht d) =
     (l = Null \<and> r = Null \<or>
      hash_inv hf l \<and> hash_inv hf r \<and>
      (\<not> d \<longrightarrow> \<not> nd_dirty l \<and> \<not> nd_dirty r \<and> h = hf (nd_hash l) (nd_hash r)))"

text \<open>
  A flush conflates complete subtrees of flushed leaves: \<open>conflated_below k n\<close> says that
  every childless node above the leaf level stands for leaves with an index below \<open>k\<close>, and
  that a left subtree all of whose leaves have such an index has been conflated.
\<close>

fun conflated_below :: "nat \<Rightarrow> node \<Rightarrow> bool" where
  "conflated_below k Null = True"
| "conflated_below k (Node h l r s ht d) =
     (if l = Null \<and> r = Null then ht = 1 \<or> 2 ^ (ht - 1) \<le> k
      else conflated_below k l \<and> conflated_below (k - nleaves l) r \<and>
        (nleaves l \<le> k \<longrightarrow> nd_left l = Null))"

text \<open>
  Trees stay below \<open>max_leaves\<close> leaves: then heights are at most 30, the greatest shift
  \<open>1 << height\<close> that is defined for an \<open>int\<close>.
\<close>

definition max_leaves :: nat where
  "max_leaves = 2 ^ 29"

lemma wf_not_Null [simp]: "\<not> wf_node Null"
  by simp

lemma wf_node_neq_Null: "wf_node n \<Longrightarrow> n \<noteq> Null"
  by auto

lemma wf_node_inner:
  assumes "wf_node (Node h l r s ht d)" and "\<not> (l = Null \<and> r = Null)"
  shows "wf_node l" "wf_node r" "l \<noteq> Null" "r \<noteq> Null" "nd_size l = 2 ^ nd_height l - 1"
    "nd_height r \<le> nd_height l" "ht = nd_height l + 1" "s = nd_size l + nd_size r + 1"
  using assms by (auto simp: if_split split: if_splits)

lemma wf_leaves:
  "wf_node n \<Longrightarrow> nd_size n + 1 = 2 * nleaves n \<and> 1 \<le> nd_height n \<and>
    nleaves n \<le> 2 ^ (nd_height n - 1) \<and> 2 ^ (nd_height n - 1) < 2 * nleaves n"
proof (induction n)
  case Null
  then show ?case by simp
next
  case (Node h l r s ht d)
  show ?case
  proof (cases "l = Null \<and> r = Null")
    case True
    with Node.prems show ?thesis
      by (cases ht) auto
  next
    case False
    note w = wf_node_inner [OF Node.prems False]
    note IHl = Node.IH(1) [OF w(1)] and IHr = Node.IH(2) [OF w(2)]
    obtain k where k: "nd_height l = Suc k"
      using IHl by (cases "nd_height l") auto
    have nl: "nleaves l = 2 ^ k"
      using IHl w(5) k by simp
    have "nleaves r \<le> 2 ^ (nd_height r - 1)"
      using IHr by simp
    also have "\<dots> \<le> 2 ^ k"
      using w(6) k by (intro power_increasing) auto
    finally have nr: "nleaves r \<le> 2 ^ k" .
    have "1 \<le> nleaves r"
      using IHr by linarith
    with False w nl nr k IHl IHr show ?thesis
      by auto
  qed
qed

lemma nleaves_pos: "wf_node n \<Longrightarrow> 1 \<le> nleaves n"
  using wf_leaves [of n] by simp

lemma wf_size_eq: "wf_node n \<Longrightarrow> nd_size n = 2 * nleaves n - 1"
  using wf_leaves [of n] by linarith

lemma wf_perfect:
  assumes "wf_node n"
  shows "nd_size n = 2 ^ nd_height n - 1 \<longleftrightarrow> nleaves n = 2 ^ (nd_height n - 1)"
  using wf_leaves [OF assms] by (cases "nd_height n") auto

lemma height_bound:
  assumes "wf_node n" and "nleaves n \<le> 2 ^ k"
  shows "nd_height n \<le> Suc k"
proof -
  have "(2::nat) ^ (nd_height n - 1) < 2 ^ Suc k"
    using wf_leaves [OF assms(1)] assms(2) by simp
  then have "nd_height n - 1 < Suc k"
    by (rule power_less_imp_less_exp [rotated]) simp
  then show ?thesis by simp
qed

lemma wf_node_bounds:
  assumes "wf_node n" and "nleaves n \<le> max_leaves"
  shows "nd_height n \<le> 30" and "nd_size n < 2 ^ 30"
  using height_bound [of n 29] wf_leaves [OF assms(1)] assms
  by (simp_all add: max_leaves_def)

lemma max_size_eq:
  assumes "ht \<le> 31"
  shows "max_size ht = 2 ^ ht - 1"
proof -
  have "push_bit ht (1 :: 32 word) - 1 = mask ht"
    by (simp add: mask_eq_exp_minus_1)
  moreover have "(scast (mask ht :: 32 word) :: u64) = mask ht"
    by (rule bit_word_eqI) (use assms in \<open>auto simp: bit_simps min_def\<close>)
  moreover have "unat (mask ht :: u64) = 2 ^ ht - 1"
  proof -
    have "uint (mask ht :: u64) = mask ht"
      using assms by (simp add: uint_mask_eq min_def)
    then have "unat (mask ht :: u64) = nat (mask ht)"
      by (simp only: unat_eq_nat_uint)
    then show ?thesis
      by (simp only: nat_mask_eq) (simp only: mask_eq_exp_minus_1)
  qed
  ultimately show ?thesis
    by (simp add: max_size_def)
qed

lemma is_full_iff:
  assumes "wf_node n" and "nleaves n \<le> max_leaves"
  shows "is_full n \<longleftrightarrow> nleaves n = 2 ^ (nd_height n - 1)"
proof -
  have "max_size (nd_height n) = 2 ^ nd_height n - 1"
    using wf_node_bounds [OF assms] by (intro max_size_eq) simp
  then show ?thesis
    by (simp only: is_full_def wf_perfect [OF assms(1)])
qed

lemma represents_length: "wf_node n \<Longrightarrow> represents hf n xs \<Longrightarrow> length xs = nleaves n"
proof (induction n arbitrary: xs)
  case Null
  then show ?case by simp
next
  case (Node h l r s ht d)
  show ?case
  proof (cases "l = Null \<and> r = Null")
    case True
    with Node.prems show ?thesis by simp
  next
    case False
    note w = wf_node_inner [OF Node.prems(1) False]
    have "represents hf l (take (nleaves l) xs)" "represents hf r (drop (nleaves l) xs)"
      using Node.prems(2) False by auto
    then have "length (take (nleaves l) xs) = nleaves l"
        "length (drop (nleaves l) xs) = nleaves r"
      using Node.IH(1) [OF w(1)] Node.IH(2) [OF w(2)] by blast+
    with False nleaves_pos [OF w(2)] show ?thesis by auto
  qed
qed

lemma represents_inner:
  assumes "wf_node (Node h l r s ht d)" and "\<not> (l = Null \<and> r = Null)"
    and "represents hf (Node h l r s ht d) xs"
  obtains ys zs where "xs = ys @ zs" "represents hf l ys" "represents hf r zs"
    "length ys = 2 ^ (nd_height l - 1)" "length ys = nleaves l"
    "length zs = nleaves r" "0 < length zs" "length zs \<le> 2 ^ (nd_height l - 1)"
proof
  note w = wf_node_inner [OF assms(1,2)]
  let ?ys = "take (nleaves l) xs" and ?zs = "drop (nleaves l) xs"
  show "xs = ?ys @ ?zs" by simp
  show l: "represents hf l ?ys" and r: "represents hf r ?zs"
    using assms(2,3) by auto
  show ys: "length ?ys = nleaves l"
    using represents_length [OF w(1) l] .
  then show "length ?ys = 2 ^ (nd_height l - 1)"
    using wf_perfect [OF w(1)] w(5) by simp
  show zs: "length ?zs = nleaves r"
    using represents_length [OF w(2) r] .
  then show "0 < length ?zs"
    using nleaves_pos [OF w(2)] by simp
  have "nleaves r \<le> 2 ^ (nd_height r - 1)"
    using wf_leaves [OF w(2)] by simp
  also have "\<dots> \<le> 2 ^ (nd_height l - 1)"
    using w(6) by (intro power_increasing) auto
  finally show "length ?zs \<le> 2 ^ (nd_height l - 1)"
    using zs by simp
qed

lemma represents_innerI:
  assumes "\<not> (l = Null \<and> r = Null)" and "represents hf l ys" and "represents hf r zs"
    and "length ys = nleaves l"
  shows "represents hf (Node h l r s ht d) (ys @ zs)"
  using assms by auto

lemma tree_hash_eq:
  "wf_node n \<Longrightarrow> represents hf n xs \<Longrightarrow> tree_hash hf n = merkle_root hf xs"
proof (induction n arbitrary: xs)
  case Null
  then show ?case by simp
next
  case (Node h l r s ht d)
  show ?case
  proof (cases "l = Null \<and> r = Null")
    case True
    with Node.prems show ?thesis by simp
  next
    case False
    note w = wf_node_inner [OF Node.prems(1) False]
    obtain ys zs where xs: "xs = ys @ zs" and rep: "represents hf l ys" "represents hf r zs"
      and len: "length ys = 2 ^ (nd_height l - 1)" "0 < length zs"
        "length zs \<le> 2 ^ (nd_height l - 1)"
      using represents_inner [OF Node.prems(1) False Node.prems(2)] by metis
    show ?thesis
      using False Node.IH(1) [OF w(1) rep(1)] Node.IH(2) [OF w(2) rep(2)]
      by (auto simp: xs merkle_root_split [OF len])
  qed
qed

lemma hash_inv_clean:
  "wf_node n \<Longrightarrow> hash_inv hf n \<Longrightarrow> \<not> nd_dirty n \<Longrightarrow> nd_hash n = tree_hash hf n"
proof (induction n)
  case Null
  then show ?case by simp
next
  case (Node h l r s ht d)
  then show ?case
    by (cases "l = Null \<and> r = Null") (use wf_node_inner [OF Node.prems(1)] in auto)
qed

section \<open>Building nodes\<close>

lemma node_make_eq [simp]: "node_make h = Node h Null Null 1 1 False"
  by (simp add: node_make_def)

lemma update_sizes_inner:
  assumes "wf_node l" and "wf_node r" and "is_full l" and "nd_height r \<le> nd_height l"
    and "nleaves l + nleaves r \<le> max_leaves"
  shows "update_sizes (Node h l r s ht d) =
      Node h l r (nd_size l + nd_size r + 1) (nd_height l + 1) d"
    and "wf_node (Node h l r (nd_size l + nd_size r + 1) (nd_height l + 1) d)"
    and "nleaves (Node h l r s ht d) = nleaves l + nleaves r"
proof -
  have bl: "nd_height l \<le> 30" "nd_size l < 2 ^ 30" and br: "nd_size r < 2 ^ 30"
    using wf_node_bounds [OF assms(1)] wf_node_bounds [OF assms(2)] assms(5) by auto
  have nn: "l \<noteq> Null" "r \<noteq> Null"
    using assms(1,2) by auto
  then show "update_sizes (Node h l r s ht d) =
      Node h l r (nd_size l + nd_size r + 1) (nd_height l + 1) d"
    using bl br assms(4) by (simp add: max_def)
  have "max_size (nd_height l) = 2 ^ nd_height l - 1"
    using bl by (intro max_size_eq) simp
  then have "nd_size l = 2 ^ nd_height l - 1"
    using assms(3) by (simp only: is_full_def)
  then show "wf_node (Node h l r (nd_size l + nd_size r + 1) (nd_height l + 1) d)"
    using nn assms by simp
  show "nleaves (Node h l r s ht d) = nleaves l + nleaves r"
    using nn by simp
qed

lemma inner_left_full:
  assumes "wf_node (Node h l r s ht d)" and "\<not> (l = Null \<and> r = Null)"
    and "nleaves (Node h l r s ht d) \<le> max_leaves"
  shows "is_full l"
proof -
  note w = wf_node_inner [OF assms(1,2)]
  have "nleaves l \<le> max_leaves"
    using assms(2,3) by auto
  then have "max_size (nd_height l) = 2 ^ nd_height l - 1"
    using wf_node_bounds [OF w(1)] by (intro max_size_eq) simp
  then show ?thesis
    using w(5) by (simp only: is_full_def)
qed

text \<open>
  The place of a new leaf: beside a full node, otherwise in the left subtree if that is not
  full, otherwise in the right one. This recursion is what the insertion stack computes.
\<close>

fun node_insert :: "nat \<Rightarrow> node \<Rightarrow> node \<Rightarrow> node" where
  "node_insert sz Null x = Null"
| "node_insert sz (Node h l r s ht d) x =
     (if is_full (Node h l r s ht d) then node_make2 sz (Node h l r s ht d) x
      else if \<not> is_full l then update_sizes (Node h (node_insert sz l x) r s ht True)
      else update_sizes (Node h l (node_insert sz r x) s ht True))"

definition grows :: "node \<Rightarrow> hash \<Rightarrow> node \<Rightarrow> bool" where
  "grows n x n' \<longleftrightarrow> wf_node n' \<and> nleaves n' = nleaves n + 1 \<and> nd_dirty n' \<and>
     (\<not> is_full n \<longrightarrow> nd_height n' = nd_height n) \<and>
     (is_full n \<longrightarrow> nd_height n' = nd_height n + 1) \<and>
     (\<forall>hf. hash_inv hf n \<longrightarrow> hash_inv hf n') \<and>
     (\<forall>k<nleaves n. conflated_below k n \<longrightarrow> conflated_below k n') \<and>
     (\<forall>hf xs. represents hf n xs \<longrightarrow> represents hf n' (xs @ [x]))"

lemma node_make2_grows:
  assumes "wf_node n" and "is_full n" and "nleaves n < max_leaves"
  shows "grows n x (node_make2 sz n (node_make x))"
proof -
  let ?x = "node_make x"
  have u: "wf_node ?x" "nd_height ?x \<le> nd_height n" "nleaves n + nleaves ?x \<le> max_leaves"
    using wf_leaves [OF assms(1)] assms(3) by auto
  have eq: "node_make2 sz n ?x =
      Node (hash_zero sz) n ?x (nd_size n + nd_size ?x + 1) (nd_height n + 1) True"
    unfolding node_make2_def by (rule update_sizes_inner(1)) (use assms u in auto)
  moreover have "wf_node (node_make2 sz n ?x)"
    unfolding eq by (rule update_sizes_inner(2)) (use assms u in auto)
  moreover have "represents hf (node_make2 sz n ?x) (xs @ [x])" if "represents hf n xs" for hf xs
    using represents_length [OF assms(1) that] that assms(1) unfolding eq
    by (intro represents_innerI) auto
  moreover have "n \<noteq> Null"
    using assms(1) by auto
  ultimately show ?thesis
    using assms(2) by (auto simp: grows_def)
qed

lemma node_insert_grows:
  "wf_node n \<Longrightarrow> nleaves n < max_leaves \<Longrightarrow> grows n x (node_insert sz n (node_make x))"
proof (induction n)
  case Null
  then show ?case by simp
next
  case (Node h l r s ht d)
  let ?n = "Node h l r s ht d"
  have le: "nleaves ?n \<le> max_leaves"
    using Node.prems by simp
  show ?case
  proof (cases "is_full ?n")
    case True
    with node_make2_grows [OF Node.prems(1) True Node.prems(2)] show ?thesis
      by simp
  next
    case False
    have inner: "\<not> (l = Null \<and> r = Null)"
      using False is_full_iff [OF Node.prems(1) le] by auto
    note w = wf_node_inner [OF Node.prems(1) inner]
    have full: "is_full l"
      using inner_left_full [OF Node.prems(1) inner le] .
    have nl: "nleaves ?n = nleaves l + nleaves r" "nleaves r < max_leaves"
      using inner Node.prems(2) by auto
    let ?r = "node_insert sz r (node_make x)"
    have g: "grows r x ?r"
      using Node.IH(2) [OF w(2)] nl(2) .
    have "nleaves l = 2 ^ (nd_height l - 1)"
      using is_full_iff [OF w(1)] full nl le by auto
    have hr: "nd_height ?r \<le> nd_height l"
    proof (cases "is_full r \<and> nd_height r = nd_height l")
      case True
      then have "nleaves r = 2 ^ (nd_height l - 1)"
        using is_full_iff [OF w(2)] nl by auto
      moreover have "1 \<le> nd_height l"
        using wf_leaves [OF w(1)] by simp
      ultimately have "nleaves ?n = 2 ^ (nd_height ?n - 1)"
        using nl(1) w(7) \<open>nleaves l = _\<close> by (cases "nd_height l") auto
      with False is_full_iff [OF Node.prems(1) le] show ?thesis
        by blast
    next
      case False
      with g w(6) show ?thesis
        by (auto simp: grows_def)
    qed
    have wr: "wf_node ?r" "nleaves l + nleaves ?r \<le> max_leaves"
      using g nl Node.prems(2) by (auto simp: grows_def)
    note up = update_sizes_inner [OF w(1) wr(1) full hr wr(2)]
    have eq: "node_insert sz ?n (node_make x) =
        Node h l ?r (nd_size l + nd_size ?r + 1) (nd_height l + 1) True"
      using False full up(1) by simp
    have "represents hf (Node h l ?r (nd_size l + nd_size ?r + 1) (nd_height l + 1) True) (xs @ [x])"
      if rep: "represents hf ?n xs" for hf xs
    proof -
      obtain ys zs where "xs = ys @ zs" "represents hf l ys" "represents hf r zs"
          "length ys = nleaves l"
        using represents_inner [OF Node.prems(1) inner rep] by metis
      moreover from this have "represents hf ?r (zs @ [x])"
        using g by (simp add: grows_def)
      ultimately show ?thesis
        using w(3) by simp
    qed
    moreover have "conflated_below k (Node h l ?r (nd_size l + nd_size ?r + 1) (nd_height l + 1) True)"
      if k: "k < nleaves ?n" "conflated_below k ?n" for k
    proof -
      have "k - nleaves l < nleaves r"
        using k(1) nl(1) nleaves_pos [OF w(2)] by linarith
      then have "conflated_below (k - nleaves l) ?r"
        using k(2) inner g by (auto simp: grows_def)
      with k(2) inner w(3) show ?thesis
        by simp
    qed
    moreover have "hash_inv hf (Node h l ?r (nd_size l + nd_size ?r + 1) (nd_height l + 1) True)"
      if "hash_inv hf ?n" for hf
      using that inner w(3) g by (auto simp: grows_def)
    ultimately show ?thesis
      using False up(2) g nl(1) w(3,7) unfolding grows_def eq by simp
  qed
qed

section \<open>Computing hashes\<close>

lemma hash_node_shape:
  "nd_size (fst (hash_node hf n)) = nd_size n \<or> n = Null"
  "nd_height (fst (hash_node hf n)) = nd_height n \<or> n = Null"
  "fst (hash_node hf n) = Null \<longleftrightarrow> n = Null"
  by (cases n; auto simp: Let_def split: prod.splits)+

definition hashed :: "(hash \<Rightarrow> hash \<Rightarrow> hash) \<Rightarrow> node \<Rightarrow> node \<Rightarrow> bool" where
  "hashed hf n n' \<longleftrightarrow> wf_node n' \<and> nleaves n' = nleaves n \<and> nd_height n' = nd_height n \<and>
     nd_size n' = nd_size n \<and> hash_inv hf n' \<and> \<not> nd_dirty n' \<and> tree_hash hf n' = tree_hash hf n \<and>
     (nd_left n = Null \<longrightarrow> nd_left n' = Null) \<and>
     (\<forall>k. conflated_below k n \<longrightarrow> conflated_below k n') \<and>
     (\<forall>xs. represents hf n xs \<longrightarrow> represents hf n' xs)"

lemma hash_node_hashed:
  "wf_node n \<Longrightarrow> hash_inv hf n \<Longrightarrow> nd_dirty n \<Longrightarrow> hashed hf n (fst (hash_node hf n))"
proof (induction n)
  case Null
  then show ?case by simp
next
  case (Node h l r s ht d)
  let ?n = "Node h l r s ht d"
  have inner: "\<not> (l = Null \<and> r = Null)"
    using Node.prems by auto
  note w = wf_node_inner [OF Node.prems(1) inner]
  define l' where "l' = (if nd_dirty l then fst (hash_node hf l) else l)"
  define r' where "r' = (if nd_dirty r then fst (hash_node hf r) else r)"
  have hl: "hashed hf l l'" and hr: "hashed hf r r'"
    using Node.IH w(1,2) Node.prems(2) inner by (auto simp: l'_def r'_def hashed_def)
  have eq: "fst (hash_node hf ?n) = Node (hf (nd_hash l') (nd_hash r')) l' r' s ht False"
    using w(3,4) by (auto simp: l'_def r'_def split: prod.splits)
  have nn: "l' \<noteq> Null" "r' \<noteq> Null"
    using hl hr by (auto simp: hashed_def)
  have cl: "nd_hash l' = tree_hash hf l'" "nd_hash r' = tree_hash hf r'"
    using hl hr hash_inv_clean unfolding hashed_def by blast+
  show ?case
    unfolding eq using inner w nn cl hl hr by (auto simp: hashed_def)
qed

lemma copy_node_fst: "fst (copy_node n lns k) = n"
  by (induction n arbitrary: lns k) (auto simp: Let_def split: prod.splits, (metis fst_conv)+)

lemma wf_node_invariant: "wf_node n \<Longrightarrow> nleaves n \<le> max_leaves \<Longrightarrow> node_invariant n"
proof (induction n)
  case Null
  then show ?case by simp
next
  case (Node h l r s ht d)
  show ?case
  proof (cases "l = Null \<and> r = Null")
    case True
    with wf_node_bounds [OF Node.prems] show ?thesis by simp
  next
    case False
    note w = wf_node_inner [OF Node.prems(1) False]
    have "nleaves l \<le> max_leaves" "nleaves r \<le> max_leaves"
      using False Node.prems(2) by auto
    with False w Node.IH wf_node_bounds [OF Node.prems] show ?thesis
      by simp
  qed
qed

end
