(* ===== verification/Merkle_Tree.thy ===== *)
theory Merkle_Tree
  imports Merkle_Node
begin

text \<open>
  The Merkle tree (\<open>TreeT\<close> of \<open>include/merklecpp.h\<close>): its state, lazy insertion through
  the insertion stack, and the root. The vectors and the root pointer of the class are the
  fields of \<open>mtree\<close>; the top (\<open>back()\<close>) of the insertion stack is the head of the list.
  \<open>hashing_stack\<close> and \<open>walk_stack\<close> are empty between calls and have become the recursion
  of \<open>hash_node\<close> and of the walks.

  Aliasing: the child of a stack element on the side of its flag is the very node below it,
  that is the next element towards the top or, for the top, the node \<open>_root\<close> points to, and
  that node is updated in place. The model keeps the old value of the child in the element
  and puts the current node there (\<open>resume\<close>) where the code reads it through the pointer.
\<close>

section \<open>State\<close>

record statistics =
  num_hash :: nat
  num_insert :: nat
  num_root :: nat
  num_past_root :: nat
  num_flush :: nat
  num_retract :: nat
  num_paths :: nat
  num_past_paths :: nat

type_synonym stack = "(node \<times> bool) list"

record mtree =
  leaf_nodes :: "node list"
  uninserted_leaf_nodes :: "node list"
  num_flushed :: nat
  root_node :: node
  insertion_stack :: stack
  stats :: statistics

definition tree_empty :: mtree where
  "tree_empty =
     \<lparr>leaf_nodes = [], uninserted_leaf_nodes = [], num_flushed = 0, root_node = Null,
      insertion_stack = [],
      stats = \<lparr>num_hash = 0, num_insert = 0, num_root = 0, num_past_root = 0, num_flush = 0,
        num_retract = 0, num_paths = 0, num_past_paths = 0\<rparr>\<rparr>"

definition num_leaves :: "mtree \<Rightarrow> nat" where
  "num_leaves t =
     size_wrap (num_flushed t + length (leaf_nodes t) + length (uninserted_leaf_nodes t))"

definition min_index :: "mtree \<Rightarrow> nat" where
  "min_index t = num_flushed t"

definition max_index :: "mtree \<Rightarrow> nat" where
  "max_index t = (let n = num_leaves t in if n = 0 then 0 else n - 1)"

definition tree_is_empty :: "mtree \<Rightarrow> bool" where
  "tree_is_empty t \<longleftrightarrow> num_leaves t = 0"

definition tree_invariant :: "mtree \<Rightarrow> bool" where
  "tree_invariant t \<longleftrightarrow> (root_node t = Null \<or> node_invariant (root_node t))"

section \<open>Insertion\<close>

definition tree_insert :: "hash \<Rightarrow> mtree \<Rightarrow> mtree" where
  "tree_insert h t =
     t\<lparr>uninserted_leaf_nodes := uninserted_leaf_nodes t @ [node_make h],
       stats := (stats t)\<lparr>num_insert := num_insert (stats t) + 1\<rparr>\<rparr>"

definition tree_insert_list :: "hash list \<Rightarrow> mtree \<Rightarrow> mtree" where
  "tree_insert_list hs t = fold tree_insert hs t"

fun set_child :: "bool \<Rightarrow> node \<Rightarrow> node \<Rightarrow> node" where
  "set_child left Null c = Null"
| "set_child left (Node h l r s ht d) c = (if left then Node h c r s ht d else Node h l c s ht d)"

fun set_dirty :: "node \<Rightarrow> node" where
  "set_dirty Null = Null"
| "set_dirty (Node h l r s ht d) = Node h l r s ht True"

fun continue_insertion_stack :: "nat \<Rightarrow> node \<Rightarrow> node \<Rightarrow> stack \<Rightarrow> stack res" where
  "continue_insertion_stack sz Null new_leaf st = Inl Undefined_Read"
| "continue_insertion_stack sz (Node h l r s ht d) new_leaf st =
     (if is_full (Node h l r s ht d)
      then Inr ((node_make2 sz (Node h l r s ht d) new_leaf, False) # st)
      else if l = Null \<or> r = Null then Inl Assertion_Failed
      else if \<not> is_full l
      then continue_insertion_stack sz l new_leaf ((Node h l r s ht True, True) # st)
      else continue_insertion_stack sz r new_leaf ((Node h l r s ht True, False) # st))"

fun process_stack_loop :: "bool \<Rightarrow> node \<Rightarrow> stack \<Rightarrow> node \<times> stack" where
  "process_stack_loop whole result [] = (result, [])"
| "process_stack_loop whole result ((n, left) # st) =
     (let n = update_sizes (set_dirty (set_child left n result))
      in if \<not> whole \<and> \<not> is_full n then (n, st)
         else process_stack_loop whole n st)"

definition process_insertion_stack :: "bool \<Rightarrow> stack \<Rightarrow> (node \<times> stack) res" where
  "process_insertion_stack whole st =
     (case st of [] \<Rightarrow> Inl Undefined_Read
      | (result, _) # st \<Rightarrow>
          if \<not> nd_dirty result then Inl Assertion_Failed
          else Inr (process_stack_loop whole (update_sizes result) st))"

definition insert_leaf :: "nat \<Rightarrow> node \<Rightarrow> mtree \<Rightarrow> mtree res" where
  "insert_leaf sz n t =
     (let t = t\<lparr>leaf_nodes := leaf_nodes t @ [n]\<rparr>
      in if insertion_stack t = [] \<and> root_node t = Null then Inr (t\<lparr>root_node := n\<rparr>)
         else res_bind (continue_insertion_stack sz (root_node t) n (insertion_stack t)) (\<lambda>st.
              res_bind (process_insertion_stack False st) (\<lambda>(root, st).
                Inr (t\<lparr>root_node := root, insertion_stack := st\<rparr>))))"

fun insert_leaf_list :: "nat \<Rightarrow> node list \<Rightarrow> mtree \<Rightarrow> mtree res" where
  "insert_leaf_list sz [] t = Inr t"
| "insert_leaf_list sz (n # ns) t = res_bind (insert_leaf sz n t) (insert_leaf_list sz ns)"

text \<open>The child the top element descended into is the current root.\<close>

fun resume :: "node \<Rightarrow> stack \<Rightarrow> stack" where
  "resume rt [] = []"
| "resume rt ((n, left) # st) = (set_child left n rt, left) # st"

definition insert_leaves :: "nat \<Rightarrow> bool \<Rightarrow> mtree \<Rightarrow> mtree res" where
  "insert_leaves sz whole t =
     res_bind
       (if uninserted_leaf_nodes t \<noteq> []
        then res_bind (insert_leaf_list sz (uninserted_leaf_nodes t) t)
               (\<lambda>t. Inr (t\<lparr>uninserted_leaf_nodes := []\<rparr>))
        else Inr t)
       (\<lambda>t. if whole \<and> insertion_stack t \<noteq> []
            then res_bind (process_insertion_stack True (resume (root_node t) (insertion_stack t)))
                   (\<lambda>(root, st). Inr (t\<lparr>root_node := root, insertion_stack := st\<rparr>))
            else Inr t)"

section \<open>Root\<close>

definition compute_root :: "(hash \<Rightarrow> hash \<Rightarrow> hash) \<Rightarrow> nat \<Rightarrow> mtree \<Rightarrow> mtree res" where
  "compute_root hf sz t =
     res_bind (insert_leaves sz True t) (\<lambda>t.
       if num_leaves t = 0 then Inl (Runtime_Error ''empty tree does not have a root'')
       else if root_node t = Null then Inl Assertion_Failed
       else if nd_dirty (root_node t)
       then (let (root, k) = hash_node hf (root_node t)
             in Inr (t\<lparr>root_node := root,
                       stats := (stats t)\<lparr>num_hash := num_hash (stats t) + k\<rparr>\<rparr>))
       else Inr t)"

definition tree_root :: "(hash \<Rightarrow> hash \<Rightarrow> hash) \<Rightarrow> nat \<Rightarrow> mtree \<Rightarrow> (hash \<times> mtree) res" where
  "tree_root hf sz t =
     (let t = t\<lparr>stats := (stats t)\<lparr>num_root := num_root (stats t) + 1\<rparr>\<rparr>
      in res_bind (compute_root hf sz t) (\<lambda>t. Inr (nd_hash (root_node t), t)))"

text \<open>
  \<open>TreeT::size\<close> inserts the pending leaves but does not complete the insertion stack.
\<close>

definition tree_size :: "nat \<Rightarrow> mtree \<Rightarrow> (nat \<times> mtree) res" where
  "tree_size sz t =
     res_bind (if uninserted_leaf_nodes t \<noteq> [] then insert_leaves sz False t else Inr t) (\<lambda>t.
       Inr (if root_node t \<noteq> Null then nd_size (root_node t) else 0, t))"

text \<open>\<open>leaf\<close> and \<open>leaf_node\<close>: the hash of a leaf that has not been flushed.\<close>

definition leaf_node :: "mtree \<Rightarrow> nat \<Rightarrow> node res" where
  "leaf_node t index =
     (if num_leaves t \<le> index then Inl (Runtime_Error ''leaf index out of bounds'')
      else let i = size_sub index (num_flushed t)
           in if length (leaf_nodes t) \<le> i
              then vec_get (uninserted_leaf_nodes t) (i - length (leaf_nodes t))
              else vec_get (leaf_nodes t) i)"

definition tree_leaf :: "mtree \<Rightarrow> nat \<Rightarrow> hash res" where
  "tree_leaf t index = res_bind (leaf_node t index) (\<lambda>n. Inr (nd_hash n))"

text \<open>
  \<open>operator=\<close>: the copied leaves are collected while the nodes below \<open>_root\<close> are copied;
  the insertion stack of the other tree is not copied. The assertions at the end compare the
  least and the greatest index of the two trees.
\<close>

definition assigned_tree :: "mtree \<Rightarrow> mtree \<Rightarrow> mtree" where
  "assigned_tree t other =
     (let to_skip = (if num_flushed other mod 2 = 0 then 0 else 1);
          (root, leaves, _) = copy_node (root_node other) [] to_skip
      in t\<lparr>leaf_nodes := leaves,
           uninserted_leaf_nodes :=
             map (\<lambda>n. fst (copy_node n [] 0)) (uninserted_leaf_nodes other),
           root_node := root, num_flushed := num_flushed other, insertion_stack := []\<rparr>)"

text \<open>\<open>operator=\<close> of two objects; \<open>tree_assign_self_h\<close> is the assignment of an object to itself.\<close>

definition tree_assign :: "mtree \<Rightarrow> mtree \<Rightarrow> mtree res" where
  "tree_assign t other =
     (let t = assigned_tree t other
      in if min_index t = min_index other \<and> max_index t = max_index other
         then Inr t else Inl Assertion_Failed)"

definition tree_copy :: "mtree \<Rightarrow> mtree res" where
  "tree_copy other = tree_assign tree_empty other"

section \<open>The insertion stack computes the recursive insertion\<close>

definition frame :: "node \<times> bool \<Rightarrow> node \<Rightarrow> node" where
  "frame f c = update_sizes (set_dirty (set_child (snd f) (fst f) c))"

definition plug :: "node \<Rightarrow> stack \<Rightarrow> node" where
  "plug n st = fold frame st n"

fun frames_ok :: "node \<Rightarrow> stack \<Rightarrow> bool" where
  "frames_ok n [] = True"
| "frames_ok n (f # st) =
     (\<not> snd f \<and> fst f \<noteq> Null \<and> nd_dirty (fst f) \<and> wf_node (nd_left (fst f)) \<and>
      is_full (nd_left (fst f)) \<and>
      nd_height n \<le> nd_height (nd_left (fst f)) \<and> frames_ok (frame f n) st)"

lemma plug_simps [simp]: "plug n [] = n" "plug n (f # st) = plug (frame f n) st"
  by (simp_all add: plug_def)

lemma plug_append: "plug n (ps @ st) = plug (plug n ps) st"
  by (simp add: plug_def)

lemma frames_ok_append:
  "frames_ok n (ps @ st) \<longleftrightarrow> frames_ok n ps \<and> frames_ok (plug n ps) st"
  by (induction ps arbitrary: n) auto

lemma process_stack_loop_all: "process_stack_loop True n st = (plug n st, [])"
  by (induction st arbitrary: n) (auto simp: frame_def Let_def)

fun frame_leaves :: "stack \<Rightarrow> nat" where
  "frame_leaves [] = 0"
| "frame_leaves (f # st) = nleaves (nd_left (fst f)) + frame_leaves st"

lemma frame_leaves_append: "frame_leaves (ps @ st) = frame_leaves ps + frame_leaves st"
  by (induction ps) auto

text \<open>One frame around a well-formed node.\<close>

lemma frame_wf:
  assumes "frames_ok n (f # st)" and "wf_node n"
    and "nleaves (nd_left (fst f)) + nleaves n \<le> max_leaves"
  shows "wf_node (frame f n)" and "nleaves (frame f n) = nleaves (nd_left (fst f)) + nleaves n"
    and "nd_height (frame f n) = nd_height (nd_left (fst f)) + 1" and "nd_dirty (frame f n)"
    and "nd_left (frame f n) = nd_left (fst f)" and "nd_right (frame f n) = n"
proof -
  obtain h l r s ht d where f: "f = (Node h l r s ht d, False)" and l: "wf_node l" "is_full l"
      "nd_height n \<le> nd_height l"
    using assms(1) by (cases f; cases "fst f") auto
  have le: "nleaves l + nleaves n \<le> max_leaves"
    using assms(3) f by simp
  note up = update_sizes_inner [OF l(1) assms(2) l(2,3) le]
  have eq: "frame f n = Node h l n (nd_size l + nd_size n + 1) (nd_height l + 1) True"
    by (simp only: frame_def f fst_conv snd_conv set_child.simps set_dirty.simps if_False up(1))
  show "wf_node (frame f n)"
    unfolding eq by (rule up(2))
  show "nleaves (frame f n) = nleaves (nd_left (fst f)) + nleaves n"
    by (simp only: eq up(3)) (simp only: f fst_conv node.sel)
  show "nd_height (frame f n) = nd_height (nd_left (fst f)) + 1" "nd_dirty (frame f n)"
    "nd_left (frame f n) = nd_left (fst f)" "nd_right (frame f n) = n"
    by (simp_all only: eq node.sel) (simp_all only: f fst_conv node.sel)
qed

lemma plug_wf:
  "frames_ok n st \<Longrightarrow> wf_node n \<Longrightarrow> nleaves n + frame_leaves st \<le> max_leaves \<Longrightarrow>
   wf_node (plug n st) \<and> nleaves (plug n st) = nleaves n + frame_leaves st"
proof (induction st arbitrary: n)
  case Nil
  then show ?case by simp
next
  case (Cons f st)
  have le: "nleaves (nd_left (fst f)) + nleaves n \<le> max_leaves"
    using Cons.prems(3) by simp
  note fw = frame_wf [OF Cons.prems(1,2) le]
  have "wf_node (plug (frame f n) st) \<and>
      nleaves (plug (frame f n) st) = nleaves (frame f n) + frame_leaves st"
    using Cons.prems fw by (intro Cons.IH) auto
  with fw(2) show ?case by simp
qed

lemma frame_not_full:
  assumes "frames_ok n (f # st)" and "wf_node n" and "\<not> is_full n"
    and "nleaves (nd_left (fst f)) + nleaves n \<le> max_leaves"
  shows "\<not> is_full (frame f n)"
proof
  assume full: "is_full (frame f n)"
  note fw = frame_wf [OF assms(1,2,4)]
  let ?l = "nd_left (fst f)"
  have l: "wf_node ?l" "is_full ?l" "nd_height n \<le> nd_height ?l"
    using assms(1) by auto
  have le: "nleaves ?l \<le> max_leaves" "nleaves n \<le> max_leaves"
    using assms(4) by auto
  have "nleaves ?l = 2 ^ (nd_height ?l - 1)"
    using is_full_iff [OF l(1) le(1)] l(2) by simp
  moreover have "nleaves (frame f n) = 2 ^ nd_height ?l"
    using is_full_iff [OF fw(1)] fw(2,3) full assms(4) by simp
  moreover have "1 \<le> nd_height ?l"
    using wf_leaves [OF l(1)] by simp
  ultimately have eq: "nleaves n = 2 ^ (nd_height ?l - 1)"
    using fw(2) by (cases "nd_height ?l") auto
  moreover have "nleaves n \<le> 2 ^ (nd_height n - 1)"
    using wf_leaves [OF assms(2)] by simp
  ultimately have "(2::nat) ^ (nd_height ?l - 1) \<le> 2 ^ (nd_height n - 1)"
    by simp
  then have "nd_height ?l - 1 \<le> nd_height n - 1"
    by (rule power_le_imp_le_exp [rotated]) simp
  with l(3) wf_leaves [OF assms(2)] have "nd_height n = nd_height ?l"
    by linarith
  with eq is_full_iff [OF assms(2) le(2)] assms(3) show False
    by simp
qed

text \<open>The descent pushes the frames around the new node.\<close>

lemma continue_insertion_stack_ok:
  "wf_node n \<Longrightarrow> nleaves n < max_leaves \<Longrightarrow>
   \<exists>m ps. continue_insertion_stack sz n (node_make x) st = Inr ((m, False) # ps @ st) \<and>
     wf_node m \<and> nd_dirty m \<and> update_sizes m = m \<and> frames_ok m ps \<and>
     nleaves m + frame_leaves ps = nleaves n + 1 \<and>
     plug m ps = node_insert sz n (node_make x) \<and> (\<not> is_full n \<longrightarrow> ps \<noteq> [])"
proof (induction n arbitrary: st)
  case Null
  then show ?case by simp
next
  case (Node h l r s ht d)
  let ?n = "Node h l r s ht d" and ?x = "node_make x"
  have le: "nleaves ?n \<le> max_leaves"
    using Node.prems by simp
  show ?case
  proof (cases "is_full ?n")
    case True
    let ?m = "node_make2 sz ?n ?x"
    have g: "grows ?n x ?m"
      using node_make2_grows [OF Node.prems(1) True Node.prems(2)] .
    have "update_sizes ?m = ?m"
      by (cases ?x; cases ?n; simp only: node_make2_def; simp)
    with True g show ?thesis
      by (intro exI [of _ ?m] exI [of _ "[]"]) (simp add: grows_def)
  next
    case False
    have inner: "\<not> (l = Null \<and> r = Null)"
      using False is_full_iff [OF Node.prems(1) le] by auto
    note w = wf_node_inner [OF Node.prems(1) inner]
    have full: "is_full l"
      using inner_left_full [OF Node.prems(1) inner le] .
    have nl: "nleaves ?n = nleaves l + nleaves r" "nleaves r < max_leaves"
      using inner Node.prems(2) by auto
    let ?f = "(Node h l r s ht True, False)"
    obtain m ps where c: "continue_insertion_stack sz r ?x (?f # st) = Inr ((m, False) # ps @ ?f # st)"
      and m: "wf_node m" "nd_dirty m" "update_sizes m = m" "frames_ok m ps"
        "nleaves m + frame_leaves ps = nleaves r + 1" "plug m ps = node_insert sz r ?x"
      using Node.IH(2) [OF w(2) nl(2)] by metis
    have g: "grows ?n x (node_insert sz ?n ?x)" "grows r x (node_insert sz r ?x)"
      using node_insert_grows Node.prems w(2) nl(2) by blast+
    have eq: "node_insert sz ?n ?x = update_sizes (Node h l (node_insert sz r ?x) s ht True)"
      using False full by simp
    have "frames_ok (node_insert sz r ?x) [?f]"
    proof -
      have "wf_node (node_insert sz ?n ?x)"
        using g(1) by (simp add: grows_def)
      moreover have nn: "node_insert sz r ?x \<noteq> Null"
        using g(2) by (auto simp: grows_def)
      ultimately have "nd_height (node_insert sz r ?x) \<le> nd_height l"
        unfolding eq using w(3) by simp
      with w(1) full show ?thesis
        by simp
    qed
    then have "frames_ok m (ps @ [?f])" "plug m (ps @ [?f]) = node_insert sz ?n ?x"
      using m(4,6) eq by (simp_all add: frames_ok_append plug_append frame_def)
    moreover have "nleaves m + frame_leaves (ps @ [?f]) = nleaves ?n + 1"
      using m(5) nl(1) by (simp add: frame_leaves_append)
    ultimately show ?thesis
      using False full inner w(3,4) m(1-3) c
      by (intro exI [of _ m] exI [of _ "ps @ [?f]"]) auto
  qed
qed

end
