(* ===== verification/Merkle_Root.thy ===== *)
theory Merkle_Root
  imports Merkle_Tree
begin

text \<open>
  Correctness of lazy insertion and of the root. \<open>tree_inv hf t xs\<close> relates a tree to the
  list of all leaves ever inserted and not retracted: the flushed ones, those in the tree and
  the pending ones. It holds of the empty tree, is kept by every operation, and makes
  \<open>compute_root\<close> succeed with the root of that list.
\<close>

section \<open>One insertion\<close>

declare node_make_eq [simp del]

lemma node_make_sel [simp]:
  "node_make h \<noteq> Null" "nd_hash (node_make h) = h" "nd_dirty (node_make h) = False"
  "nleaves (node_make h) = 1" "wf_node (node_make h)" "represents hf (node_make h) [h]"
  "hash_inv hf (node_make h)" "conflated_below k (node_make h)"
  by (simp_all add: node_make_eq)

lemma update_sizes_cong:
  "l \<noteq> Null \<Longrightarrow> r \<noteq> Null \<Longrightarrow> update_sizes (Node h l r s ht d) = update_sizes (Node h l r s' ht' d)"
  by simp

lemma frame_insert:
  assumes "frames_ok n (f # st)" and "wf_node n" and "\<not> is_full n"
    and "nleaves n + nleaves (nd_left (fst f)) < max_leaves"
  shows "node_insert sz (frame f n) (node_make x) = frame f (node_insert sz n (node_make x))"
proof -
  obtain h l r s ht d where f: "f = (Node h l r s ht d, False)" and l: "wf_node l" "is_full l"
    using assms(1) by (cases f; cases "fst f") auto
  have le: "nleaves (nd_left (fst f)) + nleaves n \<le> max_leaves"
    using assms(4) by simp
  have "\<not> is_full (frame f n)"
    using frame_not_full [OF assms(1-3) le] .
  moreover obtain s' ht' where fr: "frame f n = Node h l n s' ht' True"
    using wf_node_neq_Null [OF l(1)] wf_node_neq_Null [OF assms(2)] by (simp add: frame_def f)
  moreover have "node_insert sz n (node_make x) \<noteq> Null"
    using node_insert_grows [OF assms(2), of x sz] le assms(4) by (auto simp: grows_def)
  ultimately show ?thesis
    using l by (auto simp: frame_def f)
qed

lemma plug_insert:
  "frames_ok n st \<Longrightarrow> wf_node n \<Longrightarrow> (st \<noteq> [] \<longrightarrow> \<not> is_full n) \<Longrightarrow>
   nleaves n + frame_leaves st < max_leaves \<Longrightarrow>
   frames_ok (node_insert sz n (node_make x)) st \<and>
   plug (node_insert sz n (node_make x)) st = node_insert sz (plug n st) (node_make x)"
proof (induction st arbitrary: n)
  case Nil
  then show ?case by simp
next
  case (Cons f st)
  have nf: "\<not> is_full n"
    using Cons.prems(3) by simp
  have lt: "nleaves n + nleaves (nd_left (fst f)) < max_leaves"
    and le: "nleaves (nd_left (fst f)) + nleaves n \<le> max_leaves"
    using Cons.prems(4) by auto
  have g: "grows n x (node_insert sz n (node_make x))"
    using node_insert_grows [OF Cons.prems(2)] lt by simp
  note fw = frame_wf [OF Cons.prems(1,2) le]
  have eq: "node_insert sz (frame f n) (node_make x) = frame f (node_insert sz n (node_make x))"
    using frame_insert [OF Cons.prems(1,2) nf lt] .
  have "frames_ok (node_insert sz (frame f n) (node_make x)) st \<and>
      plug (node_insert sz (frame f n) (node_make x)) st =
      node_insert sz (plug (frame f n) st) (node_make x)"
    using Cons.prems fw frame_not_full [OF Cons.prems(1,2) nf le] by (intro Cons.IH) auto
  moreover have "nd_height (node_insert sz n (node_make x)) = nd_height n"
    using g nf by (simp add: grows_def)
  ultimately show ?case
    using Cons.prems(1) unfolding eq by simp
qed

lemma process_stack_loop_stop:
  "frames_ok m fs \<Longrightarrow> wf_node m \<Longrightarrow> nleaves m + frame_leaves fs \<le> max_leaves \<Longrightarrow>
   process_stack_loop False m fs = (n, st) \<Longrightarrow>
   frames_ok n st \<and> wf_node n \<and> plug n st = plug m fs \<and>
   nleaves n + frame_leaves st = nleaves m + frame_leaves fs \<and> (st \<noteq> [] \<longrightarrow> \<not> is_full n)"
proof (induction fs arbitrary: m)
  case Nil
  then show ?case by auto
next
  case (Cons f fs)
  have le: "nleaves (nd_left (fst f)) + nleaves m \<le> max_leaves"
    using Cons.prems(3) by simp
  note fw = frame_wf [OF Cons.prems(1,2) le]
  have run: "process_stack_loop False m (f # fs) =
      (if \<not> is_full (frame f m) then (frame f m, fs) else process_stack_loop False (frame f m) fs)"
    by (cases f) (simp add: frame_def Let_def)
  show ?case
  proof (cases "is_full (frame f m)")
    case False
    with run Cons.prems fw show ?thesis by auto
  next
    case True
    then have "process_stack_loop False (frame f m) fs = (n, st)"
      using run Cons.prems(4) by simp
    then have "frames_ok n st \<and> wf_node n \<and> plug n st = plug (frame f m) fs \<and>
       nleaves n + frame_leaves st = nleaves (frame f m) + frame_leaves fs \<and>
       (st \<noteq> [] \<longrightarrow> \<not> is_full n)"
      using Cons.prems fw by (intro Cons.IH) auto
    with fw(2) show ?thesis by simp
  qed
qed

section \<open>The invariant\<close>

definition whole_tree :: "mtree \<Rightarrow> node" where
  "whole_tree t = plug (root_node t) (insertion_stack t)"

definition stack_inv :: "mtree \<Rightarrow> bool" where
  "stack_inv t \<longleftrightarrow> wf_node (root_node t) \<and> frames_ok (root_node t) (insertion_stack t) \<and>
     (insertion_stack t \<noteq> [] \<longrightarrow> \<not> is_full (root_node t)) \<and>
     nleaves (root_node t) + frame_leaves (insertion_stack t) \<le> max_leaves"

definition inserted :: "(hash \<Rightarrow> hash \<Rightarrow> hash) \<Rightarrow> mtree \<Rightarrow> hash list \<Rightarrow> bool" where
  "inserted hf t zs \<longleftrightarrow> length zs \<le> max_leaves \<and>
     leaf_nodes t = map node_make (drop (num_flushed t) zs) \<and>
     (if root_node t = Null then zs = [] \<and> num_flushed t = 0 \<and> insertion_stack t = []
      else num_flushed t < length zs \<and> stack_inv t \<and> represents hf (whole_tree t) zs \<and>
        hash_inv hf (whole_tree t) \<and> conflated_below (num_flushed t) (whole_tree t))"

definition tree_inv :: "(hash \<Rightarrow> hash \<Rightarrow> hash) \<Rightarrow> mtree \<Rightarrow> hash list \<Rightarrow> bool" where
  "tree_inv hf t xs \<longleftrightarrow> length xs \<le> max_leaves \<and>
     (\<exists>zs ys. xs = zs @ ys \<and> inserted hf t zs \<and> uninserted_leaf_nodes t = map node_make ys)"

text \<open>A tree whose leaves are all inserted and whose hashes are computed.\<close>

definition completed :: "(hash \<Rightarrow> hash \<Rightarrow> hash) \<Rightarrow> mtree \<Rightarrow> hash list \<Rightarrow> bool" where
  "completed hf t xs \<longleftrightarrow> inserted hf t xs \<and> uninserted_leaf_nodes t = [] \<and>
     insertion_stack t = [] \<and> root_node t \<noteq> Null \<and> \<not> nd_dirty (root_node t)"

lemma completed_tree_inv: "completed hf t xs \<Longrightarrow> tree_inv hf t xs"
  by (auto simp: completed_def tree_inv_def inserted_def intro: exI [of _ xs])

lemma completedD:
  assumes "completed hf t xs"
  shows "wf_node (root_node t)" and "represents hf (root_node t) xs" and "hash_inv hf (root_node t)"
    and "conflated_below (num_flushed t) (root_node t)" and "\<not> nd_dirty (root_node t)"
    and "leaf_nodes t = map node_make (drop (num_flushed t) xs)"
    and "num_flushed t < length xs" and "length xs \<le> max_leaves"
    and "uninserted_leaf_nodes t = []" and "insertion_stack t = []"
    and "nleaves (root_node t) = length xs" and "nd_hash (root_node t) = merkle_root hf xs"
proof -
  note d = assms [unfolded completed_def inserted_def]
  show wf: "wf_node (root_node t)" and rep: "represents hf (root_node t) xs"
    and hi: "hash_inv hf (root_node t)" and "conflated_below (num_flushed t) (root_node t)"
    and nd: "\<not> nd_dirty (root_node t)"
    and "leaf_nodes t = map node_make (drop (num_flushed t) xs)" "num_flushed t < length xs"
    and "length xs \<le> max_leaves" "uninserted_leaf_nodes t = []" "insertion_stack t = []"
    using d by (auto simp: stack_inv_def whole_tree_def)
  show "nleaves (root_node t) = length xs"
    using represents_length [OF wf rep] by simp
  show "nd_hash (root_node t) = merkle_root hf xs"
    using hash_inv_clean [OF wf hi nd] tree_hash_eq [OF wf rep] by simp
qed

lemma inserted_nleaves:
  assumes "inserted hf t zs" and "root_node t \<noteq> Null"
  shows "wf_node (whole_tree t)" and "nleaves (whole_tree t) = length zs"
    and "nleaves (root_node t) + frame_leaves (insertion_stack t) = length zs"
proof -
  have s: "stack_inv t" and rep: "represents hf (whole_tree t) zs"
    using assms by (auto simp: inserted_def)
  have p: "wf_node (whole_tree t) \<and>
      nleaves (whole_tree t) = nleaves (root_node t) + frame_leaves (insertion_stack t)"
    unfolding whole_tree_def using s by (intro plug_wf) (auto simp: stack_inv_def)
  then show "wf_node (whole_tree t)" and "nleaves (whole_tree t) = length zs"
    and "nleaves (root_node t) + frame_leaves (insertion_stack t) = length zs"
    using represents_length [OF _ rep] by auto
qed

lemma insert_leaf_inserted:
  assumes "inserted hf t zs" and "length zs < max_leaves"
  shows "\<exists>t'. insert_leaf sz (node_make x) t = Inr t' \<and> inserted hf t' (zs @ [x]) \<and>
    root_node t' \<noteq> Null \<and> num_flushed t' = num_flushed t \<and>
    uninserted_leaf_nodes t' = uninserted_leaf_nodes t \<and> stats t' = stats t"
proof (cases "root_node t = Null")
  case True
  with assms show ?thesis
    by (auto simp: inserted_def insert_leaf_def stack_inv_def whole_tree_def)
next
  case False
  let ?n = "root_node t" and ?st = "insertion_stack t" and ?x = "node_make x"
  note d = assms(1) [unfolded inserted_def]
  note w = inserted_nleaves [OF assms(1) False]
  have s: "stack_inv t"
    using d False by simp
  then have wf: "wf_node ?n" and fr: "frames_ok ?n ?st" and nf: "?st \<noteq> [] \<longrightarrow> \<not> is_full ?n"
    by (auto simp: stack_inv_def)
  have lt: "nleaves ?n < max_leaves"
    using w(3) assms(2) by simp
  obtain m ps where c: "continue_insertion_stack sz ?n ?x ?st = Inr ((m, False) # ps @ ?st)"
    and m: "wf_node m" "nd_dirty m" "update_sizes m = m" "frames_ok m ps"
      "nleaves m + frame_leaves ps = nleaves ?n + 1" "plug m ps = node_insert sz ?n ?x"
    using continue_insertion_stack_ok [OF wf lt] by metis
  have pi: "frames_ok (node_insert sz ?n ?x) ?st"
      "plug (node_insert sz ?n ?x) ?st = node_insert sz (whole_tree t) ?x"
    using plug_insert [OF fr wf nf] w(3) assms(2) by (auto simp: whole_tree_def)
  obtain n' st' where loop: "process_stack_loop False m (ps @ ?st) = (n', st')"
    by (cases "process_stack_loop False m (ps @ ?st)")
  have stop: "frames_ok n' st' \<and> wf_node n' \<and> plug n' st' = plug m (ps @ ?st) \<and>
      nleaves n' + frame_leaves st' = nleaves m + frame_leaves (ps @ ?st) \<and>
      (st' \<noteq> [] \<longrightarrow> \<not> is_full n')"
    using m pi w(3) assms(2) loop
    by (intro process_stack_loop_stop) (auto simp: frames_ok_append frame_leaves_append)
  have plug: "plug n' st' = node_insert sz (whole_tree t) ?x"
    using stop pi m(6) by (simp add: plug_append)
  let ?t = "t\<lparr>leaf_nodes := leaf_nodes t @ [?x], root_node := n', insertion_stack := st'\<rparr>"
  have run: "insert_leaf sz ?x t = Inr ?t"
    using False m(2,3) loop by (simp add: insert_leaf_def c process_insertion_stack_def Let_def)
  have g: "grows (whole_tree t) x (plug n' st')"
    unfolding plug using node_insert_grows [OF w(1)] w(2) assms(2) by simp
  have "num_flushed t < nleaves (whole_tree t)"
    using d False w(2) by simp
  then have cb: "conflated_below (num_flushed t) (plug n' st')"
    using g d False by (simp add: grows_def)
  have "stack_inv ?t"
    using stop m(5) w(3) assms(2) by (auto simp: stack_inv_def frame_leaves_append)
  moreover have "n' \<noteq> Null"
    using stop by auto
  ultimately have "inserted hf ?t (zs @ [x])"
    using d False g cb assms(2) by (auto simp: inserted_def whole_tree_def grows_def)
  with run \<open>n' \<noteq> Null\<close> show ?thesis
    by simp
qed

lemma insert_leaf_list_inserted:
  "inserted hf t zs \<Longrightarrow> length (zs @ ys) \<le> max_leaves \<Longrightarrow>
   \<exists>t'. insert_leaf_list sz (map node_make ys) t = Inr t' \<and> inserted hf t' (zs @ ys) \<and>
     num_flushed t' = num_flushed t \<and> stats t' = stats t"
proof (induction ys arbitrary: t zs)
  case Nil
  then show ?case by simp
next
  case (Cons y ys)
  obtain t1 where t1: "insert_leaf sz (node_make y) t = Inr t1" "inserted hf t1 (zs @ [y])"
      "num_flushed t1 = num_flushed t" "stats t1 = stats t"
    using insert_leaf_inserted [OF Cons.prems(1), of sz y] Cons.prems(2) by auto
  obtain t2 where "insert_leaf_list sz (map node_make ys) t1 = Inr t2"
      "inserted hf t2 ((zs @ [y]) @ ys)" "num_flushed t2 = num_flushed t1" "stats t2 = stats t1"
    using Cons.IH [OF t1(2)] Cons.prems(2) by auto
  with t1 show ?case by simp
qed

lemma inserted_uninserted_update [simp]:
  "inserted hf (t\<lparr>uninserted_leaf_nodes := u\<rparr>) zs = inserted hf t zs"
  "inserted hf (t\<lparr>stats := s\<rparr>) zs = inserted hf t zs"
  by (simp_all add: inserted_def stack_inv_def whole_tree_def)

lemma insert_leaves_pending:
  assumes "tree_inv hf t xs"
  shows "\<exists>t'. insert_leaves sz False t = Inr t' \<and> inserted hf t' xs \<and>
    uninserted_leaf_nodes t' = [] \<and> num_flushed t' = num_flushed t \<and> stats t' = stats t"
proof -
  obtain zs ys where xs: "xs = zs @ ys" and ins: "inserted hf t zs"
    and un: "uninserted_leaf_nodes t = map node_make ys" and le: "length (zs @ ys) \<le> max_leaves"
    using assms by (auto simp: tree_inv_def)
  obtain t' where "insert_leaf_list sz (map node_make ys) t = Inr t'" "inserted hf t' (zs @ ys)"
      "num_flushed t' = num_flushed t" "stats t' = stats t"
    using insert_leaf_list_inserted [OF ins le] by blast
  then show ?thesis
    using un by (cases "ys = []") (auto simp: insert_leaves_def xs)
qed

lemma process_resume:
  assumes "frames_ok n st" and "st \<noteq> []"
  shows "process_insertion_stack True (resume n st) = Inr (plug n st, [])"
proof -
  obtain f st' where st: "st = f # st'"
    using assms(2) by (cases st) auto
  obtain h l r s ht where f: "f = (Node h l r s ht True, False)"
    using assms(1) unfolding st by (cases f; cases "fst f") auto
  show ?thesis
    by (simp add: st f process_insertion_stack_def process_stack_loop_all)
      (simp add: frame_def)
qed

lemma insert_leaves_whole:
  assumes "tree_inv hf t xs"
  shows "\<exists>t'. insert_leaves sz True t = Inr t' \<and> inserted hf t' xs \<and>
    uninserted_leaf_nodes t' = [] \<and> insertion_stack t' = [] \<and> num_flushed t' = num_flushed t \<and>
    stats t' = stats t"
proof -
  obtain t1 where t1: "insert_leaves sz False t = Inr t1" "inserted hf t1 xs"
      "uninserted_leaf_nodes t1 = []" "num_flushed t1 = num_flushed t" "stats t1 = stats t"
    using insert_leaves_pending [OF assms] by blast
  have run: "insert_leaves sz True t =
      (if insertion_stack t1 \<noteq> []
       then res_bind (process_insertion_stack True (resume (root_node t1) (insertion_stack t1)))
              (\<lambda>(root, st). Inr (t1\<lparr>root_node := root, insertion_stack := st\<rparr>))
       else Inr t1)"
    using t1(1) unfolding insert_leaves_def by (auto simp: res_bind_Inr_iff split: if_splits)
  show ?thesis
  proof (cases "insertion_stack t1 = []")
    case True
    with run t1 show ?thesis by auto
  next
    case False
    then have nn: "root_node t1 \<noteq> Null" and s: "stack_inv t1"
      using t1(2) by (auto simp: inserted_def split: if_splits)
    note w = inserted_nleaves [OF t1(2) nn]
    have "process_insertion_stack True (resume (root_node t1) (insertion_stack t1)) =
        Inr (whole_tree t1, [])"
      unfolding whole_tree_def using s False by (intro process_resume) (auto simp: stack_inv_def)
    with False run have eq: "insert_leaves sz True t =
        Inr (t1\<lparr>root_node := whole_tree t1, insertion_stack := []\<rparr>)"
      by simp
    have "whole_tree t1 \<noteq> Null"
      using w(1) by auto
    moreover have "length xs \<le> max_leaves"
      using t1(2) by (simp add: inserted_def)
    ultimately have "inserted hf (t1\<lparr>root_node := whole_tree t1, insertion_stack := []\<rparr>) xs"
      using t1(2) nn w
      by (auto simp: inserted_def stack_inv_def
          whole_tree_def [of "t1\<lparr>root_node := whole_tree t1, insertion_stack := []\<rparr>"])
    with eq t1 show ?thesis by simp
  qed
qed

section \<open>The root\<close>

lemma max_leaves_lt: "max_leaves < 2 ^ 64"
  by (simp add: max_leaves_def)

lemma tree_inv_num_leaves:
  assumes "tree_inv hf t xs"
  shows "num_leaves t = length xs"
proof -
  obtain zs ys where xs: "xs = zs @ ys" and ins: "inserted hf t zs"
    and un: "uninserted_leaf_nodes t = map node_make ys" and le: "length xs \<le> max_leaves"
    using assms by (auto simp: tree_inv_def)
  have "num_flushed t \<le> length zs"
    using ins by (auto simp: inserted_def split: if_splits)
  then have "num_flushed t + length (leaf_nodes t) + length (uninserted_leaf_nodes t) = length xs"
    using ins un by (simp add: inserted_def xs)
  then show ?thesis
    using le max_leaves_lt by (simp add: num_leaves_def)
qed

lemma tree_inv_max_index: "tree_inv hf t xs \<Longrightarrow> max_index t = length xs - 1"
  by (simp add: max_index_def tree_inv_num_leaves Let_def)

lemma tree_inv_flushed: "tree_inv hf t xs \<Longrightarrow> num_flushed t = 0 \<or> num_flushed t < length xs"
  by (auto simp: tree_inv_def inserted_def split: if_splits)

lemma tree_inv_stats [simp]: "tree_inv hf (t\<lparr>stats := s\<rparr>) xs = tree_inv hf t xs"
  by (simp add: tree_inv_def)

lemma tree_inv_empty: "tree_inv hf tree_empty []"
  by (simp add: tree_inv_def inserted_def tree_empty_def)

lemma tree_inv_insert:
  assumes "tree_inv hf t xs" and "length xs < max_leaves"
  shows "tree_inv hf (tree_insert x t) (xs @ [x])"
proof -
  obtain zs ys where "xs = zs @ ys" "inserted hf t zs" "uninserted_leaf_nodes t = map node_make ys"
    using assms(1) by (auto simp: tree_inv_def)
  then have "xs @ [x] = zs @ (ys @ [x])" "inserted hf (tree_insert x t) zs"
      "uninserted_leaf_nodes (tree_insert x t) = map node_make (ys @ [x])"
    by (simp_all add: tree_insert_def)
  with assms(2) show ?thesis
    unfolding tree_inv_def by (metis Suc_leI length_append_singleton)
qed

lemma tree_inv_insert_list:
  "tree_inv hf t xs \<Longrightarrow> length (xs @ ys) \<le> max_leaves \<Longrightarrow>
   tree_inv hf (tree_insert_list ys t) (xs @ ys)"
proof (induction ys arbitrary: t xs)
  case Nil
  then show ?case by (simp add: tree_insert_list_def)
next
  case (Cons y ys)
  then have "tree_inv hf (tree_insert y t) (xs @ [y])"
    by (intro tree_inv_insert) auto
  then have "tree_inv hf (tree_insert_list ys (tree_insert y t)) ((xs @ [y]) @ ys)"
    using Cons.prems(2) by (intro Cons.IH) auto
  then show ?case by (simp add: tree_insert_list_def)
qed

text \<open>The counters that an operation does not name stay as they are.\<close>

definition same_counters :: "mtree \<Rightarrow> mtree \<Rightarrow> bool" where
  "same_counters t t' \<longleftrightarrow> (\<exists>k. stats t' = (stats t)\<lparr>num_hash := num_hash (stats t) + k\<rparr>)"

lemma compute_root_ok:
  assumes "tree_inv hf t xs" and "xs \<noteq> []"
  shows "\<exists>t'. compute_root hf sz t = Inr t' \<and> completed hf t' xs \<and>
    num_flushed t' = num_flushed t \<and> same_counters t t'"
proof -
  obtain t1 where t1: "insert_leaves sz True t = Inr t1" "inserted hf t1 xs"
      "uninserted_leaf_nodes t1 = []" "insertion_stack t1 = []"
      "num_flushed t1 = num_flushed t" "stats t1 = stats t"
    using insert_leaves_whole [OF assms(1)] by blast
  have "tree_inv hf t1 xs"
    using t1(2,3) by (auto simp: tree_inv_def inserted_def intro: exI [of _ xs])
  then have nz: "num_leaves t1 \<noteq> 0"
    using assms(2) by (simp add: tree_inv_num_leaves)
  have nn: "root_node t1 \<noteq> Null"
    using t1(2) assms(2) by (auto simp: inserted_def)
  have keep: "same_counters t t1"
    unfolding same_counters_def using t1(6) by (intro exI [of _ 0]) simp
  show ?thesis
  proof (cases "nd_dirty (root_node t1)")
    case False
    with t1 nz nn keep show ?thesis
      by (intro exI [of _ t1]) (simp add: compute_root_def completed_def)
  next
    case True
    obtain n k where hn: "hash_node hf (root_node t1) = (n, k)"
      by (cases "hash_node hf (root_node t1)")
    let ?t = "t1\<lparr>root_node := n, stats := (stats t1)\<lparr>num_hash := num_hash (stats t1) + k\<rparr>\<rparr>"
    have d: "wf_node (root_node t1)" "hash_inv hf (root_node t1)" "represents hf (root_node t1) xs"
        "conflated_below (num_flushed t1) (root_node t1)" "nleaves (root_node t1) \<le> max_leaves"
      using t1(2,4) nn by (auto simp: inserted_def stack_inv_def whole_tree_def)
    have h: "hashed hf (root_node t1) n"
      using hash_node_hashed [OF d(1,2) True] hn by simp
    have "n \<noteq> Null"
      using h by (auto simp: hashed_def)
    then have "completed hf ?t xs"
      using h d t1(2,3,4) nn
      by (auto simp: completed_def inserted_def stack_inv_def whole_tree_def hashed_def)
    moreover have "compute_root hf sz t = Inr ?t"
      using t1(1) nz nn True hn by (simp add: compute_root_def)
    moreover have "same_counters t ?t"
      using t1(6) by (auto simp: same_counters_def)
    ultimately show ?thesis
      using t1(5) by auto
  qed
qed

lemma compute_root_empty:
  assumes "tree_inv hf t []"
  shows "compute_root hf sz t = Inl (Runtime_Error ''empty tree does not have a root'')"
proof -
  obtain t1 where "insert_leaves sz True t = Inr t1" "inserted hf t1 []"
      "uninserted_leaf_nodes t1 = []" "num_flushed t1 = num_flushed t"
    using insert_leaves_whole [OF assms] by blast
  moreover from this have "num_leaves t1 = 0"
    by (auto simp: num_leaves_def inserted_def split: if_splits)
  ultimately show ?thesis
    by (simp add: compute_root_def)
qed

lemma tree_root_ok:
  assumes "tree_inv hf t xs" and "xs \<noteq> []"
  shows "\<exists>t'. tree_root hf sz t = Inr (merkle_root hf xs, t') \<and> completed hf t' xs \<and>
    num_flushed t' = num_flushed t"
proof -
  let ?t = "t\<lparr>stats := (stats t)\<lparr>num_root := num_root (stats t) + 1\<rparr>\<rparr>"
  obtain t' where "compute_root hf sz ?t = Inr t'" "completed hf t' xs"
      "num_flushed t' = num_flushed ?t"
    using compute_root_ok [of hf ?t xs sz] assms by auto
  moreover from this have "nd_hash (root_node t') = merkle_root hf xs"
    by (simp add: completedD)
  ultimately show ?thesis
    by (simp add: tree_root_def)
qed

text \<open>C3: \<open>root()\<close> returns the Merkle root of all leaves inserted so far (the list split at
  the largest power of two below its length), in every state a tree can be in: with leaves
  pending, with an unfinished insertion stack, after earlier roots and after flushes. The
  state afterwards has no pending leaves and clean hashes, and stands for the same leaves.\<close>

theorem tree_root_correct:
  assumes "tree_inv hf t xs" and "xs \<noteq> []"
  shows "\<exists>t'. tree_root hf sz t = Inr (merkle_root hf xs, t') \<and> completed hf t' xs \<and>
    num_flushed t' = num_flushed t"
  using assms by (rule tree_root_ok)

theorem tree_root_correct_witness:
  "\<exists>t'. tree_root (\<lambda>a b. a @ b) 1 (tree_insert_list [[1], [2], [3]] tree_empty) =
     Inr (merkle_root (\<lambda>a b. a @ b) [[1], [2], [3]], t') \<and>
     completed (\<lambda>a b. a @ b) t' [[1], [2], [3]] \<and> num_flushed t' = 0"
proof -
  have "tree_inv (\<lambda>a b. a @ b) (tree_insert_list [[1], [2], [3]] tree_empty)
      ([] @ [[1], [2], [3]])"
    by (rule tree_inv_insert_list [OF tree_inv_empty]) (simp add: max_leaves_def)
  from tree_root_correct [OF this, of 1] show ?thesis
    by (simp add: tree_insert_list_def tree_insert_def tree_empty_def)
qed

text \<open>Inserting a list of leaves into an empty tree and asking for the root gives the
  Merkle root of the list; on the empty list it throws.\<close>

theorem root_of_inserts:
  assumes "length xs \<le> max_leaves"
  shows "if xs = []
    then tree_root hf sz (tree_insert_list xs tree_empty) =
      Inl (Runtime_Error ''empty tree does not have a root'')
    else \<exists>t'. tree_root hf sz (tree_insert_list xs tree_empty) = Inr (merkle_root hf xs, t')"
proof -
  have inv: "tree_inv hf (tree_insert_list xs tree_empty) xs"
    using tree_inv_insert_list [OF tree_inv_empty, of xs hf] assms by simp
  let ?t = "tree_insert_list xs tree_empty"
  show ?thesis
  proof (cases "xs = []")
    case True
    with inv show ?thesis
      by (simp add: tree_root_def compute_root_empty)
  next
    case False
    let ?t1 = "?t\<lparr>stats := (stats ?t)\<lparr>num_root := num_root (stats ?t) + 1\<rparr>\<rparr>"
    obtain t' where "compute_root hf sz ?t1 = Inr t'" "completed hf t' xs"
      using compute_root_ok [of hf ?t1 xs sz] inv False by auto
    with False show ?thesis
      by (simp add: tree_root_def completedD)
  qed
qed

theorem root_of_inserts_witness:
  "\<exists>t'. tree_root (\<lambda>a b. a @ b) 1 (tree_insert_list [[7], [8]] tree_empty) =
     Inr (merkle_root (\<lambda>a b. a @ b) [[7], [8]], t')"
  using root_of_inserts [of "[[7], [8]]" "\<lambda>a b. a @ b" 1] by (simp add: max_leaves_def)

section \<open>Size and assignment after an unfinished insertion\<close>

text \<open>
  The number of nodes the comment on \<open>size()\<close> promises: leaves and internal nodes.
\<close>

definition tree_nodes :: "mtree \<Rightarrow> nat" where
  "tree_nodes t = 2 * num_leaves t - 1"

text \<open>\<open>size()\<close> after the root has been computed is that number.\<close>

lemma tree_size_completed:
  assumes "completed hf t xs"
  shows "tree_size sz t = Inr (tree_nodes t, t)"
proof -
  have "num_leaves t = length xs"
    using tree_inv_num_leaves [OF completed_tree_inv [OF assms]] .
  moreover have "nd_size (root_node t) = 2 * length xs - 1"
    using wf_size_eq completedD(1,11) [OF assms] by simp
  moreover have "root_node t \<noteq> Null"
    using assms by (simp add: completed_def)
  ultimately show ?thesis
    using completedD(9) [OF assms] by (simp add: tree_size_def tree_nodes_def)
qed

definition fourteen :: mtree where
  "fourteen = tree_insert_list
     [[0], [1], [2], [3], [4], [5], [6], [7], [8], [9], [10], [11], [12], [13]] tree_empty"

lemmas evaluate_insertion =
  tree_insert_list_def tree_insert_def tree_empty_def insert_leaves_def insert_leaf_def Let_def
  node_make_eq node_make2_def is_full_def max_size_eq process_insertion_stack_def

lemma fourteen_sized:
  "\<exists>t. tree_size 1 fourteen = Inr (11, t) \<and> num_leaves t = 14 \<and> insertion_stack t \<noteq> []"
proof -
  let ?t = "snd (projr (tree_size 1 fourteen))"
  have "tree_size 1 fourteen = Inr (11, ?t)" "num_leaves ?t = 14" "insertion_stack ?t \<noteq> []"
    by (simp_all add: tree_size_def fourteen_def evaluate_insertion num_leaves_def)
  then show ?thesis by blast
qed

text \<open>\<open>size()\<close> does not complete the insertion stack. After fourteen insertions into an
  empty tree it returns 11 of the 27 nodes, since \<open>_root\<close> then is an inner node of the tree;
  the comment on the operation promises the size of the tree.\<close>

theorem tree_size_unfinished:
  "\<exists>t. tree_size 1 fourteen = Inr (11, t) \<and> tree_nodes t = 27 \<and> num_leaves t = 14"
  using fourteen_sized by (auto simp: tree_nodes_def)

end
