(* ===== verification/Merkle_Walk.thy ===== *)
theory Merkle_Walk
  imports Merkle_Root
begin

text \<open>
  Walking from the root to a leaf (\<open>walk_to\<close>) and the operations built on it in
  \<open>include/merklecpp.h\<close>: \<open>path\<close>, \<open>past_root\<close>, \<open>flush_to\<close> and
  \<open>retract_to\<close>. The callback of a walk gets the node and the direction and returns whether
  to go on, the node it may have changed and its own state. The loop is a
  \<open>partial_function\<close> into \<open>option\<close>: \<open>None\<close> stands for a loop that does not end and
  for a step through a null pointer; the lemmas show that neither happens.
\<close>

section \<open>The walk\<close>

partial_function (option) walk_loop ::
  "(node \<Rightarrow> bool \<Rightarrow> 's \<Rightarrow> bool \<times> node \<times> 's) \<Rightarrow> bool \<Rightarrow> nat \<Rightarrow> u64 \<Rightarrow> node \<Rightarrow> 's \<Rightarrow>
   (node \<times> node \<times> 's) option" where
  "walk_loop f upd height it cur s =
     (if height \<le> 1 then Some (cur, cur, s)
      else if cur = Null then None
      else if nd_height cur = height then
        (case f cur (bit it 63) s of (go_on, cur, s) \<Rightarrow>
           if \<not> go_on then
             Option.bind (walk_loop f upd height it cur s) (\<lambda>(leaf, cur, s).
               Some (leaf, if upd then update_sizes cur else cur, s))
           else
             Option.bind
               (walk_loop f upd (height - 1) (push_bit 1 it)
                  (if bit it 63 then nd_right cur else nd_left cur) s) (\<lambda>(leaf, c, s).
               Some (leaf,
                 if upd then update_sizes (set_child (\<not> bit it 63) cur c)
                 else set_child (\<not> bit it 63) cur c, s)))
      else
        Option.bind (walk_loop f upd (height - 1) (push_bit 1 it) cur s) (\<lambda>(leaf, cur, s).
          Some (leaf, if upd then update_sizes cur else cur, s)))"

declare walk_loop.simps [code]

definition walk_bits :: "nat \<Rightarrow> nat \<Rightarrow> u64" where
  "walk_bits height index = (if 1 < height then push_bit (8 * 8 - height + 1) (of_nat index) else 0)"

definition walk_to ::
  "(hash \<Rightarrow> hash \<Rightarrow> hash) \<Rightarrow> nat \<Rightarrow> nat \<Rightarrow> bool \<Rightarrow>
   (node \<Rightarrow> bool \<Rightarrow> 's \<Rightarrow> bool \<times> node \<times> 's) \<Rightarrow> mtree \<Rightarrow> 's \<Rightarrow> (node \<times> mtree \<times> 's) res" where
  "walk_to hf sz index upd f t s =
     (if index < min_index t \<or> max_index t < index
      then Inl (Runtime_Error ''invalid leaf index'')
      else res_bind (compute_root hf sz t) (\<lambda>t.
        let root = root_node t in
        if \<not> index < nd_size root then Inl Assertion_Failed
        else case walk_loop f upd (nd_height root) (walk_bits (nd_height root) index) root s of
            None \<Rightarrow> Inl No_Return
          | Some (leaf, root, s) \<Rightarrow> Inr (leaf, t\<lparr>root_node := root\<rparr>, s)))"

section \<open>Operations on a walk\<close>

definition path_element :: "node \<Rightarrow> bool \<Rightarrow> element" where
  "path_element n go_right =
     \<lparr>e_hash = (if go_right then nd_hash (nd_left n) else nd_hash (nd_right n)),
      e_direction = (if go_right then PATH_LEFT else PATH_RIGHT)\<rparr>"

definition path_callback :: "node \<Rightarrow> bool \<Rightarrow> element list \<Rightarrow> bool \<times> node \<times> element list" where
  "path_callback n go_right elements = (True, n, path_element n go_right # elements)"

definition tree_path ::
  "(hash \<Rightarrow> hash \<Rightarrow> hash) \<Rightarrow> nat \<Rightarrow> nat \<Rightarrow> mtree \<Rightarrow> (path \<times> mtree) res" where
  "tree_path hf sz index t =
     (let t = t\<lparr>stats := (stats t)\<lparr>num_paths := num_paths (stats t) + 1\<rparr>\<rparr>
      in res_bind (walk_to hf sz index False path_callback t []) (\<lambda>(_, t, elements).
         res_bind (leaf_node t index) (\<lambda>n.
           Inr (path_make (nd_hash n) index elements (max_index t), t))))"

definition past_step :: "(hash \<Rightarrow> hash \<Rightarrow> hash) \<Rightarrow> hash \<Rightarrow> element \<Rightarrow> hash" where
  "past_step hf result e = (if e_direction e = PATH_LEFT then hf (e_hash e) result else result)"

definition past_root ::
  "(hash \<Rightarrow> hash \<Rightarrow> hash) \<Rightarrow> nat \<Rightarrow> nat \<Rightarrow> mtree \<Rightarrow> (hash \<times> mtree) res" where
  "past_root hf sz index t =
     (let t = t\<lparr>stats := (stats t)\<lparr>num_past_root := num_past_root (stats t) + 1\<rparr>\<rparr>
      in res_bind (tree_path hf sz index t) (\<lambda>(p, t).
           Inr (foldl (past_step hf) (path_leaf p) (path_elements p), t)))"

fun conflate :: "node \<Rightarrow> node" where
  "conflate Null = Null"
| "conflate (Node h l r s ht d) = Node h Null Null s ht d"

definition flush_callback ::
  "(hash \<Rightarrow> hash \<Rightarrow> hash) \<Rightarrow> node \<Rightarrow> bool \<Rightarrow> nat \<Rightarrow> bool \<times> node \<times> nat" where
  "flush_callback hf n go_right hashes =
     (if go_right \<and> nd_left n \<noteq> Null
      then (let (l, k) = (if nd_dirty (nd_left n) then hash_node hf (nd_left n) else (nd_left n, 0))
            in (True, set_child True n (conflate l), hashes + k))
      else (True, n, hashes))"

definition flush_to :: "(hash \<Rightarrow> hash \<Rightarrow> hash) \<Rightarrow> nat \<Rightarrow> nat \<Rightarrow> mtree \<Rightarrow> mtree res" where
  "flush_to hf sz index t =
     (let t = t\<lparr>stats := (stats t)\<lparr>num_flush := num_flush (stats t) + 1\<rparr>\<rparr>
      in if index \<le> min_index t then Inr t
         else res_bind (walk_to hf sz index False (flush_callback hf) t 0) (\<lambda>(_, t, k).
           let num_newly_flushed = index - num_flushed t
           in Inr (t\<lparr>leaf_nodes := drop num_newly_flushed (leaf_nodes t),
                     num_flushed := num_flushed t + num_newly_flushed,
                     stats := (stats t)\<lparr>num_hash := num_hash (stats t) + k\<rparr>\<rparr>)))"

definition retract_callback :: "node \<Rightarrow> bool \<Rightarrow> unit \<Rightarrow> bool \<times> node \<times> unit" where
  "retract_callback n go_right s =
     (let n = set_dirty n
      in if \<not> go_right \<and> nd_right n \<noteq> Null
         then (let n = nd_left n
               in (False, if nd_left n \<noteq> Null \<and> nd_right n \<noteq> Null then set_dirty n else n, s))
         else (True, n, s))"

definition retract_to :: "(hash \<Rightarrow> hash \<Rightarrow> hash) \<Rightarrow> nat \<Rightarrow> nat \<Rightarrow> mtree \<Rightarrow> mtree res" where
  "retract_to hf sz index t =
     (let t = t\<lparr>stats := (stats t)\<lparr>num_retract := num_retract (stats t) + 1\<rparr>\<rparr>
      in if max_index t < index then Inr t
         else if index < min_index t then Inl (Runtime_Error ''leaf index out of bounds'')
         else if num_flushed t + length (leaf_nodes t) \<le> index
         then Inr (t\<lparr>uninserted_leaf_nodes :=
                take (index - (num_flushed t + length (leaf_nodes t)) + 1)
                  (uninserted_leaf_nodes t)\<rparr>)
         else res_bind (walk_to hf sz index True retract_callback t ()) (\<lambda>(new_leaf_node, t, _).
           let leaves = (leaf_nodes t)[index - num_flushed t := new_leaf_node];
               num_retracted = size_sub (size_sub (num_leaves t) index) 1;
               t = t\<lparr>leaf_nodes :=
                 if num_retracted < length leaves then take (length leaves - num_retracted) leaves
                 else []\<rparr>
           in if num_leaves t = size_wrap (index + 1) then Inr t else Inl Assertion_Failed))"

section \<open>Routes\<close>

fun leaf_at :: "node \<Rightarrow> nat \<Rightarrow> node" where
  "leaf_at Null i = Null"
| "leaf_at (Node h l r s ht d) i =
     (if l = Null \<and> r = Null then Node h l r s ht d
      else if i < nleaves l then leaf_at l i else leaf_at r (i - nleaves l))"

fun route :: "node \<Rightarrow> nat \<Rightarrow> (node \<times> bool) list" where
  "route Null i = []"
| "route (Node h l r s ht d) i =
     (if l = Null \<and> r = Null then []
      else if i < nleaves l then (Node h l r s ht d, False) # route l i
      else (Node h l r s ht d, True) # route r (i - nleaves l))"

text \<open>The node after a walk whose callback changes the nodes on the route by \<open>m\<close>.\<close>

fun rebuild :: "(node \<Rightarrow> bool \<Rightarrow> node) \<Rightarrow> node \<Rightarrow> nat \<Rightarrow> node" where
  "rebuild m Null i = Null"
| "rebuild m (Node h l r s ht d) i =
     (if l = Null \<and> r = Null then Node h l r s ht d
      else if i < nleaves l then set_child True (m (Node h l r s ht d) False) (rebuild m l i)
      else set_child False (m (Node h l r s ht d) True) (rebuild m r (i - nleaves l)))"

text \<open>A leaf index that is not hidden in a conflated node.\<close>

lemma leaf_at_height:
  "wf_node n \<Longrightarrow> conflated_below k n \<Longrightarrow> k \<le> i \<Longrightarrow> i < nleaves n \<Longrightarrow>
   nd_height (leaf_at n i) = 1 \<and> wf_node (leaf_at n i)"
proof (induction n arbitrary: k i)
  case Null
  then show ?case by simp
next
  case (Node h l r s ht d)
  show ?case
  proof (cases "l = Null \<and> r = Null")
    case True
    with Node.prems show ?thesis by auto
  next
    case False
    note w = wf_node_inner [OF Node.prems(1) False]
    show ?thesis
      using False Node.prems Node.IH(1) [OF w(1), of k i] Node.IH(2) [OF w(2), of "k - nleaves l"
          "i - nleaves l"] by auto
  qed
qed

lemma walk_bit:
  assumes "2 \<le> height" and "height \<le> 64" and "i < 2 ^ (height - 1)"
  shows "bit (push_bit (65 - height) (of_nat i) :: u64) 63 \<longleftrightarrow> 2 ^ (height - 2) \<le> i"
proof -
  let ?p = "2 ^ (height - 2) :: nat"
  have "63 - (65 - height) = height - 2" "65 - height \<le> 63" "height - 2 < 64"
    using assms by auto
  then have "bit (push_bit (65 - height) (of_nat i) :: u64) 63 \<longleftrightarrow> bit i (height - 2)"
    using assms by (simp add: bit_simps)
  also have "\<dots> \<longleftrightarrow> odd (i div ?p)"
    by (simp add: bit_iff_odd)
  also have "\<dots> \<longleftrightarrow> ?p \<le> i"
  proof -
    have "(2::nat) ^ (height - 1) = 2 * ?p"
      using assms(1) by (cases height) (auto simp: Suc_diff_le simp flip: power_Suc)
    then have "i div ?p < 2"
      using assms(3) by (simp add: less_mult_imp_div_less)
    moreover have "i div ?p = 0 \<longleftrightarrow> i < ?p"
      by (simp add: div_eq_0_iff)
    ultimately show ?thesis
      by (cases "i div ?p = 0") (auto simp: not_less less_2_cases_iff)
  qed
  finally show ?thesis .
qed

lemma walk_shift_left:
  "height \<le> 64 \<Longrightarrow> 2 \<le> height \<Longrightarrow>
   push_bit 1 (push_bit (65 - height) w) = (push_bit (65 - (height - 1)) w :: u64)"
proof -
  assume "height \<le> 64" and "2 \<le> height"
  then have "1 + (65 - height) = 65 - (height - 1)"
    by simp
  then show ?thesis
    by (simp only: push_bit_push_bit)
qed

lemma walk_shift_right:
  assumes "2 \<le> height" and "height \<le> 64" and "2 ^ (height - 2) \<le> i"
  shows "push_bit 1 (push_bit (65 - height) (of_nat i)) =
    (push_bit (65 - (height - 1)) (of_nat (i - 2 ^ (height - 2))) :: u64)"
proof -
  let ?p = "2 ^ (height - 2) :: nat" and ?k = "65 - (height - 1)"
  have "(of_nat i :: u64) = of_nat (i - ?p) + of_nat ?p"
    using assms(3) by (simp flip: of_nat_add)
  then have "push_bit ?k (of_nat i :: u64) = push_bit ?k (of_nat (i - ?p)) + push_bit ?k (of_nat ?p)"
    by (simp only: push_bit_add)
  moreover have "push_bit ?k (of_nat ?p :: u64) = 0"
  proof -
    have "push_bit ?k (of_nat ?p :: u64) = 2 ^ (height - 2 + ?k)"
      by (simp add: push_bit_eq_mult power_add)
    also have "height - 2 + ?k = 64"
      using assms(1,2) by simp
    finally show ?thesis by simp
  qed
  ultimately have "push_bit ?k (of_nat i :: u64) = push_bit ?k (of_nat (i - ?p))"
    by simp
  with walk_shift_left [OF assms(2,1), of "of_nat i"] show ?thesis
    by simp
qed

text \<open>
  A walk whose callback always goes on, changes a node by \<open>m\<close> but neither its height nor
  the child it goes to, and collects state with \<open>u\<close>.
\<close>

lemma walk_loop_steps:
  fixes m :: "node \<Rightarrow> bool \<Rightarrow> node" and u :: "node \<Rightarrow> bool \<Rightarrow> 's \<Rightarrow> 's"
  assumes m: "\<And>n. nd_right (m n True) = nd_right n" "\<And>n. nd_left (m n False) = nd_left n"
    and h: "height \<le> 64"
  shows "wf_node n \<Longrightarrow> conflated_below k n \<Longrightarrow> k \<le> i \<Longrightarrow> i < nleaves n \<Longrightarrow>
    nd_height n \<le> height \<Longrightarrow>
    walk_loop (\<lambda>n g s. (True, m n g, u n g s)) False height
      (push_bit (65 - height) (of_nat i)) n s =
    Some (leaf_at n i, rebuild m n i, fold (\<lambda>(n, g). u n g) (route n i) s)"
  using h
proof (induction height arbitrary: n k i s)
  case 0
  then show ?case using wf_leaves [of n] by simp
next
  case (Suc height)
  let ?f = "\<lambda>n g s. (True, m n g, u n g s)"
  obtain h l r sz ht d where n: "n = Node h l r sz ht d"
    using Suc.prems(1) by (cases n) auto
  show ?case
  proof (cases "Suc height \<le> 1")
    case True
    then have "ht \<le> 1"
      using Suc.prems(5) n by simp
    then have "l = Null \<and> r = Null"
      using Suc.prems(1) wf_leaves [of l] unfolding n by (auto split: if_splits)
    with True show ?thesis
      by (subst walk_loop.simps) (simp add: n)
  next
    case False
    then have h2: "2 \<le> Suc height" "Suc height \<le> 64" "1 \<le> height"
      using Suc.prems(6) by auto
    note unfold = walk_loop.simps [of ?f False "Suc height" _ n]
    show ?thesis
    proof (cases "nd_height n = Suc height")
      case lower: False
      then have "nd_height n \<le> height"
        using Suc.prems(5) by simp
      then have "walk_loop ?f False height (push_bit (65 - height) (of_nat i)) n s =
          Some (leaf_at n i, rebuild m n i, fold (\<lambda>(n, g). u n g) (route n i) s)"
        using Suc.prems h2 by (intro Suc.IH) auto
      moreover have "walk_loop ?f False (Suc height) (push_bit (65 - Suc height) (of_nat i)) n s =
          walk_loop ?f False height (push_bit (65 - height) (of_nat i)) n s"
        using walk_shift_left [OF h2(2,1), of "of_nat i"] lower False n
        by (subst unfold) (auto simp del: push_bit_push_bit split: option.splits
            intro!: bind_runit [symmetric, THEN trans] ext)
      ultimately show ?thesis by simp
    next
      case True
      have inner: "\<not> (l = Null \<and> r = Null)"
      proof
        assume "l = Null \<and> r = Null"
        with True n have "leaf_at n i = n" "nd_height n = Suc height"
          by auto
        with leaf_at_height [OF Suc.prems(1-4)] False show False by simp
      qed
      note w = wf_node_inner [OF Suc.prems(1) [unfolded n] inner]
      have nl: "nleaves l = 2 ^ (Suc height - 2)"
        using wf_perfect [OF w(1)] w(5,7) True n by simp
      have i: "i < 2 ^ (Suc height - 1)"
        using wf_leaves [OF Suc.prems(1)] Suc.prems(4) True by simp
      note bit = walk_bit [OF h2(1,2) i]
      show ?thesis
      proof (cases "i < nleaves l")
        case left: True
        let ?it = "push_bit (65 - Suc height) (of_nat i) :: u64"
        have "walk_loop ?f False height (push_bit 1 ?it) l (u n False s) =
            Some (leaf_at l i, rebuild m l i, fold (\<lambda>(n, g). u n g) (route l i) (u n False s))"
          unfolding walk_shift_left [OF h2(2,1)] diff_Suc_1
          using Suc.prems w inner left True n by (intro Suc.IH [of _ k]) auto
        moreover have "\<not> bit ?it 63"
          using bit left nl by simp
        ultimately show ?thesis
          using False True inner left m(2) n
          by (subst unfold) (auto simp del: push_bit_push_bit diff_Suc_Suc)
      next
        case right: False
        let ?it = "push_bit (65 - Suc height) (of_nat i) :: u64"
        have "walk_loop ?f False height (push_bit 1 ?it) r (u n True s) =
            Some (leaf_at r (i - nleaves l), rebuild m r (i - nleaves l),
              fold (\<lambda>(n, g). u n g) (route r (i - nleaves l)) (u n True s))"
          unfolding walk_shift_right [OF h2(1,2) right [unfolded nl not_less]] diff_Suc_1
          unfolding nl [symmetric]
          using Suc.prems w inner right True n by (intro Suc.IH [of _ "k - nleaves l"]) auto
        moreover have "bit ?it 63"
          using bit right nl by simp
        ultimately show ?thesis
          using False True inner right m(1) n
          by (subst unfold) (auto simp del: push_bit_push_bit diff_Suc_Suc)
      qed
    qed
  qed
qed

lemma rebuild_id: "rebuild (\<lambda>n g. n) n i = n"
  by (induction n arbitrary: i) auto

lemma leaf_at_represents:
  "wf_node n \<Longrightarrow> represents hf n xs \<Longrightarrow> conflated_below k n \<Longrightarrow> k \<le> i \<Longrightarrow> i < nleaves n \<Longrightarrow>
   nd_hash (leaf_at n i) = xs ! i"
proof (induction n arbitrary: xs k i)
  case Null
  then show ?case by simp
next
  case (Node h l r s ht d)
  show ?case
  proof (cases "l = Null \<and> r = Null")
    case True
    with Node.prems have "length xs = 1" "i = 0" "h = merkle_root hf xs"
      by auto
    then show ?thesis
      using True by (cases xs) auto
  next
    case False
    note w = wf_node_inner [OF Node.prems(1) False]
    obtain ys zs where xs: "xs = ys @ zs" and rep: "represents hf l ys" "represents hf r zs"
      and len: "length ys = nleaves l" "length zs = nleaves r"
      using represents_inner [OF Node.prems(1) False Node.prems(2)] by metis
    show ?thesis
      using False Node.prems len Node.IH(1) [OF w(1) rep(1), of k i]
        Node.IH(2) [OF w(2) rep(2), of "k - nleaves l" "i - nleaves l"]
      by (auto simp: xs nth_append)
  qed
qed

section \<open>Paths\<close>

definition route_elements :: "node \<Rightarrow> nat \<Rightarrow> element list" where
  "route_elements n i = rev (map (\<lambda>(n, g). path_element n g) (route n i))"

lemma route_elements_inner:
  assumes "\<not> (l = Null \<and> r = Null)"
  shows "route_elements (Node h l r s ht d) i =
    (if i < nleaves l then route_elements l i @ [path_element (Node h l r s ht d) False]
     else route_elements r (i - nleaves l) @ [path_element (Node h l r s ht d) True])"
  using assms by (auto simp: route_elements_def)

lemma fold_path_elements:
  "fold (\<lambda>(n, g) es. path_element n g # es) ps es = rev (map (\<lambda>(n, g). path_element n g) ps) @ es"
  by (induction ps arbitrary: es) auto

text \<open>Hashing along a route from its leaf gives the hash of the node it starts at.\<close>

lemma route_root:
  "wf_node n \<Longrightarrow> hash_inv hf n \<Longrightarrow> \<not> nd_dirty n \<Longrightarrow> i < nleaves n \<Longrightarrow>
   foldl (path_step hf) (nd_hash (leaf_at n i)) (route_elements n i) = nd_hash n"
proof (induction n arbitrary: i)
  case Null
  then show ?case by simp
next
  case (Node h l r s ht d)
  show ?case
  proof (cases "l = Null \<and> r = Null")
    case True
    then show ?thesis by (simp add: route_elements_def)
  next
    case False
    note w = wf_node_inner [OF Node.prems(1) False]
    have clean: "\<not> nd_dirty l" "\<not> nd_dirty r" "h = hf (nd_hash l) (nd_hash r)"
        "hash_inv hf l" "hash_inv hf r"
      using False Node.prems by auto
    show ?thesis
    proof (cases "i < nleaves l")
      case True
      with Node.IH(1) [OF w(1) clean(4,1) True] False clean(3) show ?thesis
        by (auto simp: route_elements_inner path_step_def path_element_def)
    next
      case right: False
      then have "i - nleaves l < nleaves r"
        using Node.prems(4) False by auto
      with Node.IH(2) [OF w(2) clean(5,2)] False right clean(3) show ?thesis
        by (auto simp: route_elements_inner path_step_def path_element_def)
    qed
  qed
qed

lemma merkle_root_of_clean:
  assumes "wf_node n" and "hash_inv hf n" and "\<not> nd_dirty n" and "represents hf n xs"
  shows "nd_hash n = merkle_root hf xs"
  using hash_inv_clean [OF assms(1-3)] tree_hash_eq [OF assms(1,4)] by simp

text \<open>Hashing only the left siblings gives the root of the leaves up to the index.\<close>

lemma route_past_root:
  "wf_node n \<Longrightarrow> hash_inv hf n \<Longrightarrow> \<not> nd_dirty n \<Longrightarrow> represents hf n xs \<Longrightarrow>
   conflated_below k n \<Longrightarrow> k \<le> i \<Longrightarrow> i < nleaves n \<Longrightarrow>
   foldl (past_step hf) (nd_hash (leaf_at n i)) (route_elements n i) =
   merkle_root hf (take (Suc i) xs)"
proof (induction n arbitrary: xs k i)
  case Null
  then show ?case by simp
next
  case (Node h l r s ht d)
  show ?case
  proof (cases "l = Null \<and> r = Null")
    case True
    with Node.prems have "length xs = 1" "i = 0" "h = merkle_root hf xs"
      by auto
    then show ?thesis
      using True by (cases xs) (auto simp: route_elements_def)
  next
    case False
    note w = wf_node_inner [OF Node.prems(1) False]
    have clean: "\<not> nd_dirty l" "\<not> nd_dirty r" "hash_inv hf l" "hash_inv hf r"
        "conflated_below k l" "conflated_below (k - nleaves l) r"
      using False Node.prems by auto
    obtain ys zs where xs: "xs = ys @ zs" and rep: "represents hf l ys" "represents hf r zs"
      and len: "length ys = 2 ^ (nd_height l - 1)" "length ys = nleaves l"
        "length zs = nleaves r" "0 < length zs" "length zs \<le> 2 ^ (nd_height l - 1)"
      using represents_inner [OF Node.prems(1) False Node.prems(4)] by metis
    show ?thesis
    proof (cases "i < nleaves l")
      case True
      with Node.IH(1) [OF w(1) clean(3,1) rep(1) clean(5) Node.prems(6) True] False len show ?thesis
        by (auto simp: route_elements_inner past_step_def path_element_def xs)
    next
      case right: False
      let ?i = "i - nleaves l"
      have i: "k - nleaves l \<le> ?i" "?i < nleaves r"
        using Node.prems(6,7) False right by auto
      have "Suc i - length ys = Suc ?i"
        using right len by simp
      then have "take (Suc i) xs = ys @ take (Suc ?i) zs"
        using right len by (simp add: xs)
      moreover have "merkle_root hf (ys @ take (Suc ?i) zs) =
          hf (merkle_root hf ys) (merkle_root hf (take (Suc ?i) zs))"
        using len by (intro merkle_root_split) auto
      ultimately show ?thesis
        using Node.IH(2) [OF w(2) clean(4,2) rep(2) clean(6) i] False right
          merkle_root_of_clean [OF w(1) clean(3,1) rep(1)]
        by (auto simp: route_elements_inner past_step_def path_element_def)
    qed
  qed
qed

section \<open>Walks of a tree\<close>

lemma leaf_node_ok:
  assumes "tree_inv hf t xs" and "num_flushed t \<le> i" and "i < length xs"
  shows "leaf_node t i = Inr (node_make (xs ! i))"
proof -
  obtain zs ys where xs: "xs = zs @ ys" and ins: "inserted hf t zs"
    and un: "uninserted_leaf_nodes t = map node_make ys"
    using assms(1) by (auto simp: tree_inv_def)
  have nf: "num_flushed t \<le> length zs"
    using ins by (auto simp: inserted_def split: if_splits)
  have ln: "leaf_nodes t = map node_make (drop (num_flushed t) zs)"
    using ins by (simp add: inserted_def)
  have "i < 2 ^ 64"
    using assms(1,3) max_leaves_lt by (auto simp: tree_inv_def)
  then show ?thesis
    using assms(2,3) nf ln un
    by (auto simp: leaf_node_def tree_inv_num_leaves [OF assms(1)] size_sub_le xs nth_append
        Let_def not_le less_diff_iff)
qed

lemma walk_bits_eq:
  assumes "wf_node n" and "nleaves n \<le> max_leaves" and "i < nleaves n"
  shows "walk_bits (nd_height n) i = push_bit (65 - nd_height n) (of_nat i)"
proof (cases "1 < nd_height n")
  case True
  moreover have "8 * 8 - nd_height n + 1 = 65 - nd_height n"
    using wf_node_bounds [OF assms(1,2)] by simp
  ultimately show ?thesis by (simp only: walk_bits_def if_True)
next
  case False
  then have "nd_height n = 1"
    using wf_leaves [OF assms(1)] by simp
  moreover from this have "nleaves n = 1"
    using wf_leaves [OF assms(1)] by simp
  ultimately show ?thesis
    using assms(3) by (simp add: walk_bits_def)
qed

lemma walk_to_steps:
  fixes m :: "node \<Rightarrow> bool \<Rightarrow> node" and u :: "node \<Rightarrow> bool \<Rightarrow> 's \<Rightarrow> 's"
  assumes m: "\<And>n. nd_right (m n True) = nd_right n" "\<And>n. nd_left (m n False) = nd_left n"
    and inv: "tree_inv hf t xs" and i: "num_flushed t \<le> i" "i < length xs"
  shows "\<exists>t'. compute_root hf sz t = Inr t' \<and> completed hf t' xs \<and>
    num_flushed t' = num_flushed t \<and> same_counters t t' \<and>
    walk_to hf sz i False (\<lambda>n g s. (True, m n g, u n g s)) t s =
      Inr (leaf_at (root_node t') i, t'\<lparr>root_node := rebuild m (root_node t') i\<rparr>,
        fold (\<lambda>(n, g). u n g) (route (root_node t') i) s)"
proof -
  obtain t' where t': "compute_root hf sz t = Inr t'" "completed hf t' xs"
      "num_flushed t' = num_flushed t" "same_counters t t'"
    using compute_root_ok [OF inv] i by (metis list.size(3) not_less_zero)
  let ?n = "root_node t'"
  note c = completedD [OF t'(2)]
  have nl: "nleaves ?n \<le> max_leaves" "i < nleaves ?n"
    using c(8,11) i by auto
  have ht: "nd_height ?n \<le> 30" "1 \<le> nd_height ?n"
    using wf_node_bounds [OF c(1) nl(1)] wf_leaves [OF c(1)] by auto
  have "walk_bits (nd_height ?n) i = push_bit (65 - nd_height ?n) (of_nat i)"
    using walk_bits_eq [OF c(1) nl] .
  then have "walk_loop (\<lambda>n g s. (True, m n g, u n g s)) False (nd_height ?n)
      (walk_bits (nd_height ?n) i) ?n s =
      Some (leaf_at ?n i, rebuild m ?n i, fold (\<lambda>(n, g). u n g) (route ?n i) s)"
    using walk_loop_steps [OF m, of "nd_height ?n" ?n "num_flushed t'" i u s] c ht i(1) t'(3) nl
    by simp
  moreover have "i < nd_size ?n"
    using wf_size_eq [OF c(1)] nl by simp
  moreover have "\<not> (i < min_index t \<or> max_index t < i)"
    using i tree_inv_max_index [OF inv] by (simp add: min_index_def)
  ultimately show ?thesis
    using t' by (intro exI [of _ t']) (simp add: walk_to_def Let_def)
qed

lemma completed_stats [simp]: "completed hf (t\<lparr>stats := s\<rparr>) xs = completed hf t xs"
  by (simp add: completed_def)

lemma tree_path_ok:
  assumes inv: "tree_inv hf t xs" and i: "num_flushed t \<le> i" "i < length xs"
  shows "\<exists>t'. tree_path hf sz i t =
      Inr (path_make (xs ! i) i (route_elements (root_node t') i) (length xs - 1), t') \<and>
    completed hf t' xs \<and> num_flushed t' = num_flushed t"
proof -
  let ?t = "t\<lparr>stats := (stats t)\<lparr>num_paths := num_paths (stats t) + 1\<rparr>\<rparr>"
  have cb: "path_callback = (\<lambda>n g es. (True, n, path_element n g # es))"
    by (simp add: fun_eq_iff path_callback_def)
  obtain t' where t': "completed hf t' xs" "num_flushed t' = num_flushed t"
    and walk: "walk_to hf sz i False path_callback ?t [] =
      Inr (leaf_at (root_node t') i, t', route_elements (root_node t') i)"
    using walk_to_steps [of "\<lambda>n g. n" hf ?t xs i sz "\<lambda>n g es. path_element n g # es" "[]"] inv i
    by (auto simp: cb rebuild_id fold_path_elements route_elements_def)
  moreover have "leaf_node t' i = Inr (node_make (xs ! i))"
    using leaf_node_ok [OF completed_tree_inv [OF t'(1)]] t'(2) i by simp
  moreover have "max_index t' = length xs - 1"
    using tree_inv_max_index [OF completed_tree_inv [OF t'(1)]] .
  ultimately show ?thesis
    by (intro exI [of _ t']) (simp add: tree_path_def Let_def)
qed

lemma length_route:
  "wf_node n \<Longrightarrow> length (route n i) < nd_height n"
proof (induction n arbitrary: i)
  case Null
  then show ?case by simp
next
  case (Node h l r s ht d)
  show ?case
  proof (cases "l = Null \<and> r = Null")
    case True
    with Node.prems show ?thesis by auto
  next
    case False
    note w = wf_node_inner [OF Node.prems(1) False]
    show ?thesis
      using False w(6,7) Node.IH(1) [OF w(1), of i] Node.IH(2) [OF w(2), of "i - nleaves l"]
      by auto
  qed
qed

lemma tree_path_good:
  assumes "tree_inv hf t xs" and "num_flushed t \<le> i" and "i < length xs"
  shows "\<exists>t'. tree_path hf sz i t =
      Inr (path_make (xs ! i) i (route_elements (root_node t') i) (length xs - 1), t') \<and>
    length (route_elements (root_node t') i) \<le> 29 \<and>
    path_verify hf (path_make (xs ! i) i (route_elements (root_node t') i) (length xs - 1))
      (merkle_root hf xs) \<and>
    completed hf t' xs \<and> num_flushed t' = num_flushed t"
proof -
  obtain t' where t': "tree_path hf sz i t =
      Inr (path_make (xs ! i) i (route_elements (root_node t') i) (length xs - 1), t')"
      "completed hf t' xs" "num_flushed t' = num_flushed t"
    using tree_path_ok [OF assms] by blast
  let ?n = "root_node t'"
  note c = completedD [OF t'(2)]
  have leaf: "nd_hash (leaf_at ?n i) = xs ! i"
    using leaf_at_represents [OF c(1,2,4)] assms(2,3) t'(3) c(11) by simp
  have "foldl (path_step hf) (xs ! i) (route_elements ?n i) = merkle_root hf xs"
    using route_root [OF c(1,3,5), of i] assms(3) c(11,12) leaf by simp
  moreover have "length (route_elements ?n i) < 30"
    using length_route [OF c(1), of i] wf_node_bounds(1) [OF c(1)] c(8,11)
    by (simp add: route_elements_def)
  ultimately show ?thesis
    using t' by (auto simp: path_verify_def path_root_def path_make_def)
qed

text \<open>C4: a path taken from a tree carries the leaf of its index and verifies against the
  Merkle root of all leaves, for every leaf that has not been flushed. It has at most 29
  elements for a tree of at most \<open>2 ^ 29\<close> leaves, and taking it changes nothing about the
  leaves of the tree.\<close>

theorem tree_path_verifies:
  assumes "tree_inv hf t xs" and "num_flushed t \<le> i" and "i < length xs"
  shows "\<exists>p t'. tree_path hf sz i t = Inr (p, t') \<and> path_leaf p = xs ! i \<and>
    path_leaf_index p = i \<and> path_max_index p = length xs - 1 \<and> path_size p \<le> 29 \<and>
    path_verify hf p (merkle_root hf xs) \<and> completed hf t' xs"
  using tree_path_good [OF assms, of sz] by (fastforce simp: path_make_def path_size_def)

theorem tree_path_verifies_witness:
  "\<exists>p t'. tree_path (\<lambda>a b. a @ b) 1 2 (tree_insert_list [[1], [2], [3]] tree_empty) = Inr (p, t') \<and>
     path_leaf p = [3] \<and> path_verify (\<lambda>a b. a @ b) p (merkle_root (\<lambda>a b. a @ b) [[1], [2], [3]])"
proof -
  have "tree_inv (\<lambda>a b. a @ b) (tree_insert_list [[1], [2], [3]] tree_empty)
      ([] @ [[1], [2], [3]])"
    by (rule tree_inv_insert_list [OF tree_inv_empty]) (simp add: max_leaves_def)
  moreover have "num_flushed (tree_insert_list [[1], [2], [3]] tree_empty) = 0"
    by (simp add: tree_insert_list_def tree_insert_def tree_empty_def)
  ultimately show ?thesis
    using tree_path_verifies [of "\<lambda>a b. a @ b" "tree_insert_list [[1], [2], [3]] tree_empty"
        "[[1], [2], [3]]" 2 1] by fastforce
qed

lemma index_stats [simp]:
  "max_index (t\<lparr>stats := s\<rparr>) = max_index t" "min_index (t\<lparr>stats := s\<rparr>) = min_index t"
  "num_leaves (t\<lparr>stats := s\<rparr>) = num_leaves t"
  by (simp_all add: max_index_def min_index_def num_leaves_def)

text \<open>An index that has been flushed or is behind the last leaf throws.\<close>

lemma tree_path_invalid:
  assumes "i < min_index t \<or> max_index t < i"
  shows "tree_path hf sz i t = Inl (Runtime_Error ''invalid leaf index'')"
  using assms by (auto simp: tree_path_def walk_to_def)

lemma past_root_eq:
  assumes "tree_inv hf t xs" and "num_flushed t \<le> i" and "i < length xs"
  shows "\<exists>t'. past_root hf sz i t = Inr (merkle_root hf (take (Suc i) xs), t') \<and>
    completed hf t' xs"
proof -
  let ?t = "t\<lparr>stats := (stats t)\<lparr>num_past_root := num_past_root (stats t) + 1\<rparr>\<rparr>"
  obtain t' where t': "tree_path hf sz i ?t =
      Inr (path_make (xs ! i) i (route_elements (root_node t') i) (length xs - 1), t')"
      "completed hf t' xs" "num_flushed t' = num_flushed t"
    using tree_path_ok [of hf ?t xs i sz] assms by auto
  let ?n = "root_node t'"
  note c = completedD [OF t'(2)]
  have leaf: "nd_hash (leaf_at ?n i) = xs ! i"
    using leaf_at_represents [OF c(1,2,4)] assms(2,3) t'(3) c(11) by simp
  have "foldl (past_step hf) (xs ! i) (route_elements ?n i) = merkle_root hf (take (Suc i) xs)"
    using route_past_root [OF c(1,3,5,2,4), of i] assms(2,3) c(11) leaf t'(3) by simp
  with t' show ?thesis
    by (intro exI [of _ t']) (simp add: past_root_def Let_def path_make_def)
qed

end
