(* ===== verification/Merkle_Retract.thy ===== *)
theory Merkle_Retract
  imports Merkle_Walk
begin

text \<open>
  Correctness of \<open>flush_to\<close> and \<open>retract_to\<close>. Flushing conflates the subtrees left of
  the route into single nodes and keeps the leaves the tree stands for, hence its root and
  the paths of the remaining leaves. Retracting cuts everything right of the route and
  leaves the tree of the first leaves.
\<close>

section \<open>Flushing\<close>

definition flush_node :: "(hash \<Rightarrow> hash \<Rightarrow> hash) \<Rightarrow> node \<Rightarrow> bool \<Rightarrow> node" where
  "flush_node hf n go_right =
     (if go_right \<and> nd_left n \<noteq> Null
      then set_child True n
        (conflate (if nd_dirty (nd_left n) then fst (hash_node hf (nd_left n)) else nd_left n))
      else n)"

definition flush_hashes :: "(hash \<Rightarrow> hash \<Rightarrow> hash) \<Rightarrow> node \<Rightarrow> bool \<Rightarrow> nat \<Rightarrow> nat" where
  "flush_hashes hf n go_right k =
     (if go_right \<and> nd_left n \<noteq> Null
      then k + (if nd_dirty (nd_left n) then snd (hash_node hf (nd_left n)) else 0) else k)"

lemma flush_callback_eq:
  "flush_callback hf = (\<lambda>n g k. (True, flush_node hf n g, flush_hashes hf n g k))"
  by (auto simp: fun_eq_iff flush_callback_def flush_node_def flush_hashes_def split: prod.splits)

lemma flush_node_child:
  "nd_right (flush_node hf n True) = nd_right n" "nd_left (flush_node hf n False) = nd_left n"
  by (cases n; simp add: flush_node_def)+

definition flushed :: "nat \<Rightarrow> (hash \<Rightarrow> hash \<Rightarrow> hash) \<Rightarrow> hash list \<Rightarrow> node \<Rightarrow> node \<Rightarrow> bool" where
  "flushed i hf xs n n' \<longleftrightarrow> wf_node n' \<and> nleaves n' = nleaves n \<and> nd_height n' = nd_height n \<and>
     nd_size n' = nd_size n \<and> nd_hash n' = nd_hash n \<and> \<not> nd_dirty n' \<and> hash_inv hf n' \<and>
     represents hf n' xs \<and> conflated_below i n'"

lemma rebuild_flushed:
  "wf_node n \<Longrightarrow> hash_inv hf n \<Longrightarrow> \<not> nd_dirty n \<Longrightarrow> represents hf n xs \<Longrightarrow>
   conflated_below k n \<Longrightarrow> k \<le> i \<Longrightarrow> i < nleaves n \<Longrightarrow>
   flushed i hf xs n (rebuild (flush_node hf) n i)"
proof (induction n arbitrary: xs k i)
  case Null
  then show ?case by simp
next
  case (Node h l r s ht d)
  let ?n = "Node h l r s ht d"
  show ?case
  proof (cases "l = Null \<and> r = Null")
    case True
    with Node.prems show ?thesis by (auto simp: flushed_def)
  next
    case False
    note w = wf_node_inner [OF Node.prems(1) False]
    have clean: "\<not> nd_dirty l" "\<not> nd_dirty r" "hash_inv hf l" "hash_inv hf r" "\<not> d"
        "h = hf (nd_hash l) (nd_hash r)"
        "conflated_below k l" "conflated_below (k - nleaves l) r"
      using False Node.prems by auto
    obtain ys zs where xs: "xs = ys @ zs" and rep: "represents hf l ys" "represents hf r zs"
      and len: "length ys = 2 ^ (nd_height l - 1)" "length ys = nleaves l"
      using represents_inner [OF Node.prems(1) False Node.prems(4)] by metis
    show ?thesis
    proof (cases "i < nleaves l")
      case True
      let ?l = "rebuild (flush_node hf) l i"
      have f: "flushed i hf ys l ?l"
        using Node.IH(1) [OF w(1) clean(3,1) rep(1) clean(7) Node.prems(6) True] .
      then have "?l \<noteq> Null"
        by (auto simp: flushed_def)
      moreover have "rebuild (flush_node hf) ?n i = Node h ?l r s ht d"
        using False True by (auto simp: flush_node_def)
      moreover have "k - nleaves l = i - nleaves l"
        using True Node.prems(6) by simp
      ultimately show ?thesis
        using f w clean rep len True by (auto simp: flushed_def xs)
    next
      case right: False
      let ?i = "i - nleaves l"
      let ?r = "rebuild (flush_node hf) r ?i"
      have i: "k - nleaves l \<le> ?i" "?i < nleaves r"
        using Node.prems(6,7) False right by auto
      have f: "flushed ?i hf zs r ?r"
        using Node.IH(2) [OF w(2) clean(4,2) rep(2) clean(8) i] .
      then have "?r \<noteq> Null"
        by (auto simp: flushed_def)
      have eq: "rebuild (flush_node hf) ?n i = Node h (conflate l) ?r s ht d"
        using False right w(3) clean(1) by (auto simp: flush_node_def)
      obtain lh ll lr ls lht ld where l: "l = Node lh ll lr ls lht ld"
        using w(3) by (cases l) auto
      have lhash: "lh = merkle_root hf ys"
        using merkle_root_of_clean [OF w(1) clean(3,1) rep(1)] l by simp
      have lht: "1 \<le> lht" "ls = 2 ^ lht - 1" "\<not> ld" "2 ^ (lht - 1) \<le> i"
        using wf_leaves [OF w(1)] w(5) clean(1) len right l by auto
      show ?thesis
        using f w clean rep len lhash lht \<open>?r \<noteq> Null\<close> unfolding eq
        by (auto simp: flushed_def xs l)
    qed
  qed
qed

lemma flush_to_result:
  assumes "tree_inv hf t xs" and "i < length xs"
  shows "\<exists>t'. flush_to hf sz i t = Inr t' \<and> tree_inv hf t' xs \<and>
    num_flushed t' = max (num_flushed t) i"
proof (cases "i \<le> min_index t")
  case True
  with assms show ?thesis
    by (auto simp: flush_to_def Let_def min_index_def max_def)
next
  case False
  let ?t = "t\<lparr>stats := (stats t)\<lparr>num_flush := num_flush (stats t) + 1\<rparr>\<rparr>"
  have nf: "num_flushed t < i"
    using False by (simp add: min_index_def)
  obtain t' where t': "completed hf t' xs" "num_flushed t' = num_flushed t"
    and walk: "walk_to hf sz i False (flush_callback hf) ?t 0 =
      Inr (leaf_at (root_node t') i, t'\<lparr>root_node := rebuild (flush_node hf) (root_node t') i\<rparr>,
        fold (\<lambda>(n, g). flush_hashes hf n g) (route (root_node t') i) 0)"
    using walk_to_steps [where m = "flush_node hf" and u = "flush_hashes hf" and s = 0 and hf = hf
        and t = ?t and xs = xs and i = i and sz = sz, OF flush_node_child] assms nf
    unfolding flush_callback_eq by auto
  let ?k = "fold (\<lambda>(n, g). flush_hashes hf n g) (route (root_node t') i) 0"
  let ?n = "rebuild (flush_node hf) (root_node t') i"
  let ?t' = "t'\<lparr>root_node := ?n, leaf_nodes := drop (i - num_flushed t') (leaf_nodes t'),
    num_flushed := i, stats := (stats t')\<lparr>num_hash := num_hash (stats t') + ?k\<rparr>\<rparr>"
  have run: "flush_to hf sz i t = Inr ?t'"
    using False walk nf t'(2) by (simp add: flush_to_def Let_def min_index_def)
  note c = completedD [OF t'(1)]
  have f: "flushed i hf xs (root_node t') ?n"
    using rebuild_flushed [OF c(1,3,5,2,4)] assms(2) nf t'(2) c(11) by simp
  then have "?n \<noteq> Null"
    by (auto simp: flushed_def)
  then have "inserted hf ?t' xs"
    using f c assms(2) nf t'(2)
    by (auto simp: inserted_def stack_inv_def whole_tree_def flushed_def drop_map)
  then have "tree_inv hf ?t' xs"
    using c(8,9) by (auto simp: tree_inv_def intro: exI [of _ xs])
  with run nf show ?thesis
    by auto
qed

text \<open>Flushing to an index of the tree keeps the list of leaves it stands for; exactly the
  leaves below the index become flushed. An index at or below the first remaining leaf
  changes nothing but the counter. Root and remaining paths therefore stay the same.\<close>

theorem flush_to_correct:
  assumes "tree_inv hf t xs" and "i < length xs"
  shows "\<exists>t'. flush_to hf sz i t = Inr t' \<and> tree_inv hf t' xs \<and>
    num_flushed t' = max (num_flushed t) i"
  using assms by (rule flush_to_result)

theorem flush_to_correct_witness:
  "\<exists>t'. flush_to (\<lambda>a b. a @ b) 1 2 (tree_insert_list [[1], [2], [3]] tree_empty) = Inr t' \<and>
     tree_inv (\<lambda>a b. a @ b) t' [[1], [2], [3]] \<and> num_flushed t' = 2"
proof -
  have "tree_inv (\<lambda>a b. a @ b) (tree_insert_list [[1], [2], [3]] tree_empty)
      ([] @ [[1], [2], [3]])"
    by (rule tree_inv_insert_list [OF tree_inv_empty]) (simp add: max_leaves_def)
  moreover have "num_flushed (tree_insert_list [[1], [2], [3]] tree_empty) = 0"
    by (simp add: tree_insert_list_def tree_insert_def tree_empty_def)
  ultimately show ?thesis
    using flush_to_correct [of "\<lambda>a b. a @ b" "tree_insert_list [[1], [2], [3]] tree_empty"
        "[[1], [2], [3]]" 2 1] by simp
qed

section \<open>Retracting\<close>

fun retracted :: "node \<Rightarrow> nat \<Rightarrow> node" where
  "retracted Null i = Null"
| "retracted (Node h l r s ht d) i =
     (if l = Null \<and> r = Null then Node h l r s ht d
      else if i < nleaves l then retracted l i
      else update_sizes (Node h l (retracted r (i - nleaves l)) s ht True))"

definition retracts :: "(hash \<Rightarrow> hash \<Rightarrow> hash) \<Rightarrow> hash list \<Rightarrow> nat \<Rightarrow> nat \<Rightarrow> node \<Rightarrow> node \<Rightarrow> bool" where
  "retracts hf xs k i n n' \<longleftrightarrow> wf_node n' \<and> nleaves n' = Suc i \<and> nd_height n' \<le> nd_height n \<and>
     hash_inv hf n' \<and> conflated_below k n' \<and> represents hf n' (take (Suc i) xs) \<and>
     update_sizes n' = n'"

lemma retracted_retracts:
  "wf_node n \<Longrightarrow> hash_inv hf n \<Longrightarrow> represents hf n xs \<Longrightarrow> conflated_below k n \<Longrightarrow> k \<le> i \<Longrightarrow>
   i < nleaves n \<Longrightarrow> nleaves n \<le> max_leaves \<Longrightarrow> retracts hf xs k i n (retracted n i)"
proof (induction n arbitrary: xs k i)
  case Null
  then show ?case by simp
next
  case (Node h l r s ht d)
  let ?n = "Node h l r s ht d"
  show ?case
  proof (cases "l = Null \<and> r = Null")
    case True
    with Node.prems have "ht = 1" "length xs = 1"
      by auto
    with True Node.prems show ?thesis by (auto simp: retracts_def)
  next
    case False
    note w = wf_node_inner [OF Node.prems(1) False]
    have inv: "hash_inv hf l" "hash_inv hf r" "conflated_below k l"
        "conflated_below (k - nleaves l) r" "nleaves l \<le> max_leaves" "nleaves r \<le> max_leaves"
        "nleaves l \<le> k \<longrightarrow> nd_left l = Null"
      using False Node.prems by auto
    obtain ys zs where xs: "xs = ys @ zs" and rep: "represents hf l ys" "represents hf r zs"
      and len: "length ys = nleaves l" "length zs = nleaves r"
      using represents_inner [OF Node.prems(1) False Node.prems(3)] by metis
    show ?thesis
    proof (cases "i < nleaves l")
      case True
      with Node.IH(1) [OF w(1) inv(1) rep(1) inv(3) Node.prems(5) True inv(5)] False w(7) len
      show ?thesis by (auto simp: retracts_def xs)
    next
      case right: False
      let ?i = "i - nleaves l" and ?r = "retracted r (i - nleaves l)"
      have i: "k - nleaves l \<le> ?i" "?i < nleaves r" "Suc i - nleaves l = Suc ?i"
        using Node.prems(5,6) False right by auto
      have f: "retracts hf zs (k - nleaves l) ?i r ?r"
        using Node.IH(2) [OF w(2) inv(2) rep(2) inv(4) i(1,2) inv(6)] .
      then have r: "wf_node ?r" "nd_height ?r \<le> nd_height l" "nleaves l + nleaves ?r \<le> max_leaves"
        using w(6) Node.prems(6,7) False right by (auto simp: retracts_def)
      have full: "is_full l"
        using inner_left_full [OF Node.prems(1) False Node.prems(7)] .
      note up = update_sizes_inner [OF w(1) r(1) full r(2,3)]
      let ?m = "Node h l ?r (nd_size l + nd_size ?r + 1) (nd_height l + 1) True"
      have eq: "retracted ?n i = ?m"
        using False right up(1) by (auto simp del: update_sizes.simps)
      have "update_sizes ?m = ?m"
        by (rule up(1))
      moreover have "nleaves ?m = Suc i"
        using up(3) f right by (simp add: retracts_def)
      moreover have "represents hf ?m (take (Suc i) xs)"
        using f rep(1) len right i(3) w(3) by (simp add: xs retracts_def)
      ultimately show ?thesis
        using up(2) f inv w(3,7) unfolding eq retracts_def by simp
    qed
  qed
qed

lemma set_dirty_sel [simp]:
  "nd_left (set_dirty n) = nd_left n" "nd_right (set_dirty n) = nd_right n"
  "nd_height (set_dirty n) = nd_height n" "nleaves (set_dirty n) = nleaves n"
  "set_dirty n = Null \<longleftrightarrow> n = Null" "conflated_below k (set_dirty n) = conflated_below k n"
  by (cases n; auto)+

lemma set_dirty_inner:
  assumes "nd_left n \<noteq> Null \<and> nd_right n \<noteq> Null"
  shows "wf_node (set_dirty n) = wf_node n" and "retracted (set_dirty n) i = retracted n i"
    and "leaf_at (set_dirty n) i = leaf_at n i"
  using assms by (cases n; auto)+

text \<open>The sizes along the route are up to date after the cut.\<close>

lemma retracted_sizes:
  "wf_node n \<Longrightarrow> conflated_below k n \<Longrightarrow> k \<le> i \<Longrightarrow> i < nleaves n \<Longrightarrow>
   nleaves n \<le> max_leaves \<Longrightarrow> update_sizes (retracted n i) = retracted n i"
proof (induction n arbitrary: k i)
  case Null
  then show ?case by simp
next
  case (Node h l r s ht d)
  show ?case
  proof (cases "l = Null \<and> r = Null")
    case True
    with Node.prems show ?thesis by auto
  next
    case False
    note w = wf_node_inner [OF Node.prems(1) False]
    show ?thesis
      using False Node.prems Node.IH(1) [OF w(1), of k i] by auto
  qed
qed

lemma walk_loop_retract:
  assumes h: "height \<le> 64" and le: "nleaves n \<le> max_leaves"
  shows "wf_node n \<Longrightarrow> conflated_below k n \<Longrightarrow> k \<le> i \<Longrightarrow> i < nleaves n \<Longrightarrow>
    nd_height n \<le> height \<Longrightarrow>
    walk_loop retract_callback True height (push_bit (65 - height) (of_nat i)) n () =
    Some (leaf_at n i, retracted n i, ())"
  using h le
proof (induction height arbitrary: n k i)
  case 0
  then show ?case using wf_leaves [of n] by simp
next
  case (Suc height)
  obtain h l r sz ht d where n: "n = Node h l r sz ht d"
    using Suc.prems(1) by (cases n) auto
  show ?case
  proof (cases "Suc height \<le> 1")
    case True
    then have "ht \<le> 1"
      using Suc.prems(5) n by simp
    then have "l = Null \<and> r = Null"
      using Suc.prems(1) wf_leaves [of l] unfolding n by (auto split: if_splits)
    with True show ?thesis
      by (subst walk_loop.simps) (simp add: n)
  next
    case False
    then have h2: "2 \<le> Suc height" "Suc height \<le> 64" "1 \<le> height"
      using Suc.prems(6) by auto
    let ?it = "push_bit (65 - Suc height) (of_nat i) :: u64"
    have lower: "walk_loop retract_callback True (Suc height) ?it m () =
        Some (leaf_at m i, retracted m i, ())"
      if m: "wf_node m" "conflated_below k m" "i < nleaves m" "nd_height m \<le> height"
        "nleaves m \<le> max_leaves" for m
    proof -
      have "walk_loop retract_callback True height (push_bit 1 ?it) m () =
          Some (leaf_at m i, retracted m i, ())"
        unfolding walk_shift_left [OF h2(2,1)] diff_Suc_1
        using m Suc.prems(3) h2 by (intro Suc.IH) auto
      moreover have "m \<noteq> Null"
        using m(1) by auto
      ultimately show ?thesis
        using False m retracted_sizes [OF m(1,2) Suc.prems(3) m(3,5)]
        by (subst walk_loop.simps) (simp del: push_bit_push_bit diff_Suc_Suc)
    qed
    show ?thesis
    proof (cases "nd_height n = Suc height")
      case low: False
      with Suc.prems show ?thesis by (intro lower) auto
    next
      case True
      have inner: "\<not> (l = Null \<and> r = Null)"
      proof
        assume "l = Null \<and> r = Null"
        with True n have "leaf_at n i = n" "nd_height n = Suc height"
          by auto
        with leaf_at_height [OF Suc.prems(1-4)] False show False by simp
      qed
      note w = wf_node_inner [OF Suc.prems(1) [unfolded n] inner]
      have nl: "nleaves l = 2 ^ (Suc height - 2)"
        using wf_perfect [OF w(1)] w(5,7) True n by simp
      have i: "i < 2 ^ (Suc height - 1)"
        using wf_leaves [OF Suc.prems(1)] Suc.prems(4) True by simp
      note bit = walk_bit [OF h2(1,2) i]
      show ?thesis
      proof (cases "i < nleaves l")
        case left: True
        let ?l = "if nd_left l \<noteq> Null \<and> nd_right l \<noteq> Null then set_dirty l else l"
        have l: "wf_node ?l" "conflated_below k ?l" "i < nleaves ?l" "nd_height ?l \<le> height"
            "nleaves ?l \<le> max_leaves" "leaf_at ?l i = leaf_at l i" "retracted ?l i = retracted l i"
          using w(1,7) Suc.prems(2,7) inner left True n by (auto simp: set_dirty_inner)
        have "walk_loop retract_callback True (Suc height) ?it ?l () =
            Some (leaf_at l i, retracted l i, ())"
          using lower [OF l(1-5)] l(6,7) by simp
        moreover have "\<not> bit ?it 63"
          using bit left nl by simp
        moreover have "update_sizes (retracted l i) = retracted l i"
          using retracted_sizes [OF w(1), of k i] Suc.prems(2,3,7) inner left n by auto
        ultimately show ?thesis
          using False True inner left n w(3,4)
          by (subst walk_loop.simps)
            (auto simp: retract_callback_def Let_def simp del: push_bit_push_bit diff_Suc_Suc)
      next
        case right: False
        have "walk_loop retract_callback True height (push_bit 1 ?it) r () =
            Some (leaf_at r (i - nleaves l), retracted r (i - nleaves l), ())"
          unfolding walk_shift_right [OF h2(1,2) right [unfolded nl not_less]] diff_Suc_1
          unfolding nl [symmetric]
          using Suc.prems w inner right True n by (intro Suc.IH [of _ "k - nleaves l"]) auto
        moreover have "bit ?it 63"
          using bit right nl by simp
        ultimately show ?thesis
          using False True inner right n w(3,4)
          by (subst walk_loop.simps)
            (auto simp: retract_callback_def Let_def simp del: push_bit_push_bit diff_Suc_Suc)
      qed
    qed
  qed
qed

lemma walk_to_retract:
  assumes inv: "tree_inv hf t xs" and i: "num_flushed t \<le> i" "i < length xs"
  shows "\<exists>t'. completed hf t' xs \<and> num_flushed t' = num_flushed t \<and>
    walk_to hf sz i True retract_callback t () =
      Inr (leaf_at (root_node t') i, t'\<lparr>root_node := retracted (root_node t') i\<rparr>, ())"
proof -
  obtain t' where t': "compute_root hf sz t = Inr t'" "completed hf t' xs"
      "num_flushed t' = num_flushed t"
    using compute_root_ok [OF inv] i by (metis list.size(3) not_less_zero)
  let ?n = "root_node t'"
  note c = completedD [OF t'(2)]
  have nl: "nleaves ?n \<le> max_leaves" "i < nleaves ?n"
    using c(8,11) i by auto
  have ht: "nd_height ?n \<le> 30" "1 \<le> nd_height ?n"
    using wf_node_bounds [OF c(1) nl(1)] wf_leaves [OF c(1)] by auto
  have "walk_loop retract_callback True (nd_height ?n) (walk_bits (nd_height ?n) i) ?n () =
      Some (leaf_at ?n i, retracted ?n i, ())"
    unfolding walk_bits_eq [OF c(1) nl(1,2)]
    using c ht i(1) t'(3) nl by (intro walk_loop_retract [of _ _ "num_flushed t'"]) auto
  moreover have "i < nd_size ?n"
    using wf_size_eq [OF c(1)] nl by simp
  moreover have "\<not> (i < min_index t \<or> max_index t < i)"
    using i tree_inv_max_index [OF inv] by (simp add: min_index_def)
  ultimately show ?thesis
    using t' by (intro exI [of _ t']) (simp add: walk_to_def Let_def)
qed

lemma retract_pending:
  assumes "tree_inv hf t xs" and "num_flushed t + length (leaf_nodes t) \<le> i" and "i < length xs"
  shows "tree_inv hf (t\<lparr>uninserted_leaf_nodes :=
      take (i - (num_flushed t + length (leaf_nodes t)) + 1) (uninserted_leaf_nodes t)\<rparr>)
    (take (Suc i) xs)"
proof -
  let ?k = "i - (num_flushed t + length (leaf_nodes t)) + 1"
  let ?t = "t\<lparr>uninserted_leaf_nodes := take ?k (uninserted_leaf_nodes t)\<rparr>"
  obtain zs ys where xs: "xs = zs @ ys" and ins: "inserted hf t zs"
    and un: "uninserted_leaf_nodes t = map node_make ys" and len: "length xs \<le> max_leaves"
    using assms(1) by (auto simp: tree_inv_def)
  have "num_flushed t + length (leaf_nodes t) = length zs"
    using ins by (auto simp: inserted_def split: if_splits)
  then have "take (Suc i) xs = zs @ take ?k ys"
    using assms(2) by (simp add: xs Suc_diff_le)
  moreover have "inserted hf ?t zs"
    using ins by (simp add: inserted_def stack_inv_def whole_tree_def split: if_splits)
  moreover have "uninserted_leaf_nodes ?t = map node_make (take ?k ys)"
    using un by (simp add: take_map)
  moreover have "length (take (Suc i) xs) \<le> max_leaves"
    using len by simp
  ultimately show ?thesis
    unfolding tree_inv_def by blast
qed

lemma wf_leaf_node_make:
  assumes "wf_node n" and "nd_height n = 1"
  shows "n = node_make (nd_hash n)"
proof (cases n)
  case (Node h l r sz ht d)
  have "l = Null \<and> r = Null"
  proof (rule ccontr)
    assume "\<not> (l = Null \<and> r = Null)"
    with assms(1) have "wf_node l" "ht = nd_height l + 1"
      using wf_node_inner(1,7) unfolding Node by blast+
    with wf_leaves [of l] assms(2) Node show False by simp
  qed
  with assms show ?thesis
    unfolding Node by (simp add: node_make_eq)
qed (use assms in simp)

lemma retract_inserted:
  assumes t': "completed hf t' xs" and nf: "num_flushed t' \<le> i" and i: "i < length xs"
  shows "tree_inv hf (t'\<lparr>root_node := retracted (root_node t') i,
      leaf_nodes := take (Suc i - num_flushed t') (leaf_nodes t')\<rparr>) (take (Suc i) xs)"
    (is "tree_inv hf ?t _")
proof -
  let ?n = "root_node t'"
  note c = completedD [OF t']
  have "retracts hf xs (num_flushed t') i ?n (retracted ?n i)"
    using retracted_retracts [OF c(1,3,2,4) nf] i c(8,11) by simp
  then have r: "wf_node (retracted ?n i)" "nleaves (retracted ?n i) = Suc i"
      "hash_inv hf (retracted ?n i)" "conflated_below (num_flushed t') (retracted ?n i)"
      "represents hf (retracted ?n i) (take (Suc i) xs)"
    by (auto simp: retracts_def)
  then have "retracted ?n i \<noteq> Null"
    by auto
  then have "inserted hf ?t (take (Suc i) xs)"
    using r c nf i by (auto simp: inserted_def stack_inv_def whole_tree_def drop_take take_map)
  then show ?thesis
    using c(8,9) by (auto simp: tree_inv_def intro: exI [of _ "take (Suc i) xs"])
qed

lemma retract_to_walked:
  assumes inv: "tree_inv hf t xs" and t': "completed hf t' xs" "num_flushed t' = num_flushed t"
    and i: "num_flushed t \<le> i" "i < num_flushed t + length (leaf_nodes t)" "i < length xs"
    and walk: "walk_to hf sz i True retract_callback
        (t\<lparr>stats := (stats t)\<lparr>num_retract := num_retract (stats t) + 1\<rparr>\<rparr>) () =
      Inr (leaf_at (root_node t') i, t'\<lparr>root_node := retracted (root_node t') i\<rparr>, ())"
  shows "retract_to hf sz i t = Inr (t'\<lparr>root_node := retracted (root_node t') i,
    leaf_nodes := take (Suc i - num_flushed t') (leaf_nodes t')\<rparr>)"
proof -
  note c = completedD [OF t'(1)]
  have leaf: "leaf_at (root_node t') i = node_make (xs ! i)"
  proof -
    have "nd_height (leaf_at (root_node t') i) = 1 \<and> wf_node (leaf_at (root_node t') i)"
      using leaf_at_height [OF c(1,4)] i t'(2) c(11) by simp
    moreover have "nd_hash (leaf_at (root_node t') i) = xs ! i"
      using leaf_at_represents [OF c(1,2,4)] i t'(2) c(11) by simp
    ultimately show ?thesis
      using wf_leaf_node_make by metis
  qed
  have same: "(leaf_nodes t')[i - num_flushed t := leaf_at (root_node t') i] = leaf_nodes t'"
    unfolding leaf c(6) t'(2) using i by (intro list_update_same_conv [THEN iffD2]) auto
  have lens: "length (leaf_nodes t') = length xs - num_flushed t" "length xs < 2 ^ 64"
      "num_leaves (t'\<lparr>root_node := retracted (root_node t') i\<rparr>) = length xs"
    using c(6,8) t'(2) max_leaves_lt tree_inv_num_leaves [OF completed_tree_inv [OF t'(1)]]
    by (auto simp: num_leaves_def)
  have "num_leaves (t'\<lparr>root_node := retracted (root_node t') i,
      leaf_nodes := take (Suc i - num_flushed t') (leaf_nodes t')\<rparr>) = size_wrap (i + 1)"
    using c(9) t'(2) i lens(1) by (simp add: num_leaves_def Suc_diff_le)
  moreover have "length xs - Suc i < length xs - num_flushed t"
    using i by linarith
  ultimately show ?thesis
    using i tree_inv_max_index [OF inv] walk t'(2) lens
    by (simp add: retract_to_def Let_def min_index_def same size_sub_le Suc_diff_le)
qed

lemma retract_to_result:
  assumes "tree_inv hf t xs"
  shows "if length xs - 1 < i then \<exists>t'. retract_to hf sz i t = Inr t' \<and> tree_inv hf t' xs
    else if i < num_flushed t
      then retract_to hf sz i t = Inl (Runtime_Error ''leaf index out of bounds'')
    else \<exists>t'. retract_to hf sz i t = Inr t' \<and> tree_inv hf t' (take (Suc i) xs) \<and>
      num_flushed t' = num_flushed t"
proof -
  let ?t = "t\<lparr>stats := (stats t)\<lparr>num_retract := num_retract (stats t) + 1\<rparr>\<rparr>"
  note mx = tree_inv_max_index [OF assms]
  consider (high) "length xs - 1 < i" | (low) "i < num_flushed t" "i \<le> length xs - 1"
    | (pending) "i \<le> length xs - 1" "num_flushed t + length (leaf_nodes t) \<le> i"
    | (inside) "i < num_flushed t + length (leaf_nodes t)" "num_flushed t \<le> i" "i \<le> length xs - 1"
    by linarith
  then show ?thesis
  proof cases
    case high
    with assms mx show ?thesis by (simp add: retract_to_def Let_def)
  next
    case low
    with mx show ?thesis by (simp add: retract_to_def Let_def min_index_def)
  next
    case pending
    have "tree_inv hf (?t\<lparr>uninserted_leaf_nodes :=
        take (i - (num_flushed t + length (leaf_nodes t)) + 1) (uninserted_leaf_nodes t)\<rparr>)
      (take (Suc i) xs)"
    proof (cases "xs = []")
      case True
      then show ?thesis
        using assms by (auto simp: tree_inv_def)
    next
      case False
      with pending have "i < length xs"
        by (cases xs) auto
      with retract_pending [of hf ?t xs i] assms pending show ?thesis by simp
    qed
    with pending mx show ?thesis by (auto simp: retract_to_def Let_def min_index_def)
  next
    case inside
    have "num_flushed t + length (leaf_nodes t) \<le> length xs"
      using assms by (auto simp: tree_inv_def inserted_def split: if_splits)
    with inside have i: "i < length xs"
      by simp
    obtain t' where t': "completed hf t' xs" "num_flushed t' = num_flushed t"
      and walk: "walk_to hf sz i True retract_callback ?t () =
        Inr (leaf_at (root_node t') i, t'\<lparr>root_node := retracted (root_node t') i\<rparr>, ())"
      using walk_to_retract [of hf ?t xs i sz] assms inside i by auto
    have "retract_to hf sz i t = Inr (t'\<lparr>root_node := retracted (root_node t') i,
        leaf_nodes := take (Suc i - num_flushed t') (leaf_nodes t')\<rparr>)"
      using retract_to_walked [OF assms t' inside(2,1) i walk] .
    moreover have "tree_inv hf (t'\<lparr>root_node := retracted (root_node t') i,
        leaf_nodes := take (Suc i - num_flushed t') (leaf_nodes t')\<rparr>) (take (Suc i) xs)"
      using retract_inserted [OF t'(1) _ i] inside(2) t'(2) by simp
    ultimately show ?thesis
      using inside i t'(2) by auto
  qed
qed

text \<open>C10: retracting to an index that has not been flushed leaves the tree of the leaves up to
  that index, whether the index lies in the tree or among the pending leaves; an index at or
  behind the last leaf changes nothing, one below the first remaining leaf throws.\<close>

theorem retract_to_correct:
  assumes "tree_inv hf t xs"
  shows "if length xs - 1 < i then \<exists>t'. retract_to hf sz i t = Inr t' \<and> tree_inv hf t' xs
    else if i < num_flushed t
      then retract_to hf sz i t = Inl (Runtime_Error ''leaf index out of bounds'')
    else \<exists>t'. retract_to hf sz i t = Inr t' \<and> tree_inv hf t' (take (Suc i) xs) \<and>
      num_flushed t' = num_flushed t"
  using assms by (rule retract_to_result)

lemma tree_inv_example:
  assumes "length xs \<le> max_leaves"
  shows "tree_inv hf (tree_insert_list xs tree_empty) xs"
    and "num_flushed (tree_insert_list xs tree_empty) = 0"
proof -
  show "tree_inv hf (tree_insert_list xs tree_empty) xs"
    using tree_inv_insert_list [OF tree_inv_empty, of xs hf] assms by simp
  have "num_flushed (fold tree_insert ys t) = num_flushed t" for ys t
    by (induction ys arbitrary: t) (simp_all add: tree_insert_def)
  then show "num_flushed (tree_insert_list xs tree_empty) = 0"
    by (simp add: tree_insert_list_def tree_empty_def)
qed

lemma tree_inv_three:
  "tree_inv hf (tree_insert_list [[1], [2], [3]] tree_empty) [[1], [2], [3]]"
  "num_flushed (tree_insert_list [[1], [2], [3]] tree_empty) = 0"
  by (rule tree_inv_example; simp add: max_leaves_def)+

theorem retract_to_correct_witness:
  "\<exists>t'. retract_to (\<lambda>a b. a @ b) 1 1 (tree_insert_list [[1], [2], [3]] tree_empty) = Inr t' \<and>
     tree_inv (\<lambda>a b. a @ b) t' [[1], [2]] \<and> num_flushed t' = 0"
  using retract_to_correct [OF tree_inv_three(1), of 1 "\<lambda>a b. a @ b" 1] tree_inv_three(2)
  by simp

text \<open>\<open>past_root(i)\<close> is the root the tree has after \<open>retract_to(i)\<close>, as its comment
  says, for every index from the first leaf that is not flushed to the last; it is the Merkle
  root of the first \<open>i + 1\<close> leaves.\<close>

theorem past_root_of_retracted:
  assumes "tree_inv hf t xs" and "num_flushed t \<le> i" and "i < length xs"
  shows "\<exists>t1 t2 t3. past_root hf sz i t = Inr (merkle_root hf (take (Suc i) xs), t1) \<and>
    retract_to hf sz i t = Inr t2 \<and>
    tree_root hf sz t2 = Inr (merkle_root hf (take (Suc i) xs), t3)"
proof -
  obtain t1 where t1: "past_root hf sz i t = Inr (merkle_root hf (take (Suc i) xs), t1)"
    using past_root_eq [OF assms] by blast
  obtain t2 where t2: "retract_to hf sz i t = Inr t2" "tree_inv hf t2 (take (Suc i) xs)"
    using retract_to_result [OF assms(1), of i sz] assms(2,3) by (auto split: if_splits)
  have "take (Suc i) xs \<noteq> []"
    using assms(3) by (cases xs) auto
  with t1 t2 show ?thesis
    using tree_root_ok [OF t2(2)] by blast
qed

theorem past_root_of_retracted_witness:
  "\<exists>t1 t2 t3. past_root (\<lambda>a b. a @ b) 1 1 (tree_insert_list [[1], [2], [3]] tree_empty) =
      Inr (merkle_root (\<lambda>a b. a @ b) [[1], [2]], t1) \<and>
    retract_to (\<lambda>a b. a @ b) 1 1 (tree_insert_list [[1], [2], [3]] tree_empty) = Inr t2 \<and>
    tree_root (\<lambda>a b. a @ b) 1 t2 = Inr (merkle_root (\<lambda>a b. a @ b) [[1], [2]], t3)"
  using past_root_of_retracted [OF tree_inv_three(1), of 1 "\<lambda>a b. a @ b" 1] tree_inv_three(2)
  by simp

end
