(* ===== verification/Merkle_Serial.thy ===== *)
theory Merkle_Serial
  imports Merkle_Retract
begin

text \<open>
  The byte format of trees (\<open>TreeT::serialise\<close>, \<open>TreeT::deserialise\<close> and
  \<open>serialised_size\<close> of \<open>include/merklecpp.h\<close>): the numbers of leaves and of flushed
  leaves, the leaves, and the hashes of the subtrees left of the first leaf, from the lowest
  to the highest. Reading rebuilds the tree level by level. A segment of a tree is written
  the same way. \<open>cap\<close> is the greatest number of pointers a vector can reserve.
\<close>

section \<open>Writing\<close>

definition serialise_nodes :: "node list \<Rightarrow> bytes \<Rightarrow> bytes" where
  "serialise_nodes ns bytes = fold (\<lambda>n. hash_serialise (nd_hash n)) ns bytes"

definition extras_callback :: "node \<Rightarrow> bool \<Rightarrow> node list \<Rightarrow> bool \<times> node \<times> node list" where
  "extras_callback n go_right extras =
     (True, n, if go_right then extras @ [nd_left n] else extras)"

definition serialise_extras ::
  "(hash \<Rightarrow> hash \<Rightarrow> hash) \<Rightarrow> nat \<Rightarrow> nat \<Rightarrow> mtree \<Rightarrow> bytes \<Rightarrow> (bytes \<times> mtree) res" where
  "serialise_extras hf sz index t bytes =
     (if tree_is_empty t then Inr (bytes, t)
      else res_bind (compute_root hf sz t) (\<lambda>t.
           res_bind (walk_to hf sz index False extras_callback t []) (\<lambda>(_, t, extras).
             Inr (serialise_nodes (rev extras) bytes, t))))"

definition tree_serialise ::
  "(hash \<Rightarrow> hash \<Rightarrow> hash) \<Rightarrow> nat \<Rightarrow> mtree \<Rightarrow> bytes \<Rightarrow> (bytes \<times> mtree) res" where
  "tree_serialise hf sz t bytes =
     (let bytes = serialise_uint64_t
            (of_nat (length (leaf_nodes t) + length (uninserted_leaf_nodes t))) bytes;
          bytes = serialise_uint64_t (of_nat (num_flushed t)) bytes;
          bytes = serialise_nodes (leaf_nodes t) bytes;
          bytes = serialise_nodes (uninserted_leaf_nodes t) bytes
      in serialise_extras hf sz (min_index t) t bytes)"

fun serialise_leaves :: "mtree \<Rightarrow> nat list \<Rightarrow> bytes \<Rightarrow> bytes res" where
  "serialise_leaves t [] bytes = Inr bytes"
| "serialise_leaves t (i # is) bytes =
     res_bind (tree_leaf t i) (\<lambda>h. serialise_leaves t is (hash_serialise h bytes))"

definition tree_serialise_segment ::
  "(hash \<Rightarrow> hash \<Rightarrow> hash) \<Rightarrow> nat \<Rightarrow> nat \<Rightarrow> nat \<Rightarrow> mtree \<Rightarrow> bytes \<Rightarrow> (bytes \<times> mtree) res" where
  "tree_serialise_segment hf sz lo hi t bytes =
     (if (lo < min_index t \<or> max_index t < lo) \<or> (hi < min_index t \<or> max_index t < hi) \<or> hi < lo
      then Inl (Runtime_Error ''invalid leaf indices'')
      else let bytes = serialise_uint64_t (of_nat (hi - lo + 1)) bytes;
               bytes = serialise_uint64_t (of_nat lo) bytes
           in res_bind (serialise_leaves t [lo..<hi + 1] bytes) (serialise_extras hf sz lo t))"

section \<open>Reading\<close>

fun read_leaves :: "nat \<Rightarrow> bytes \<Rightarrow> nat \<Rightarrow> nat \<Rightarrow> node list \<Rightarrow> (node list \<times> nat) res" where
  "read_leaves sz bytes 0 position acc = Inr (acc, position)"
| "read_leaves sz bytes (Suc k) position acc =
     res_bind (hash_of_pointer sz bytes position)
       (\<lambda>h. read_leaves sz bytes k (position + sz) (acc @ [node_make h]))"

text \<open>
  A node for a flushed subtree. Its size is \<open>(1 << height) - 1\<close>, computed as an \<open>int\<close>, which
  C++ leaves undefined from height \<open>31\<close> on: \<open>restore_extra\<close> ends in \<open>Int_Overflow\<close> there.
\<close>

definition restored_node :: "hash \<Rightarrow> nat \<Rightarrow> node" where
  "restored_node h level_no =
     (case node_make h of Null \<Rightarrow> Null
      | Node h l r s ht d \<Rightarrow>
          let ht = (level_no + 1) mod 2 ^ 8 in Node h l r (max_size ht) ht d)"

definition restore_extra :: "nat \<Rightarrow> bytes \<Rightarrow> nat \<Rightarrow> nat \<Rightarrow> node list \<Rightarrow> (node list \<times> nat) res" where
  "restore_extra sz bytes position level_no level =
     res_bind (hash_of_vector_at sz bytes position) (\<lambda>(h, position).
       if 30 < (level_no + 1) mod 2 ^ 8 then Inl Int_Overflow
       else if node_invariant (restored_node h level_no)
       then Inr (restored_node h level_no # level, position) else Inl Assertion_Failed)"

fun rebuild_level :: "nat \<Rightarrow> node list \<Rightarrow> node list" where
  "rebuild_level sz [] = []"
| "rebuild_level sz [n] = [n]"
| "rebuild_level sz (l # r # ns) = node_make2 sz l r # rebuild_level sz ns"

lemma length_rebuild_level: "length (rebuild_level sz ns) = (length ns + 1) div 2"
  by (induction sz ns rule: rebuild_level.induct) auto

lemma res_bind_cong [fundef_cong]:
  "r = r' \<Longrightarrow> (\<And>x. r' = Inr x \<Longrightarrow> f x = g x) \<Longrightarrow> res_bind r f = res_bind r' g"
  by (cases r') auto

function rebuild_levels ::
  "nat \<Rightarrow> bytes \<Rightarrow> nat \<Rightarrow> nat \<Rightarrow> nat \<Rightarrow> node list \<Rightarrow> (node list \<times> nat) res" where
  "rebuild_levels sz bytes position it level_no level =
     (if it \<noteq> 0 \<or> 1 < length level
      then res_bind
        (if odd it then restore_extra sz bytes position level_no level else Inr (level, position))
        (\<lambda>(level, position).
          rebuild_levels sz bytes position (it div 2) ((level_no + 1) mod 2 ^ 8)
            (rebuild_level sz level))
      else Inr (level, position))"
  by pat_completeness auto
termination
  by (relation "measures [\<lambda>(sz, bytes, position, it, level_no, level). it,
        \<lambda>(sz, bytes, position, it, level_no, level). length level]")
    (auto simp: length_rebuild_level split: if_splits dest: odd_pos)

declare rebuild_levels.simps [simp del]

definition set_root :: "mtree \<Rightarrow> node list \<Rightarrow> mtree res" where
  "set_root t level =
     (case level of [] \<Rightarrow> Inr t
      | [n] \<Rightarrow> if node_invariant n then Inr (t\<lparr>root_node := n\<rparr>) else Inl Assertion_Failed
      | _ \<Rightarrow> Inl Assertion_Failed)"

definition tree_deserialise :: "nat \<Rightarrow> nat \<Rightarrow> bytes \<Rightarrow> nat \<Rightarrow> mtree \<Rightarrow> (mtree \<times> nat) res" where
  "tree_deserialise sz cap bytes position t =
     (let t = t\<lparr>leaf_nodes := [], uninserted_leaf_nodes := [], insertion_stack := [],
                root_node := Null\<rparr>
      in res_bind (deserialise_uint64_t bytes position) (\<lambda>(num_leaf_nodes, position).
         res_bind (deserialise_uint64_t bytes position) (\<lambda>(flushed, position).
         if cap < unat num_leaf_nodes then Inl Length_Error
         else res_bind (read_leaves sz bytes (unat num_leaf_nodes) position []) (\<lambda>(leaves, position).
         let t = t\<lparr>num_flushed := unat flushed, leaf_nodes := leaves\<rparr>
         in res_bind (rebuild_levels sz bytes position (unat flushed) 0 leaves) (\<lambda>(level, position).
            res_bind (set_root t level) (\<lambda>t. Inr (t, position)))))))"

definition tree_of_bytes :: "nat \<Rightarrow> nat \<Rightarrow> bytes \<Rightarrow> mtree res" where
  "tree_of_bytes sz cap bytes =
     res_bind (tree_deserialise sz cap bytes 0 tree_empty) (\<lambda>(t, _). Inr t)"

definition tree_of_bytes_at :: "nat \<Rightarrow> nat \<Rightarrow> bytes \<Rightarrow> nat \<Rightarrow> (mtree \<times> nat) res" where
  "tree_of_bytes_at sz cap bytes position = tree_deserialise sz cap bytes position tree_empty"

definition tree_of_root :: "hash \<Rightarrow> mtree" where
  "tree_of_root h = tree_insert h tree_empty"

text \<open>
  \<open>serialised_size\<close>. The sizes of \<open>size_t\<close> and of a hash are \<open>8\<close> and \<open>sz\<close>. The
  leaves are counted after the walk, which has inserted the pending ones.
\<close>

definition count_callback :: "node \<Rightarrow> bool \<Rightarrow> nat \<Rightarrow> bool \<times> node \<times> nat" where
  "count_callback n go_right num_extras =
     (True, n, if go_right then num_extras + 1 else num_extras)"

definition tree_serialised_size ::
  "(hash \<Rightarrow> hash \<Rightarrow> hash) \<Rightarrow> nat \<Rightarrow> mtree \<Rightarrow> (nat \<times> mtree) res" where
  "tree_serialised_size hf sz t =
     res_bind
       (if tree_is_empty t then Inr (0, t)
        else res_bind (walk_to hf sz (min_index t) False count_callback t 0)
          (\<lambda>(_, t, num_extras). Inr (num_extras, t)))
       (\<lambda>(num_extras, t).
         Inr (size_wrap (8 + 8 + length (leaf_nodes t) * sz + num_extras * sz), t))"

definition tree_serialised_size_segment ::
  "(hash \<Rightarrow> hash \<Rightarrow> hash) \<Rightarrow> nat \<Rightarrow> nat \<Rightarrow> nat \<Rightarrow> mtree \<Rightarrow> (nat \<times> mtree) res" where
  "tree_serialised_size_segment hf sz lo hi t =
     res_bind (walk_to hf sz lo False count_callback t 0) (\<lambda>(_, t, num_extras).
       Inr (size_wrap (8 + 8 + (size_sub hi lo + 1) * sz + num_extras * sz), t))"

text \<open>A number of flushed leaves that needs a node of height \<open>31\<close> or more is never accepted.\<close>

lemma rebuild_levels_high:
  "it \<noteq> 0 \<Longrightarrow> 30 \<le> k \<Longrightarrow> it < 2 ^ (255 - k) \<Longrightarrow> rebuild_levels sz bytes position it k level \<noteq> Inr r"
proof (induction sz bytes position it k level rule: rebuild_levels.induct)
  case (1 sz bytes position it k level)
  have "255 - k \<noteq> 0"
    using 1(2,4) by (cases "255 - k") auto
  then have k: "(k + 1) mod 2 ^ 8 = k + 1" and e: "255 - k = Suc (255 - (k + 1))"
    by simp_all
  show ?case
  proof (cases "odd it")
    case True
    then show ?thesis
      using 1(3) k by (subst rebuild_levels.simps) (auto simp: restore_extra_def res_bind_Inr_iff simp del: of_nat_add)
  next
    case False
    then have "it div 2 \<noteq> 0" "it div 2 < 2 ^ (255 - (k + 1))"
      using 1(2,4) unfolding e by (auto elim: oddE)
    then have "rebuild_levels sz bytes position (it div 2) ((k + 1) mod 2 ^ 8) (rebuild_level sz level) \<noteq> Inr r"
      using 1(2,3) False unfolding k by (intro 1(1) [unfolded k]) auto
    then show ?thesis
      using False 1(2) by (subst rebuild_levels.simps) simp
  qed
qed

lemma rebuild_levels_low:
  "rebuild_levels sz bytes position it k level = Inr r \<Longrightarrow> k \<le> 30 \<Longrightarrow> it < 2 ^ 64 \<Longrightarrow> it < 2 ^ (30 - k)"
proof (induction sz bytes position it k level rule: rebuild_levels.induct)
  case (1 sz bytes position it k level)
  show ?case
  proof (cases "it = 0 \<or> k = 30")
    case True
    moreover have "it < 2 ^ (255 - 30)"
      using 1(4) by simp
    ultimately show ?thesis
      using rebuild_levels_high [of it k sz bytes position level r] 1(2) by (cases "it = 0") auto
  next
    case False
    then obtain p ns where
      "(if odd it then restore_extra sz bytes position k level else Inr (level, position)) = Inr (ns, p)"
      "rebuild_levels sz bytes p (it div 2) ((k + 1) mod 2 ^ 8) (rebuild_level sz ns) = Inr r"
      using 1(2) by (subst (asm) rebuild_levels.simps) (auto simp: res_bind_Inr_iff)
    moreover have k: "(k + 1) mod 2 ^ 8 = k + 1" and e: "30 - k = Suc (30 - (k + 1))"
      using 1(3) False by auto
    ultimately have "it div 2 < 2 ^ (30 - (k + 1))"
      using False 1(3,4) by (intro 1(1) [of "(ns, p)", unfolded k]) auto
    then show ?thesis
      unfolding e by simp
  qed
qed

lemma tree_deserialise_flushed:
  assumes "tree_deserialise sz cap bytes position u = Inr (t, p)"
  shows "num_flushed t < 2 ^ 30"
proof -
  have root: "set_root t' level = Inr t \<Longrightarrow> num_flushed t = num_flushed t'" for t' level
    by (auto simp: set_root_def split: list.splits if_splits)
  have "rebuild_levels sz bytes q (unat fl) 0 ns = Inr r \<Longrightarrow> unat fl < 2 ^ 30" for q r ns and fl :: u64
    using rebuild_levels_low [of sz bytes q "unat fl" 0 ns r] unsigned_less [of fl] by simp
  then show ?thesis
    using assms unfolding tree_deserialise_def Let_def
    by (clarsimp simp: res_bind_Inr_iff split: if_splits) (drule root, simp)
qed

section \<open>The subtrees left of a leaf\<close>

definition block :: "nat \<Rightarrow> nat \<Rightarrow> 'a list \<Rightarrow> 'a list" where
  "block k j xs = take (2 ^ k) (drop (j * 2 ^ k) xs)"

text \<open>
  The hashes of the complete subtrees that make up the first \<open>it * 2 ^ k\<close> leaves, one per
  binary digit of \<open>it\<close>, the lowest first.
\<close>

function extra_hashes :: "(hash \<Rightarrow> hash \<Rightarrow> hash) \<Rightarrow> hash list \<Rightarrow> nat \<Rightarrow> nat \<Rightarrow> hash list" where
  "extra_hashes hf xs k it =
     (if it = 0 then []
      else (if odd it then [merkle_root hf (block k (it - 1) xs)] else []) @
        extra_hashes hf xs (Suc k) (it div 2))"
  by pat_completeness auto
termination
  by (relation "measure (\<lambda>(hf, xs, k, it). it)") auto

declare extra_hashes.simps [simp del]

lemma extra_hashes_0 [simp]: "extra_hashes hf xs k 0 = []"
  by (simp add: extra_hashes.simps)

text \<open>Only the leaves to the left matter.\<close>

lemma extra_hashes_take:
  "it * 2 ^ k \<le> n \<Longrightarrow> extra_hashes hf (take n xs) k it = extra_hashes hf xs k it"
proof (induction hf xs k it rule: extra_hashes.induct)
  case (1 hf xs k it)
  show ?case
  proof (cases "it = 0")
    case False
    have "it div 2 * 2 ^ Suc k = it div 2 * 2 * 2 ^ k"
      by simp
    also have "\<dots> \<le> it * 2 ^ k"
      by (intro mult_le_mono1) simp
    also have "\<dots> \<le> n"
      using 1(2) .
    finally have "extra_hashes hf (take n xs) (Suc k) (it div 2) = extra_hashes hf xs (Suc k) (it div 2)"
      by (rule 1(1) [OF False])
    moreover have "block k (it - 1) (take n xs) = block k (it - 1) xs"
    proof -
      have "2 ^ k + (it - 1) * 2 ^ k = it * 2 ^ k"
        using False by (cases it) auto
      then have "2 ^ k \<le> n - (it - 1) * 2 ^ k"
        using 1(2) by linarith
      then show ?thesis
        by (simp add: block_def drop_take min_def)
    qed
    ultimately show ?thesis
      by (subst (1 2) extra_hashes.simps) simp
  qed simp
qed

text \<open>Behind a complete subtree of \<open>2 ^ p\<close> leaves.\<close>

lemma extra_hashes_right:
  "j < 2 ^ q \<Longrightarrow> length ys = 2 ^ (k + q) \<Longrightarrow>
   extra_hashes hf (ys @ zs) k (2 ^ q + j) = extra_hashes hf zs k j @ [merkle_root hf ys]"
proof (induction q arbitrary: k j)
  case 0
  then show ?case
    by (subst extra_hashes.simps) (simp add: block_def)
next
  case (Suc q)
  have div: "(2 ^ Suc q + j) div 2 = 2 ^ q + j div 2"
    by simp
  have "j div 2 < 2 ^ q"
    using Suc.prems(1) by (simp add: less_mult_imp_div_less)
  then have IH: "extra_hashes hf (ys @ zs) (Suc k) (2 ^ q + j div 2) =
      extra_hashes hf zs (Suc k) (j div 2) @ [merkle_root hf ys]"
    using Suc.prems(2) by (intro Suc.IH) auto
  have block: "block k (2 ^ Suc q + j - 1) (ys @ zs) = block k (j - 1) zs" if jo: "odd j"
  proof -
    obtain i where j: "j = Suc i"
      using jo by (cases j) simp_all
    have "(2 ^ Suc q + i) * 2 ^ k = length ys + i * 2 ^ k"
      using Suc.prems(2) by (simp add: distrib_right power_add)
    then show ?thesis
      by (simp add: block_def j)
  qed
  have nz: "2 ^ Suc q + j \<noteq> 0" and odd: "odd (2 ^ Suc q + j) \<longleftrightarrow> odd j"
    by simp_all
  have "extra_hashes hf (ys @ zs) k (2 ^ Suc q + j) =
      (if odd j then [merkle_root hf (block k (j - 1) zs)] else []) @
      extra_hashes hf (ys @ zs) (Suc k) (2 ^ q + j div 2)"
    by (subst extra_hashes.simps)
      (cases "odd j"; simp only: div nz odd block if_True if_False simp_thms)
  also have "\<dots> = extra_hashes hf zs k j @ [merkle_root hf ys]"
    unfolding IH by (subst (2) extra_hashes.simps) simp
  finally show ?case .
qed

definition left_siblings :: "node \<Rightarrow> nat \<Rightarrow> node list" where
  "left_siblings n i = map (\<lambda>(n, g). nd_left n) (filter snd (route n i))"

lemma left_siblings_extras:
  "wf_node n \<Longrightarrow> hash_inv hf n \<Longrightarrow> \<not> nd_dirty n \<Longrightarrow> represents hf n xs \<Longrightarrow>
   conflated_below k n \<Longrightarrow> k \<le> i \<Longrightarrow> i < nleaves n \<Longrightarrow>
   map nd_hash (rev (left_siblings n i)) = extra_hashes hf xs 0 i"
proof (induction n arbitrary: xs k i)
  case Null
  then show ?case by simp
next
  case (Node h l r s ht d)
  show ?case
  proof (cases "l = Null \<and> r = Null")
    case True
    with Node.prems have "i = 0"
      by auto
    with True show ?thesis by (simp add: left_siblings_def)
  next
    case False
    note w = wf_node_inner [OF Node.prems(1) False]
    have clean: "\<not> nd_dirty l" "\<not> nd_dirty r" "hash_inv hf l" "hash_inv hf r"
        "conflated_below k l" "conflated_below (k - nleaves l) r"
      using False Node.prems by auto
    obtain ys zs where xs: "xs = ys @ zs" and rep: "represents hf l ys" "represents hf r zs"
      and len: "length ys = 2 ^ (nd_height l - 1)" "length ys = nleaves l"
        "length zs = nleaves r" "length zs \<le> 2 ^ (nd_height l - 1)"
      using represents_inner [OF Node.prems(1) False Node.prems(4)] by metis
    show ?thesis
    proof (cases "i < nleaves l")
      case True
      have "extra_hashes hf (take (nleaves l) xs) 0 i = extra_hashes hf xs 0 i"
        using True by (intro extra_hashes_take) simp
      then have "extra_hashes hf ys 0 i = extra_hashes hf xs 0 i"
        by (simp add: xs flip: len(2))
      with Node.IH(1) [OF w(1) clean(3,1) rep(1) clean(5) Node.prems(6) True] True w(3)
      show ?thesis by (simp add: left_siblings_def)
    next
      case right: False
      let ?i = "i - nleaves l"
      have i: "k - nleaves l \<le> ?i" "?i < nleaves r"
        using Node.prems(6,7) False right by auto
      have "extra_hashes hf (ys @ zs) 0 (2 ^ (nd_height l - 1) + ?i) =
          extra_hashes hf zs 0 ?i @ [merkle_root hf ys]"
        using i(2) len by (intro extra_hashes_right) auto
      moreover have "2 ^ (nd_height l - 1) + ?i = i"
        using right len by simp
      ultimately show ?thesis
        using Node.IH(2) [OF w(2) clean(4,2) rep(2) clean(6) i] False right
          merkle_root_of_clean [OF w(1) clean(3,1) rep(1)]
        by (simp add: left_siblings_def xs)
    qed
  qed
qed

section \<open>Rebuilding the levels\<close>

text \<open>
  A node of level \<open>k\<close> stands for the block \<open>j\<close> of \<open>2 ^ k\<close> leaves, the last of which may be
  shorter; a level is a list of nodes for the blocks from \<open>j\<close> to the last.
\<close>

definition block_node :: "nat \<Rightarrow> (hash \<Rightarrow> hash \<Rightarrow> hash) \<Rightarrow> hash list \<Rightarrow> nat \<Rightarrow> nat \<Rightarrow> node \<Rightarrow> bool" where
  "block_node f hf xs k j n \<longleftrightarrow> wf_node n \<and> represents hf n (block k j xs) \<and> hash_inv hf n \<and>
     conflated_below (f - j * 2 ^ k) n \<and> nd_height n \<le> k + 1 \<and>
     (2 ^ k \<le> f - j * 2 ^ k \<longrightarrow> nd_left n = Null)"

fun level_from ::
  "nat \<Rightarrow> (hash \<Rightarrow> hash \<Rightarrow> hash) \<Rightarrow> hash list \<Rightarrow> nat \<Rightarrow> nat \<Rightarrow> node list \<Rightarrow> bool" where
  "level_from f hf xs k j [] \<longleftrightarrow> length xs \<le> j * 2 ^ k"
| "level_from f hf xs k j (n # ns) \<longleftrightarrow>
     block_node f hf xs k j n \<and> j * 2 ^ k < length xs \<and> level_from f hf xs k (Suc j) ns"

lemma block_pair: "block (Suc k) m xs = block k (2 * m) xs @ block k (Suc (2 * m)) xs"
proof -
  have "block (Suc k) m xs = take (2 ^ k + 2 ^ k) (drop (2 * m * 2 ^ k) xs)"
    by (simp add: block_def mult_2 ac_simps)
  also have "\<dots> = block k (2 * m) xs @ take (2 ^ k) (drop (2 ^ k + 2 * m * 2 ^ k) xs)"
    by (simp only: take_add block_def drop_drop)
  finally show ?thesis
    by (simp add: block_def)
qed

lemma length_block: "j * 2 ^ k + 2 ^ k \<le> length xs \<Longrightarrow> length (block k j xs) = 2 ^ k"
  by (simp add: block_def)

lemma block_node_full:
  assumes "block_node f hf xs k j n" and "j * 2 ^ k + 2 ^ k \<le> length xs"
    and "length xs \<le> max_leaves"
  shows "nleaves n = 2 ^ k" and "nd_height n = k + 1" and "is_full n"
proof -
  have wf: "wf_node n" and rep: "represents hf n (block k j xs)" and ht: "nd_height n \<le> k + 1"
    using assms(1) by (auto simp: block_node_def)
  show nl: "nleaves n = 2 ^ k"
    using represents_length [OF wf rep] length_block [OF assms(2)] by simp
  then have "(2::nat) ^ k \<le> 2 ^ (nd_height n - 1)"
    using wf_leaves [OF wf] by simp
  then have "k \<le> nd_height n - 1"
    by (rule power_le_imp_le_exp [rotated]) simp
  with ht wf_leaves [OF wf] show h: "nd_height n = k + 1"
    by linarith
  have "nleaves n \<le> max_leaves"
    using nl assms(2,3) by linarith
  with nl h show "is_full n"
    using is_full_iff [OF wf] by simp
qed

lemma block_node_pair:
  assumes l: "block_node f hf xs k (2 * m) l" and r: "block_node f hf xs k (Suc (2 * m)) r"
    and more: "Suc (2 * m) * 2 ^ k < length xs" and max: "length xs \<le> max_leaves"
    and f: "f < Suc m * 2 ^ Suc k"
  shows "block_node f hf xs (Suc k) m (node_make2 sz l r)"
proof -
  have full: "2 * m * 2 ^ k + 2 ^ k \<le> length xs"
    using more by simp
  note fl = block_node_full [OF l full max]
  have wl: "wf_node l" "represents hf l (block k (2 * m) xs)"
    and wr: "wf_node r" "represents hf r (block k (Suc (2 * m)) xs)" "nd_height r \<le> nd_height l"
    using l r fl(2) by (auto simp: block_node_def)
  have "nleaves r \<le> length xs - Suc (2 * m) * 2 ^ k"
    using represents_length [OF wr(1,2)] by (simp add: block_def)
  then have le: "nleaves l + nleaves r \<le> max_leaves"
    using fl(1) more max by simp
  note up = update_sizes_inner [OF wl(1) wr(1) fl(3) wr(3) le]
  let ?n = "Node (hash_zero sz) l r (nd_size l + nd_size r + 1) (nd_height l + 1) True"
  have eq: "node_make2 sz l r = ?n"
    unfolding node_make2_def by (rule up(1))
  have nn: "l \<noteq> Null" "r \<noteq> Null"
    using wl(1) wr(1) by auto
  have "represents hf ?n (block (Suc k) m xs)"
    unfolding block_pair
    using nn wl(2) wr(2) represents_length [OF wl] by (intro represents_innerI) auto
  moreover have "conflated_below (f - m * 2 ^ Suc k) ?n"
    using l r nn fl(1) by (auto simp: block_node_def ac_simps mult_2)
  moreover have "\<not> 2 ^ Suc k \<le> f - m * 2 ^ Suc k"
    using f zero_less_power [of "2::nat" "Suc k"] unfolding mult_Suc by linarith
  ultimately show ?thesis
    using up(2) l r fl(2) nn unfolding eq by (auto simp: block_node_def)
qed

lemma block_node_carry:
  assumes "block_node f hf xs k (2 * m) n" and "length xs \<le> Suc (2 * m) * 2 ^ k"
  shows "block_node f hf xs (Suc k) m n"
proof -
  have "block k (Suc (2 * m)) xs = []"
    using assms(2) by (simp add: block_def)
  then show ?thesis
    using assms(1) by (auto simp: block_node_def block_pair ac_simps)
qed

lemma rebuild_level_from:
  "level_from f hf xs k (2 * m) ns \<Longrightarrow> length xs \<le> max_leaves \<Longrightarrow> f < Suc m * 2 ^ Suc k \<Longrightarrow>
   level_from f hf xs (Suc k) m (rebuild_level sz ns)"
proof (induction sz ns arbitrary: m rule: rebuild_level.induct)
  case (1 sz)
  then show ?case by (simp add: ac_simps)
next
  case (2 sz n)
  then show ?case
    using block_node_carry [of f hf xs k m n] by (simp add: ac_simps)
next
  case (3 sz l r ns)
  have "level_from f hf xs k (2 * Suc m) ns" and "f < Suc (Suc m) * 2 ^ Suc k"
    using 3(2,4) by simp_all
  then show ?case
    using 3 block_node_pair [of f hf xs k m l r sz] by (simp add: ac_simps)
qed

lemma level_from_leaves:
  "level_from f hf xs 0 j (map node_make (drop j xs))"
proof (induction "length xs - j" arbitrary: j)
  case 0
  then show ?case by simp
next
  case (Suc d)
  then have j: "j < length xs" and IH: "level_from f hf xs 0 (Suc j) (map node_make (drop (Suc j) xs))"
    by auto
  have "drop j xs = xs ! j # drop (Suc j) xs"
    using j by (simp add: Cons_nth_drop_Suc)
  moreover have "block 0 j xs = [xs ! j]"
    using j by (simp add: block_def take_Suc_conv_app_nth hd_drop_conv_nth take_Suc)
  ultimately show ?case
    using IH j by (simp add: block_node_def node_make_eq)
qed

lemma level_bound:
  assumes "level_from f hf xs k (f div 2 ^ k) level" and "f < length xs" and "length xs \<le> max_leaves"
    and "f div 2 ^ k \<noteq> 0 \<or> 1 < length level"
  shows "k < 29"
proof -
  have "2 ^ k < length xs"
  proof (cases "f div 2 ^ k = 0")
    case True
    with assms(4) have "1 < length level"
      by simp
    then obtain n m ns where "level = n # m # ns"
      by (cases level; cases "tl level") auto
    with assms(1) True show ?thesis by simp
  next
    case False
    then have "2 ^ k \<le> f"
      by (simp add: div_eq_0_iff)
    with assms(2) show ?thesis by simp
  qed
  then have "(2::nat) ^ k < max_leaves"
    using assms(3) by linarith
  then have "(2::nat) ^ k < 2 ^ 29"
    by (simp only: max_leaves_def)
  then show ?thesis
    by (rule power_less_imp_less_exp [rotated]) simp
qed

lemma restored_node_eq:
  assumes "k < 29"
  shows "restored_node h k = Node h Null Null (2 ^ (k + 1) - 1) (k + 1) False"
  using assms max_size_eq [of "k + 1"] by (simp add: restored_node_def node_make_eq)

lemma restored_block_node:
  assumes "k < 29" and "it = f div 2 ^ k" and "it \<noteq> 0" and "f \<le> length xs"
  shows "block_node f hf xs k (it - 1) (restored_node (merkle_root hf (block k (it - 1) xs)) k)"
proof -
  have it: "it * 2 ^ k \<le> f"
    by (simp add: assms(2))
  moreover have eq: "(it - 1) * 2 ^ k + 2 ^ k = it * 2 ^ k"
    using assms(3) by (cases it) auto
  ultimately have "length (block k (it - 1) xs) = 2 ^ k"
    using assms(4) by (intro length_block) simp
  moreover have "2 ^ k \<le> f - (it - 1) * 2 ^ k"
    using it eq by linarith
  ultimately show ?thesis
    by (simp add: block_node_def restored_node_eq [OF assms(1)])
qed

lemma restore_extra_ok:
  assumes "k < 29" and "drop position bs = h @ rest" and "position \<le> length bs"
    and "length bs < 2 ^ 64" and "length h = sz"
  shows "restore_extra sz bs position k level = Inr (restored_node h k # level, position + sz)"
  using hash_deserialise_at(2) [OF assms(2,3,5,4)] assms(1)
  by (simp add: restore_extra_def restored_node_eq)

text \<open>Reading the extra hashes and rebuilding the levels gives the tree of all leaves.\<close>

definition rebuilt :: "nat \<Rightarrow> (hash \<Rightarrow> hash \<Rightarrow> hash) \<Rightarrow> hash list \<Rightarrow> node \<Rightarrow> bool" where
  "rebuilt f hf xs n \<longleftrightarrow> wf_node n \<and> represents hf n xs \<and> hash_inv hf n \<and> conflated_below f n"

lemma rebuild_levels_ok:
  "level_from f hf xs k it level \<Longrightarrow> it = f div 2 ^ k \<Longrightarrow> level_no = k \<Longrightarrow>
   drop position bs = concat (extra_hashes hf xs k it) @ rest \<Longrightarrow> position \<le> length bs \<Longrightarrow>
   \<forall>h\<in>set (extra_hashes hf xs k it). length h = sz \<Longrightarrow>
   f < length xs \<Longrightarrow> length xs \<le> max_leaves \<Longrightarrow> length bs < 2 ^ 64 \<Longrightarrow>
   \<exists>n. rebuild_levels sz bs position it level_no level =
      Inr ([n], position + length (concat (extra_hashes hf xs k it))) \<and> rebuilt f hf xs n"
proof (induction sz bs position it level_no level arbitrary: k rule: rebuild_levels.induct)
  case (1 sz bs position it level_no level)
  note lev = 1(2) and it = 1(3) and k = 1(4) and bs = 1(5,6,10) and sz = 1(7) and xs = 1(8,9)
  show ?case
  proof (cases "it \<noteq> 0 \<or> 1 < length level")
    case False
    then have it0: "it = 0" "length level \<le> 1"
      by auto
    then obtain n where n: "level = [n]"
      using lev xs(1) by (cases level) auto
    then have "block_node f hf xs k 0 n" and "length xs \<le> 2 ^ k"
      using lev it0 by auto
    then have "rebuilt f hf xs n"
      by (simp add: rebuilt_def block_node_def block_def)
    with False n it0(1) show ?thesis
      by (subst rebuild_levels.simps) simp
  next
    case True
    have k29: "k < 29"
      using level_bound [of f hf xs k level] lev it xs True by simp
    then have ln: "(level_no + 1) mod 2 ^ 8 = Suc k"
      using k by simp
    have it': "it div 2 = f div 2 ^ Suc k"
      by (simp only: it power_Suc2 div_mult2_eq)
    define h where "h = merkle_root hf (block k (it - 1) xs)"
    define level' where "level' = (if odd it then restored_node h k # level else level)"
    define p where "p = (if odd it then position + sz else position)"
    have eh: "extra_hashes hf xs k it =
        (if odd it then [h] else []) @ extra_hashes hf xs (Suc k) (it div 2)"
      unfolding h_def by (subst extra_hashes.simps) auto
    have sz': "odd it \<Longrightarrow> length h = sz" "\<forall>h\<in>set (extra_hashes hf xs (Suc k) (it div 2)). length h = sz"
      using sz by (auto simp: eh)
    let ?rest = "concat (extra_hashes hf xs (Suc k) (it div 2)) @ rest"
    have step: "(if odd it then restore_extra sz bs position level_no level else Inr (level, position))
        = Inr (level', p)"
      using restore_extra_ok [of k position bs h ?rest sz level] k29 bs sz'(1) k
      by (simp add: level'_def p_def eh)
    have "level_from f hf xs k (2 * (it div 2)) level'"
    proof (cases "odd it")
      case odd: True
      then have "2 * (it div 2) = it - 1" "it \<noteq> 0" "Suc (it - 1) = it"
        by (auto elim: oddE)
      moreover have "(it - 1) * 2 ^ k < length xs"
      proof -
        have "(it - 1) * 2 ^ k \<le> it * 2 ^ k"
          by simp
        also have "\<dots> \<le> f"
          by (simp add: it)
        finally show ?thesis using xs(1) by simp
      qed
      ultimately show ?thesis
        using restored_block_node [OF k29 it, of xs hf] xs(1) lev odd
        by (simp add: level'_def h_def del: One_nat_def)
    next
      case False
      then have "2 * (it div 2) = it"
        by simp
      with False lev show ?thesis
        by (simp only: level'_def if_False)
    qed
    then have lev': "level_from f hf xs (Suc k) (it div 2) (rebuild_level sz level')"
      using xs(2) it' dividend_less_times_div [of "2 ^ Suc k" f]
      by (intro rebuild_level_from) (auto simp: mult.commute)
    have "drop p bs = ?rest" and "p \<le> length bs"
    proof -
      define e where "e = (if odd it then h else [])"
      have d: "drop position bs = e @ ?rest"
        using bs(1) by (simp add: eh e_def)
      have p: "p = position + length e"
        using sz'(1) by (simp add: p_def e_def)
      have "length (drop position bs) = length (e @ ?rest)"
        by (simp only: d)
      then show "p \<le> length bs"
        using bs(2) p by simp
      have "drop p bs = drop (length e) (drop position bs)"
        by (simp add: p add.commute)
      also have "\<dots> = ?rest"
        unfolding d by simp
      finally show "drop p bs = ?rest" .
    qed
    then obtain n where "rebuild_levels sz bs p (it div 2) ((level_no + 1) mod 2 ^ 8)
          (rebuild_level sz level') =
        Inr ([n], p + length (concat (extra_hashes hf xs (Suc k) (it div 2))))"
      and "rebuilt f hf xs n"
      using 1(1) [OF True step refl lev' it' ln _ _ sz'(2) xs bs(3)] by blast
    moreover have "p + length (concat (extra_hashes hf xs (Suc k) (it div 2))) =
        position + length (concat (extra_hashes hf xs k it))"
      using sz'(1) by (simp add: p_def eh)
    ultimately show ?thesis
      using True step by (subst rebuild_levels.simps) simp
  qed
qed

lemma read_leaves_ok:
  "\<forall>x\<in>set xs. length x = sz \<Longrightarrow> drop position bs = concat xs @ rest \<Longrightarrow> position \<le> length bs \<Longrightarrow>
   read_leaves sz bs (length xs) position acc =
     Inr (acc @ map node_make xs, position + length (concat xs))"
proof (induction xs arbitrary: position acc)
  case Nil
  then show ?case by simp
next
  case (Cons x xs)
  have "length (drop position bs) = length (x @ concat xs @ rest)"
    using Cons.prems(2) by simp
  then have le: "position + sz \<le> length bs"
    using Cons.prems(1,3) by simp
  have "drop (position + sz) bs = drop sz (drop position bs)"
    by (simp add: add.commute)
  also have "\<dots> = concat xs @ rest"
    using Cons.prems(1,2) by simp
  finally have "read_leaves sz bs (length xs) (position + sz) (acc @ [node_make x]) =
      Inr ((acc @ [node_make x]) @ map node_make xs, position + sz + length (concat xs))"
    using Cons.prems(1) le by (intro Cons.IH) auto
  moreover have "take sz (drop position bs) = x"
    using Cons.prems(1,2) by simp
  ultimately show ?case
    using le Cons.prems(1) by (simp add: hash_of_pointer_def)
qed

section \<open>The byte format\<close>

definition tree_bytes :: "(hash \<Rightarrow> hash \<Rightarrow> hash) \<Rightarrow> hash list \<Rightarrow> nat \<Rightarrow> bytes" where
  "tree_bytes hf xs f = uint64_bytes (of_nat (length xs - f)) @ uint64_bytes (of_nat f) @
     concat (drop f xs) @ concat (extra_hashes hf xs 0 f)"

lemma length_extra_hashes:
  "it * 2 ^ k \<le> length xs \<Longrightarrow> \<forall>x\<in>set xs. length x = sz \<Longrightarrow> \<forall>a b. length (hf a b) = sz \<Longrightarrow>
   \<forall>h\<in>set (extra_hashes hf xs k it). length h = sz"
proof (induction hf xs k it rule: extra_hashes.induct)
  case (1 hf xs k it)
  show ?case
  proof (cases "it = 0")
    case False
    have "it div 2 * 2 ^ Suc k = it div 2 * 2 * 2 ^ k"
      by simp
    also have "\<dots> \<le> it * 2 ^ k"
      by (intro mult_le_mono1) simp
    also have "\<dots> \<le> length xs"
      using 1(2) .
    finally have IH: "\<forall>h\<in>set (extra_hashes hf xs (Suc k) (it div 2)). length h = sz"
      using 1(1) [OF False] 1(3,4) by blast
    have "(it - 1) * 2 ^ k + 2 ^ k = it * 2 ^ k"
      using False by (cases it) auto
    then have "length (block k (it - 1) xs) = 2 ^ k"
      using 1(2) by (intro length_block) simp
    then have "block k (it - 1) xs \<noteq> []"
      by auto
    moreover have "\<forall>x\<in>set (block k (it - 1) xs). length x = sz"
      using 1(3) by (auto simp: block_def dest: in_set_takeD in_set_dropD)
    ultimately have "length (merkle_root hf (block k (it - 1) xs)) = sz"
      using 1(4) by (intro length_merkle_root) auto
    with IH False show ?thesis
      by (subst extra_hashes.simps) auto
  qed simp
qed

lemma serialise_nodes_eq: "serialise_nodes ns bytes = bytes @ concat (map nd_hash ns)"
  unfolding serialise_nodes_def by (induction ns arbitrary: bytes) auto

lemma serialise_extras_ok:
  assumes inv: "tree_inv hf t xs" and i: "num_flushed t \<le> i" "i < length xs"
  shows "\<exists>t'. serialise_extras hf sz i t bytes = Inr (bytes @ concat (extra_hashes hf xs 0 i), t') \<and>
    completed hf t' xs \<and> num_flushed t' = num_flushed t"
proof -
  have cb: "extras_callback = (\<lambda>n g es. (True, n, if g then es @ [nd_left n] else es))"
    by (simp add: fun_eq_iff extras_callback_def)
  have fold: "fold (\<lambda>(n, g) es. if g then es @ [nd_left n] else es) ps es =
      es @ map (\<lambda>(n, g). nd_left n) (filter snd ps)" for ps es
    by (induction ps arbitrary: es) auto
  have ne: "xs \<noteq> []"
    using i(2) by auto
  then obtain t1 where t1: "compute_root hf sz t = Inr t1" "completed hf t1 xs"
      "num_flushed t1 = num_flushed t"
    using compute_root_ok [OF inv] by blast
  obtain t2 where t2: "completed hf t2 xs" "num_flushed t2 = num_flushed t1"
    and walk: "walk_to hf sz i False extras_callback t1 [] =
      Inr (leaf_at (root_node t2) i, t2, left_siblings (root_node t2) i)"
    using walk_to_steps [of "\<lambda>n g. n" hf t1 xs i sz
        "\<lambda>n g es. if g then es @ [nd_left n] else es" "[]"] completed_tree_inv [OF t1(2)] t1(3) i
    by (auto simp: cb rebuild_id fold left_siblings_def)
  note c = completedD [OF t2(1)]
  have "map nd_hash (rev (left_siblings (root_node t2) i)) = extra_hashes hf xs 0 i"
    using left_siblings_extras [OF c(1,3,5,2,4)] i t2(2) t1(3) c(11) by simp
  moreover have "\<not> tree_is_empty t"
    using tree_inv_num_leaves [OF inv] ne by (simp add: tree_is_empty_def)
  ultimately show ?thesis
    using t1 t2 walk by (simp add: serialise_extras_def serialise_nodes_eq)
qed

lemma tree_serialise_ok:
  assumes inv: "tree_inv hf t xs"
  shows "\<exists>t'. tree_serialise hf sz t bytes = Inr (bytes @ tree_bytes hf xs (num_flushed t), t') \<and>
    tree_inv hf t' xs \<and> num_flushed t' = num_flushed t"
proof -
  obtain zs ys where xs: "xs = zs @ ys" and ins: "inserted hf t zs"
    and un: "uninserted_leaf_nodes t = map node_make ys"
    using inv by (auto simp: tree_inv_def)
  have ln: "leaf_nodes t = map node_make (drop (num_flushed t) zs)" "num_flushed t \<le> length zs"
    using ins by (auto simp: inserted_def split: if_splits)
  let ?head = "uint64_bytes (of_nat (length xs - num_flushed t)) @
    uint64_bytes (of_nat (num_flushed t)) @ concat (drop (num_flushed t) xs)"
  have head: "tree_serialise hf sz t bytes =
      serialise_extras hf sz (num_flushed t) t (bytes @ ?head)"
    using ln(2) by (simp add: tree_serialise_def serialise_uint64_eq serialise_nodes_eq ln un xs
        min_index_def comp_def Let_def)
  show ?thesis
  proof (cases "xs = []")
    case True
    then have "tree_is_empty t" "num_flushed t = 0"
      using tree_inv_num_leaves [OF inv] tree_inv_flushed [OF inv] by (auto simp: tree_is_empty_def)
    with True head inv show ?thesis
      by (simp add: serialise_extras_def tree_bytes_def)
  next
    case False
    then have "num_flushed t < length xs"
      using tree_inv_flushed [OF inv] by auto
    then obtain t' where "serialise_extras hf sz (num_flushed t) t (bytes @ ?head) =
        Inr ((bytes @ ?head) @ concat (extra_hashes hf xs 0 (num_flushed t)), t')"
        "completed hf t' xs" "num_flushed t' = num_flushed t"
      using serialise_extras_ok [OF inv] by blast
    with head show ?thesis
      using completed_tree_inv by (auto simp: tree_bytes_def)
  qed
qed

lemma tree_deserialise_ok:
  assumes f: "f = 0 \<or> f < length xs" and len: "length xs \<le> max_leaves" "length xs \<le> cap"
    and sz: "\<forall>x\<in>set xs. length x = sz" "\<forall>a b. length (hf a b) = sz"
    and bs: "drop position bs = tree_bytes hf xs f @ rest" "position \<le> length bs"
      "length bs < 2 ^ 64"
  shows "\<exists>t'. tree_deserialise sz cap bs position t =
      Inr (t', position + length (tree_bytes hf xs f)) \<and>
    tree_inv hf t' xs \<and> num_flushed t' = f \<and> stats t' = stats t"
proof -
  let ?n = "of_nat (length xs - f) :: u64" and ?ls = "drop f xs"
  let ?es = "concat (extra_hashes hf xs 0 f)"
  have small: "length xs < 2 ^ 64" "f < 2 ^ 64"
    using len(1) max_leaves_lt f by auto
  then have u: "unat ?n = length ?ls" "unat (of_nat f :: u64) = f"
    by (simp_all add: unat_of_nat_u64 less_imp_diff_less)
  have flen: "f \<le> length xs"
    using f by auto
  have bl: "length bs = position + (16 + length (concat ?ls) + length ?es + length rest)"
  proof -
    have "length (drop position bs) = length (tree_bytes hf xs f @ rest)"
      by (simp only: bs(1))
    then show ?thesis
      using bs(2) by (simp add: tree_bytes_def)
  qed
  have d0: "drop position bs = uint64_bytes ?n @ uint64_bytes (of_nat f) @ concat ?ls @ ?es @ rest"
    by (simp add: bs(1) tree_bytes_def)
  have d1: "drop (position + 8) bs = uint64_bytes (of_nat f) @ concat ?ls @ ?es @ rest"
    using arg_cong [OF d0, of "drop 8"] by (simp add: add.commute)
  have d2: "drop (position + 16) bs = concat ?ls @ ?es @ rest"
    using arg_cong [OF d1, of "drop 8"] by (simp add: add.commute add.left_commute)
  let ?p = "position + 16 + length (concat ?ls)"
  have d3: "drop ?p bs = ?es @ rest"
    using arg_cong [OF d2, of "drop (length (concat ?ls))"] by (simp add: ac_simps)
  have r0: "deserialise_uint64_t bs position = Inr (?n, position + 8)"
    using deserialise_uint64_at [OF d0 bs(2)] .
  have r1: "deserialise_uint64_t bs (position + 8) = Inr (of_nat f, position + 16)"
    using deserialise_uint64_at [OF d1] bl by simp
  have "\<forall>x\<in>set ?ls. length x = sz"
    using sz(1) by (auto dest: in_set_dropD)
  then have r2: "read_leaves sz bs (length xs - f) (position + 16) [] = Inr (map node_make ?ls, ?p)"
    using read_leaves_ok [of ?ls sz "position + 16" bs "?es @ rest" "[]"] d2 bl by simp
  let ?t = "t\<lparr>uninserted_leaf_nodes := [], insertion_stack := [], root_node := Null,
    num_flushed := f, leaf_nodes := map node_make ?ls\<rparr>"
  have run: "tree_deserialise sz cap bs position t =
      res_bind (rebuild_levels sz bs ?p f 0 (map node_make ?ls)) (\<lambda>(level, position).
        res_bind (set_root ?t level) (\<lambda>t. Inr (t, position)))"
  proof -
    have "\<not> cap < length xs - f"
      using len(2) by simp
    then show ?thesis
      by (simp add: tree_deserialise_def r0 r1 r2 u Let_def)
  qed
  have len_b: "?p + length ?es = position + length (tree_bytes hf xs f)"
    by (simp add: tree_bytes_def)
  show ?thesis
  proof (cases "xs = []")
    case True
    then have "f = 0"
      using f by simp
    moreover from this True have "rebuild_levels sz bs ?p f 0 (map node_make ?ls) = Inr ([], ?p)"
      by (subst rebuild_levels.simps) simp
    moreover from True calculation(1) have "tree_inv hf ?t xs"
      by (simp add: tree_inv_def inserted_def)
    ultimately show ?thesis
      using True len_b unfolding run by (simp add: set_root_def)
  next
    case False
    then have fx: "f < length xs"
      using f by auto
    have es: "\<forall>h\<in>set (extra_hashes hf xs 0 f). length h = sz"
      using length_extra_hashes [OF _ sz, of f 0] flen by simp
    have pb: "?p \<le> length bs" and f0: "f = f div 2 ^ 0"
      using bl by simp_all
    obtain n where n: "rebuild_levels sz bs ?p f 0 (map node_make ?ls) = Inr ([n], ?p + length ?es)"
        "rebuilt f hf xs n"
      using rebuild_levels_ok [OF level_from_leaves f0 refl d3 pb es fx len(1) bs(3)] by blast
    have wf: "wf_node n" and nl: "nleaves n = length xs"
      using n(2) represents_length [of n hf xs] by (auto simp: rebuilt_def)
    have inv: "node_invariant n"
      using wf_node_invariant [OF wf] nl len(1) by simp
    have "n \<noteq> Null"
      using wf by auto
    then have "inserted hf (?t\<lparr>root_node := n\<rparr>) xs"
      using n(2) len(1) fx nl by (simp add: inserted_def stack_inv_def whole_tree_def rebuilt_def)
    then have "tree_inv hf (?t\<lparr>root_node := n\<rparr>) xs"
      using len(1) by (auto simp: tree_inv_def intro: exI [of _ xs])
    with n(1) inv len_b show ?thesis
      unfolding run by (simp add: set_root_def)
  qed
qed

text \<open>\<open>serialised_size\<close> counts the left siblings.\<close>

lemma length_concat_same: "\<forall>x\<in>set xs. length x = sz \<Longrightarrow> length (concat xs) = length xs * sz"
  by (induction xs) auto

lemma walk_to_count:
  assumes inv: "tree_inv hf t xs" and i: "num_flushed t \<le> i" "i < length xs"
  shows "\<exists>t' n. walk_to hf sz i False count_callback t 0 =
      Inr (n, t', length (extra_hashes hf xs 0 i)) \<and>
    completed hf t' xs \<and> num_flushed t' = num_flushed t"
proof -
  have cb: "count_callback = (\<lambda>n g k. (True, n, if g then k + 1 else k))"
    by (simp add: fun_eq_iff count_callback_def)
  have fold: "fold (\<lambda>(n, g) k. if g then k + 1 else k) ps k =
      k + length (map (\<lambda>(n, g). nd_left n) (filter snd ps))"
    for ps :: "(node \<times> bool) list" and k
    by (induction ps arbitrary: k) auto
  obtain t' where t': "completed hf t' xs" "num_flushed t' = num_flushed t"
    and walk: "walk_to hf sz i False count_callback t 0 =
      Inr (leaf_at (root_node t') i, t', length (left_siblings (root_node t') i))"
    using walk_to_steps [of "\<lambda>n g. n" hf t xs i sz "\<lambda>n g k. if g then k + 1 else k" "0 :: nat"] inv i
    by (auto simp: cb rebuild_id fold left_siblings_def simp del: length_map)
  note c = completedD [OF t'(1)]
  have "map nd_hash (rev (left_siblings (root_node t') i)) = extra_hashes hf xs 0 i"
    using left_siblings_extras [OF c(1,3,5,2,4)] i t'(2) c(11) by simp
  then have "length (left_siblings (root_node t') i) = length (extra_hashes hf xs 0 i)"
    by (metis length_map length_rev)
  with t' walk show ?thesis
    by simp
qed

lemma length_tree_bytes:
  assumes "\<forall>x\<in>set xs. length x = sz" and "\<forall>a b. length (hf a b) = sz" and "f \<le> length xs"
  shows "length (tree_bytes hf xs f) =
    16 + (length xs - f) * sz + length (extra_hashes hf xs 0 f) * sz"
proof -
  have "length (concat (drop f xs)) = (length xs - f) * sz"
    using length_concat_same [of "drop f xs" sz] assms(1) by (auto dest: in_set_dropD)
  moreover have "length (concat (extra_hashes hf xs 0 f)) = length (extra_hashes hf xs 0 f) * sz"
    using length_extra_hashes [of f 0 xs sz hf] assms by (intro length_concat_same) simp
  ultimately show ?thesis
    by (simp add: tree_bytes_def)
qed

lemma tree_serialised_size_ok:
  assumes inv: "tree_inv hf t xs" and sz: "\<forall>x\<in>set xs. length x = sz" "\<forall>a b. length (hf a b) = sz"
    and small: "length (tree_bytes hf xs (num_flushed t)) < 2 ^ 64"
  shows "\<exists>t'. tree_serialised_size hf sz t = Inr (length (tree_bytes hf xs (num_flushed t)), t') \<and>
    tree_inv hf t' xs"
proof (cases "xs = []")
  case True
  then have "tree_is_empty t" "num_flushed t = 0" "leaf_nodes t = []"
    using tree_inv_num_leaves [OF inv] tree_inv_flushed [OF inv] inv
    by (auto simp: tree_is_empty_def tree_inv_def inserted_def)
  with True inv show ?thesis
    by (simp add: tree_serialised_size_def tree_bytes_def)
next
  case False
  then have f: "num_flushed t < length xs" "\<not> tree_is_empty t"
    using tree_inv_flushed [OF inv] tree_inv_num_leaves [OF inv] by (auto simp: tree_is_empty_def)
  obtain t' n where t': "walk_to hf sz (num_flushed t) False count_callback t 0 =
      Inr (n, t', length (extra_hashes hf xs 0 (num_flushed t)))"
    "completed hf t' xs" "num_flushed t' = num_flushed t"
    using walk_to_count [OF inv _ f(1)] by blast
  have "length (leaf_nodes t') = length xs - num_flushed t"
    using completedD(6) [OF t'(2)] t'(3) by simp
  then have "8 + 8 + length (leaf_nodes t') * sz + length (extra_hashes hf xs 0 (num_flushed t)) * sz =
      length (tree_bytes hf xs (num_flushed t))"
    using length_tree_bytes [OF sz, of "num_flushed t"] f(1) by simp
  with t' f small completed_tree_inv show ?thesis
    by (simp add: tree_serialised_size_def min_index_def)
qed

lemma extra_hashes_bound: "it < 2 ^ m \<Longrightarrow> length (extra_hashes hf xs k it) \<le> m"
proof (induction m arbitrary: k it)
  case 0
  then show ?case by simp
next
  case (Suc m)
  then have "length (extra_hashes hf xs (Suc k) (it div 2)) \<le> m"
    by (intro Suc.IH) (simp add: less_mult_imp_div_less)
  then show ?case
    by (subst extra_hashes.simps) simp
qed

lemma tree_bytes_bound:
  assumes "\<forall>x\<in>set xs. length x = sz" and "\<forall>a b. length (hf a b) = sz" and "f \<le> length xs"
    and "length xs \<le> max_leaves"
  shows "length (tree_bytes hf xs f) \<le> 16 + length xs * sz + 64 * sz"
proof -
  have "f < 2 ^ 64"
    using assms(3,4) max_leaves_lt by linarith
  then have "length (extra_hashes hf xs 0 f) * sz \<le> 64 * sz"
    using extra_hashes_bound by (intro mult_le_mono1)
  moreover have "(length xs - f) * sz \<le> length xs * sz"
    by (intro mult_le_mono1) simp
  ultimately show ?thesis
    using length_tree_bytes [OF assms(1-3)] by linarith
qed

text \<open>C13: a tree in any state (leaves pending, an unfinished insertion stack, flushed leaves) is
  read back from its serialisation, wherever it stands in a buffer and whatever object it is
  read into: the tree read stands for the same leaves and has the same leaves flushed, the
  position is behind the tree, and \<open>serialised_size\<close> is the number of bytes written.\<close>

theorem tree_roundtrip:
  assumes "tree_inv hf t xs" and "\<forall>x\<in>set xs. length x = sz" and "\<forall>a b. length (hf a b) = sz"
    and "length xs \<le> cap"
    and "length pre + 16 + length xs * sz + 64 * sz + length post < 2 ^ 64"
  shows "\<exists>bs t1 t2 t3. tree_serialise hf sz t pre = Inr (pre @ bs, t1) \<and> tree_inv hf t1 xs \<and>
    tree_deserialise sz cap (pre @ bs @ post) (length pre) t0 = Inr (t2, length pre + length bs) \<and>
    tree_inv hf t2 xs \<and> num_flushed t2 = num_flushed t \<and>
    tree_serialised_size hf sz t = Inr (length bs, t3)"
proof -
  let ?f = "num_flushed t" and ?bs = "tree_bytes hf xs (num_flushed t)"
  have f: "?f = 0 \<or> ?f < length xs" and max: "length xs \<le> max_leaves"
    using tree_inv_flushed [OF assms(1)] assms(1) by (auto simp: tree_inv_def)
  have "length ?bs \<le> 16 + length xs * sz + 64 * sz"
    using tree_bytes_bound [OF assms(2,3) _ max] f by auto
  then have small: "length (pre @ ?bs @ post) < 2 ^ 64" "length ?bs < 2 ^ 64"
    using assms(5) by simp_all
  obtain t1 where "tree_serialise hf sz t pre = Inr (pre @ ?bs, t1)" "tree_inv hf t1 xs"
    using tree_serialise_ok [OF assms(1)] by blast
  moreover obtain t2 where "tree_deserialise sz cap (pre @ ?bs @ post) (length pre) t0 =
      Inr (t2, length pre + length ?bs)" "tree_inv hf t2 xs" "num_flushed t2 = ?f"
    using tree_deserialise_ok [OF f max assms(4,2,3), of "length pre" "pre @ ?bs @ post" post t0]
      small(1) by auto
  moreover obtain t3 where "tree_serialised_size hf sz t = Inr (length ?bs, t3)"
    using tree_serialised_size_ok [OF assms(1-3) small(2)] by blast
  ultimately show ?thesis
    by blast
qed

theorem tree_roundtrip_witness:
  "\<exists>bs t1 t2 t3.
    tree_serialise (\<lambda>a b. [hd a + 2 * hd b]) 1 (tree_insert_list [[1], [2], [3]] tree_empty) [9] =
      Inr ([9] @ bs, t1) \<and>
    tree_deserialise 1 100 ([9] @ bs @ [7]) 1 tree_empty = Inr (t2, 1 + length bs) \<and>
    tree_inv (\<lambda>a b. [hd a + 2 * hd b]) t2 [[1], [2], [3]] \<and>
    tree_serialised_size (\<lambda>a b. [hd a + 2 * hd b]) 1
      (tree_insert_list [[1], [2], [3]] tree_empty) = Inr (length bs, t3)"
proof -
  let ?hf = "\<lambda>a b. [hd a + 2 * hd b] :: hash"
  have "\<forall>x\<in>set [[1], [2], [3 :: u8]]. length x = 1" "\<forall>a b. length (?hf a b) = 1"
    "length [[1], [2], [3 :: u8]] \<le> 100"
    "length [9 :: u8] + 16 + length [[1], [2], [3 :: u8]] * 1 + 64 * 1 + length [7 :: u8] < 2 ^ 64"
    by simp_all
  from tree_roundtrip [OF tree_inv_three(1) this, of tree_empty] show ?thesis
    by fastforce
qed

section \<open>Segments\<close>

lemma serialise_leaves_ok:
  assumes inv: "tree_inv hf t xs" and lo: "num_flushed t \<le> lo" "lo \<le> hi" "hi \<le> length xs"
  shows "serialise_leaves t [lo..<hi] bytes = Inr (bytes @ concat (take (hi - lo) (drop lo xs)))"
  using lo
proof (induction "hi - lo" arbitrary: lo bytes)
  case 0
  then show ?case by simp
next
  case (Suc d)
  then have less: "lo < hi" "lo < length xs"
    by auto
  have "tree_leaf t lo = Inr (xs ! lo)"
    using leaf_node_ok [OF inv Suc.prems(1) less(2)] by (simp add: tree_leaf_def)
  moreover have "serialise_leaves t [Suc lo..<hi] (bytes @ xs ! lo) =
      Inr ((bytes @ xs ! lo) @ concat (take (hi - Suc lo) (drop (Suc lo) xs)))"
    using Suc less by (intro Suc.hyps(1)) auto
  moreover have "take (hi - lo) (drop lo xs) = xs ! lo # take (hi - Suc lo) (drop (Suc lo) xs)"
  proof -
    have "hi - lo = Suc (hi - Suc lo)"
      using less(1) by simp
    then show ?thesis
      using less(2) by (simp only: take_Suc_Cons flip: Cons_nth_drop_Suc)
  qed
  moreover have "[lo..<hi] = lo # [Suc lo..<hi]"
    using less(1) by (rule upt_conv_Cons)
  ultimately show ?case
    by simp
qed

lemma tree_serialise_segment_ok:
  assumes inv: "tree_inv hf t xs" and i: "num_flushed t \<le> lo" "lo \<le> hi" "hi < length xs"
  shows "\<exists>t'. tree_serialise_segment hf sz lo hi t bytes =
      Inr (bytes @ tree_bytes hf (take (Suc hi) xs) lo, t') \<and> tree_inv hf t' xs \<and>
    num_flushed t' = num_flushed t"
proof -
  let ?head = "uint64_bytes (of_nat (hi - lo + 1)) @ uint64_bytes (of_nat lo)"
  have lt: "lo < length xs" and ok: "\<not> ((lo < min_index t \<or> max_index t < lo) \<or>
      (hi < min_index t \<or> max_index t < hi) \<or> hi < lo)"
    using i tree_inv_max_index [OF inv] by (auto simp: min_index_def)
  have leaves: "serialise_leaves t [lo..<hi + 1] (bytes @ ?head) =
      Inr ((bytes @ ?head) @ concat (take (hi + 1 - lo) (drop lo xs)))"
    using i by (intro serialise_leaves_ok [OF inv]) auto
  obtain t' where t': "serialise_extras hf sz lo t
        ((bytes @ ?head) @ concat (take (hi + 1 - lo) (drop lo xs))) =
      Inr (((bytes @ ?head) @ concat (take (hi + 1 - lo) (drop lo xs))) @
        concat (extra_hashes hf xs 0 lo), t')" "completed hf t' xs" "num_flushed t' = num_flushed t"
    using serialise_extras_ok [OF inv i(1) lt] by blast
  have run: "tree_serialise_segment hf sz lo hi t bytes =
      res_bind (serialise_leaves t [lo..<hi + 1] (bytes @ ?head)) (serialise_extras hf sz lo t)"
    using ok by (simp add: tree_serialise_segment_def serialise_uint64_eq Let_def)
  have "hi - lo + 1 = length (take (Suc hi) xs) - lo" "hi + 1 - lo = Suc hi - lo"
    using i by auto
  moreover have "extra_hashes hf (take (Suc hi) xs) 0 lo = extra_hashes hf xs 0 lo"
    using i(2) by (intro extra_hashes_take) simp
  ultimately have "((bytes @ ?head) @ concat (take (hi + 1 - lo) (drop lo xs))) @
      concat (extra_hashes hf xs 0 lo) = bytes @ tree_bytes hf (take (Suc hi) xs) lo"
    by (simp only: tree_bytes_def append_assoc drop_take)
  with t' run leaves completed_tree_inv show ?thesis
    by (simp only: res_bind.simps) blast
qed

text \<open>A serialised segment is read back as the tree of the leaves up to the end of the segment
  in which the leaves before its start are flushed, which is what flushing and retracting to
  the ends of the segment leaves (\<open>flush_to_correct\<close>, \<open>retract_to_correct\<close>).\<close>

theorem segment_roundtrip:
  assumes "tree_inv hf t xs" and "num_flushed t \<le> lo" and "lo \<le> hi" and "hi < length xs"
    and "\<forall>x\<in>set xs. length x = sz" and "\<forall>a b. length (hf a b) = sz" and "length xs \<le> cap"
    and "length pre + 16 + length xs * sz + 64 * sz + length post < 2 ^ 64"
  shows "\<exists>bs t1 t2. tree_serialise_segment hf sz lo hi t pre = Inr (pre @ bs, t1) \<and> tree_inv hf t1 xs \<and>
    tree_deserialise sz cap (pre @ bs @ post) (length pre) t0 = Inr (t2, length pre + length bs) \<and>
    tree_inv hf t2 (take (Suc hi) xs) \<and> num_flushed t2 = lo"
proof -
  let ?ys = "take (Suc hi) xs"
  let ?bs = "tree_bytes hf ?ys lo"
  have max: "length ?ys \<le> max_leaves" "lo < length ?ys" "length ?ys \<le> cap"
    using assms(1,3,4,7) by (auto simp: tree_inv_def)
  have sz: "\<forall>x\<in>set ?ys. length x = sz"
    using assms(5) by (auto dest: in_set_takeD)
  have "length ?bs \<le> 16 + length ?ys * sz + 64 * sz"
    using tree_bytes_bound [OF sz assms(6) _ max(1)] max(2) by simp
  moreover have "length ?ys * sz \<le> length xs * sz"
    by (intro mult_le_mono1) simp
  moreover have "length (pre @ ?bs @ post) = length pre + length ?bs + length post"
    by simp
  ultimately have "length (pre @ ?bs @ post) < 2 ^ 64"
    using assms(8) by linarith
  then obtain t2 where "tree_deserialise sz cap (pre @ ?bs @ post) (length pre) t0 =
      Inr (t2, length pre + length ?bs)" "tree_inv hf t2 ?ys" "num_flushed t2 = lo"
    using tree_deserialise_ok [OF _ max(1,3) sz assms(6), of lo "length pre" "pre @ ?bs @ post" post t0]
      max(2) by auto
  moreover obtain t1 where "tree_serialise_segment hf sz lo hi t pre = Inr (pre @ ?bs, t1)"
      "tree_inv hf t1 xs"
    using tree_serialise_segment_ok [OF assms(1-4)] by blast
  ultimately show ?thesis
    by blast
qed

end
