(* ===== verification/Merkle_Past_Path.thy ===== *)
theory Merkle_Past_Path
  imports Merkle_Retract
begin

text \<open>
  Paths at a past state (\<open>TreeT::past_path\<close> of \<open>include/merklecpp.h\<close>). One loop walks to the
  leaf and to the last leaf of the past state at once, first together to the node where they
  part, then each on its own. The abstract side is \<open>merkle_path\<close>, the path in a list of
  leaves; both \<open>path\<close> and \<open>past_path\<close> compute it.
\<close>

section \<open>The code\<close>

record past_walk =
  root_to_fork :: "element list"
  fork_to_index :: "element list"
  fork_to_as_of :: "element list"
  fork_node :: bool
  cur_i :: node
  cur_a :: node

definition child :: "bool \<Rightarrow> node \<Rightarrow> node" where
  "child go_right n = (if go_right then nd_right n else nd_left n)"

definition past_fork :: "bool \<Rightarrow> bool \<Rightarrow> past_walk \<Rightarrow> past_walk res" where
  "past_fork go_right_i go_right_a w =
     (if \<not> fork_node w \<and> go_right_i \<noteq> go_right_a
      then if cur_i w \<noteq> cur_a w then Inl Assertion_Failed
           else if \<not> (\<not> go_right_i \<and> go_right_a) then Inl Assertion_Failed
           else Inr (w\<lparr>fork_node := True\<rparr>)
      else Inr w)"

definition past_together :: "nat \<Rightarrow> bool \<Rightarrow> past_walk \<Rightarrow> past_walk res" where
  "past_together height go_right_i w =
     (if cur_i w \<noteq> cur_a w then Inl Assertion_Failed
      else if nd_height (cur_i w) = height
      then let c = child go_right_i (cur_i w)
           in Inr (w\<lparr>root_to_fork := root_to_fork w @
                  (if go_right_i then [path_element (cur_i w) go_right_i] else []),
                cur_i := c, cur_a := c\<rparr>)
      else Inr w)"

definition past_apart :: "nat \<Rightarrow> bool \<Rightarrow> bool \<Rightarrow> past_walk \<Rightarrow> past_walk" where
  "past_apart height go_right_i go_right_a w =
     (let w = (if nd_height (cur_i w) = height
               then w\<lparr>fork_to_index := fork_to_index w @ [path_element (cur_i w) go_right_i],
                      cur_i := child go_right_i (cur_i w)\<rparr>
               else w)
      in if nd_height (cur_a w) = height
         then w\<lparr>fork_to_as_of := fork_to_as_of w @
                  (if go_right_a then [path_element (cur_a w) go_right_a] else []),
                cur_a := child go_right_a (cur_a w)\<rparr>
         else w)"

fun past_path_loop :: "nat \<Rightarrow> u64 \<Rightarrow> u64 \<Rightarrow> past_walk \<Rightarrow> past_walk res" where
  "past_path_loop 0 it_i it_a w = Inr w"
| "past_path_loop (Suc height) it_i it_a w =
     (if height = 0 then Inr w
      else if cur_i w = Null \<or> cur_a w = Null then Inl Undefined_Read
      else if \<not> (node_invariant (cur_i w) \<and> node_invariant (cur_a w)) then Inl Assertion_Failed
      else let go_right_i = bit it_i 63; go_right_a = bit it_a 63
           in res_bind (past_fork go_right_i go_right_a w) (\<lambda>w.
              res_bind (if \<not> fork_node w then past_together (Suc height) go_right_i w
                        else Inr (past_apart (Suc height) go_right_i go_right_a w))
                (past_path_loop height (push_bit 1 it_i) (push_bit 1 it_a))))"

text \<open>The path from the three segments; \<open>pop_front\<close> removes the element of the fork itself.\<close>

definition past_elements :: "(hash \<Rightarrow> hash \<Rightarrow> hash) \<Rightarrow> past_walk \<Rightarrow> element list" where
  "past_elements hf w =
     rev (drop 1 (fork_to_index w)) @
     (if fork_node w
      then [\<lparr>e_hash = foldl (\<lambda>as_of_hash e. hf (e_hash e) as_of_hash) (nd_hash (cur_a w))
                (rev (drop 1 (fork_to_as_of w))),
             e_direction = PATH_RIGHT\<rparr>]
      else []) @
     rev (root_to_fork w)"

definition past_path ::
  "(hash \<Rightarrow> hash \<Rightarrow> hash) \<Rightarrow> nat \<Rightarrow> nat \<Rightarrow> nat \<Rightarrow> mtree \<Rightarrow> (path \<times> mtree) res" where
  "past_path hf sz index as_of t =
     (let t = t\<lparr>stats := (stats t)\<lparr>num_past_paths := num_past_paths (stats t) + 1\<rparr>\<rparr>
      in if (index < min_index t \<or> max_index t < index) \<or>
           (as_of < min_index t \<or> max_index t < as_of) \<or> as_of < index
         then Inl (Runtime_Error ''invalid leaf indices'')
         else res_bind (compute_root hf sz t) (\<lambda>t.
           let n = root_node t in
           if \<not> (index < nd_size n \<and> as_of < nd_size n) then Inl Assertion_Failed
           else res_bind (past_path_loop (nd_height n) (walk_bits (nd_height n) index)
               (walk_bits (nd_height n) as_of)
               \<lparr>root_to_fork = [], fork_to_index = [], fork_to_as_of = [], fork_node = False,
                cur_i = n, cur_a = n\<rparr>) (\<lambda>w.
             res_bind (leaf_node t index) (\<lambda>leaf.
               Inr (path_make (nd_hash leaf) index (past_elements hf w) as_of, t)))))"

section \<open>The path in a list of leaves\<close>

function merkle_path :: "(hash \<Rightarrow> hash \<Rightarrow> hash) \<Rightarrow> hash list \<Rightarrow> nat \<Rightarrow> element list" where
  "merkle_path hf xs i =
     (if length xs \<le> 1 then []
      else let k = pow2_below (length xs)
           in if i < k
              then merkle_path hf (take k xs) i @
                [\<lparr>e_hash = merkle_root hf (drop k xs), e_direction = PATH_RIGHT\<rparr>]
              else merkle_path hf (drop k xs) (i - k) @
                [\<lparr>e_hash = merkle_root hf (take k xs), e_direction = PATH_LEFT\<rparr>])"
  by pat_completeness auto
termination
  by (relation "measure (\<lambda>(hf, xs, i). length xs)")
    (auto simp: not_le pow2_below_less pow2_below_pos intro: diff_less)

declare merkle_path.simps [simp del]

lemma merkle_path_single [simp]: "length xs \<le> 1 \<Longrightarrow> merkle_path hf xs i = []"
  by (simp add: merkle_path.simps)

lemma merkle_path_split:
  assumes "length ys = 2 ^ j" and "0 < length zs" and "length zs \<le> 2 ^ j"
  shows "merkle_path hf (ys @ zs) i =
    (if i < 2 ^ j
     then merkle_path hf ys i @ [\<lparr>e_hash = merkle_root hf zs, e_direction = PATH_RIGHT\<rparr>]
     else merkle_path hf zs (i - 2 ^ j) @ [\<lparr>e_hash = merkle_root hf ys, e_direction = PATH_LEFT\<rparr>])"
proof -
  have k: "pow2_below (length (ys @ zs)) = 2 ^ j"
    using assms by (intro pow2_below_eq) auto
  have "1 \<le> (2::nat) ^ j"
    by simp
  then have "\<not> length (ys @ zs) \<le> 1"
    unfolding length_append using assms(1,2) by linarith
  with k assms(1) show ?thesis
    by (subst merkle_path.simps) (simp del: length_append add: Let_def)
qed

lemma route_elements_merkle_path:
  "wf_node n \<Longrightarrow> hash_inv hf n \<Longrightarrow> \<not> nd_dirty n \<Longrightarrow> represents hf n xs \<Longrightarrow>
   conflated_below k n \<Longrightarrow> k \<le> i \<Longrightarrow> i < nleaves n \<Longrightarrow>
   route_elements n i = merkle_path hf xs i"
proof (induction n arbitrary: xs k i)
  case Null
  then show ?case by simp
next
  case (Node h l r s ht d)
  show ?case
  proof (cases "l = Null \<and> r = Null")
    case True
    with Node.prems show ?thesis by (auto simp: route_elements_def)
  next
    case False
    note w = wf_node_inner [OF Node.prems(1) False]
    have clean: "\<not> nd_dirty l" "\<not> nd_dirty r" "hash_inv hf l" "hash_inv hf r"
        "conflated_below k l" "conflated_below (k - nleaves l) r"
      using False Node.prems by auto
    obtain ys zs where xs: "xs = ys @ zs" and rep: "represents hf l ys" "represents hf r zs"
      and len: "length ys = 2 ^ (nd_height l - 1)" "length ys = nleaves l"
        "length zs = nleaves r" "0 < length zs" "length zs \<le> 2 ^ (nd_height l - 1)"
      using represents_inner [OF Node.prems(1) False Node.prems(4)] by metis
    note split = merkle_path_split [OF len(1,4,5), folded len(1), of hf i]
    note roots = merkle_root_of_clean [OF w(1) clean(3,1) rep(1)]
      merkle_root_of_clean [OF w(2) clean(4,2) rep(2)]
    show ?thesis
    proof (cases "i < nleaves l")
      case True
      with Node.IH(1) [OF w(1) clean(3,1) rep(1) clean(5) Node.prems(6) True] False roots len(2)
      show ?thesis
        by (simp add: route_elements_inner path_element_def xs split)
    next
      case right: False
      have i: "k - nleaves l \<le> i - nleaves l" "i - nleaves l < nleaves r"
        using Node.prems(6,7) False right by auto
      with Node.IH(2) [OF w(2) clean(4,2) rep(2) clean(6) i] False right roots len(2)
      show ?thesis
        by (simp add: route_elements_inner path_element_def xs split)
    qed
  qed
qed

section \<open>The walk\<close>

definition at_leaf :: "nat \<Rightarrow> nat \<Rightarrow> nat \<Rightarrow> node \<Rightarrow> bool" where
  "at_leaf height k i n \<longleftrightarrow> wf_node n \<and> conflated_below k n \<and> k \<le> i \<and> i < nleaves n \<and>
     nd_height n \<le> height \<and> nleaves n \<le> max_leaves"

abbreviation index_bits :: "nat \<Rightarrow> nat \<Rightarrow> u64" where
  "index_bits height i \<equiv> push_bit (65 - height) (of_nat i)"

lemma at_leaf_inv: "at_leaf height k i n \<Longrightarrow> n \<noteq> Null \<and> node_invariant n"
  using wf_node_invariant by (auto simp: at_leaf_def)

lemma at_leaf_low:
  assumes "at_leaf (Suc height) k i n" and "1 \<le> height" and "Suc height \<le> 64"
    and "nd_height n \<noteq> Suc height"
  shows "at_leaf height k i n" and "\<not> bit (index_bits (Suc height) i) 63"
    and "push_bit 1 (index_bits (Suc height) i) = index_bits height i"
proof -
  show l: "at_leaf height k i n"
    using assms(1,4) by (auto simp: at_leaf_def)
  have "nleaves n \<le> 2 ^ (nd_height n - 1)"
    using l wf_leaves [of n] by (simp add: at_leaf_def)
  also have "\<dots> \<le> 2 ^ (height - 1)"
    using l by (intro power_increasing) (auto simp: at_leaf_def)
  finally have i: "i < 2 ^ (height - 1)"
    using l by (simp add: at_leaf_def)
  also have "(2::nat) ^ (height - 1) \<le> 2 ^ (Suc height - 1)"
    by (intro power_increasing) auto
  finally have "i < 2 ^ (Suc height - 1)" .
  then show "\<not> bit (index_bits (Suc height) i) 63"
    using walk_bit [of "Suc height" i] assms(2,3) i by simp
  show "push_bit 1 (index_bits (Suc height) i) = index_bits height i"
    using walk_shift_left [of "Suc height" "of_nat i"] assms(2,3) by simp
qed

lemma at_leaf_inner:
  assumes "at_leaf (Suc height) k i n" and "1 \<le> height" and "Suc height \<le> 64"
    and "n = Node h l r s (Suc height) d"
  shows "\<not> (l = Null \<and> r = Null)"
    and "bit (index_bits (Suc height) i) 63 \<longleftrightarrow> \<not> i < nleaves l"
    and "i < nleaves l \<Longrightarrow> at_leaf height k i l \<and>
      push_bit 1 (index_bits (Suc height) i) = index_bits height i"
    and "\<not> i < nleaves l \<Longrightarrow> at_leaf height (k - nleaves l) (i - nleaves l) r \<and>
      push_bit 1 (index_bits (Suc height) i) = index_bits height (i - nleaves l)"
proof -
  note n = assms(4)
  have a: "wf_node n" "conflated_below k n" "k \<le> i" "i < nleaves n" "nleaves n \<le> max_leaves"
    using assms(1) by (auto simp: at_leaf_def)
  show inner: "\<not> (l = Null \<and> r = Null)"
  proof
    assume "l = Null \<and> r = Null"
    then have "leaf_at n i = n"
      by (simp add: n)
    with leaf_at_height [OF a(1-4)] assms(2) n show False by simp
  qed
  note w = wf_node_inner [OF a(1) [unfolded n] inner]
  have nl: "nleaves l = 2 ^ (Suc height - 2)"
    using wf_perfect [OF w(1)] w(5,7) by simp
  have i: "i < 2 ^ (Suc height - 1)"
    using wf_leaves [OF a(1)] a(4) n by simp
  have h2: "2 \<le> Suc height"
    using assms(2) by simp
  show "bit (index_bits (Suc height) i) 63 \<longleftrightarrow> \<not> i < nleaves l"
    using walk_bit [OF h2 assms(3) i] nl by (simp add: not_less)
  show "at_leaf height k i l \<and>
      push_bit 1 (index_bits (Suc height) i) = index_bits height i" if "i < nleaves l"
    using a inner w(1,7) that walk_shift_left [OF assms(3) h2, of "of_nat i"]
    by (auto simp: at_leaf_def n)
  show "at_leaf height (k - nleaves l) (i - nleaves l) r \<and>
      push_bit 1 (index_bits (Suc height) i) = index_bits height (i - nleaves l)"
    if r: "\<not> i < nleaves l"
    using a inner w(2,6,7) r walk_shift_right [OF h2 assms(3), of i] nl
    by (auto simp: at_leaf_def n not_less)
qed

text \<open>One step of one of the two pointers.\<close>

lemma at_leaf_step:
  assumes "at_leaf (Suc height) k i n" and "1 \<le> height" and "Suc height \<le> 64"
    and "g = bit (index_bits (Suc height) i) 63"
  shows "\<exists>k' i'. at_leaf height k' i' (if nd_height n = Suc height then child g n else n) \<and>
    push_bit 1 (index_bits (Suc height) i) = index_bits height i' \<and>
    leaf_at n i = leaf_at (if nd_height n = Suc height then child g n else n) i' \<and>
    route_elements n i =
      route_elements (if nd_height n = Suc height then child g n else n) i' @
      (if nd_height n = Suc height then [path_element n g] else [])"
proof (cases "nd_height n = Suc height")
  case False
  with at_leaf_low [OF assms(1-3) False] show ?thesis
    by auto
next
  case True
  then obtain h l r s d where n: "n = Node h l r s (Suc height) d"
    using assms(1) by (cases n) (auto simp: at_leaf_def)
  note inner = at_leaf_inner [OF assms(1-3) n]
  have g: "g \<longleftrightarrow> \<not> i < nleaves l"
    using assms(4) inner(2) by simp
  show ?thesis
  proof (cases "i < nleaves l")
    case True
    with inner(1,3) g n show ?thesis
      by (intro exI [of _ k] exI [of _ i]) (simp add: child_def route_elements_inner)
  next
    case False
    with inner(1,4) g n show ?thesis
      by (intro exI [of _ "k - nleaves l"] exI [of _ "i - nleaves l"])
        (simp add: child_def route_elements_inner)
  qed
qed

definition left_elements :: "element list \<Rightarrow> element list" where
  "left_elements es = filter (\<lambda>e. e_direction e = PATH_LEFT) es"

lemma at_leaf_bottom:
  assumes "at_leaf height k i n" and "height \<le> 1"
  shows "leaf_at n i = n" and "route_elements n i = []" and "i = 0"
proof -
  have a: "wf_node n" "conflated_below k n" "k \<le> i" "i < nleaves n" "nd_height n \<le> 1"
    using assms by (auto simp: at_leaf_def)
  then have "nd_height n = 1"
    using wf_leaves [of n] by simp
  then have "n = node_make (nd_hash n)"
    using wf_leaf_node_make a(1) by blast
  then obtain h where n: "n = Node h Null Null 1 1 False"
    by (simp add: node_make_eq)
  show "leaf_at n i = n" "route_elements n i = []" "i = 0"
    using a(4) by (simp_all add: n route_elements_def)
qed

lemma past_apart_sel:
  "cur_i (past_apart h gi ga w) = (if nd_height (cur_i w) = h then child gi (cur_i w) else cur_i w)"
  "cur_a (past_apart h gi ga w) = (if nd_height (cur_a w) = h then child ga (cur_a w) else cur_a w)"
  "fork_node (past_apart h gi ga w) = fork_node w"
  by (simp_all add: past_apart_def Let_def)

lemma past_apart_loop:
  "height \<le> 64 \<Longrightarrow> fork_node w \<Longrightarrow> at_leaf height k i (cur_i w) \<Longrightarrow> at_leaf height k' a (cur_a w) \<Longrightarrow>
   past_path_loop height (index_bits height i) (index_bits height a) w =
   Inr (w\<lparr>fork_to_index := fork_to_index w @ rev (route_elements (cur_i w) i),
     fork_to_as_of := fork_to_as_of w @ rev (left_elements (route_elements (cur_a w) a)),
     cur_i := leaf_at (cur_i w) i, cur_a := leaf_at (cur_a w) a\<rparr>)"
proof (induction height arbitrary: w k i k' a)
  case 0
  then show ?case
    using at_leaf_bottom [OF 0(3)] at_leaf_bottom [OF 0(4)] by (simp add: left_elements_def)
next
  case (Suc height)
  show ?case
  proof (cases "height = 0")
    case True
    with Suc.prems show ?thesis
      using at_leaf_bottom [OF Suc.prems(3)] at_leaf_bottom [OF Suc.prems(4)]
      by (simp add: left_elements_def)
  next
    case False
    then have h: "1 \<le> height"
      by simp
    let ?gi = "bit (index_bits (Suc height) i) 63" and ?ga = "bit (index_bits (Suc height) a) 63"
    let ?w = "past_apart (Suc height) ?gi ?ga w"
    obtain k1 i1 where i1: "at_leaf height k1 i1 (cur_i ?w)"
      "push_bit 1 (index_bits (Suc height) i) = index_bits height i1"
      "leaf_at (cur_i w) i = leaf_at (cur_i ?w) i1"
      "route_elements (cur_i w) i = route_elements (cur_i ?w) i1 @
        (if nd_height (cur_i w) = Suc height then [path_element (cur_i w) ?gi] else [])"
      using at_leaf_step [OF Suc.prems(3) h Suc.prems(1) refl] unfolding past_apart_sel by blast
    obtain k2 a1 where a1: "at_leaf height k2 a1 (cur_a ?w)"
      "push_bit 1 (index_bits (Suc height) a) = index_bits height a1"
      "leaf_at (cur_a w) a = leaf_at (cur_a ?w) a1"
      "route_elements (cur_a w) a = route_elements (cur_a ?w) a1 @
        (if nd_height (cur_a w) = Suc height then [path_element (cur_a w) ?ga] else [])"
      using at_leaf_step [OF Suc.prems(4) h Suc.prems(1) refl] unfolding past_apart_sel by blast
    have fork: "fork_node ?w"
      using Suc.prems(2) by (simp only: past_apart_sel)
    have IH: "past_path_loop height (index_bits height i1) (index_bits height a1) ?w =
      Inr (?w\<lparr>fork_to_index := fork_to_index ?w @ rev (route_elements (cur_i ?w) i1),
        fork_to_as_of := fork_to_as_of ?w @ rev (left_elements (route_elements (cur_a ?w) a1)),
        cur_i := leaf_at (cur_i ?w) i1, cur_a := leaf_at (cur_a ?w) a1\<rparr>)"
      using Suc.IH [OF _ fork i1(1) a1(1)] Suc.prems(1) by simp
    have "past_path_loop (Suc height) (index_bits (Suc height) i) (index_bits (Suc height) a) w =
        past_path_loop height (index_bits height i1) (index_bits height a1) ?w"
      unfolding past_path_loop.simps i1(2) a1(2)
      using False Suc.prems(2) at_leaf_inv [OF Suc.prems(3)] at_leaf_inv [OF Suc.prems(4)]
      by (simp add: past_fork_def Let_def)
    also have "\<dots> = Inr (w\<lparr>fork_to_index := fork_to_index w @ rev (route_elements (cur_i w) i),
     fork_to_as_of := fork_to_as_of w @ rev (left_elements (route_elements (cur_a w) a)),
     cur_i := leaf_at (cur_i w) i, cur_a := leaf_at (cur_a w) a\<rparr>)"
      unfolding IH i1(3,4) a1(3,4)
      by (simp add: past_apart_def Let_def left_elements_def path_element_def)
    finally show ?thesis .
  qed
qed

text \<open>The hash of the past right part: only left siblings are hashed.\<close>

lemma foldl_left_elements:
  "foldl (\<lambda>as_of_hash e. hf (e_hash e) as_of_hash) x (left_elements es) = foldl (past_step hf) x es"
  by (induction es arbitrary: x) (auto simp: left_elements_def past_step_def)

text \<open>The nodes of the walk carry computed hashes.\<close>

definition clean_at :: "(hash \<Rightarrow> hash \<Rightarrow> hash) \<Rightarrow> node \<Rightarrow> hash list \<Rightarrow> bool" where
  "clean_at hf n xs \<longleftrightarrow> hash_inv hf n \<and> \<not> nd_dirty n \<and> represents hf n xs"

lemma at_leaf_path:
  assumes "at_leaf height k i n" and "clean_at hf n xs"
  shows "route_elements n i = merkle_path hf xs i"
    and "foldl (\<lambda>as_of_hash e. hf (e_hash e) as_of_hash) (nd_hash (leaf_at n i))
      (left_elements (route_elements n i)) = merkle_root hf (take (Suc i) xs)"
  using assms route_elements_merkle_path [of n hf xs k i] route_past_root [of n hf xs k i]
  by (auto simp: at_leaf_def clean_at_def foldl_left_elements)

lemma clean_at_inner:
  assumes "wf_node (Node h l r s ht d)" and "\<not> (l = Null \<and> r = Null)"
    and "clean_at hf (Node h l r s ht d) xs"
  obtains ys zs where "xs = ys @ zs" "clean_at hf l ys" "clean_at hf r zs"
    "length ys = 2 ^ (nd_height l - 1)" "length ys = nleaves l" "length zs = nleaves r"
    "0 < length zs" "length zs \<le> 2 ^ (nd_height l - 1)"
    "nd_hash l = merkle_root hf ys"
proof -
  have rep: "represents hf (Node h l r s ht d) xs" and cl: "hash_inv hf l" "hash_inv hf r"
      "\<not> nd_dirty l" "\<not> nd_dirty r"
    using assms(2,3) by (auto simp: clean_at_def)
  obtain ys zs where "xs = ys @ zs" and sub: "represents hf l ys" "represents hf r zs"
    and "length ys = 2 ^ (nd_height l - 1)" "length ys = nleaves l" "length zs = nleaves r"
      "0 < length zs" "length zs \<le> 2 ^ (nd_height l - 1)"
    using represents_inner [OF assms(1,2) rep] .
  then show thesis
    using merkle_root_of_clean [OF wf_node_inner(1) [OF assms(1,2)] cl(1,3) sub(1)] cl sub
    by (intro that) (auto simp: clean_at_def)
qed

lemma past_elements_forked:
  assumes "fork_node w" and "fork_to_index w = e # rev es"
    and "fork_to_as_of w = e' # rev (left_elements es')"
  shows "past_elements hf w = es @
    [\<lparr>e_hash = foldl (\<lambda>as_of_hash e. hf (e_hash e) as_of_hash) (nd_hash (cur_a w)) (left_elements es'),
      e_direction = PATH_RIGHT\<rparr>] @ rev (root_to_fork w)"
  using assms by (simp add: past_elements_def)

lemma past_together_loop:
  "height \<le> 64 \<Longrightarrow> at_leaf height k i n \<Longrightarrow> i \<le> a \<Longrightarrow> a < nleaves n \<Longrightarrow> clean_at hf n xs \<Longrightarrow>
   cur_i w = n \<Longrightarrow> cur_a w = n \<Longrightarrow> \<not> fork_node w \<Longrightarrow> fork_to_index w = [] \<Longrightarrow>
   fork_to_as_of w = [] \<Longrightarrow>
   \<exists>w'. past_path_loop height (index_bits height i) (index_bits height a) w = Inr w' \<and>
     past_elements hf w' = merkle_path hf (take (Suc a) xs) i @ rev (root_to_fork w)"
proof (induction height arbitrary: n w k i a xs)
  case 0
  then show ?case
    using at_leaf_bottom [of 0 k i n] by (auto simp: at_leaf_def dest: wf_leaves)
next
  case (Suc height)
  note w = Suc.prems(6-10)
  have at_a: "at_leaf (Suc height) k a n"
    using Suc.prems(2-4) by (auto simp: at_leaf_def)
  have inv: "n \<noteq> Null" "node_invariant n" and wf: "wf_node n"
    using at_leaf_inv [OF Suc.prems(2)] Suc.prems(2) by (auto simp: at_leaf_def)
  consider (bottom) "height = 0" | (low) "1 \<le> height" "nd_height n \<noteq> Suc height"
    | (inner) "1 \<le> height" "nd_height n = Suc height"
    by linarith
  then show ?case
  proof cases
    case bottom
    then have "i = 0" "a = 0"
      using at_leaf_bottom(3) [OF Suc.prems(2)] at_leaf_bottom(3) [OF at_a] by auto
    with bottom w show ?thesis
      by (simp add: past_elements_def)
  next
    case low
    note li = at_leaf_low [OF Suc.prems(2) low(1) Suc.prems(1) low(2)]
    note la = at_leaf_low [OF at_a low(1) Suc.prems(1) low(2)]
    have "past_path_loop (Suc height) (index_bits (Suc height) i) (index_bits (Suc height) a) w =
        past_path_loop height (index_bits height i) (index_bits height a) w"
      unfolding past_path_loop.simps li(3) la(3)
      using low inv w li(2) la(2) by (simp add: past_fork_def past_together_def Let_def)
    then show ?thesis
      using Suc.IH [OF _ li(1) Suc.prems(3-10)] Suc.prems(1) by simp
  next
    case inner
    then obtain h l r s d where n: "n = Node h l r s (Suc height) d"
      using wf by (cases n) auto
    note ii = at_leaf_inner [OF Suc.prems(2) inner(1) Suc.prems(1) n]
    note ai = at_leaf_inner [OF at_a inner(1) Suc.prems(1) n]
    note il = ii(3) and ir = ii(4) and al = ai(3) and ar = ai(4)
    obtain ys zs where xs: "xs = ys @ zs" and cl: "clean_at hf l ys" "clean_at hf r zs"
      and len: "length ys = 2 ^ (nd_height l - 1)" "length ys = nleaves l" "length zs = nleaves r"
        "0 < length zs" "length zs \<le> 2 ^ (nd_height l - 1)"
      and hl: "nd_hash l = merkle_root hf ys"
      using clean_at_inner [OF wf [unfolded n] ii(1) Suc.prems(5) [unfolded n]] .
    have ch: "nd_left n = l" "nd_right n = r"
      by (simp_all add: n)
    let ?a = "a - nleaves l" and ?i = "i - nleaves l"
    have split: "merkle_path hf (ys @ take (Suc ?a) zs) j =
        (if j < nleaves l
         then merkle_path hf ys j @
           [\<lparr>e_hash = merkle_root hf (take (Suc ?a) zs), e_direction = PATH_RIGHT\<rparr>]
         else merkle_path hf (take (Suc ?a) zs) (j - nleaves l) @
           [\<lparr>e_hash = merkle_root hf ys, e_direction = PATH_LEFT\<rparr>])" for j
      unfolding len(2) [symmetric] len(1) using len by (intro merkle_path_split) auto
    note step = past_path_loop.simps(2) [of height "index_bits (Suc height) i"
        "index_bits (Suc height) a" w]
    consider (left) "a < nleaves l" | (right) "\<not> i < nleaves l" "\<not> a < nleaves l"
      | (fork) "i < nleaves l" "\<not> a < nleaves l"
      using Suc.prems(3) by linarith
    then show ?thesis
    proof cases
      case left
      then have i: "i < nleaves l"
        using Suc.prems(3) by simp
      let ?w = "w\<lparr>cur_i := l, cur_a := l\<rparr>"
      have "past_path_loop (Suc height) (index_bits (Suc height) i) (index_bits (Suc height) a) w =
          past_path_loop height (index_bits height i) (index_bits height a) ?w"
        unfolding step conjunct2 [OF il [OF i]] conjunct2 [OF al [OF left]]
        using inner inv w ii(2) ai(2) i left ch
        by (simp add: past_fork_def past_together_def child_def Let_def)
      moreover have "take (Suc a) xs = take (Suc a) ys"
        using left len(2) by (simp add: xs)
      ultimately show ?thesis
        using Suc.IH [of k i l a ys ?w] Suc.prems(1,3) il [OF i] left cl(1) w by simp
    next
      case right
      let ?w = "w\<lparr>root_to_fork := root_to_fork w @ [path_element n True], cur_i := r, cur_a := r\<rparr>"
      have "past_path_loop (Suc height) (index_bits (Suc height) i) (index_bits (Suc height) a) w =
          past_path_loop height (index_bits height ?i) (index_bits height ?a) ?w"
        unfolding step conjunct2 [OF ir [OF right(1)]] conjunct2 [OF ar [OF right(2)]]
        using inner inv w ii(2) ai(2) right ch
        by (simp add: past_fork_def past_together_def child_def Let_def)
      moreover have "take (Suc a) xs = ys @ take (Suc ?a) zs"
        using right len(2) by (simp add: xs Suc_diff_le)
      moreover have "?a < nleaves r" "?i \<le> ?a"
        using Suc.prems(3,4) n ii(1) right by auto
      ultimately show ?thesis
        using Suc.IH [of "k - nleaves l" ?i r ?a zs ?w] Suc.prems(1) ir [OF right(1)] right(1) cl(2) w
          hl n by (simp add: split path_element_def)
    next
      case fork
      let ?w = "w\<lparr>fork_node := True, fork_to_index := [path_element n False], cur_i := l,
        fork_to_as_of := [path_element n True], cur_a := r\<rparr>"
      have "past_path_loop (Suc height) (index_bits (Suc height) i) (index_bits (Suc height) a) w =
          past_path_loop height (index_bits height i) (index_bits height ?a) ?w"
        unfolding step conjunct2 [OF il [OF fork(1)]] conjunct2 [OF ar [OF fork(2)]]
        using inner inv w ii(2) ai(2) fork ch
        by (simp add: past_fork_def past_apart_def child_def Let_def)
      also have "\<dots> = Inr (?w\<lparr>fork_to_index := fork_to_index ?w @ rev (route_elements (cur_i ?w) i),
          fork_to_as_of := fork_to_as_of ?w @ rev (left_elements (route_elements (cur_a ?w) ?a)),
          cur_i := leaf_at (cur_i ?w) i, cur_a := leaf_at (cur_a ?w) ?a\<rparr>)" (is "_ = Inr ?w'")
        using Suc.prems(1) il [OF fork(1)] ar [OF fork(2)] by (intro past_apart_loop) auto
      finally have run: "past_path_loop (Suc height) (index_bits (Suc height) i)
          (index_bits (Suc height) a) w = Inr ?w'" .
      note pi = at_leaf_path [OF conjunct1 [OF il [OF fork(1)]] cl(1)]
      note pa = at_leaf_path [OF conjunct1 [OF ar [OF fork(2)]] cl(2)]
      have "past_elements hf ?w' = route_elements l i @
          [\<lparr>e_hash = merkle_root hf (take (Suc ?a) zs), e_direction = PATH_RIGHT\<rparr>] @ rev (root_to_fork w)"
        using past_elements_forked [of ?w' "path_element n False" "route_elements l i"
            "path_element n True" "route_elements r ?a" hf] pa(2) by simp
      moreover have "take (Suc a) xs = ys @ take (Suc ?a) zs"
        using fork len(2) by (simp add: xs Suc_diff_le)
      ultimately show ?thesis
        using run pi(1) fork(1) by (simp add: split)
    qed
  qed
qed

section \<open>Past paths\<close>

lemma past_path_ok:
  assumes inv: "tree_inv hf t xs" and i: "num_flushed t \<le> i" "i \<le> a" "a < length xs"
  shows "\<exists>t'. past_path hf sz i a t =
      Inr (path_make (xs ! i) i (merkle_path hf (take (Suc a) xs) i) a, t') \<and>
    completed hf t' xs \<and> num_flushed t' = num_flushed t"
proof -
  let ?t = "t\<lparr>stats := (stats t)\<lparr>num_past_paths := num_past_paths (stats t) + 1\<rparr>\<rparr>"
  have ix: "i < length xs" "xs \<noteq> []"
    using i by auto
  obtain t' where t': "compute_root hf sz ?t = Inr t'" "completed hf t' xs"
      "num_flushed t' = num_flushed t"
    using compute_root_ok [of hf ?t xs sz] inv ix by auto
  let ?n = "root_node t'"
  note c = completedD [OF t'(2)]
  have nl: "nleaves ?n \<le> max_leaves" "i < nleaves ?n" "a < nleaves ?n"
    using c(8,11) ix i by auto
  have ht: "nd_height ?n \<le> 64"
    using wf_node_bounds [OF c(1) nl(1)] by simp
  let ?w = "\<lparr>root_to_fork = [], fork_to_index = [], fork_to_as_of = [], fork_node = False,
    cur_i = ?n, cur_a = ?n\<rparr>"
  have "at_leaf (nd_height ?n) (num_flushed t') i ?n"
    using c(1,4) nl i t'(3) by (simp add: at_leaf_def)
  moreover have "clean_at hf ?n xs"
    using c(2,3,5) by (simp add: clean_at_def)
  ultimately obtain w' where w': "past_path_loop (nd_height ?n) (index_bits (nd_height ?n) i)
        (index_bits (nd_height ?n) a) ?w = Inr w'"
      "past_elements hf w' = merkle_path hf (take (Suc a) xs) i"
    using past_together_loop [OF ht _ i(2) nl(3), of "num_flushed t'" hf xs ?w] by auto
  have "i < nd_size ?n" "a < nd_size ?n"
    using wf_size_eq [OF c(1)] nl by auto
  moreover have "leaf_node t' i = Inr (node_make (xs ! i))"
    using leaf_node_ok [OF completed_tree_inv [OF t'(2)]] t'(3) i ix by simp
  moreover have "\<not> ((i < min_index t \<or> max_index t < i) \<or> (a < min_index t \<or> max_index t < a) \<or> a < i)"
    using i tree_inv_max_index [OF inv] by (auto simp: min_index_def)
  ultimately show ?thesis
    using t' w' walk_bits_eq [OF c(1) nl(1,2)] walk_bits_eq [OF c(1) nl(1,3)]
    by (intro exI [of _ t']) (simp add: past_path_def Let_def)
qed

lemma tree_path_merkle_path:
  assumes "tree_inv hf t xs" and "num_flushed t \<le> i" and "i < length xs"
  shows "\<exists>t'. tree_path hf sz i t =
      Inr (path_make (xs ! i) i (merkle_path hf xs i) (length xs - 1), t') \<and> completed hf t' xs \<and>
    path_verify hf (path_make (xs ! i) i (merkle_path hf xs i) (length xs - 1)) (merkle_root hf xs)"
proof -
  obtain t' where t': "tree_path hf sz i t =
      Inr (path_make (xs ! i) i (route_elements (root_node t') i) (length xs - 1), t')"
    "path_verify hf (path_make (xs ! i) i (route_elements (root_node t') i) (length xs - 1))
      (merkle_root hf xs)" "completed hf t' xs" "num_flushed t' = num_flushed t"
    using tree_path_good [OF assms] by blast
  note c = completedD [OF t'(3)]
  have "route_elements (root_node t') i = merkle_path hf xs i"
    using route_elements_merkle_path [OF c(1,3,5,2,4)] assms(2,3) t'(4) c(11) by simp
  with t' show ?thesis
    by auto
qed

text \<open>C19: \<open>past_path(i, a)\<close> is the path that \<open>path(i)\<close> gives after \<open>retract_to(a)\<close>, as its
  comment says, for all leaves from the first that is not flushed; it verifies against the
  root the tree had when \<open>a\<close> was its last leaf, and the tree still stands for all leaves.\<close>

theorem past_path_of_retracted:
  assumes "tree_inv hf t xs" and "num_flushed t \<le> i" and "i \<le> a" and "a < length xs"
  shows "\<exists>p t1 t2 t3. past_path hf sz i a t = Inr (p, t1) \<and> tree_inv hf t1 xs \<and>
    retract_to hf sz a t = Inr t2 \<and> tree_path hf sz i t2 = Inr (p, t3) \<and>
    path_verify hf p (merkle_root hf (take (Suc a) xs))"
proof -
  let ?ys = "take (Suc a) xs"
  obtain t1 where t1: "past_path hf sz i a t =
      Inr (path_make (xs ! i) i (merkle_path hf ?ys i) a, t1)" "completed hf t1 xs"
    using past_path_ok [OF assms] by blast
  obtain t2 where t2: "retract_to hf sz a t = Inr t2" "tree_inv hf t2 ?ys"
      "num_flushed t2 = num_flushed t"
    using retract_to_result [OF assms(1), of a sz] assms(2-4) by (auto split: if_splits)
  have ys: "length ?ys - 1 = a" "?ys ! i = xs ! i" "i < length ?ys"
    using assms(3,4) by auto
  obtain t3 where "tree_path hf sz i t2 = Inr (path_make (xs ! i) i (merkle_path hf ?ys i) a, t3)"
      "path_verify hf (path_make (xs ! i) i (merkle_path hf ?ys i) a) (merkle_root hf ?ys)"
    using tree_path_merkle_path [OF t2(2) _ ys(3), of sz] t2(3) assms(2) unfolding ys(1,2) by auto
  with t1 t2(1) completed_tree_inv show ?thesis
    by blast
qed

theorem past_path_of_retracted_witness:
  "\<exists>p t1 t2 t3. past_path (\<lambda>a b. a @ b) 1 0 1 (tree_insert_list [[1], [2], [3]] tree_empty) =
      Inr (p, t1) \<and>
    retract_to (\<lambda>a b. a @ b) 1 1 (tree_insert_list [[1], [2], [3]] tree_empty) = Inr t2 \<and>
    tree_path (\<lambda>a b. a @ b) 1 0 t2 = Inr (p, t3) \<and>
    path_verify (\<lambda>a b. a @ b) p (merkle_root (\<lambda>a b. a @ b) [[1], [2]])"
  using past_path_of_retracted [OF tree_inv_three(1), of 0 1 "\<lambda>a b. a @ b" 1] tree_inv_three(2)
  by fastforce

end
