(* ===== verification/Merkle_Refine.thy ===== *)
theory Merkle_Refine
  imports Merkle_Serial Merkle_Past_Path
begin

text \<open>
  The abstract specification of a tree: a list of leaves and the number of them that have been
  flushed. Each operation of \<open>TreeT\<close> has its counterpart on this state, with the same answers
  and the same errors, and any sequence of operations on an empty tree gives the answers of
  the specification up to the first error. The locale \<open>simulation\<close> derives this of one step.
\<close>

section \<open>Simulations\<close>

text \<open>
  The answers of a sequence of operations, up to and with the first fault. \<open>related n\<close> is the
  relation of states that have \<open>n\<close> more operations ahead.
\<close>

fun answers :: "('op \<Rightarrow> 's \<Rightarrow> ('a \<times> 's) res) \<Rightarrow> 'op list \<Rightarrow> 's \<Rightarrow> 'a list \<times> fault option" where
  "answers step [] s = ([], None)"
| "answers step (op # ops) s =
     (case step op s of
        Inl e \<Rightarrow> ([], Some e)
      | Inr (a, s) \<Rightarrow> (let (as, e) = answers step ops s in (a # as, e)))"

locale simulation =
  fixes cstep :: "'op \<Rightarrow> 'c \<Rightarrow> ('a \<times> 'c) res"
    and astep :: "'op \<Rightarrow> 's \<Rightarrow> ('a \<times> 's) res"
    and related :: "nat \<Rightarrow> 'c \<Rightarrow> 's \<Rightarrow> bool"
  assumes fault: "related (Suc n) c s \<Longrightarrow> astep op s = Inl e \<Longrightarrow> cstep op c = Inl e"
    and answer: "related (Suc n) c s \<Longrightarrow> astep op s = Inr (a, s') \<Longrightarrow>
      \<exists>c'. cstep op c = Inr (a, c') \<and> related n c' s'"
begin

lemma same_answers: "related (length ops) c s \<Longrightarrow> answers cstep ops c = answers astep ops s"
proof (induction ops arbitrary: c s)
  case Nil
  then show ?case by simp
next
  case (Cons op ops)
  have rel: "related (Suc (length ops)) c s"
    using Cons.prems by simp
  show ?case
  proof (cases "astep op s")
    case (Inl e)
    with fault [OF rel] show ?thesis by simp
  next
    case (Inr r)
    then obtain a s' where s': "astep op s = Inr (a, s')"
      by (cases r) auto
    then obtain c' where "cstep op c = Inr (a, c')" "related (length ops) c' s'"
      using answer [OF rel] by blast
    with s' Cons.IH show ?thesis by simp
  qed
qed

end

section \<open>The operations of a tree\<close>

datatype tree_op =
    Insert hash
  | Root
  | Leaf nat
  | Path nat
  | Past_Root nat
  | Past_Path nat nat
  | Flush_To nat
  | Retract_To nat
  | Serialise
  | Serialise_Segment nat nat

datatype tree_answer = Done | Hash_Is hash | Path_Is path | Bytes_Are bytes

definition answer_of :: "('a \<Rightarrow> tree_answer) \<Rightarrow> ('a \<times> mtree) res \<Rightarrow> (tree_answer \<times> mtree) res" where
  "answer_of f r = res_bind r (\<lambda>(x, t). Inr (f x, t))"

fun tree_step ::
  "(hash \<Rightarrow> hash \<Rightarrow> hash) \<Rightarrow> nat \<Rightarrow> tree_op \<Rightarrow> mtree \<Rightarrow> (tree_answer \<times> mtree) res" where
  "tree_step hf sz (Insert h) t = Inr (Done, tree_insert h t)"
| "tree_step hf sz Root t = answer_of Hash_Is (tree_root hf sz t)"
| "tree_step hf sz (Leaf i) t = res_bind (tree_leaf t i) (\<lambda>h. Inr (Hash_Is h, t))"
| "tree_step hf sz (Path i) t = answer_of Path_Is (tree_path hf sz i t)"
| "tree_step hf sz (Past_Root i) t = answer_of Hash_Is (past_root hf sz i t)"
| "tree_step hf sz (Past_Path i a) t = answer_of Path_Is (past_path hf sz i a t)"
| "tree_step hf sz (Flush_To i) t = res_bind (flush_to hf sz i t) (\<lambda>t. Inr (Done, t))"
| "tree_step hf sz (Retract_To i) t = res_bind (retract_to hf sz i t) (\<lambda>t. Inr (Done, t))"
| "tree_step hf sz Serialise t = answer_of Bytes_Are (tree_serialise hf sz t [])"
| "tree_step hf sz (Serialise_Segment lo hi) t =
     answer_of Bytes_Are (tree_serialise_segment hf sz lo hi t [])"

section \<open>The specification\<close>

definition no_root :: fault where
  "no_root = Runtime_Error ''empty tree does not have a root''"

text \<open>An index of a leaf that is there, where an empty tree takes the index \<open>0\<close> for valid.\<close>

definition valid_index :: "hash list \<Rightarrow> nat \<Rightarrow> nat \<Rightarrow> bool" where
  "valid_index xs f i \<longleftrightarrow> f \<le> i \<and> i \<le> length xs - 1"

definition spec_path :: "(hash \<Rightarrow> hash \<Rightarrow> hash) \<Rightarrow> hash list \<Rightarrow> nat \<Rightarrow> path" where
  "spec_path hf xs i = path_make (xs ! i) i (merkle_path hf xs i) (length xs - 1)"

definition at_index :: "hash list \<Rightarrow> nat \<Rightarrow> nat \<Rightarrow> 'a \<Rightarrow> ('a \<times> hash list \<times> nat) res" where
  "at_index xs f i r =
     (if \<not> valid_index xs f i then Inl (Runtime_Error ''invalid leaf index'')
      else if xs = [] then Inl no_root else Inr (r, xs, f))"

definition at_indices ::
  "hash list \<Rightarrow> nat \<Rightarrow> nat \<Rightarrow> nat \<Rightarrow> fault \<Rightarrow> 'a \<Rightarrow> ('a \<times> hash list \<times> nat) res" where
  "at_indices xs f i j e r =
     (if \<not> valid_index xs f i \<or> \<not> valid_index xs f j \<or> j < i
      then Inl (Runtime_Error ''invalid leaf indices'')
      else if xs = [] then Inl e else Inr (r, xs, f))"

fun leaves_step ::
  "(hash \<Rightarrow> hash \<Rightarrow> hash) \<Rightarrow> tree_op \<Rightarrow> hash list \<times> nat \<Rightarrow> (tree_answer \<times> hash list \<times> nat) res" where
  "leaves_step hf (Insert h) (xs, f) = Inr (Done, xs @ [h], f)"
| "leaves_step hf Root (xs, f) =
     (if xs = [] then Inl no_root else Inr (Hash_Is (merkle_root hf xs), xs, f))"
| "leaves_step hf (Leaf i) (xs, f) =
     (if length xs \<le> i then Inl (Runtime_Error ''leaf index out of bounds'')
      else if i < f then Inl Undefined_Read else Inr (Hash_Is (xs ! i), xs, f))"
| "leaves_step hf (Path i) (xs, f) = at_index xs f i (Path_Is (spec_path hf xs i))"
| "leaves_step hf (Past_Root i) (xs, f) =
     at_index xs f i (Hash_Is (merkle_root hf (take (Suc i) xs)))"
| "leaves_step hf (Past_Path i a) (xs, f) =
     at_indices xs f i a no_root (Path_Is (spec_path hf (take (Suc a) xs) i))"
| "leaves_step hf (Flush_To i) (xs, f) =
     (if i \<le> f then Inr (Done, xs, f)
      else if length xs - 1 < i then Inl (Runtime_Error ''invalid leaf index'')
      else Inr (Done, xs, i))"
| "leaves_step hf (Retract_To i) (xs, f) =
     (if length xs - 1 < i then Inr (Done, xs, f)
      else if i < f then Inl (Runtime_Error ''leaf index out of bounds'')
      else Inr (Done, take (Suc i) xs, f))"
| "leaves_step hf Serialise (xs, f) = Inr (Bytes_Are (tree_bytes hf xs f), xs, f)"
| "leaves_step hf (Serialise_Segment lo hi) (xs, f) =
     at_indices xs f lo hi (Runtime_Error ''leaf index out of bounds'')
       (Bytes_Are (tree_bytes hf (take (Suc hi) xs) lo))"

section \<open>Refinement\<close>

definition refines ::
  "(hash \<Rightarrow> hash \<Rightarrow> hash) \<Rightarrow> (tree_answer \<times> mtree) res \<Rightarrow> (tree_answer \<times> hash list \<times> nat) res \<Rightarrow> bool" where
  "refines hf c a \<longleftrightarrow>
     (case a of Inl e \<Rightarrow> c = Inl e
      | Inr (x, xs, f) \<Rightarrow> \<exists>t. c = Inr (x, t) \<and> tree_inv hf t xs \<and> num_flushed t = f)"

lemma refines_simps [simp]:
  "refines hf c (Inl e) \<longleftrightarrow> c = Inl e"
  "refines hf c (Inr (x, xs, f)) \<longleftrightarrow>
     (\<exists>t. c = Inr (x, t) \<and> tree_inv hf t xs \<and> num_flushed t = f)"
  by (simp_all add: refines_def)

lemma answer_of_simps [simp]:
  "answer_of f (Inl e) = Inl e" "answer_of f (Inr (x, t)) = Inr (f x, t)"
  by (simp_all add: answer_of_def)

lemma valid_index_iff:
  assumes "tree_inv hf t xs"
  shows "valid_index xs (num_flushed t) i \<longleftrightarrow> \<not> (i < min_index t \<or> max_index t < i)"
  using tree_inv_max_index [OF assms] by (auto simp: valid_index_def min_index_def)

lemma valid_index_less: "valid_index xs f i \<Longrightarrow> xs \<noteq> [] \<Longrightarrow> f \<le> i \<and> i < length xs"
  by (cases xs) (auto simp: valid_index_def)

lemma walk_to_empty:
  assumes "tree_inv hf t []" and "\<not> (i < min_index t \<or> max_index t < i)"
  shows "walk_to hf sz i upd f t s = Inl no_root"
  using assms compute_root_empty [OF assms(1)] by (simp add: walk_to_def no_root_def)

lemma refines_at_index:
  assumes "tree_inv hf t xs"
    and "i < min_index t \<or> max_index t < i \<Longrightarrow> c = Inl (Runtime_Error ''invalid leaf index'')"
    and "\<not> (i < min_index t \<or> max_index t < i) \<Longrightarrow> xs = [] \<Longrightarrow> c = Inl no_root"
    and "num_flushed t \<le> i \<Longrightarrow> i < length xs \<Longrightarrow>
      \<exists>t'. c = Inr (r, t') \<and> tree_inv hf t' xs \<and> num_flushed t' = num_flushed t"
  shows "refines hf c (at_index xs (num_flushed t) i r)"
  using assms(2-4) valid_index_iff [OF assms(1), of i] valid_index_less [of xs "num_flushed t" i]
  unfolding at_index_def by auto

lemma refines_at_indices:
  assumes "tree_inv hf t xs"
    and "(i < min_index t \<or> max_index t < i) \<or> (j < min_index t \<or> max_index t < j) \<or> j < i \<Longrightarrow>
      c = Inl (Runtime_Error ''invalid leaf indices'')"
    and "\<not> ((i < min_index t \<or> max_index t < i) \<or> (j < min_index t \<or> max_index t < j) \<or> j < i) \<Longrightarrow>
      xs = [] \<Longrightarrow> c = Inl e"
    and "num_flushed t \<le> i \<Longrightarrow> i \<le> j \<Longrightarrow> j < length xs \<Longrightarrow>
      \<exists>t'. c = Inr (r, t') \<and> tree_inv hf t' xs \<and> num_flushed t' = num_flushed t"
  shows "refines hf c (at_indices xs (num_flushed t) i j e r)"
  using assms(2-4) valid_index_iff [OF assms(1), of i] valid_index_iff [OF assms(1), of j]
    valid_index_less [of xs "num_flushed t" i] valid_index_less [of xs "num_flushed t" j]
  unfolding at_indices_def by auto

text \<open>The operations one by one.\<close>

lemma refines_root:
  assumes "tree_inv hf t xs"
  shows "refines hf (tree_step hf sz Root t) (leaves_step hf Root (xs, num_flushed t))"
proof (cases "xs = []")
  case True
  then have "compute_root hf sz (t\<lparr>stats := (stats t)\<lparr>num_root := num_root (stats t) + 1\<rparr>\<rparr>) = Inl no_root"
    using assms compute_root_empty unfolding no_root_def by simp
  with True show ?thesis
    by (simp add: tree_root_def Let_def)
next
  case False
  with tree_root_ok [OF assms False, of sz] completed_tree_inv show ?thesis
    by auto
qed

lemma refines_leaf:
  assumes "tree_inv hf t xs"
  shows "refines hf (tree_step hf sz (Leaf i) t) (leaves_step hf (Leaf i) (xs, num_flushed t))"
proof -
  consider (behind) "length xs \<le> i" | (flushed) "i < length xs" "i < num_flushed t"
    | (there) "i < length xs" "num_flushed t \<le> i"
    by linarith
  then show ?thesis
  proof cases
    case behind
    then show ?thesis
      by (simp add: tree_leaf_def leaf_node_def tree_inv_num_leaves [OF assms])
  next
    case flushed
    have bounds: "num_flushed t + length (leaf_nodes t) + length (uninserted_leaf_nodes t) = length xs"
        "length xs \<le> max_leaves"
      using assms by (auto simp: tree_inv_def inserted_def split: if_splits)
    then have "size_sub i (num_flushed t) = 2 ^ 64 - (num_flushed t - i)"
      using flushed max_leaves_lt by (intro size_sub_gt) auto
    moreover have "length (leaf_nodes t) + length (uninserted_leaf_nodes t) \<le>
        2 ^ 64 - (num_flushed t - i)"
      using bounds by (simp add: max_leaves_def)
    ultimately have "leaf_node t i = Inl Undefined_Read"
      using flushed by (simp add: leaf_node_def tree_inv_num_leaves [OF assms] Let_def)
    with flushed show ?thesis
      by (simp add: tree_leaf_def)
  next
    case there
    with leaf_node_ok [OF assms there(2,1)] assms show ?thesis
      by (simp add: tree_leaf_def)
  qed
qed

lemma refines_path:
  assumes "tree_inv hf t xs"
  shows "refines hf (tree_step hf sz (Path i) t) (leaves_step hf (Path i) (xs, num_flushed t))"
    and "refines hf (tree_step hf sz (Past_Root i) t)
      (leaves_step hf (Past_Root i) (xs, num_flushed t))"
proof -
  have invalid: "tree_path hf sz i t' = Inl (Runtime_Error ''invalid leaf index'')"
    if "i < min_index t' \<or> max_index t' < i" for t'
    using tree_path_invalid [OF that] .
  have empty: "tree_path hf sz i t' = Inl no_root"
    if "tree_inv hf t' []" "\<not> (i < min_index t' \<or> max_index t' < i)" for t'
    using that by (simp add: tree_path_def walk_to_empty [of hf] Let_def)
  show "refines hf (tree_step hf sz (Path i) t) (leaves_step hf (Path i) (xs, num_flushed t))"
    unfolding leaves_step.simps
  proof (rule refines_at_index [OF assms])
    assume i: "num_flushed t \<le> i" "i < length xs"
    obtain t' where "tree_path hf sz i t = Inr (spec_path hf xs i, t')" "completed hf t' xs"
        "num_flushed t' = num_flushed t"
      using tree_path_merkle_path [OF assms i, of sz] tree_path_ok [OF assms i, of sz]
      unfolding spec_path_def by auto
    then show "\<exists>t'. tree_step hf sz (Path i) t = Inr (Path_Is (spec_path hf xs i), t') \<and>
        tree_inv hf t' xs \<and> num_flushed t' = num_flushed t"
      using completed_tree_inv by auto
  qed (use invalid empty assms in auto)
  let ?t = "t\<lparr>stats := (stats t)\<lparr>num_past_root := num_past_root (stats t) + 1\<rparr>\<rparr>"
  show "refines hf (tree_step hf sz (Past_Root i) t)
      (leaves_step hf (Past_Root i) (xs, num_flushed t))"
    unfolding leaves_step.simps
  proof (rule refines_at_index [OF assms])
    assume i: "num_flushed t \<le> i" "i < length xs"
    obtain t' where t': "past_root hf sz i t = Inr (merkle_root hf (take (Suc i) xs), t')"
        "completed hf t' xs"
      using past_root_eq [OF assms i] by blast
    moreover have "num_flushed t' = num_flushed t"
      using t'(1) tree_path_ok [of hf ?t xs i sz] assms i
      by (auto simp: past_root_def Let_def)
    ultimately show "\<exists>t'. tree_step hf sz (Past_Root i) t =
          Inr (Hash_Is (merkle_root hf (take (Suc i) xs)), t') \<and>
        tree_inv hf t' xs \<and> num_flushed t' = num_flushed t"
      using completed_tree_inv by auto
  qed (use invalid [of ?t] empty [of ?t] assms in \<open>auto simp: past_root_def Let_def\<close>)
qed

lemma refines_past_path:
  assumes "tree_inv hf t xs"
  shows "refines hf (tree_step hf sz (Past_Path i a) t)
    (leaves_step hf (Past_Path i a) (xs, num_flushed t))"
  unfolding leaves_step.simps
proof (rule refines_at_indices [OF assms])
  let ?t = "t\<lparr>stats := (stats t)\<lparr>num_past_paths := num_past_paths (stats t) + 1\<rparr>\<rparr>"
  show "tree_step hf sz (Past_Path i a) t = Inl (Runtime_Error ''invalid leaf indices'')"
    if "(i < min_index t \<or> max_index t < i) \<or> (a < min_index t \<or> max_index t < a) \<or> a < i"
    using that by (auto simp: past_path_def Let_def)
  show "tree_step hf sz (Past_Path i a) t = Inl no_root"
    if "\<not> ((i < min_index t \<or> max_index t < i) \<or> (a < min_index t \<or> max_index t < a) \<or> a < i)"
      and "xs = []"
  proof -
    have "compute_root hf sz ?t = Inl no_root"
      using that(2) assms compute_root_empty [of hf ?t sz] by (simp add: no_root_def)
    with that(1) show ?thesis by (simp add: past_path_def Let_def)
  qed
  assume i: "num_flushed t \<le> i" "i \<le> a" "a < length xs"
  have "path_make (xs ! i) i (merkle_path hf (take (Suc a) xs) i) a = spec_path hf (take (Suc a) xs) i"
    using i by (simp add: spec_path_def)
  then show "\<exists>t'. tree_step hf sz (Past_Path i a) t =
        Inr (Path_Is (spec_path hf (take (Suc a) xs) i), t') \<and>
      tree_inv hf t' xs \<and> num_flushed t' = num_flushed t"
    using past_path_ok [OF assms i, of sz] completed_tree_inv by auto
qed

lemma refines_flush:
  assumes "tree_inv hf t xs"
  shows "refines hf (tree_step hf sz (Flush_To i) t) (leaves_step hf (Flush_To i) (xs, num_flushed t))"
proof -
  consider (old) "i \<le> num_flushed t" | (high) "num_flushed t < i" "length xs - 1 < i"
    | (there) "num_flushed t < i" "i \<le> length xs - 1"
    by linarith
  then show ?thesis
  proof cases
    case old
    with assms show ?thesis
      by (simp add: flush_to_def min_index_def Let_def)
  next
    case high
    then show ?thesis
      using tree_inv_max_index [OF assms] by (simp add: flush_to_def walk_to_def min_index_def Let_def)
  next
    case there
    then have "i < length xs"
      by (cases xs) auto
    with flush_to_result [OF assms this, of sz] there show ?thesis
      by auto
  qed
qed

lemma refines_retract:
  assumes "tree_inv hf t xs"
  shows "refines hf (tree_step hf sz (Retract_To i) t)
    (leaves_step hf (Retract_To i) (xs, num_flushed t))"
proof (cases "length xs - 1 < i")
  case True
  with assms tree_inv_max_index [OF assms] show ?thesis
    by (simp add: retract_to_def Let_def)
next
  case False
  with retract_to_result [OF assms, of i sz] show ?thesis
    by (auto split: if_splits)
qed

lemma refines_serialise:
  assumes "tree_inv hf t xs"
  shows "refines hf (tree_step hf sz Serialise t) (leaves_step hf Serialise (xs, num_flushed t))"
  using tree_serialise_ok [OF assms, of sz "[]"] by auto

lemma refines_segment:
  assumes "tree_inv hf t xs"
  shows "refines hf (tree_step hf sz (Serialise_Segment lo hi) t)
    (leaves_step hf (Serialise_Segment lo hi) (xs, num_flushed t))"
  unfolding leaves_step.simps
proof (rule refines_at_indices [OF assms])
  show "tree_step hf sz (Serialise_Segment lo hi) t = Inl (Runtime_Error ''invalid leaf indices'')"
    if "(lo < min_index t \<or> max_index t < lo) \<or> (hi < min_index t \<or> max_index t < hi) \<or> hi < lo"
    using that by (auto simp: tree_serialise_segment_def)
  show "tree_step hf sz (Serialise_Segment lo hi) t =
      Inl (Runtime_Error ''leaf index out of bounds'')"
    if ok: "\<not> ((lo < min_index t \<or> max_index t < lo) \<or> (hi < min_index t \<or> max_index t < hi) \<or> hi < lo)"
      and "xs = []"
  proof -
    have n: "num_leaves t = 0" "max_index t = 0"
      using tree_inv_num_leaves [OF assms] tree_inv_max_index [OF assms] that(2) by auto
    then have "lo = 0" "hi = 0"
      using ok by auto
    with ok n show ?thesis
      by (simp add: tree_serialise_segment_def tree_leaf_def leaf_node_def Let_def)
  qed
  assume "num_flushed t \<le> lo" "lo \<le> hi" "hi < length xs"
  from tree_serialise_segment_ok [OF assms this, of sz "[]"]
  show "\<exists>t'. tree_step hf sz (Serialise_Segment lo hi) t =
        Inr (Bytes_Are (tree_bytes hf (take (Suc hi) xs) lo), t') \<and>
      tree_inv hf t' xs \<and> num_flushed t' = num_flushed t"
    by auto
qed

lemma tree_step_refines:
  assumes "tree_inv hf t xs" and "length xs < max_leaves"
  shows "refines hf (tree_step hf sz op t) (leaves_step hf op (xs, num_flushed t))"
proof (cases op)
  case (Insert h)
  have "num_flushed (tree_insert h t) = num_flushed t"
    by (simp add: tree_insert_def)
  with tree_inv_insert [OF assms] Insert show ?thesis
    by simp
qed (simp_all only: refines_root [OF assms(1)] refines_leaf [OF assms(1)] refines_path [OF assms(1)]
    refines_past_path [OF assms(1)] refines_flush [OF assms(1)] refines_retract [OF assms(1)]
    refines_serialise [OF assms(1)] refines_segment [OF assms(1)])

lemma leaves_step_length:
  assumes "leaves_step hf op (xs, f) = Inr (x, ys, f')"
  shows "length ys \<le> Suc (length xs)"
  using assms by (cases op) (auto simp: at_index_def at_indices_def split: if_splits)

definition tree_related ::
  "(hash \<Rightarrow> hash \<Rightarrow> hash) \<Rightarrow> nat \<Rightarrow> mtree \<Rightarrow> hash list \<times> nat \<Rightarrow> bool" where
  "tree_related hf n t s \<longleftrightarrow> tree_inv hf t (fst s) \<and> num_flushed t = snd s \<and>
     length (fst s) + n \<le> max_leaves"

interpretation tree_sim: simulation "tree_step hf sz" "leaves_step hf" "tree_related hf" for hf sz
proof
  fix n t op e and s :: "hash list \<times> nat"
  assume rel: "tree_related hf (Suc n) t s" and "leaves_step hf op s = Inl e"
  then show "tree_step hf sz op t = Inl e"
    using tree_step_refines [of hf t "fst s" sz op] by (auto simp: tree_related_def)
next
  fix n t op x and s s' :: "hash list \<times> nat"
  assume rel: "tree_related hf (Suc n) t s" and step: "leaves_step hf op s = Inr (x, s')"
  obtain xs f ys f' where s: "s = (xs, f)" "s' = (ys, f')"
    by (cases s; cases s')
  have "length ys \<le> Suc (length xs)"
    using leaves_step_length step s by blast
  then show "\<exists>t'. tree_step hf sz op t = Inr (x, t') \<and> tree_related hf n t' s'"
    using tree_step_refines [of hf t xs sz op] rel step by (auto simp: tree_related_def s)
qed

text \<open>C5: a tree refines the list of its leaves. Every sequence of operations on an empty tree
  gives exactly the answers of the same operations on the list (roots, leaves, paths, paths and
  roots of past states, serialisations), up to and with the first exception, in whatever order
  insertions, flushes and retractions come. Sequences may have \<open>2 ^ 29\<close> operations.\<close>

theorem tree_refines_leaves:
  assumes "length ops \<le> max_leaves"
  shows "answers (tree_step hf sz) ops tree_empty = answers (leaves_step hf) ops ([], 0)"
proof (rule tree_sim.same_answers)
  show "tree_related hf (length ops) tree_empty ([], 0)"
    using assms tree_inv_empty by (simp add: tree_related_def) (simp add: tree_empty_def)
qed

theorem tree_refines_leaves_witness:
  "answers (tree_step (\<lambda>a b. a @ b) 1)
     [Insert [1], Insert [2], Insert [3], Root, Flush_To 1, Leaf 1, Leaf 0, Root] tree_empty =
   ([Done, Done, Done, Hash_Is [1, 2, 3], Done, Hash_Is [2]], Some Undefined_Read)"
proof -
  have root: "merkle_root (\<lambda>a b. a @ b) [[1], [2], [3]] = [1, 2, 3 :: u8]"
    using merkle_root_split [of "[[1], [2]]" 1 "[[3]]"] merkle_root_split [of "[[1]]" 0 "[[2]]"]
    by simp
  show ?thesis
    by (subst tree_refines_leaves)
      (simp_all add: max_leaves_def root at_index_def valid_index_def Let_def)
qed

end
