(* ===== verification/Text_Stream.thy ===== *)
theory Text_Stream
  imports Beacon_Prelude
begin

text \<open>
  Text streams: the numbers the code writes with \<open>operator<<\<close> and reads with
  \<open>operator>>\<close>, and \<open>serializeVector\<close>, \<open>deserializeVector\<close> of
  \<open>include/pvss/Serialization.hpp\<close>. An input stream is the text still to read, or
  \<open>None\<close> after a failed extraction, when every further extraction leaves its variable as
  it is. The interface of a type with its two operators is the locale \<open>text_codec\<close>;
  \<open>consume\<close> is libff's \<open>consume_OUTPUT_NEWLINE\<close>.
\<close>

type_synonym istream = "string option"

section \<open>Sizes\<close>

definition digit :: "nat \<Rightarrow> char" where
  "digit d = char_of (48 + d)"

fun put_size :: "nat \<Rightarrow> string" where
  "put_size n = (if n < 10 then [digit n] else put_size (n div 10) @ [digit (n mod 10)])"

declare put_size.simps [simp del]

definition is_digit :: "char \<Rightarrow> bool" where
  "is_digit c \<longleftrightarrow> 48 \<le> (of_char c :: nat) \<and> (of_char c :: nat) < 58"

definition is_space :: "char \<Rightarrow> bool" where
  "is_space c \<longleftrightarrow> (of_char c :: nat) \<in> {9, 10, 11, 12, 13, 32}"

definition digits_value :: "string \<Rightarrow> nat" where
  "digits_value s = foldl (\<lambda>v c. 10 * v + (of_char c - 48)) 0 s"

text \<open>
  \<open>in >> n\<close> for a \<open>size_t\<close> whose value was \<open>old\<close>: white space, a sign and digits. A negative
  number wraps around.
\<close>

definition is_sign :: "char \<Rightarrow> bool" where
  "is_sign c \<longleftrightarrow> c = CHR ''+'' \<or> c = CHR ''-''"

fun get_size :: "nat \<Rightarrow> istream \<Rightarrow> nat \<times> istream" where
  "get_size old None = (old, None)"
| "get_size old (Some s) =
     (let s = dropWhile is_space s;
          negative = (s \<noteq> [] \<and> hd s = CHR ''-'');
          s = (if s \<noteq> [] \<and> is_sign (hd s) then tl s else s);
          ds = takeWhile is_digit s; v = digits_value ds
      in if ds = [] then (0, None)
         else if SIZE_MAX < v then (SIZE_MAX, None)
         else (if negative then size_sub 0 v else v, Some (dropWhile is_digit s)))"

declare get_size.simps(2) [simp del]

lemma of_char_digit [simp]: "d < 10 \<Longrightarrow> (of_char (digit d) :: nat) = 48 + d"
  by (simp add: digit_def)

lemma put_size_digits: "(\<forall>c\<in>set (put_size n). is_digit c) \<and> put_size n \<noteq> [] \<and>
    digits_value (put_size n) = n"
proof (induction n rule: put_size.induct)
  case (1 n)
  show ?case
  proof (cases "n < 10")
    case True
    then show ?thesis
      by (subst (1 2 3) put_size.simps) (simp add: is_digit_def digits_value_def)
  next
    case False
    with 1 show ?thesis
      by (subst (1 2 3) put_size.simps) (auto simp: is_digit_def digits_value_def)
  qed
qed

lemma get_put_size:
  assumes "n < 2 ^ 64"
  shows "get_size old (Some (put_size n @ newline @ rest)) = (n, Some (newline @ rest))"
proof -
  have no_space: "is_digit c \<Longrightarrow> \<not> is_space c" for c
    by (auto simp: is_digit_def is_space_def)
  have digits: "\<And>c. c \<in> set (put_size n) \<Longrightarrow> is_digit c" and ne: "put_size n \<noteq> []"
    using put_size_digits [of n] by auto
  have nl: "\<not> is_digit CHR 0x0A"
    by (simp add: is_digit_def)
  define t where "t = put_size n @ newline @ rest"
  have t: "t \<noteq> []" "hd t = hd (put_size n)" "is_digit (hd t)"
    using ne digits by (auto simp: t_def)
  have "dropWhile is_space t = t"
    using t no_space by (cases t) auto
  moreover have "\<not> is_sign (hd t)" "hd t \<noteq> CHR ''-''"
    using t(3) by (auto simp: is_sign_def is_digit_def)
  moreover have "takeWhile is_digit t = put_size n" "dropWhile is_digit t = newline @ rest"
    unfolding t_def using digits nl by (simp_all add: takeWhile_append2 dropWhile_append2)
  moreover have "n \<le> SIZE_MAX" "digits_value (put_size n) = n"
    using assms put_size_digits by auto
  ultimately have "get_size old (Some t) = (n, Some (newline @ rest))"
    using ne by (simp only: get_size.simps Let_def not_less if_False) simp
  then show ?thesis
    by (simp only: t_def)
qed

section \<open>The interface of a printable type\<close>

text \<open>A loop that reads \<open>k\<close> elements, each with the line break behind it.\<close>

fun read_loop ::
  "(istream \<Rightarrow> 'a \<times> istream) \<Rightarrow> (istream \<Rightarrow> istream) \<Rightarrow> nat \<Rightarrow> 'a list \<Rightarrow> istream \<Rightarrow> 'a list \<times> istream"
where
  "read_loop get consume 0 xs st = (xs, st)"
| "read_loop get consume (Suc k) xs st =
     (let (x, st) = get st in read_loop get consume k (xs @ [x]) (consume st))"

definition put_lines :: "('a \<Rightarrow> string) \<Rightarrow> 'a list \<Rightarrow> string" where
  "put_lines put xs = concat (map (\<lambda>x. put x @ newline) xs)"

definition serializeVector :: "('a \<Rightarrow> string) \<Rightarrow> 'a list \<Rightarrow> string" where
  "serializeVector put v = put_size (length v) @ newline @ put_lines put v"

text \<open>\<open>cap\<close> is the largest number of elements the memory holds; \<open>resize\<close> throws beyond. The
  local variable \<open>len\<close> has no value when the stream has failed before.\<close>

definition deserializeVector ::
  "nat \<Rightarrow> (istream \<Rightarrow> 'a \<times> istream) \<Rightarrow> (istream \<Rightarrow> istream) \<Rightarrow> istream \<Rightarrow> ('a list \<times> istream) res"
where
  "deserializeVector cap get consume st =
     (if st = None then Inl Undefined_Read
      else let (len, st) = get_size 0 st; st = consume st
        in if cap < len then Inl Length_Error else Inr (read_loop get consume len [] st))"

definition consumes_newline :: "(istream \<Rightarrow> istream) \<Rightarrow> bool" where
  "consumes_newline consume \<longleftrightarrow> (\<forall>rest. consume (Some (newline @ rest)) = Some rest)"

lemma consumes_newlineD: "consumes_newline consume \<Longrightarrow> consume (Some (CHR 0x0A # rest)) = Some rest"
  by (simp add: consumes_newline_def)

locale text_codec =
  fixes valid :: "'a \<Rightarrow> bool" and put :: "'a \<Rightarrow> string" and get :: "istream \<Rightarrow> 'a \<times> istream"
  assumes get_put: "valid x \<Longrightarrow> get (Some (put x @ newline @ rest)) = (x, Some (newline @ rest))"
begin

lemma get_put_line: "valid x \<Longrightarrow> get (Some (put x @ CHR 0x0A # rest)) = (x, Some (CHR 0x0A # rest))"
  using get_put by simp

lemma read_loop_lines:
  assumes "consumes_newline consume"
  shows "(\<forall>x\<in>set xs. valid x) \<Longrightarrow>
    read_loop get consume (length xs) ys (Some (put_lines put xs @ rest)) = (ys @ xs, Some rest)"
  by (induction xs arbitrary: ys)
    (simp_all add: put_lines_def get_put_line consumes_newlineD [OF assms])

lemma deserialize_serialize:
  assumes "consumes_newline consume" and "\<forall>x\<in>set xs. valid x" and "length xs \<le> cap"
    and "length xs < 2 ^ 64"
  shows "deserializeVector cap get consume (Some (serializeVector put xs @ rest)) = Inr (xs, Some rest)"
  using get_put_size [of "length xs" 0 "put_lines put xs @ rest"]
    read_loop_lines [OF assms(1,2), of "[]"] assms(3,4)
  by (simp add: deserializeVector_def serializeVector_def consumes_newlineD [OF assms(1)])

end

lemma text_codec_line:
  "text_codec (\<lambda>x. True) put get \<Longrightarrow>
    get (Some (put x @ CHR 0x0A # rest)) = (x, Some (CHR 0x0A # rest))"
  by (rule text_codec.get_put_line) simp_all

interpretation size_text: text_codec "\<lambda>n. n < 2 ^ 64" put_size "get_size old" for old
  by unfold_locales (rule get_put_size)

text \<open>A vector of numbers written by \<open>serializeVector\<close> is read back by
  \<open>deserializeVector\<close> whatever follows it in the stream, if the memory suffices.\<close>

theorem vector_of_sizes_roundtrip:
  assumes "consumes_newline consume" and "\<forall>n\<in>set ns. n < 2 ^ 64" and "length ns \<le> cap"
    and "length ns < 2 ^ 64"
  shows "deserializeVector cap (get_size old) consume (Some (serializeVector put_size ns @ rest)) =
    Inr (ns, Some rest)"
  by (rule size_text.deserialize_serialize [OF assms])

theorem vector_of_sizes_roundtrip_witness:
  "deserializeVector 9 (get_size 0) (map_option tl) (Some (serializeVector put_size [12, 7] @ ''x'')) =
    Inr ([12, 7], Some ''x'')"
  by (rule vector_of_sizes_roundtrip) (auto simp: consumes_newline_def)

end
