(* ===== verification/Merkle_Text.thy ===== *)
theory Merkle_Text
  imports Merkle_Tree Text_Stream
begin

text \<open>
  The text of hashes, paths, statistics and trees (the \<open>to_string\<close> operations of
  \<open>include/merklecpp.h\<close>) and the constructor of a hash from hexadecimal digits.
\<close>

section \<open>Hashes\<close>

text \<open>The conversions \<open>%02x\<close> and \<open>%02X\<close> of \<open>snprintf\<close> for a byte.\<close>

definition hex_char :: "bool \<Rightarrow> nat \<Rightarrow> char" where
  "hex_char lower_case d =
     (if lower_case then ''0123456789abcdef'' ! d else ''0123456789ABCDEF'' ! d)"

definition hex_byte :: "bool \<Rightarrow> u8 \<Rightarrow> string" where
  "hex_byte lower_case b = [hex_char lower_case (unat b div 16), hex_char lower_case (unat b mod 16)]"

text \<open>\<open>HashT::to_string\<close> reads behind the hash when more bytes are asked for than it has.\<close>

definition hash_to_string :: "hash \<Rightarrow> nat \<Rightarrow> bool \<Rightarrow> string res" where
  "hash_to_string h num_bytes lower_case =
     res_bind (res_map (\<lambda>i. res_bind (vec_get h i) (\<lambda>b. Inr (hex_byte lower_case b))) [0..<num_bytes])
       (\<lambda>r. Inr (concat r))"

text \<open>
  The conversion \<open>%02x\<close> of \<open>sscanf\<close>: white space, which does not count, and then at most two
  characters, a sign and the prefix \<open>0x\<close> among them. The text ends at its first zero
  character. There is no value when nothing can be converted.
\<close>

definition is_hex :: "char \<Rightarrow> bool" where
  "is_hex c \<longleftrightarrow>
     is_digit c \<or> (of_char c :: nat) \<in> {65..70} \<or> (of_char c :: nat) \<in> {97..102}"

definition hex_char_value :: "char \<Rightarrow> nat" where
  "hex_char_value c =
     (let n = of_char c in if n < 58 then n - 48 else if n < 71 then n - 55 else n - 87)"

definition scan_hex2 :: "string \<Rightarrow> u32 option" where
  "scan_hex2 s =
     (case take 2 (dropWhile is_space (takeWhile (\<lambda>c. of_char c \<noteq> (0::nat)) s)) of
        [] \<Rightarrow> None
      | c # cs \<Rightarrow>
          if is_sign c then
            (case cs of [] \<Rightarrow> None
             | c' # _ \<Rightarrow>
                 if is_hex c'
                 then Some (if c = CHR ''-'' then - of_nat (hex_char_value c')
                            else of_nat (hex_char_value c'))
                 else None)
          else if \<not> is_hex c then None
          else (case cs of [] \<Rightarrow> Some (of_nat (hex_char_value c))
                | c' # _ \<Rightarrow>
                    if is_hex c' then Some (of_nat (16 * hex_char_value c + hex_char_value c'))
                    else if c = CHR ''0'' \<and> (c' = CHR ''x'' \<or> c' = CHR ''X'') then None
                    else Some (of_nat (hex_char_value c))))"

text \<open>
  The constructor ignores what \<open>sscanf\<close> returns: when there is no value the variable it reads
  has not been initialised.
\<close>

definition hash_of_string :: "nat \<Rightarrow> string \<Rightarrow> hash res" where
  "hash_of_string sz s =
     (if length s \<noteq> 2 * sz then Inl (Runtime_Error ''invalid hash string'')
      else res_map (\<lambda>i. case scan_hex2 (drop (2 * i) s) of
             None \<Rightarrow> Inl Undefined_Read | Some tmp \<Rightarrow> Inr (ucast tmp)) [0..<sz])"

section \<open>Paths and statistics\<close>

text \<open>The case of the digits is not passed on for the leaf.\<close>

definition path_to_string :: "path \<Rightarrow> nat \<Rightarrow> bool \<Rightarrow> string res" where
  "path_to_string p num_bytes lower_case =
     res_bind (hash_to_string (path_leaf p) num_bytes True) (\<lambda>s.
     res_bind (res_map (\<lambda>e. res_bind (hash_to_string (e_hash e) num_bytes lower_case)
         (\<lambda>t. Inr ('' '' @ t @ (if e_direction e = PATH_LEFT then ''(L)'' else ''(R)''))))
       (path_elements p))
       (\<lambda>ss. Inr (s @ concat ss)))"

definition statistics_to_string :: "statistics \<Rightarrow> string" where
  "statistics_to_string s =
     ''num_insert='' @ put_size (num_insert s) @ '' num_hash='' @ put_size (num_hash s) @
     '' num_root='' @ put_size (num_root s) @ '' num_retract='' @ put_size (num_retract s) @
     '' num_flush='' @ put_size (num_flush s) @ '' num_paths='' @ put_size (num_paths s) @
     '' num_past_paths='' @ put_size (num_past_paths s)"

section \<open>Trees\<close>

definition node_to_string :: "string \<Rightarrow> nat \<Rightarrow> node \<Rightarrow> string res" where
  "node_to_string dirty_hash num_bytes n =
     (case n of Null \<Rightarrow> Inl Undefined_Read
      | Node h l r s ht d \<Rightarrow>
          res_bind (if d then Inr dirty_hash else hash_to_string h num_bytes True) (\<lambda>t.
            Inr (t @ ''('' @ put_size s @ '','' @ put_size ht @ '') '')))"

definition node_children :: "node \<Rightarrow> node list" where
  "node_children n =
     (case n of Null \<Rightarrow> []
      | Node h l r s ht d \<Rightarrow> (if l \<noteq> Null then [l] else []) @ (if r \<noteq> Null then [r] else []))"

lemma size_children: "n \<noteq> Null \<Longrightarrow> sum_list (map size (node_children n)) < size n"
  by (cases n) (auto simp: node_children_def)

lemma size_level:
  "Null \<notin> set level \<Longrightarrow> level \<noteq> [] \<Longrightarrow>
   sum_list (map size (concat (map node_children level))) < sum_list (map size level)"
proof (induction level)
  case (Cons n level)
  then show ?case
    using size_children [of n] by (cases "level = []") auto
qed simp

text \<open>One line for each level of nodes. A level holds no null pointer.\<close>

function levels_to_string :: "string \<Rightarrow> nat \<Rightarrow> nat \<Rightarrow> node list \<Rightarrow> string res" where
  "levels_to_string dirty_hash num_bytes level_no level =
     (if level = [] then Inr []
      else if Null \<in> set level then Inl Undefined_Read
      else res_bind (res_map (node_to_string dirty_hash num_bytes) level) (\<lambda>ss.
           res_bind (levels_to_string dirty_hash num_bytes (level_no + 1)
               (concat (map node_children level)))
             (\<lambda>t. Inr (put_size level_no @ '': '' @ concat ss @ newline @ t))))"
  by pat_completeness auto
termination
  by (relation "measure (\<lambda>(_, _, _, level). sum_list (map size level))") (auto intro: size_level)

declare levels_to_string.simps [simp del]

text \<open>
  \<open>TreeT::to_string\<close>. The text for the hash of a dirty node is a static variable: the first
  call of the program fixes its length for all later ones. \<open>dirty_hash\<close> is its value before
  the call, \<open>None\<close> before the first; the value after the call is returned as well.
\<close>

definition tree_to_string :: "string option \<Rightarrow> mtree \<Rightarrow> nat \<Rightarrow> (string \<times> string option) res" where
  "tree_to_string static_hash t num_bytes =
     (let dirty_hash = (case static_hash of
            None \<Rightarrow> replicate (2 * num_bytes) (CHR ''?'') | Some s \<Rightarrow> s)
      in if num_leaves t = 0 then Inr (''<EMPTY>'' @ newline, Some dirty_hash)
         else res_bind
           (if root_node t = Null then Inr (''No root.'' @ newline)
            else levels_to_string dirty_hash num_bytes 0 [root_node t]) (\<lambda>s.
           Inr (s @ ''+: leaves='' @ put_size (length (leaf_nodes t)) @
             '', uninserted leaves='' @ put_size (length (uninserted_leaf_nodes t)) @
             '', flushed='' @ put_size (num_flushed t) @ newline @
             ''S: '' @ statistics_to_string (stats t) @ newline, Some dirty_hash)))"

section \<open>Hexadecimal digits are read back\<close>

lemma hex_char_ok:
  assumes "d < 16"
  shows "is_hex (hex_char lower d)" and "hex_char_value (hex_char lower d) = d"
    and "\<not> is_sign (hex_char lower d)" and "\<not> is_space (hex_char lower d)"
    and "(of_char (hex_char lower d) :: nat) \<noteq> 0"
proof -
  have "\<forall>lower\<in>{True, False}. \<forall>d\<in>{0..<16}.
      is_hex (hex_char lower d) \<and> hex_char_value (hex_char lower d) = d \<and>
      \<not> is_sign (hex_char lower d) \<and> \<not> is_space (hex_char lower d) \<and>
      (of_char (hex_char lower d) :: nat) \<noteq> 0"
    by code_simp
  with assms show "is_hex (hex_char lower d)" and "hex_char_value (hex_char lower d) = d"
    and "\<not> is_sign (hex_char lower d)" and "\<not> is_space (hex_char lower d)"
    and "(of_char (hex_char lower d) :: nat) \<noteq> 0"
    by (cases lower; simp)+
qed

lemma scan_hex_byte: "scan_hex2 (hex_byte lower b @ s) = Some (ucast b)"
proof -
  have d: "unat b div 16 < 16" "unat b mod 16 < 16"
    using unat_u8_less [of b] by (simp_all add: less_mult_imp_div_less)
  have "of_nat (16 * (unat b div 16) + unat b mod 16) = (ucast b :: u32)"
    by (simp only: mult_div_mod_eq) simp
  with hex_char_ok [OF d(1)] hex_char_ok [OF d(2)] show ?thesis
    by (simp add: scan_hex2_def hex_byte_def)
qed

lemma hash_to_string_ok:
  assumes "num_bytes \<le> length h"
  shows "hash_to_string h num_bytes lower = Inr (concat (map (hex_byte lower) (take num_bytes h)))"
proof -
  have "res_map (\<lambda>i. res_bind (vec_get h i) (\<lambda>b. Inr (hex_byte lower b))) [0..<num_bytes] =
      Inr (map (\<lambda>i. hex_byte lower (h ! i)) [0..<num_bytes])"
    using assms by (intro res_map_ok) (auto simp: vec_get_def)
  moreover have "map (\<lambda>i. hex_byte lower (h ! i)) [0..<num_bytes] = map (hex_byte lower) (take num_bytes h)"
    using assms by (auto intro: nth_equalityI)
  ultimately show ?thesis
    by (simp add: hash_to_string_def)
qed

lemma drop_hex_bytes:
  "drop (2 * i) (concat (map (hex_byte lower) h)) = concat (map (hex_byte lower) (drop i h))"
proof (induction i arbitrary: h)
  case (Suc i)
  then show ?case
    by (cases h) (auto simp: hex_byte_def)
qed simp

section \<open>Round trip\<close>

lemma length_hex_bytes: "length (concat (map (hex_byte lower) h)) = 2 * length h"
  by (induction h) (auto simp: hex_byte_def)

lemma hash_of_hex_bytes: "hash_of_string (length h) (concat (map (hex_byte lower) h)) = Inr h"
proof -
  let ?s = "concat (map (hex_byte lower) h)"
  have "scan_hex2 (drop (2 * i) ?s) = Some (ucast (h ! i))" if "i < length h" for i
    using that scan_hex_byte by (simp add: drop_hex_bytes flip: Cons_nth_drop_Suc)
  then have "res_map (\<lambda>i. case scan_hex2 (drop (2 * i) ?s) of
        None \<Rightarrow> Inl Undefined_Read | Some tmp \<Rightarrow> Inr (ucast tmp :: u8)) [0..<length h] =
      Inr (map (\<lambda>i. ucast (ucast (h ! i) :: u32)) [0..<length h])"
    by (intro res_map_ok) simp
  moreover have "map (\<lambda>i. ucast (ucast (h ! i) :: u32)) [0..<length h] = h"
    by (simp add: ucast_down_ucast_id is_down map_nth)
  ultimately show ?thesis
    by (simp add: hash_of_string_def length_hex_bytes)
qed

lemma res_map_fault:
  "(\<And>x. x \<in> set xs \<Longrightarrow> \<exists>y. f x = Inr y) \<Longrightarrow> f z = Inl e \<Longrightarrow> res_map f (xs @ z # ys) = Inl e"
proof (induction xs)
  case (Cons x xs)
  obtain y where "f x = Inr y"
    using Cons.prems(1) by force
  with Cons show ?case by simp
qed simp

lemma hash_to_string_long:
  assumes "length h < num_bytes"
  shows "hash_to_string h num_bytes lower = Inl Undefined_Read"
proof -
  have "[0..<num_bytes] = [0..<length h] @ length h # [Suc (length h)..<num_bytes]"
    using assms upt_add_eq_append [of 0 "length h" "num_bytes - length h"]
    by (simp add: upt_conv_Cons)
  moreover have "res_map (\<lambda>i. res_bind (vec_get h i) (\<lambda>b. Inr (hex_byte lower b)))
      ([0..<length h] @ length h # [Suc (length h)..<num_bytes]) = Inl Undefined_Read"
    by (rule res_map_fault) (auto simp: vec_get_def)
  ultimately show ?thesis
    by (simp add: hash_to_string_def)
qed

text \<open>A hash written as text, in digits of either case, is read back by the constructor;
  the text of a part of the hash is refused, and asking for more bytes than the hash has
  reads behind it.\<close>

theorem hash_text_roundtrip:
  "(case hash_to_string h num_bytes lower of
      Inl e \<Rightarrow> length h < num_bytes \<and> e = Undefined_Read
    | Inr s \<Rightarrow> num_bytes \<le> length h \<and> length s = 2 * num_bytes \<and>
        hash_of_string (length h) s =
          (if num_bytes = length h then Inr h else Inl (Runtime_Error ''invalid hash string'')))"
proof (cases "num_bytes \<le> length h")
  case True
  then have "length (take num_bytes h) = num_bytes"
    by simp
  with True hash_of_hex_bytes [of h lower] show ?thesis
    using length_hex_bytes [of lower "take num_bytes h"]
    by (auto simp: hash_to_string_ok hash_of_string_def)
next
  case False
  then show ?thesis
    by (simp add: hash_to_string_long)
qed

section \<open>Trees are printed\<close>

text \<open>Only asking for more bytes than a hash has can go wrong.\<close>

fun hashes_at_least :: "nat \<Rightarrow> node \<Rightarrow> bool" where
  "hashes_at_least k Null = True"
| "hashes_at_least k (Node h l r s ht d) =
     ((\<not> d \<longrightarrow> k \<le> length h) \<and> hashes_at_least k l \<and> hashes_at_least k r)"

lemma levels_to_string_ok:
  "Null \<notin> set level \<Longrightarrow> \<forall>n\<in>set level. hashes_at_least num_bytes n \<Longrightarrow>
   \<exists>s. levels_to_string dirty num_bytes level_no level = Inr s"
proof (induction dirty num_bytes level_no level rule: levels_to_string.induct)
  case (1 dirty num_bytes level_no level)
  show ?case
  proof (cases "level = []")
    case False
    have "\<exists>t. node_to_string dirty num_bytes n = Inr t" if "n \<in> set level" for n
    proof -
      have "n \<noteq> Null" "hashes_at_least num_bytes n"
        using that 1(2,3) by auto
      then show ?thesis
        by (cases n) (auto simp: node_to_string_def hash_to_string_ok)
    qed
    then have "\<exists>g. \<forall>n\<in>set level. node_to_string dirty num_bytes n = Inr (g n)"
      by metis
    then obtain ss where ss: "res_map (node_to_string dirty num_bytes) level = Inr ss"
      by (metis res_map_ok)
    have "Null \<notin> set (concat (map node_children level))"
      by (auto simp: node_children_def split: node.splits if_splits)
    moreover have "hashes_at_least num_bytes m" if "n \<in> set level" "m \<in> set (node_children n)" for n m
      using that 1(3) by (cases n) (auto simp: node_children_def split: if_splits)
    ultimately obtain t where "levels_to_string dirty num_bytes (level_no + 1)
        (concat (map node_children level)) = Inr t"
      using 1(1) [OF False 1(2)] by auto
    with False 1(2) ss show ?thesis
      by (subst levels_to_string.simps) simp
  qed (simp add: levels_to_string.simps)
qed

theorem tree_to_string_total:
  assumes "hashes_at_least num_bytes (root_node t)"
  shows "\<exists>s d. tree_to_string static_hash t num_bytes = Inr (s, Some d)"
proof -
  let ?d = "case static_hash of None \<Rightarrow> replicate (2 * num_bytes) (CHR ''?'') | Some s \<Rightarrow> s"
  have "\<exists>s. (if root_node t = Null then Inr (''No root.'' @ newline)
      else levels_to_string ?d num_bytes 0 [root_node t]) = Inr s"
    using levels_to_string_ok [of "[root_node t]" num_bytes ?d 0] assms by simp
  then obtain s where "(if root_node t = Null then Inr (''No root.'' @ newline)
      else levels_to_string ?d num_bytes 0 [root_node t]) = Inr s" ..
  then show ?thesis
    by (simp only: tree_to_string_def Let_def res_bind.simps) simp
qed

end
