(* ===== verification/Merkle_Typed.thy ===== *)
theory Merkle_Typed
  imports Merkle_Refine Merkle_Text
begin

text \<open>
  The types of the states and answers of a tree. In every tree that can be reached by
  operations on hashes of \<open>HASH_SIZE\<close> bytes, the hashes that are valid have that many bytes,
  and so has every hash an operation answers; the invariants the code asserts hold.
\<close>

section \<open>Well-typed trees\<close>

text \<open>Only the hashes of nodes that are not dirty are valid.\<close>

fun clean_hashes :: "nat \<Rightarrow> node \<Rightarrow> bool" where
  "clean_hashes sz Null = True"
| "clean_hashes sz (Node h l r s ht d) =
     ((\<not> d \<longrightarrow> hash_ok sz h) \<and> clean_hashes sz l \<and> clean_hashes sz r)"

definition leaf_typed :: "nat \<Rightarrow> node \<Rightarrow> bool" where
  "leaf_typed sz n \<longleftrightarrow> n = node_make (nd_hash n) \<and> hash_ok sz (nd_hash n)"

definition tree_typed :: "nat \<Rightarrow> mtree \<Rightarrow> bool" where
  "tree_typed sz t \<longleftrightarrow>
     clean_hashes sz (root_node t) \<and> node_invariant (root_node t) \<and>
     list_all (leaf_typed sz) (leaf_nodes t) \<and> list_all (leaf_typed sz) (uninserted_leaf_nodes t) \<and>
     num_leaves t \<le> max_leaves \<and> min_index t \<le> max_index t"

definition path_typed :: "nat \<Rightarrow> path \<Rightarrow> bool" where
  "path_typed sz p \<longleftrightarrow> hash_ok sz (path_leaf p) \<and> path_leaf_index p \<le> path_max_index p \<and>
     list_all (\<lambda>e. hash_ok sz (e_hash e)) (path_elements p)"

fun answer_typed :: "nat \<Rightarrow> tree_answer \<Rightarrow> bool" where
  "answer_typed sz Done = True"
| "answer_typed sz (Hash_Is h) = hash_ok sz h"
| "answer_typed sz (Path_Is p) = path_typed sz p"
| "answer_typed sz (Bytes_Are bs) = (16 \<le> length bs \<and> sz dvd length bs - 16)"

fun op_typed :: "nat \<Rightarrow> tree_op \<Rightarrow> bool" where
  "op_typed sz (Insert h) = hash_ok sz h"
| "op_typed sz op = True"

text \<open>The trees that at most \<open>n\<close> operations on hashes of \<open>sz\<close> bytes lead to.\<close>

inductive tree_reachable :: "(hash \<Rightarrow> hash \<Rightarrow> hash) \<Rightarrow> nat \<Rightarrow> nat \<Rightarrow> mtree \<Rightarrow> bool"
  for hf sz where
  start: "tree_reachable hf sz 0 tree_empty"
| step: "tree_reachable hf sz n t \<Longrightarrow> op_typed sz op \<Longrightarrow> tree_step hf sz op t = Inr (a, t') \<Longrightarrow>
    tree_reachable hf sz (Suc n) t'"

section \<open>The specification is well-typed\<close>

definition sized :: "nat \<Rightarrow> hash list \<Rightarrow> bool" where
  "sized sz xs \<longleftrightarrow> (\<forall>x\<in>set xs. length x = sz)"

lemma sized_simps [simp]:
  "sized sz (xs @ ys) \<longleftrightarrow> sized sz xs \<and> sized sz ys" "sized sz []"
  "sized sz (x # xs) \<longleftrightarrow> length x = sz \<and> sized sz xs"
  by (auto simp: sized_def)

lemma sized_sub: "sized sz xs \<Longrightarrow> sized sz (take n xs)" "sized sz xs \<Longrightarrow> sized sz (drop n xs)"
  by (auto simp: sized_def dest: in_set_takeD in_set_dropD)

lemma sized_root:
  "sized sz xs \<Longrightarrow> xs \<noteq> [] \<Longrightarrow> \<forall>a b. length (hf a b) = sz \<Longrightarrow> length (merkle_root hf xs) = sz"
  by (intro length_merkle_root) (auto simp: sized_def)

lemma merkle_path_sized:
  "sized sz xs \<Longrightarrow> \<forall>a b. length (hf a b) = sz \<Longrightarrow>
   list_all (\<lambda>e. hash_ok sz (e_hash e)) (merkle_path hf xs i)"
proof (induction hf xs i rule: merkle_path.induct)
  case (1 hf xs i)
  show ?case
  proof (cases "length xs \<le> 1")
    case False
    let ?k = "pow2_below (length xs)"
    have k: "0 < ?k" "?k < length xs"
      using False pow2_below_pos pow2_below_less by auto
    have "length (merkle_root hf (take ?k xs)) = sz" "length (merkle_root hf (drop ?k xs)) = sz"
      using 1(3,4) k by (auto intro!: sized_root sized_sub)
    moreover have "i < ?k \<Longrightarrow>
        list_all (\<lambda>e. hash_ok sz (e_hash e)) (merkle_path hf (take ?k xs) i)"
      using 1(1) [OF False refl] 1(3,4) sized_sub(1) by blast
    moreover have "\<not> i < ?k \<Longrightarrow>
        list_all (\<lambda>e. hash_ok sz (e_hash e)) (merkle_path hf (drop ?k xs) (i - ?k))"
      using 1(2) [OF False refl] 1(3,4) sized_sub(2) by blast
    ultimately show ?thesis
      using False by (subst merkle_path.simps) (simp add: Let_def hash_ok_def)
  qed simp
qed

lemma spec_path_typed:
  assumes "sized sz xs" and "\<forall>a b. length (hf a b) = sz" and "i < length xs"
  shows "path_typed sz (spec_path hf xs i)"
  using assms merkle_path_sized [OF assms(1,2)]
  by (auto simp: path_typed_def spec_path_def path_make_def hash_ok_def sized_def)

lemma tree_bytes_typed:
  assumes "sized sz xs" and "\<forall>a b. length (hf a b) = sz" and "f \<le> length xs"
  shows "answer_typed sz (Bytes_Are (tree_bytes hf xs f))"
proof -
  have "length (concat (drop f xs)) = length (drop f xs) * sz"
    using sized_sub(2) [OF assms(1)] by (intro length_concat_same) (simp add: sized_def)
  moreover have "length (concat (extra_hashes hf xs 0 f)) = length (extra_hashes hf xs 0 f) * sz"
    using assms by (intro length_concat_same length_extra_hashes) (auto simp: sized_def)
  ultimately show ?thesis
    by (simp add: tree_bytes_def)
qed

lemma leaves_step_typed:
  assumes "leaves_step hf op (xs, f) = Inr (a, ys, f')" and "op_typed sz op" and "sized sz xs"
    and "\<forall>a b. length (hf a b) = sz" and "f = 0 \<or> f < length xs"
  shows "answer_typed sz a \<and> sized sz ys"
proof (cases op)
  case (Serialise_Segment lo hi)
  then have "sized sz (take (Suc hi) xs)" "lo \<le> length (take (Suc hi) xs)"
    using assms by (auto simp: at_indices_def valid_index_def sized_sub split: if_splits)
  with tree_bytes_typed assms Serialise_Segment show ?thesis
    by (auto simp: at_indices_def split: if_splits simp del: answer_typed.simps)
next
  case (Past_Path i j)
  then have "sized sz (take (Suc j) xs)" "i < length (take (Suc j) xs)"
    using assms
    by (cases xs; auto simp: at_indices_def valid_index_def sized_sub split: if_splits)+
  with spec_path_typed assms Past_Path show ?thesis
    by (auto simp: at_indices_def split: if_splits)
next
  case (Path i)
  then have "i < length xs"
    using assms by (cases xs; auto simp: at_index_def valid_index_def split: if_splits)
  with spec_path_typed assms Path show ?thesis
    by (auto simp: at_index_def split: if_splits)
next
  case Serialise
  with tree_bytes_typed assms show ?thesis
    by (auto simp del: answer_typed.simps)
qed (use assms in \<open>auto simp: hash_ok_def at_index_def sized_root sized_sub
       split: if_splits intro!: sized_root sized_sub\<close>, auto simp: sized_def hash_ok_def)

section \<open>Reachable trees\<close>

lemma tree_reachable_related:
  assumes "tree_reachable hf sz n t" and "\<forall>a b. length (hf a b) = sz"
  shows "n \<le> max_leaves \<Longrightarrow> \<exists>xs f. tree_related hf (max_leaves - n) t (xs, f) \<and> sized sz xs"
  using assms(1)
proof (induction rule: tree_reachable.induct)
  case start
  then show ?case
    using tree_inv_empty by (intro exI [of _ "[]"]) (simp add: tree_related_def)
next
  case (step n t op a t')
  then obtain xs f where rel: "tree_related hf (max_leaves - n) t (xs, f)" "sized sz xs"
    by auto
  moreover have m: "max_leaves - n = Suc (max_leaves - Suc n)"
    using step.prems by simp
  ultimately have rel': "tree_related hf (Suc (max_leaves - Suc n)) t (xs, f)"
    by simp
  obtain b ys f' where s: "leaves_step hf op (xs, f) = Inr (b, ys, f')"
    using tree_sim.fault [OF rel', of op _ sz] step.hyps(3)
    by (cases "leaves_step hf op (xs, f)") auto
  then have spec: "leaves_step hf op (xs, f) = Inr (a, ys, f')"
      and "tree_related hf (max_leaves - Suc n) t' (ys, f')"
    using tree_sim.answer [OF rel' s, of sz] step.hyps(3) by auto
  moreover have "f = 0 \<or> f < length xs"
    using rel(1) tree_inv_flushed [of hf t xs] by (auto simp: tree_related_def)
  ultimately show ?case
    using leaves_step_typed [OF spec step.hyps(2) rel(2) assms(2)] by blast
qed

lemma clean_hashes_tree:
  "wf_node n \<Longrightarrow> hash_inv hf n \<Longrightarrow> represents hf n xs \<Longrightarrow> sized sz xs \<Longrightarrow>
   \<forall>a b. length (hf a b) = sz \<Longrightarrow> clean_hashes sz n"
proof (induction n arbitrary: xs)
  case Null
  then show ?case by simp
next
  case (Node h l r s ht d)
  show ?case
  proof (cases "l = Null \<and> r = Null")
    case True
    then have "xs \<noteq> []" "h = merkle_root hf xs"
      using Node.prems(3) by auto
    with True Node.prems sized_root show ?thesis
      by (auto simp: hash_ok_def)
  next
    case False
    note w = wf_node_inner [OF Node.prems(1) False]
    obtain ys zs where "xs = ys @ zs" "represents hf l ys" "represents hf r zs"
      using represents_inner [OF Node.prems(1) False Node.prems(3)] by metis
    with Node.IH(1) [OF w(1)] Node.IH(2) [OF w(2)] Node.prems(2,4,5) False show ?thesis
      by (auto simp: hash_ok_def)
  qed
qed

text \<open>The node under an insertion stack inherits what holds of the whole tree.\<close>

lemma frame_parts:
  assumes "frames_ok n (f # st)" and "wf_node n"
  shows "hash_inv hf (frame f n) \<Longrightarrow> hash_inv hf n"
    and "represents hf (frame f n) xs \<Longrightarrow> \<exists>ys zs. xs = ys @ zs \<and> represents hf n zs"
proof -
  obtain h l r s ht where f: "f = (Node h l r s ht True, False)" and l: "l \<noteq> Null"
    using assms(1) by (cases f; cases "fst f") (auto dest: wf_node_neq_Null)
  have n: "n \<noteq> Null"
    using assms(2) by auto
  obtain s' ht' where fr: "frame f n = Node h l n s' ht' True"
    using l n by (simp add: frame_def f)
  show "hash_inv hf (frame f n) \<Longrightarrow> hash_inv hf n"
    using n by (simp add: fr)
  show "represents hf (frame f n) xs \<Longrightarrow> \<exists>ys zs. xs = ys @ zs \<and> represents hf n zs"
    using n by (intro exI [of _ "take (nleaves l) xs"] exI [of _ "drop (nleaves l) xs"])
      (simp add: fr)
qed

lemma plug_parts:
  "frames_ok n st \<Longrightarrow> wf_node n \<Longrightarrow> nleaves n + frame_leaves st \<le> max_leaves \<Longrightarrow>
   hash_inv hf (plug n st) \<Longrightarrow> represents hf (plug n st) xs \<Longrightarrow> sized sz xs \<Longrightarrow>
   \<exists>zs. hash_inv hf n \<and> represents hf n zs \<and> sized sz zs"
proof (induction st arbitrary: n)
  case Nil
  then show ?case by auto
next
  case (Cons f st)
  have le: "nleaves (nd_left (fst f)) + nleaves n \<le> max_leaves"
    using Cons.prems(3) by simp
  note fw = frame_wf [OF Cons.prems(1,2) le]
  obtain zs where zs: "hash_inv hf (frame f n)" "represents hf (frame f n) zs" "sized sz zs"
    using Cons.IH [of "frame f n"] Cons.prems fw by auto
  with frame_parts [OF Cons.prems(1,2)] show ?case
    by force
qed

lemma tree_inv_typed:
  assumes "tree_inv hf t xs" and "sized sz xs" and "\<forall>a b. length (hf a b) = sz"
  shows "tree_typed sz t"
proof -
  obtain zs ys where xs: "xs = zs @ ys" and ins: "inserted hf t zs"
    and un: "uninserted_leaf_nodes t = map node_make ys" and le: "length xs \<le> max_leaves"
    using assms(1) by (auto simp: tree_inv_def)
  have leaf: "leaf_typed sz (node_make x)" if "length x = sz" for x
    using that by (simp add: leaf_typed_def hash_ok_def)
  have "list_all (leaf_typed sz) (leaf_nodes t)" "list_all (leaf_typed sz) (uninserted_leaf_nodes t)"
    using ins un assms(2) leaf by (auto simp: inserted_def list_all_iff sized_def xs dest: in_set_dropD)
  moreover have "clean_hashes sz (root_node t) \<and> node_invariant (root_node t)"
  proof (cases "root_node t = Null")
    case False
    note n = inserted_nleaves [OF ins False]
    have s: "stack_inv t" "hash_inv hf (whole_tree t)" "represents hf (whole_tree t) zs"
      using ins False by (auto simp: inserted_def)
    then have w: "wf_node (root_node t)" "frames_ok (root_node t) (insertion_stack t)"
        "nleaves (root_node t) + frame_leaves (insertion_stack t) \<le> max_leaves"
      by (auto simp: stack_inv_def)
    obtain us where "hash_inv hf (root_node t)" "represents hf (root_node t) us" "sized sz us"
      using plug_parts [OF w(2,1,3), of hf zs sz] s(2,3) assms(2) xs by (auto simp: whole_tree_def)
    with clean_hashes_tree [OF w(1)] assms(3) wf_node_invariant [OF w(1)] w(3) show ?thesis
      by auto
  qed simp
  moreover have "min_index t \<le> max_index t"
    using tree_inv_flushed [OF assms(1)] tree_inv_max_index [OF assms(1)] by (auto simp: min_index_def)
  ultimately show ?thesis
    using tree_inv_num_leaves [OF assms(1)] le by (simp add: tree_typed_def)
qed

text \<open>C14: Trees and answers are well-typed. In a tree that operations on hashes of
  \<open>HASH_SIZE\<close> bytes lead to, in any order and at most \<open>2 ^ 29\<close> of them, every valid hash has
  that size, \<open>invariant()\<close> holds of the root, and the least index is not above the greatest.
  Every answer of a further operation is made of hashes of that size: roots, leaves, the
  elements of paths and the bytes of serialisations.\<close>

theorem tree_operations_typed:
  assumes "tree_reachable hf sz n t" and "n < max_leaves" and "\<forall>a b. length (hf a b) = sz"
  shows "tree_typed sz t \<and>
    (op_typed sz op \<longrightarrow>
       (case tree_step hf sz op t of
          Inl e \<Rightarrow> True | Inr (a, t') \<Rightarrow> answer_typed sz a \<and> tree_typed sz t'))"
proof -
  obtain xs f where rel: "tree_related hf (max_leaves - n) t (xs, f)" "sized sz xs"
    using tree_reachable_related [OF assms(1,3)] assms(2) by auto
  then have inv: "tree_inv hf t xs" "num_flushed t = f" "length xs < max_leaves"
    using assms(2) by (auto simp: tree_related_def)
  have "answer_typed sz a \<and> tree_typed sz t'"
    if op: "op_typed sz op" and step: "tree_step hf sz op t = Inr (a, t')" for a t'
  proof -
    obtain ys f' where spec: "leaves_step hf op (xs, f) = Inr (a, ys, f')" "tree_inv hf t' ys"
      using tree_step_refines [OF inv(1,3), of sz op] inv(2) step
      by (cases "leaves_step hf op (xs, f)") auto
    have "f = 0 \<or> f < length xs"
      using tree_inv_flushed [OF inv(1)] inv(2) by simp
    with leaves_step_typed [OF spec(1) op rel(2) assms(3)] tree_inv_typed [OF spec(2) _ assms(3)]
    show ?thesis by blast
  qed
  with tree_inv_typed [OF inv(1) rel(2) assms(3)] show ?thesis
    by (auto split: sum.splits)
qed

theorem tree_operations_typed_witness:
  "\<exists>t. tree_reachable (\<lambda>a b. [0]) 1 3 t \<and> tree_typed 1 t \<and> num_leaves t = 2 \<and>
     (case tree_step (\<lambda>a b. [0]) 1 (Past_Path 0 1) t of
        Inl e \<Rightarrow> True | Inr (a, t') \<Rightarrow> answer_typed 1 a \<and> tree_typed 1 t')"
proof -
  let ?hf = "\<lambda>a b. [0 :: u8]"
  let ?t = "tree_insert [2] (tree_insert [1] tree_empty)"
  have two: "tree_reachable ?hf 1 (Suc (Suc 0)) ?t"
    by (rule tree_reachable.step [of _ _ _ "tree_insert [1] tree_empty" "Insert [2]" Done],
        rule tree_reachable.step [of _ _ _ tree_empty "Insert [1]" Done], rule tree_reachable.start)
      (simp_all add: hash_ok_def)
  have inv: "tree_inv ?hf ?t [[1], [2]]"
    using tree_inv_insert_list [OF tree_inv_empty, of "[[1], [2]]" ?hf]
    by (simp add: max_leaves_def tree_insert_list_def)
  then obtain h t where t: "tree_root ?hf 1 ?t = Inr (h, t)" "completed ?hf t [[1], [2]]"
    using tree_root_ok [OF inv] by fastforce
  then have step: "tree_step ?hf 1 Root ?t = Inr (Hash_Is h, t)"
    by (simp add: answer_of_def)
  have three: "tree_reachable ?hf 1 3 t"
    using tree_reachable.step [OF two _ step] by (simp add: numeral_3_eq_3)
  have "num_leaves t = 2"
    using tree_inv_num_leaves [OF completed_tree_inv [OF t(2)]] by simp
  with three tree_operations_typed [OF three, of "Past_Path 0 1"] show ?thesis
    by (intro exI [of _ t]) (simp add: max_leaves_def)
qed

section \<open>Printing\<close>

lemma clean_hashes_at_least: "clean_hashes sz n \<Longrightarrow> k \<le> sz \<Longrightarrow> hashes_at_least k n"
  by (induction n) (auto simp: hash_ok_def)

theorem typed_tree_prints:
  "tree_typed sz t \<Longrightarrow> num_bytes \<le> sz \<Longrightarrow>
   \<exists>s d. tree_to_string static_hash t num_bytes = Inr (s, Some d)"
  by (rule tree_to_string_total) (auto simp: tree_typed_def intro: clean_hashes_at_least)

end
