(* ===== verification/Merkle_Copy.thy ===== *)
theory Merkle_Copy
  imports Merkle_Retract
begin

text \<open>
  Correctness of the assignment and the copy constructor of trees (\<open>TreeT::operator=\<close> and
  \<open>Node::copy_node\<close> of \<open>include/merklecpp.h\<close>). The leaves of the copy are collected from
  the copied nodes: of the flushed leaves only the last can still be a leaf of its own, when
  their number is odd, and it is skipped.
\<close>

section \<open>Collecting the leaves\<close>

lemma childless:
  assumes "wf_node n" and "nd_left n = Null"
  obtains h ht where "n = Node h Null Null (2 ^ ht - 1) ht False" and "1 \<le> ht"
proof -
  obtain h l r s ht d where n: "n = Node h l r s ht d"
    using assms(1) by (cases n) auto
  then have "l = Null" and "r = Null"
    using assms by (auto split: if_splits)
  with n assms(1) that show ?thesis by auto
qed

lemma copy_node_conflated:
  assumes "wf_node n" and "nd_left n = Null"
  shows "copy_node n acc k =
    (if nd_size n = 1 then if k = 0 then (n, acc @ [n], k) else (n, acc, k - 1) else (n, acc, k))"
  using assms by (rule childless) (simp add: Let_def)

lemma leaf_represents:
  assumes "wf_node n" and "nd_left n = Null" and "nd_height n = 1" and "represents hf n xs"
  shows "\<exists>x. xs = [x] \<and> n = node_make x"
proof -
  obtain h ht where n: "n = Node h Null Null (2 ^ ht - 1) ht False"
    using assms(1,2) by (rule childless)
  with assms(3,4) obtain x where "xs = [x]"
    by (auto simp: length_Suc_conv)
  with n assms(3,4) show ?thesis
    by (simp add: node_make_eq)
qed

lemma pow2_minus_mod2: "2 ^ j \<le> f \<Longrightarrow> j \<noteq> 0 \<Longrightarrow> (f - 2 ^ j) mod 2 = f mod (2::nat)"
  by (simp add: mod2_eq_if)

text \<open>Copying collects the leaves that have not been flushed.\<close>

lemma copy_node_leaves:
  "wf_node n \<Longrightarrow> represents hf n xs \<Longrightarrow> conflated_below f n \<Longrightarrow> f < nleaves n \<Longrightarrow>
   copy_node n acc (f mod 2) = (n, acc @ map node_make (drop f xs), 0)"
proof (induction n arbitrary: xs f acc)
  case Null
  then show ?case by simp
next
  case (Node h l r s ht d)
  let ?n = "Node h l r s ht d"
  show ?case
  proof (cases "l = Null \<and> r = Null")
    case True
    with Node.prems have "ht = 1" "f = 0"
      by auto
    then obtain x where x: "xs = [x]" "?n = node_make x"
      using leaf_represents [OF Node.prems(1) _ _ Node.prems(2)] True by auto
    have "copy_node (node_make x) acc 0 = (node_make x, acc @ [node_make x], 0)"
      by (simp add: node_make_eq Let_def)
    with x \<open>f = 0\<close> show ?thesis by simp
  next
    case False
    note w = wf_node_inner [OF Node.prems(1) False]
    have c: "conflated_below f l" "conflated_below (f - nleaves l) r"
        "nleaves l \<le> f \<longrightarrow> nd_left l = Null"
      using False Node.prems(3) by auto
    obtain ys zs where xs: "xs = ys @ zs" and rep: "represents hf l ys" "represents hf r zs"
      and len: "length ys = 2 ^ (nd_height l - 1)" "length ys = nleaves l"
      using represents_inner [OF Node.prems(1) False Node.prems(2)] by metis
    have right: "copy_node r acc 0 = (r, acc @ map node_make zs, 0)" if "f < nleaves l" for acc
      using Node.IH(2) [OF w(2) rep(2), of 0 acc] c(2) nleaves_pos [OF w(2)] that by simp
    show ?thesis
    proof (cases "f < nleaves l")
      case True
      with Node.IH(1) [OF w(1) rep(1) c(1) True] right [OF True] w(3) len
      show ?thesis by (simp add: xs)
    next
      case past: False
      let ?f = "f - nleaves l"
      have f: "?f < nleaves r"
        using Node.prems(4) False past by auto
      have left: "copy_node l acc (f mod 2) = (l, acc, ?f mod 2)"
      proof (cases "nd_height l = 1")
        case True
        then have one: "nleaves l = 1" "nd_size l = 1" "nd_height r \<le> 1"
          using len w(5,6) by auto
        then have "nleaves r \<le> 1"
          using wf_leaves [OF w(2)] by (metis le_zero_eq diff_is_0_eq order_trans power_0)
        then have "f = 1"
          using f past one by linarith
        with one past c(3) copy_node_conflated [OF w(1)] show ?thesis by simp
      next
        case False
        then have j: "nd_height l - 1 \<noteq> 0" and "1 < nd_height l"
          using wf_leaves [OF w(1)] by auto
        have "nd_size l \<noteq> 1"
          using wf_leaves [OF w(1)] j len by (auto simp: power_eq_if)
        moreover have "?f mod 2 = f mod 2"
          using pow2_minus_mod2 [OF _ j, of f] past len by simp
        ultimately show ?thesis
          using past c(3) copy_node_conflated [OF w(1)] by simp
      qed
      with Node.IH(2) [OF w(2) rep(2) c(2) f, of acc] w(3) past len
      show ?thesis by (simp add: xs)
    qed
  qed
qed

section \<open>Assignment\<close>

text \<open>C15: Assigning a tree whose insertion stack is empty (as after every operation that
  computes the root) copies it: leaves, pending leaves, nodes and the number of flushed
  leaves are those of the other tree, whatever has been flushed from it; only the statistics
  stay, and neither assertion fails.\<close>

theorem tree_assign_copies:
  assumes "tree_inv hf other xs" and "insertion_stack other = []"
  shows "tree_assign t other = Inr (other\<lparr>stats := stats t\<rparr>)"
proof -
  obtain zs ys where ins: "inserted hf other zs"
    and un: "uninserted_leaf_nodes other = map node_make ys"
    using assms(1) by (auto simp: tree_inv_def)
  have skip: "(if num_flushed other mod 2 = 0 then 0 else 1) = num_flushed other mod 2"
    by auto
  have copy: "copy_node (root_node other) [] (num_flushed other mod 2) =
      (root_node other, leaf_nodes other, 0)"
  proof (cases "root_node other = Null")
    case True
    with ins show ?thesis by (auto simp: inserted_def)
  next
    case False
    note w = inserted_nleaves [OF ins False]
    have whole: "whole_tree other = root_node other"
      using assms(2) by (simp add: whole_tree_def)
    with ins False w show ?thesis
      using copy_node_leaves [of "root_node other" hf zs "num_flushed other" "[]"]
      by (simp add: inserted_def)
  qed
  have "map (\<lambda>n. fst (copy_node n [] 0)) (uninserted_leaf_nodes other) = uninserted_leaf_nodes other"
    by (simp add: copy_node_fst)
  then have "assigned_tree t other = other\<lparr>stats := stats t\<rparr>"
    using assms(2) by (simp add: assigned_tree_def skip copy)
  then show ?thesis
    by (simp add: tree_assign_def min_index_def max_index_def num_leaves_def)
qed

section \<open>An unfinished insertion stack\<close>

lemma walk_loop_step:
  "1 < height \<Longrightarrow> cur \<noteq> Null \<Longrightarrow> walk_loop f upd height it cur s =
     (if nd_height cur = height then
        (case f cur (bit it 63) s of (go_on, cur, s) \<Rightarrow>
           if \<not> go_on then
             Option.bind (walk_loop f upd height it cur s) (\<lambda>(leaf, cur, s).
               Some (leaf, if upd then update_sizes cur else cur, s))
           else
             Option.bind
               (walk_loop f upd (height - 1) (push_bit 1 it)
                  (if bit it 63 then nd_right cur else nd_left cur) s) (\<lambda>(leaf, c, s).
               Some (leaf,
                 if upd then update_sizes (set_child (\<not> bit it 63) cur c)
                 else set_child (\<not> bit it 63) cur c, s)))
      else
        Option.bind (walk_loop f upd (height - 1) (push_bit 1 it) cur s) (\<lambda>(leaf, cur, s).
          Some (leaf, if upd then update_sizes cur else cur, s)))"
  "height \<le> 1 \<Longrightarrow> walk_loop f upd height it cur s = Some (cur, cur, s)"
  by (subst walk_loop.simps, simp)+

lemmas evaluate_flush =
  evaluate_insertion flush_to_def walk_to_def compute_root_def min_index_def max_index_def
  num_leaves_def walk_bits_def walk_loop_step flush_callback_def

text \<open>
  Nine leaves, eight of which are flushed, and five further leaves, which \<open>size()\<close> inserts
  without completing the insertion stack.
\<close>

definition flushed_nine :: "mtree res" where
  "flushed_nine = flush_to (\<lambda>a b. [1]) 1 8
     (tree_insert_list [[0], [1], [2], [3], [4], [5], [6], [7], [8]] tree_empty)"

theorem tree_assign_copies_witness:
  "\<exists>t. flushed_nine = Inr t \<and> num_flushed t = 8 \<and> length (leaf_nodes t) = 1 \<and>
     tree_assign tree_empty t = Inr (t\<lparr>stats := stats tree_empty\<rparr>)"
proof -
  let ?hf = "\<lambda>a b. [1 :: u8]"
  let ?xs = "[[0], [1], [2], [3], [4], [5], [6], [7], [8]] :: hash list"
  have "tree_inv ?hf (tree_insert_list ?xs tree_empty) ([] @ ?xs)"
    using tree_inv_empty by (rule tree_inv_insert_list) (simp add: max_leaves_def)
  then obtain t where t: "flushed_nine = Inr t" "tree_inv ?hf t ?xs"
    using flush_to_result [of ?hf "tree_insert_list ?xs tree_empty" ?xs 8 1]
    by (auto simp: flushed_nine_def)
  have "insertion_stack (projr flushed_nine) = []" "num_flushed (projr flushed_nine) = 8"
      "length (leaf_nodes (projr flushed_nine)) = 1"
    by (simp_all add: flushed_nine_def evaluate_flush)
  then have "insertion_stack t = []" "num_flushed t = 8" "length (leaf_nodes t) = 1"
    unfolding t(1) sum.sel .
  with t tree_assign_copies [OF t(2), of tree_empty] show ?thesis
    by blast
qed

definition grown_nine :: "(nat \<times> mtree) res" where
  "grown_nine = res_bind flushed_nine (\<lambda>t.
     tree_size 1 (tree_insert_list [[9], [10], [11], [12], [13]] t))"

text \<open>The copy constructor does not copy an unfinished insertion stack. Of the tree with
  fourteen leaves (and none flushed) the copy has six leaves, and the second assertion of
  \<open>operator=\<close> fails. Of the tree that also has fourteen leaves, but from which eight were
  flushed, the assertions pass: the copy claims fourteen leaves, and its root is the node over
  the last six of them (11 of 27 nodes).\<close>

theorem tree_copy_unfinished:
  "\<exists>t t' u u'. tree_size 1 fourteen = Inr (11, t) \<and> tree_copy t = Inl Assertion_Failed \<and>
     assigned_tree tree_empty t = t' \<and> num_leaves t = 14 \<and> num_leaves t' = 6 \<and>
     grown_nine = Inr (11, u) \<and> tree_copy u = Inr u' \<and> num_leaves u' = 14 \<and>
     tree_nodes u = 27 \<and> insertion_stack u' = [] \<and> nd_size (root_node u') = 11"
proof -
  let ?t = "snd (projr (tree_size 1 fourteen))"
  have t: "tree_size 1 fourteen = Inr (11, ?t)" "num_leaves ?t = 14"
      "num_leaves (assigned_tree tree_empty ?t) = 6"
    by (simp_all add: tree_size_def fourteen_def evaluate_insertion num_leaves_def assigned_tree_def)
  then have "tree_copy ?t = Inl Assertion_Failed"
    by (simp add: tree_copy_def tree_assign_def max_index_def Let_def)
  let ?u = "snd (projr grown_nine)"
  have u: "grown_nine = Inr (11, ?u)" "num_leaves ?u = 14" "num_flushed ?u = 8"
      "num_leaves (assigned_tree tree_empty ?u) = 14" "num_flushed (assigned_tree tree_empty ?u) = 8"
      "insertion_stack (assigned_tree tree_empty ?u) = []"
      "nd_size (root_node (assigned_tree tree_empty ?u)) = 11"
    by (simp_all add: grown_nine_def flushed_nine_def tree_size_def evaluate_flush assigned_tree_def)
  then have "tree_copy ?u = Inr (assigned_tree tree_empty ?u)" "tree_nodes ?u = 27"
    by (simp_all add: tree_copy_def tree_assign_def max_index_def min_index_def tree_nodes_def Let_def)
  with t u \<open>tree_copy ?t = _\<close> show ?thesis
    by blast
qed

end
