(* ===== verification/Merkle_Heap.thy ===== *)
theory Merkle_Heap
  imports Merkle_Root
begin

text \<open>
  Tree nodes with their addresses: \<open>new\<close>, pointers, \<open>delete\<close> and the destructor of
  \<open>TreeT::Node\<close> (\<open>include/merklecpp.h\<close>). A heap maps the addresses of the nodes that have
  been allocated and not deleted to their fields; a null pointer is \<open>None\<close>. An access to an
  address without a node, which C++ leaves undefined, is the fault \<open>Undefined_Read\<close>. The
  allocator is a parameter, of which only \<open>fresh_addr\<close> is assumed: it does not hand out an
  address in use. It may hand out one that has been deleted.

  \<open>holds h p n F\<close> says that the pointer \<open>p\<close> leads to the tree \<open>n\<close> of \<open>Merkle_Node\<close>, that
  every node of it has an address of its own, and that \<open>F\<close> is the set of these addresses.
  The routines that follow pointers are partial functions with the value \<open>None\<close> where they
  would not end, as on a cycle.
\<close>

section \<open>The heap\<close>

type_synonym addr = nat

record cell =
  cl_hash :: hash
  cl_left :: "addr option"
  cl_right :: "addr option"
  cl_size :: nat
  cl_height :: nat
  cl_dirty :: bool

type_synonym nheap = "addr \<Rightarrow> cell option"

definition fresh_addr :: "(nheap \<Rightarrow> addr) \<Rightarrow> bool" where
  "fresh_addr new \<longleftrightarrow> (\<forall>h. finite (dom h) \<longrightarrow> new h \<notin> dom h)"

text \<open>Sequencing of routines that may fail or not end.\<close>

definition run_bind :: "'a res option \<Rightarrow> ('a \<Rightarrow> 'b res option) \<Rightarrow> 'b res option" where
  "run_bind m f = Option.bind m (\<lambda>r. case r of Inl e \<Rightarrow> Some (Inl e) | Inr x \<Rightarrow> f x)"

lemma run_bind_simps [simp]:
  "run_bind None f = None" "run_bind (Some (Inl e)) f = Some (Inl e)"
  "run_bind (Some (Inr x)) f = f x"
  by (simp_all add: run_bind_def)

lemma run_bind_Inr_iff: "run_bind m f = Some (Inr y) \<longleftrightarrow> (\<exists>x. m = Some (Inr x) \<and> f x = Some (Inr y))"
proof (cases m)
  case (Some r)
  then show ?thesis by (cases r) simp_all
qed simp

lemma run_bind_mono [partial_function_mono]:
  assumes "mono_option B" and "\<And>y. mono_option (\<lambda>f. C y f)"
  shows "mono_option (\<lambda>f. run_bind (B f) (\<lambda>y. C y f))"
proof -
  have "mono_option (\<lambda>f. case r of Inl e \<Rightarrow> Some (Inl e) | Inr x \<Rightarrow> C x f)" for r
    by (cases r) (simp_all add: assms(2) option.const_mono)
  then show ?thesis
    unfolding run_bind_def by (intro bind_mono assms(1))
qed

definition run_assert :: "bool \<Rightarrow> unit res option" where
  "run_assert b = Some (if b then Inr () else Inl Assertion_Failed)"

definition deref :: "addr \<Rightarrow> nheap \<Rightarrow> cell res option" where
  "deref a h = Some (case h a of None \<Rightarrow> Inl Undefined_Read | Some c \<Rightarrow> Inr c)"

lemma run_assert_True [simp]: "run_assert True = Some (Inr ())"
  by (simp add: run_assert_def)

lemma deref_Some [simp]: "h a = Some c \<Longrightarrow> deref a h = Some (Inr c)"
  and deref_None [simp]: "h a = None \<Longrightarrow> deref a h = Some (Inl Undefined_Read)"
  by (simp_all add: deref_def)

section \<open>Nodes\<close>

partial_function (option) node_invariant_h :: "addr \<Rightarrow> nheap \<Rightarrow> bool res option" where
  "node_invariant_h a h =
     run_bind (deref a h) (\<lambda>c.
     run_bind (case cl_left c of None \<Rightarrow> Some (Inr True) | Some l \<Rightarrow>
        (case cl_right c of None \<Rightarrow> Some (Inr True) | Some r \<Rightarrow>
           run_bind (deref l h) (\<lambda>cl. run_bind (deref r h) (\<lambda>cr.
             Some (Inr (cl_size c = size_wrap (cl_size cl + cl_size cr + 1))))))) (\<lambda>c2.
     run_bind (case cl_left c of None \<Rightarrow> Some (Inr True) | Some l \<Rightarrow> node_invariant_h l h) (\<lambda>il.
     run_bind (case cl_right c of None \<Rightarrow> Some (Inr True) | Some r \<Rightarrow> node_invariant_h r h) (\<lambda>ir.
       Some (Inr ((cl_left c = None \<longleftrightarrow> cl_right c = None) \<and> c2 \<and> il \<and> ir \<and> cl_height c \<le> 8 * 8))))))"

definition update_sizes_h :: "addr \<Rightarrow> nheap \<Rightarrow> nheap res option" where
  "update_sizes_h a h =
     run_bind (deref a h) (\<lambda>c.
       case (cl_left c, cl_right c) of
         (Some l, Some r) \<Rightarrow>
           run_bind (deref l h) (\<lambda>cl. run_bind (deref r h) (\<lambda>cr.
             Some (Inr (h(a \<mapsto> c\<lparr>cl_size := size_wrap (cl_size cl + cl_size cr + 1),
               cl_height := (max (cl_height cl) (cl_height cr) + 1) mod 2 ^ 8\<rparr>)))))
       | _ \<Rightarrow> Some (Inr (h(a \<mapsto> c\<lparr>cl_size := 1, cl_height := 1\<rparr>))))"

definition is_full_h :: "addr \<Rightarrow> nheap \<Rightarrow> bool res option" where
  "is_full_h a h =
     run_bind (deref a h) (\<lambda>c.
     if 30 < cl_height c then Some (Inl Int_Overflow)
     else run_bind (run_assert (cl_size c \<le> max_size (cl_height c))) (\<lambda>_.
       Some (Inr (cl_size c = max_size (cl_height c)))))"

definition node_make_h :: "(nheap \<Rightarrow> addr) \<Rightarrow> hash \<Rightarrow> nheap \<Rightarrow> (addr \<times> nheap) res option" where
  "node_make_h new x h =
     (let a = new h;
          h = h(a \<mapsto> \<lparr>cl_hash = x, cl_left = None, cl_right = None, cl_size = 0, cl_height = 0,
                cl_dirty = False\<rparr>)
      in run_bind (update_sizes_h a h) (\<lambda>h.
         run_bind (node_invariant_h a h) (\<lambda>ok.
         run_bind (run_assert ok) (\<lambda>_. Some (Inr (a, h))))))"

definition node_make2_h ::
  "(nheap \<Rightarrow> addr) \<Rightarrow> nat \<Rightarrow> addr \<Rightarrow> addr \<Rightarrow> nheap \<Rightarrow> (addr \<times> nheap) res option" where
  "node_make2_h new sz l r h =
     (let a = new h;
          h = h(a \<mapsto> \<lparr>cl_hash = hash_zero sz, cl_left = Some l, cl_right = Some r, cl_size = 0,
                cl_height = 0, cl_dirty = True\<rparr>)
      in run_bind (update_sizes_h a h) (\<lambda>h.
         run_bind (node_invariant_h a h) (\<lambda>ok.
         run_bind (run_assert ok) (\<lambda>_. Some (Inr (a, h))))))"

text \<open>
  \<open>copy_node\<close> with the vector and the counter it is given, if any. The fields of the source
  are read where the code reads them.
\<close>

partial_function (option) copy_node_h ::
  "(nheap \<Rightarrow> addr) \<Rightarrow> addr option \<Rightarrow> (addr list \<times> nat) option \<Rightarrow> nheap \<Rightarrow>
   (addr option \<times> (addr list \<times> nat) option \<times> nheap) res option" where
  "copy_node_h new from acc h =
     (case from of None \<Rightarrow> Some (Inr (None, acc, h))
      | Some a \<Rightarrow>
          run_bind (deref a h) (\<lambda>c.
          run_bind (node_make_h new (cl_hash c) h) (\<lambda>(r, h).
          run_bind (deref r h) (\<lambda>cr.
          let h = h(r \<mapsto> cr\<lparr>cl_size := cl_size c, cl_height := cl_height c, cl_dirty := cl_dirty c\<rparr>)
          in run_bind (copy_node_h new (cl_left c) acc h) (\<lambda>(pl, acc, h).
             run_bind (deref r h) (\<lambda>cr.
             let h = h(r \<mapsto> cr\<lparr>cl_left := pl\<rparr>)
             in run_bind (deref a h) (\<lambda>c.
                run_bind (copy_node_h new (cl_right c) acc h) (\<lambda>(pr, acc, h).
                run_bind (deref r h) (\<lambda>cr.
                let cr = cr\<lparr>cl_right := pr\<rparr>; h = h(r \<mapsto> cr);
                    acc = (case acc of None \<Rightarrow> None
                      | Some (ns, k) \<Rightarrow>
                          if cl_size cr = 1 \<and> cl_left cr = None \<and> cl_right cr = None
                          then if k = 0 then Some (ns @ [r], k) else Some (ns, k - 1)
                          else acc)
                in Some (Inr (Some r, acc, h)))))))))))"

text \<open>\<open>delete\<close>: nothing for a null pointer; otherwise the destructor, then the memory is free.\<close>

partial_function (option) node_delete :: "addr option \<Rightarrow> nheap \<Rightarrow> nheap res option" where
  "node_delete p h =
     (case p of None \<Rightarrow> Some (Inr h)
      | Some a \<Rightarrow>
          run_bind (node_invariant_h a h) (\<lambda>ok.
          run_bind (run_assert ok) (\<lambda>_.
          run_bind (deref a h) (\<lambda>c.
          run_bind (node_delete (cl_left c) h) (\<lambda>h.
          run_bind (deref a h) (\<lambda>c.
          run_bind (node_delete (cl_right c) h) (\<lambda>h.
            Some (Inr (h(a := None))))))))))"

fun delete_all :: "addr list \<Rightarrow> nheap \<Rightarrow> nheap res option" where
  "delete_all [] h = Some (Inr h)"
| "delete_all (a # as) h = run_bind (node_delete (Some a) h) (delete_all as)"

section \<open>Trees in the heap\<close>

definition cell_of :: "node \<Rightarrow> addr option \<Rightarrow> addr option \<Rightarrow> cell" where
  "cell_of n pl pr = \<lparr>cl_hash = nd_hash n, cl_left = pl, cl_right = pr, cl_size = nd_size n,
     cl_height = nd_height n, cl_dirty = nd_dirty n\<rparr>"

fun holds :: "nheap \<Rightarrow> addr option \<Rightarrow> node \<Rightarrow> addr set \<Rightarrow> bool" where
  "holds h p Null F \<longleftrightarrow> p = None \<and> F = {}"
| "holds h p (Node x l r s ht d) F \<longleftrightarrow>
     (\<exists>a pl pr Fl Fr. p = Some a \<and> h a = Some (cell_of (Node x l r s ht d) pl pr) \<and>
        holds h pl l Fl \<and> holds h pr r Fr \<and> a \<notin> Fl \<and> a \<notin> Fr \<and> Fl \<inter> Fr = {} \<and>
        F = insert a (Fl \<union> Fr))"

lemma cell_of_sel [simp]:
  "cl_hash (cell_of n pl pr) = nd_hash n" "cl_left (cell_of n pl pr) = pl"
  "cl_right (cell_of n pl pr) = pr" "cl_size (cell_of n pl pr) = nd_size n"
  "cl_height (cell_of n pl pr) = nd_height n" "cl_dirty (cell_of n pl pr) = nd_dirty n"
  by (simp_all add: cell_of_def)

lemma cell_of_upd [simp]:
  "(cell_of n pl pr)\<lparr>cl_left := q\<rparr> = cell_of n q pr" "(cell_of n pl pr)\<lparr>cl_right := q\<rparr> = cell_of n pl q"
  by (simp_all add: cell_of_def)

lemma cell_of_node_make:
  "(cell_of (node_make x) None None)\<lparr>cl_size := s, cl_height := ht, cl_dirty := d\<rparr> =
   cell_of (Node x l r s ht d) None None"
  by (simp add: cell_of_def node_make_eq)

lemma cell_of_dirty:
  "(cell_of (Node x l r s ht d) pl pr)\<lparr>cl_dirty := e\<rparr> = cell_of (Node x l r s ht e) pl pr"
  by (simp add: cell_of_def)

lemma holds_None [simp]: "holds h None n F \<longleftrightarrow> n = Null \<and> F = {}"
  by (cases n) auto

lemma holds_Null_iff: "holds h p n F \<Longrightarrow> p = None \<longleftrightarrow> n = Null"
  by (cases n) auto

lemma holds_subset: "holds h p n F \<Longrightarrow> F \<subseteq> dom h"
proof (induction n arbitrary: p F)
  case Null
  then show ?case by simp
next
  case (Node x l r s ht d)
  then obtain a pl pr Fl Fr where "h a = Some (cell_of (Node x l r s ht d) pl pr)"
      "holds h pl l Fl" "holds h pr r Fr" "F = insert a (Fl \<union> Fr)"
    by auto
  with Node.IH [of pl Fl] Node.IH(2) [of pr Fr] show ?case by auto
qed

lemma holds_finite: "holds h p n F \<Longrightarrow> finite F"
  by (induction n arbitrary: p F) auto

lemma holds_cong: "holds h p n F \<Longrightarrow> (\<And>a. a \<in> F \<Longrightarrow> h' a = h a) \<Longrightarrow> holds h' p n F"
proof (induction n arbitrary: p F)
  case Null
  then show ?case by simp
next
  case (Node x l r s ht d)
  then obtain a pl pr Fl Fr where "p = Some a" "h a = Some (cell_of (Node x l r s ht d) pl pr)"
      "holds h pl l Fl" "holds h pr r Fr" "a \<notin> Fl" "a \<notin> Fr" "Fl \<inter> Fr = {}" "F = insert a (Fl \<union> Fr)"
    by auto
  with Node.IH(1) [of pl Fl] Node.IH(2) [of pr Fr] Node.prems(2) show ?case
    by fastforce
qed

lemma holds_inj: "holds h p n F \<Longrightarrow> holds h p n' F' \<Longrightarrow> n' = n \<and> F' = F"
proof (induction n arbitrary: p F n' F')
  case Null
  then show ?case by simp
next
  case (Node x l r s ht d)
  then show ?case
    by (cases n') (fastforce simp: cell_of_def)+
qed

text \<open>One node and its children.\<close>

lemma holds_Some:
  "holds h (Some a) n F \<longleftrightarrow> n \<noteq> Null \<and>
     (\<exists>pl pr Fl Fr. h a = Some (cell_of n pl pr) \<and> holds h pl (nd_left n) Fl \<and>
        holds h pr (nd_right n) Fr \<and> a \<notin> Fl \<and> a \<notin> Fr \<and> Fl \<inter> Fr = {} \<and> F = insert a (Fl \<union> Fr))"
  by (cases n) auto

lemma holds_SomeE:
  assumes "holds h (Some a) n F"
  obtains pl pr Fl Fr where "n \<noteq> Null" "h a = Some (cell_of n pl pr)" "holds h pl (nd_left n) Fl"
    "holds h pr (nd_right n) Fr" "a \<notin> Fl" "a \<notin> Fr" "Fl \<inter> Fr = {}" "F = insert a (Fl \<union> Fr)"
  using assms unfolding holds_Some by blast

lemma holds_SomeI:
  "h a = Some (cell_of n pl pr) \<Longrightarrow> n \<noteq> Null \<Longrightarrow> holds h pl (nd_left n) Fl \<Longrightarrow> holds h pr (nd_right n) Fr \<Longrightarrow>
   a \<notin> Fl \<Longrightarrow> a \<notin> Fr \<Longrightarrow> Fl \<inter> Fr = {} \<Longrightarrow> holds h (Some a) n (insert a (Fl \<union> Fr))"
  unfolding holds_Some by blast

text \<open>
  The address a leaf index leads to, for every index of a tree; a node without children that
  stands for several leaves has all of their indices.
\<close>

fun slots :: "nheap \<Rightarrow> addr option \<Rightarrow> node \<Rightarrow> addr list" where
  "slots h p Null = []"
| "slots h p (Node x l r s ht d) =
     (if l = Null \<and> r = Null then replicate (2 ^ (ht - 1)) (the p)
      else slots h (cl_left (the (h (the p)))) l @ slots h (cl_right (the (h (the p)))) r)"

lemma slots_Some:
  "h a = Some (cell_of n pl pr) \<Longrightarrow> n \<noteq> Null \<Longrightarrow> slots h (Some a) n =
     (if nd_left n = Null \<and> nd_right n = Null then replicate (2 ^ (nd_height n - 1)) a
      else slots h pl (nd_left n) @ slots h pr (nd_right n))"
  by (cases n) simp_all

lemma slots_cong: "holds h p n F \<Longrightarrow> (\<And>a. a \<in> F \<Longrightarrow> h' a = h a) \<Longrightarrow> slots h' p n = slots h p n"
proof (induction n arbitrary: p F)
  case Null
  then show ?case by simp
next
  case (Node x l r s ht d)
  then obtain a pl pr Fl Fr where c: "p = Some a" "h a = Some (cell_of (Node x l r s ht d) pl pr)"
      "holds h pl l Fl" "holds h pr r Fr" "F = insert a (Fl \<union> Fr)"
    by auto
  with Node.IH(1) [OF c(3)] Node.IH(2) [OF c(4)] Node.prems(2) show ?case
    by simp
qed

lemma slots_subset: "holds h p n F \<Longrightarrow> set (slots h p n) \<subseteq> F"
proof (induction n arbitrary: p F)
  case Null
  then show ?case by simp
next
  case (Node x l r s ht d)
  then obtain a pl pr Fl Fr where c: "p = Some a" "h a = Some (cell_of (Node x l r s ht d) pl pr)"
      "holds h pl l Fl" "holds h pr r Fr" "F = insert a (Fl \<union> Fr)"
    by auto
  with Node.IH(1) [OF c(3)] Node.IH(2) [OF c(4)] show ?case
    by auto
qed

lemma length_slots: "wf_node n \<Longrightarrow> length (slots h p n) = nleaves n"
  by (induction n arbitrary: p) (auto split: if_splits)

lemma holds_deref:
  assumes "holds h (Some a) n F"
  shows "\<exists>c. h a = Some c \<and> cl_size c = nd_size n \<and> cl_height c = nd_height n \<and>
    cl_dirty c = nd_dirty n \<and> cl_hash c = nd_hash n"
  using assms by (auto simp: holds_Some)

lemma node_invariant_h_eq:
  "holds h (Some a) n F \<Longrightarrow> node_invariant_h a h = Some (Inr (node_invariant n))"
proof (induction n arbitrary: a F)
  case Null
  then show ?case by simp
next
  case (Node x l r s ht d)
  then obtain pl pr Fl Fr where c: "h a = Some (cell_of (Node x l r s ht d) pl pr)"
      "holds h pl l Fl" "holds h pr r Fr"
    by auto
  show ?case
  proof (cases pl)
    case None
    with c Node.IH(2) holds_Null_iff [OF c(3)] show ?thesis
      by (subst node_invariant_h.simps) (auto split: option.splits)
  next
    case (Some b)
    show ?thesis
    proof (cases pr)
      case None
      with c Some Node.IH(1) holds_Null_iff [OF c(2)] show ?thesis
        by (subst node_invariant_h.simps) auto
    next
      case (Some b')
      obtain cl cr where "h b = Some cl" "cl_size cl = nd_size l" "h b' = Some cr" "cl_size cr = nd_size r"
        using holds_deref c(2,3) \<open>pl = Some b\<close> Some by blast
      with c Some \<open>pl = Some b\<close> Node.IH holds_Null_iff [OF c(2)] holds_Null_iff [OF c(3)] show ?thesis
        by (subst node_invariant_h.simps) auto
    qed
  qed
qed

section \<open>The destructor\<close>

lemma restrict_minus_insert: "- F \<inter> - G - {a} = - insert a (F \<union> G)"
  by auto

text \<open>Deleting a tree frees each of its nodes once and nothing else.\<close>

lemma node_delete_holds:
  "holds h p n F \<Longrightarrow> n = Null \<or> node_invariant n \<Longrightarrow> node_delete p h = Some (Inr (h |` (- F)))"
proof (induction n arbitrary: p h F)
  case Null
  then show ?case
    by (subst node_delete.simps) (simp add: restrict_map_def)
next
  case (Node x l r s ht d)
  then obtain a pl pr Fl Fr where c: "p = Some a" "h a = Some (cell_of (Node x l r s ht d) pl pr)"
      "holds h pl l Fl" "holds h pr r Fr" "a \<notin> Fl" "a \<notin> Fr" "Fl \<inter> Fr = {}" "F = insert a (Fl \<union> Fr)"
    by auto
  have inv: "node_invariant_h a h = Some (Inr True)"
    using node_invariant_h_eq [OF Node.prems(1) [unfolded c(1)]] Node.prems(2) by auto
  have left: "node_delete pl h = Some (Inr (h |` (- Fl)))"
    using Node.IH(1) [OF c(3)] Node.prems(2) by auto
  have "holds (h |` (- Fl)) pr r Fr"
    using c(7) by (intro holds_cong [OF c(4)]) (auto simp: restrict_map_def)
  then have right: "node_delete pr (h |` (- Fl)) = Some (Inr (h |` (- Fl) |` (- Fr)))"
    using Node.IH(2) Node.prems(2) by auto
  have "(h |` (- Fl)) a = Some (cell_of (Node x l r s ht d) pl pr)"
    using c(2,5) by (simp add: restrict_map_def)
  with inv left right c show ?case
    by (subst node_delete.simps) (simp add: restrict_minus_insert del: Compl_insert)
qed

text \<open>A node that has been deleted cannot be deleted again.\<close>

lemma node_delete_dangling: "h a = None \<Longrightarrow> node_delete (Some a) h = Some (Inl Undefined_Read)"
  by (subst node_delete.simps, subst node_invariant_h.simps) simp

section \<open>New nodes\<close>

lemma holds_upd: "holds h p n F \<Longrightarrow> a \<notin> F \<Longrightarrow> holds (h(a := c)) p n F"
  by (erule holds_cong) auto

lemma node_make_h_ok:
  assumes "fresh_addr new" and "finite (dom h)"
  shows "\<exists>a. a \<notin> dom h \<and> node_make_h new x h = Some (Inr (a, h(a \<mapsto> cell_of (node_make x) None None)))"
proof -
  have "new h \<notin> dom h"
    using assms by (simp add: fresh_addr_def)
  moreover have "node_invariant_h (new h) (h(new h \<mapsto> cell_of (node_make x) None None)) = Some (Inr True)"
    by (subst node_invariant_h.simps) (simp add: node_make_eq)
  ultimately show ?thesis
    by (intro exI [of _ "new h"]) (simp add: node_make_h_def update_sizes_h_def node_make_eq cell_of_def Let_def)
qed

end
