(* ===== verification/Merkle_Heap_Insert.thy ===== *)
theory Merkle_Heap_Insert
  imports Merkle_Heap
begin

text \<open>
  Insertion and hashing of tree nodes with their addresses (\<open>continue_insertion_stack\<close>,
  \<open>process_insertion_stack\<close>, \<open>hash\<close> of \<open>include/merklecpp.h\<close>), and their agreement with the
  operations on trees as values of \<open>Merkle_Node\<close> and \<open>Merkle_Tree\<close>. While a leaf is inserted
  two pointers lead to the same node: the child pointer of a node on the insertion stack, and
  the pointer to the node that has taken its place below it; \<open>holds_stack h p st\<close> says that the
  open child pointer of the top of the stack is \<open>p\<close> and that every other one leads to the
  element above it.
\<close>

section \<open>Operations\<close>

type_synonym hstack = "(addr \<times> bool) list"

partial_function (option) continue_insertion_stack_h ::
  "(nheap \<Rightarrow> addr) \<Rightarrow> nat \<Rightarrow> addr \<Rightarrow> addr \<Rightarrow> hstack \<Rightarrow> nheap \<Rightarrow> (hstack \<times> nheap) res option" where
  "continue_insertion_stack_h new sz n new_leaf st h =
     run_bind (node_invariant_h n h) (\<lambda>ok.
     run_bind (run_assert ok) (\<lambda>_.
     run_bind (is_full_h n h) (\<lambda>full.
       if full
       then run_bind (node_make2_h new sz n new_leaf h) (\<lambda>(result, h). Some (Inr ((result, False) # st, h)))
       else run_bind (deref n h) (\<lambda>c.
         case cl_left c of None \<Rightarrow> Some (Inl Assertion_Failed) | Some l \<Rightarrow>
         (case cl_right c of None \<Rightarrow> Some (Inl Assertion_Failed) | Some r \<Rightarrow>
           let h = h(n \<mapsto> c\<lparr>cl_dirty := True\<rparr>)
           in run_bind (is_full_h l h) (\<lambda>left_full.
                if \<not> left_full then continue_insertion_stack_h new sz l new_leaf ((n, True) # st) h
                else continue_insertion_stack_h new sz r new_leaf ((n, False) # st) h))))))"

fun process_stack_loop_h :: "bool \<Rightarrow> addr \<Rightarrow> hstack \<Rightarrow> nheap \<Rightarrow> (addr \<times> hstack \<times> nheap) res option" where
  "process_stack_loop_h whole result [] h =
     run_bind (node_invariant_h result h) (\<lambda>ok.
     run_bind (run_assert ok) (\<lambda>_. Some (Inr (result, [], h))))"
| "process_stack_loop_h whole result ((n, left) # st) h =
     run_bind (deref n h) (\<lambda>c.
     let c = (if left then c\<lparr>cl_left := Some result\<rparr> else c\<lparr>cl_right := Some result\<rparr>);
         h = h(n \<mapsto> c\<lparr>cl_dirty := True\<rparr>)
     in run_bind (update_sizes_h n h) (\<lambda>h.
        if whole then process_stack_loop_h whole n st h
        else run_bind (is_full_h n h) (\<lambda>full.
          if \<not> full then Some (Inr (n, st, h)) else process_stack_loop_h whole n st h)))"

definition process_insertion_stack_h ::
  "bool \<Rightarrow> hstack \<Rightarrow> nheap \<Rightarrow> (addr \<times> hstack \<times> nheap) res option" where
  "process_insertion_stack_h whole st h =
     (case st of [] \<Rightarrow> Some (Inl Undefined_Read)
      | (result, _) # st \<Rightarrow>
          run_bind (deref result h) (\<lambda>c.
          run_bind (run_assert (cl_dirty c)) (\<lambda>_.
          run_bind (update_sizes_h result h) (\<lambda>h. process_stack_loop_h whole result st h))))"

text \<open>\<open>n->left && n->left->dirty\<close>\<close>

definition dirty_child :: "addr option \<Rightarrow> nheap \<Rightarrow> bool res option" where
  "dirty_child p h =
     (case p of None \<Rightarrow> Some (Inr False)
      | Some a \<Rightarrow> run_bind (deref a h) (\<lambda>c. Some (Inr (cl_dirty c))))"

text \<open>\<open>hash\<close> with its explicit stack; the number of hashes goes into the statistics.\<close>

partial_function (option) hash_loop_h ::
  "(hash \<Rightarrow> hash \<Rightarrow> hash) \<Rightarrow> addr list \<Rightarrow> nat \<Rightarrow> nheap \<Rightarrow> (nat \<times> nheap) res option" where
  "hash_loop_h hf hashing_stack k h =
     (case hashing_stack of [] \<Rightarrow> Some (Inr (k, h))
      | n # st \<Rightarrow>
          run_bind (deref n h) (\<lambda>c.
          run_bind (run_assert (cl_left c = None \<longleftrightarrow> cl_right c = None)) (\<lambda>_.
          run_bind (dirty_child (cl_left c) h) (\<lambda>dl.
          if dl then hash_loop_h hf (the (cl_left c) # n # st) k h
          else run_bind (dirty_child (cl_right c) h) (\<lambda>dr.
          if dr then hash_loop_h hf (the (cl_right c) # n # st) k h
          else (case cl_left c of None \<Rightarrow> Some (Inl Assertion_Failed) | Some l \<Rightarrow>
               (case cl_right c of None \<Rightarrow> Some (Inl Assertion_Failed) | Some r \<Rightarrow>
                  run_bind (deref l h) (\<lambda>cl. run_bind (deref r h) (\<lambda>cr.
                    hash_loop_h hf st (k + 1)
                      (h(n \<mapsto> c\<lparr>cl_hash := hf (cl_hash cl) (cl_hash cr), cl_dirty := False\<rparr>)))))))))))"

definition hash_h :: "(hash \<Rightarrow> hash \<Rightarrow> hash) \<Rightarrow> addr \<Rightarrow> nheap \<Rightarrow> (nat \<times> nheap) res option" where
  "hash_h hf n h = hash_loop_h hf [n] 0 h"

section \<open>The insertion stack in the heap\<close>

fun holds_stack :: "nheap \<Rightarrow> addr option \<Rightarrow> hstack \<Rightarrow> stack \<Rightarrow> addr set \<Rightarrow> bool" where
  "holds_stack h p ((a, left) # st) ((n, left') # vst) G \<longleftrightarrow> left = left' \<and> n \<noteq> Null \<and>
     (\<exists>q F G'. h a = Some (cell_of n (if left then p else q) (if left then q else p)) \<and>
        holds h q (if left then nd_right n else nd_left n) F \<and> holds_stack h (Some a) st vst G' \<and>
        a \<notin> F \<and> a \<notin> G' \<and> F \<inter> G' = {} \<and> G = insert a (F \<union> G'))"
| "holds_stack h p st vst G \<longleftrightarrow> st = [] \<and> vst = [] \<and> G = {}"

lemma holds_stack_Nil [simp]:
  "holds_stack h p [] vst G \<longleftrightarrow> vst = [] \<and> G = {}" "holds_stack h p st [] G \<longleftrightarrow> st = [] \<and> G = {}"
  by (cases vst; simp) (cases st; simp)

lemma holds_stack_subset: "holds_stack h p st vst G \<Longrightarrow> G \<subseteq> dom h"
proof (induction h p st vst G rule: holds_stack.induct)
  case (1 h p a left st n left' vst G)
  then obtain q F G' where "h a = Some (cell_of n (if left then p else q) (if left then q else p))"
      "holds h q (if left then nd_right n else nd_left n) F" "holds_stack h (Some a) st vst G'"
      "G = insert a (F \<union> G')" "left = left'" "n \<noteq> Null"
    by auto
  with 1(1) [of G'] holds_subset [of h q _ F] show ?case by blast
qed auto

lemma holds_stack_cong:
  "holds_stack h p st vst G \<Longrightarrow> (\<And>a. a \<in> G \<Longrightarrow> h' a = h a) \<Longrightarrow> holds_stack h' p st vst G"
proof (induction h p st vst G rule: holds_stack.induct)
  case (1 h p a left st n left' vst G)
  then obtain q F G' where c: "h a = Some (cell_of n (if left then p else q) (if left then q else p))"
      "holds h q (if left then nd_right n else nd_left n) F" "holds_stack h (Some a) st vst G'"
      "a \<notin> F" "a \<notin> G'" "F \<inter> G' = {}" "G = insert a (F \<union> G')" "left = left'" "n \<noteq> Null"
    by auto
  have "holds h' q (if left then nd_right n else nd_left n) F"
    using 1(3) c(7) by (intro holds_cong [OF c(2)]) auto
  moreover have "holds_stack h' (Some a) st vst G'"
    using c(3,7) 1(1,3) by auto
  moreover have "h' a = h a"
    using 1(3) c(7) by auto
  ultimately show ?case
    using c unfolding holds_stack.simps by metis
qed auto

text \<open>The addresses of the leaf indices left of the open pointer.\<close>

fun stack_slots :: "nheap \<Rightarrow> hstack \<Rightarrow> stack \<Rightarrow> addr list" where
  "stack_slots h ((a, left) # st) ((n, left') # vst) =
     stack_slots h st vst @ slots h (cl_left (the (h a))) (nd_left n)"
| "stack_slots h st vst = []"

lemma stack_slots_Nil [simp]: "stack_slots h [] vst = []" "stack_slots h st [] = []"
  by simp (cases st; simp)

definition right_turns :: "stack \<Rightarrow> bool" where
  "right_turns vst \<longleftrightarrow> (\<forall>f\<in>set vst. \<not> snd f \<and> wf_node (nd_left (fst f)))"

lemma frames_right_turns: "frames_ok m vst \<Longrightarrow> right_turns vst"
  by (induction vst arbitrary: m) (auto simp: right_turns_def)

lemma stack_slots_cong:
  "holds_stack h p st vst G \<Longrightarrow> right_turns vst \<Longrightarrow> (\<And>a. a \<in> G \<Longrightarrow> h' a = h a) \<Longrightarrow>
   stack_slots h' st vst = stack_slots h st vst"
proof (induction h p st vst G rule: holds_stack.induct)
  case (1 h p a left st n left' vst G)
  then obtain q F G' where c: "h a = Some (cell_of n (if left then p else q) (if left then q else p))"
      "holds h q (if left then nd_right n else nd_left n) F" "holds_stack h (Some a) st vst G'"
      "G = insert a (F \<union> G')" "left = left'" "\<not> left'"
    by (auto simp: right_turns_def)
  then have "slots h' q (nd_left n) = slots h q (nd_left n)"
    using 1(4) by (intro slots_cong [of _ _ _ F]) auto
  moreover have "stack_slots h' st vst = stack_slots h st vst"
    using 1(1) [OF c(3)] 1(3,4) c(4) by (simp add: right_turns_def)
  ultimately show ?case
    using c 1(4) by simp
qed auto

lemma stack_slots_subset:
  "holds_stack h p st vst G \<Longrightarrow> right_turns vst \<Longrightarrow> set (stack_slots h st vst) \<subseteq> G"
proof (induction h p st vst G rule: holds_stack.induct)
  case (1 h p a left st n left' vst G)
  then obtain q F G' where c: "h a = Some (cell_of n (if left then p else q) (if left then q else p))"
      "holds h q (if left then nd_right n else nd_left n) F" "holds_stack h (Some a) st vst G'"
      "G = insert a (F \<union> G')" "left = left'" "\<not> left'"
    by (auto simp: right_turns_def)
  then have "set (slots h q (nd_left n)) \<subseteq> F"
    by (intro slots_subset) simp
  moreover have "set (stack_slots h st vst) \<subseteq> G'"
    using 1(1) [OF c(3)] 1(3) by (simp add: right_turns_def)
  ultimately show ?case
    using c by auto
qed auto

lemma length_stack_slots:
  "holds_stack h p st vst G \<Longrightarrow> right_turns vst \<Longrightarrow> length (stack_slots h st vst) = frame_leaves vst"
proof (induction h p st vst G rule: holds_stack.induct)
  case (1 h p a left st n left' vst G)
  then obtain G' where "holds_stack h (Some a) st vst G'"
    by auto
  with 1(1) [OF this] 1(3) length_slots show ?case
    by (simp add: right_turns_def)
qed auto

text \<open>Insertion and hashing only write to nodes with children.\<close>

definition keeps :: "nheap \<Rightarrow> nheap \<Rightarrow> bool" where
  "keeps h h' \<longleftrightarrow> (\<forall>a c. h a = Some c \<and> cl_left c = None \<longrightarrow> h' a = Some c)"

lemma keeps_refl [simp]: "keeps h h"
  and keeps_trans: "keeps h h' \<Longrightarrow> keeps h' h'' \<Longrightarrow> keeps h h''"
  by (auto simp: keeps_def)

lemma holds_leaf_cell:
  "holds h (Some a) n {a} \<longleftrightarrow> n \<noteq> Null \<and> nd_left n = Null \<and> nd_right n = Null \<and> h a = Some (cell_of n None None)"
proof
  assume "holds h (Some a) n {a}"
  then obtain pl pr Fl Fr where c: "n \<noteq> Null" "h a = Some (cell_of n pl pr)" "holds h pl (nd_left n) Fl"
      "holds h pr (nd_right n) Fr" "a \<notin> Fl" "a \<notin> Fr" "{a} = insert a (Fl \<union> Fr)"
    by (auto simp: holds_Some)
  then have "Fl = {}" "Fr = {}"
    by auto
  moreover have "nd_left n = Null \<and> pl = None" if "Fl = {}"
    using c(3) that by (cases "nd_left n") auto
  moreover have "nd_right n = Null \<and> pr = None" if "Fr = {}"
    using c(4) that by (cases "nd_right n") auto
  ultimately show "n \<noteq> Null \<and> nd_left n = Null \<and> nd_right n = Null \<and> h a = Some (cell_of n None None)"
    using c by auto
qed (auto simp: holds_Some)

lemma holds_keeps: "holds h (Some a) n {a} \<Longrightarrow> keeps h h' \<Longrightarrow> holds h' (Some a) n {a}"
  by (auto simp: holds_leaf_cell keeps_def)

lemma keeps_upd: "h a = Some c \<Longrightarrow> cl_left c \<noteq> None \<Longrightarrow> keeps h (h(a \<mapsto> c'))"
  by (auto simp: keeps_def)

lemma keeps_new: "a \<notin> dom h \<Longrightarrow> keeps h (h(a \<mapsto> c'))"
  by (auto simp: keeps_def)

section \<open>Reading and updating one node\<close>

lemma is_full_h_eq:
  assumes "holds h (Some a) n F" and "wf_node n" and "nleaves n \<le> max_leaves"
  shows "is_full_h a h = Some (Inr (is_full n))"
proof -
  obtain c where c: "h a = Some c" "cl_size c = nd_size n" "cl_height c = nd_height n"
    using holds_deref [OF assms(1)] by blast
  have "max_size (nd_height n) = 2 ^ nd_height n - 1"
    using wf_node_bounds [OF assms(2,3)] by (intro max_size_eq) simp
  moreover have "nd_size n + 1 \<le> 2 ^ nd_height n"
    using wf_leaves [OF assms(2)] by (cases "nd_height n") auto
  ultimately have "nd_size n \<le> max_size (nd_height n)"
    by simp
  with c show ?thesis
    using wf_node_bounds(1) [OF assms(2,3)] by (simp add: is_full_h_def is_full_def)
qed

lemma holds_wf_invariant:
  assumes "holds h (Some a) n F" and "wf_node n" and "nleaves n \<le> max_leaves"
  shows "node_invariant_h a h = Some (Inr True)"
  using node_invariant_h_eq [OF assms(1)] wf_node_invariant [OF assms(2,3)] by simp

lemma update_sizes_sel [simp]:
  "nd_left (update_sizes n) = nd_left n" "nd_right (update_sizes n) = nd_right n"
  "update_sizes n = Null \<longleftrightarrow> n = Null"
  by (cases n; simp)+

lemma update_sizes_h_holds:
  assumes "holds h (Some a) n F"
  shows "\<exists>c. update_sizes_h a h = Some (Inr (h(a \<mapsto> c))) \<and> holds (h(a \<mapsto> c)) (Some a) (update_sizes n) F \<and>
    (nd_left n \<noteq> Null \<longrightarrow> slots (h(a \<mapsto> c)) (Some a) (update_sizes n) = slots h (Some a) n)"
proof (rule holds_SomeE [OF assms])
  fix pl pr Fl Fr
  assume c: "n \<noteq> Null" "h a = Some (cell_of n pl pr)" "holds h pl (nd_left n) Fl" "holds h pr (nd_right n) Fr"
      "a \<notin> Fl" "a \<notin> Fr" "Fl \<inter> Fr = {}" "F = insert a (Fl \<union> Fr)"
  obtain x l r s ht d where n: "n = Node x l r s ht d"
    using c(1) by (cases n) auto
  let ?c = "cell_of (update_sizes n) pl pr"
  have "holds (h(a \<mapsto> ?c)) pl (nd_left n) Fl" "holds (h(a \<mapsto> ?c)) pr (nd_right n) Fr"
    using c by (auto intro: holds_upd)
  then have "holds (h(a \<mapsto> ?c)) (Some a) (update_sizes n) F"
    using c(1,5-7) unfolding c(8) by (intro holds_SomeI) auto
  moreover have "slots (h(a \<mapsto> ?c)) (Some a) (update_sizes n) = slots h (Some a) n" if "nd_left n \<noteq> Null"
  proof -
    have "slots (h(a \<mapsto> ?c)) pl (nd_left n) = slots h pl (nd_left n)"
        "slots (h(a \<mapsto> ?c)) pr (nd_right n) = slots h pr (nd_right n)"
      using c(5,6) by (auto intro: slots_cong [OF c(3)] slots_cong [OF c(4)])
    with that c(1) slots_Some [of h a, OF c(2,1)] slots_Some [of "h(a \<mapsto> ?c)" a "update_sizes n" pl pr] show ?thesis
      by simp
  qed
  moreover have "update_sizes_h a h = Some (Inr (h(a \<mapsto> ?c)))"
  proof (cases "pl = None \<or> pr = None")
    case True
    then have "l = Null \<or> r = Null"
      using c n by auto
    with True c(2) show ?thesis
      by (auto simp: update_sizes_h_def n cell_of_def split: option.splits)
  next
    case False
    then obtain bl br where b: "pl = Some bl" "pr = Some br"
      by auto
    moreover from this obtain cl cr where "h bl = Some cl" "cl_size cl = nd_size l" "cl_height cl = nd_height l"
        "h br = Some cr" "cl_size cr = nd_size r" "cl_height cr = nd_height r"
      using holds_deref c(3,4) n by (metis node.sel(2,3))
    moreover have "l \<noteq> Null" "r \<noteq> Null"
      using b holds_Null_iff c(3,4) n by auto
    ultimately show ?thesis
      using c(2) by (simp add: update_sizes_h_def n cell_of_def)
  qed
  ultimately show ?thesis by blast
qed

lemma node_make2_h_any:
  assumes "fresh_addr new" and "finite (dom h)" and "holds h (Some a) l F" and "holds h (Some b) r G"
    and "F \<inter> G = {}"
  shows "\<exists>e c. e \<notin> dom h \<and> node_make2_h new sz a b h =
      Some (if node_invariant (node_make2 sz l r) then Inr (e, h(e \<mapsto> c)) else Inl Assertion_Failed) \<and>
    holds (h(e \<mapsto> c)) (Some e) (node_make2 sz l r) (insert e (F \<union> G)) \<and>
    slots (h(e \<mapsto> c)) (Some e) (node_make2 sz l r) = slots h (Some a) l @ slots h (Some b) r"
proof -
  let ?e = "new h" and ?n = "Node (hash_zero sz) l r 0 0 True"
  let ?h = "h(?e \<mapsto> cell_of ?n (Some a) (Some b))"
  have e: "?e \<notin> dom h"
    using assms(1,2) by (simp add: fresh_addr_def)
  then have out: "?e \<notin> F" "?e \<notin> G"
    using holds_subset assms(3,4) by blast+
  have "holds ?h (Some a) l F" "holds ?h (Some b) r G"
    using assms(3,4) out by (auto intro: holds_upd)
  then have "holds ?h (Some ?e) ?n (insert ?e (F \<union> G))"
    unfolding holds.simps using out assms(5) by auto
  from update_sizes_h_holds [OF this] obtain c where up: "update_sizes_h ?e ?h = Some (Inr (?h(?e \<mapsto> c)))"
    and hold: "holds (?h(?e \<mapsto> c)) (Some ?e) (node_make2 sz l r) (insert ?e (F \<union> G))"
    and slots: "l \<noteq> Null \<longrightarrow> slots (?h(?e \<mapsto> c)) (Some ?e) (node_make2 sz l r) = slots ?h (Some ?e) ?n"
    unfolding node_make2_def by auto
  have "l \<noteq> Null"
    using assms(3) by (auto simp: holds_Some)
  moreover have "slots ?h (Some a) l = slots h (Some a) l" "slots ?h (Some b) r = slots h (Some b) r"
    using out by (auto intro: slots_cong [OF assms(3)] slots_cong [OF assms(4)])
  ultimately have "slots (h(?e \<mapsto> c)) (Some ?e) (node_make2 sz l r) = slots h (Some a) l @ slots h (Some b) r"
    using slots slots_Some [of ?h ?e ?n "Some a" "Some b"] by simp
  note slots = this
  have "node_invariant_h ?e (?h(?e \<mapsto> c)) = Some (Inr (node_invariant (node_make2 sz l r)))"
    using node_invariant_h_eq [OF hold] .
  then have "node_make2_h new sz a b h =
      Some (if node_invariant (node_make2 sz l r) then Inr (?e, h(?e \<mapsto> c)) else Inl Assertion_Failed)"
    using up by (simp add: node_make2_h_def Let_def cell_of_def run_assert_def)
  with e hold slots show ?thesis
    by (intro exI [of _ ?e] exI [of _ c]) simp
qed

lemma node_make2_h_holds:
  assumes "fresh_addr new" and "finite (dom h)" and "holds h (Some a) l F" and "holds h (Some b) r G"
    and "F \<inter> G = {}" and "node_invariant (node_make2 sz l r)"
  shows "\<exists>e c. e \<notin> dom h \<and> node_make2_h new sz a b h = Some (Inr (e, h(e \<mapsto> c))) \<and>
    holds (h(e \<mapsto> c)) (Some e) (node_make2 sz l r) (insert e (F \<union> G)) \<and>
    slots (h(e \<mapsto> c)) (Some e) (node_make2 sz l r) = slots h (Some a) l @ slots h (Some b) r"
  using node_make2_h_any [OF assms(1-5), of sz] assms(6) by simp

section \<open>Processing the stack\<close>

lemma update_child_holds:
  assumes "holds h (Some a) m F" and "holds_stack h p ((e, left) # st) ((n, left) # vst) G" and "F \<inter> G = {}"
  shows "\<exists>c h' F' G'. h e = Some c \<and> update_sizes_h e (h(e \<mapsto>
        (if left then c\<lparr>cl_left := Some a\<rparr> else c\<lparr>cl_right := Some a\<rparr>)\<lparr>cl_dirty := True\<rparr>)) = Some (Inr h') \<and>
    holds h' (Some e) (update_sizes (set_dirty (set_child left n m))) F' \<and>
    holds_stack h' (Some e) st vst G' \<and> F' \<inter> G' = {} \<and> F' \<union> G' = F \<union> G \<and> dom h' = dom h \<and>
    (\<forall>x. x \<noteq> e \<longrightarrow> h' x = h x) \<and> e \<in> G \<and>
    (cl_left c \<noteq> None \<longrightarrow> keeps h h') \<and>
    (\<not> left \<and> nd_left n \<noteq> Null \<and> right_turns vst \<longrightarrow>
      stack_slots h' st vst @ slots h' (Some e) (update_sizes (set_dirty (set_child left n m))) =
      stack_slots h ((e, left) # st) ((n, left) # vst) @ slots h (Some a) m)"
proof -
  obtain q Fo G' where c: "h e = Some (cell_of n (if left then p else q) (if left then q else p))"
      "holds h q (if left then nd_right n else nd_left n) Fo" "holds_stack h (Some e) st vst G'"
      "e \<notin> Fo" "e \<notin> G'" "Fo \<inter> G' = {}" "G = insert e (Fo \<union> G')" "n \<noteq> Null"
    using assms(2) unfolding holds_stack.simps by blast
  obtain x l r s ht d where n: "n = Node x l r s ht d"
    using c(8) by (cases n) auto
  let ?m = "set_dirty (set_child left n m)"
  let ?c = "cell_of ?m (if left then Some a else q) (if left then q else Some a)"
  let ?h = "h(e \<mapsto> ?c)"
  have out: "e \<notin> F" "F \<inter> Fo = {}" "F \<inter> G' = {}"
    using assms(3) c(7) by auto
  have sub: "holds ?h q (if left then nd_right n else nd_left n) Fo" "holds ?h (Some a) m F"
      "holds_stack ?h (Some e) st vst G'"
    using c(2,4) assms(1) out(1) c(3,5) by (auto intro: holds_upd holds_stack_cong)
  have "holds ?h (Some e) ?m (if left then insert e (F \<union> Fo) else insert e (Fo \<union> F))"
  proof (cases left)
    case True
    with sub c(4) out show ?thesis
      by (simp only: if_True) (intro holds_SomeI; auto simp: n)
  next
    case False
    with sub c(4) out show ?thesis
      by (simp only: if_False) (intro holds_SomeI; auto simp: n)
  qed
  then have "holds ?h (Some e) ?m (insert e (F \<union> Fo))"
    by (simp add: Un_commute split: if_splits)
  from update_sizes_h_holds [OF this] obtain c' where up: "update_sizes_h e ?h = Some (Inr (?h(e \<mapsto> c')))"
      "holds (?h(e \<mapsto> c')) (Some e) (update_sizes ?m) (insert e (F \<union> Fo))"
      "nd_left ?m \<noteq> Null \<longrightarrow> slots (?h(e \<mapsto> c')) (Some e) (update_sizes ?m) = slots ?h (Some e) ?m"
    by blast
  have slots: "stack_slots (?h(e \<mapsto> c')) st vst @ slots (?h(e \<mapsto> c')) (Some e) (update_sizes ?m) =
      stack_slots h ((e, left) # st) ((n, left) # vst) @ slots h (Some a) m"
    if "\<not> left" "nd_left n \<noteq> Null" "right_turns vst"
  proof -
    have "slots ?h q (nd_left n) = slots h q (nd_left n)" "slots ?h (Some a) m = slots h (Some a) m"
        "stack_slots (?h(e \<mapsto> c')) st vst = stack_slots h st vst"
      using that c(2,4,5) out(1)
      by (auto intro: slots_cong [of _ _ _ Fo] slots_cong [OF assms(1)] stack_slots_cong [OF c(3)])
    with that up(3) c(1) show ?thesis
      using slots_Some [of ?h e ?m q "Some a"] by (simp add: n)
  qed
  have rest: "holds_stack (?h(e \<mapsto> c')) (Some e) st vst G'"
    using sub(3) c(5) by (auto intro: holds_stack_cong)
  show ?thesis
  proof (intro exI conjI)
    show "h e = Some (cell_of n (if left then p else q) (if left then q else p))"
      by (rule c(1))
    show "update_sizes_h e (h(e \<mapsto> (if left
          then (cell_of n (if left then p else q) (if left then q else p))\<lparr>cl_left := Some a\<rparr>
          else (cell_of n (if left then p else q) (if left then q else p))\<lparr>cl_right := Some a\<rparr>)
          \<lparr>cl_dirty := True\<rparr>)) = Some (Inr (?h(e \<mapsto> c')))"
      using up(1) by (simp add: n cell_of_def split: if_splits)
    show "holds (?h(e \<mapsto> c')) (Some e) (update_sizes ?m) (insert e (F \<union> Fo))"
      "holds_stack (?h(e \<mapsto> c')) (Some e) st vst G'"
      by (rule up(2), rule rest)
    show "\<not> left \<and> nd_left n \<noteq> Null \<and> right_turns vst \<longrightarrow>
        stack_slots (?h(e \<mapsto> c')) st vst @ slots (?h(e \<mapsto> c')) (Some e) (update_sizes ?m) =
        stack_slots h ((e, left) # st) ((n, left) # vst) @ slots h (Some a) m"
      using slots by blast
  qed (use c out in \<open>auto simp: keeps_def\<close>)
qed

text \<open>A step of the loop on a stack as insertion leaves it.\<close>

lemma frame_holds:
  assumes "holds h (Some a) m F" and "holds_stack h p ((e, left) # st) (f # vst) G" and "F \<inter> G = {}"
    and "frames_ok m (f # vst)"
  shows "\<exists>c h' F' G'. h e = Some c \<and> \<not> left \<and>
    update_sizes_h e (h(e \<mapsto> c\<lparr>cl_right := Some a, cl_dirty := True\<rparr>)) = Some (Inr h') \<and>
    holds h' (Some e) (frame f m) F' \<and> holds_stack h' (Some e) st vst G' \<and> F' \<inter> G' = {} \<and>
    F' \<union> G' = F \<union> G \<and> dom h' = dom h \<and> (\<forall>x. x \<notin> F \<union> G \<longrightarrow> h' x = h x) \<and> keeps h h' \<and>
    stack_slots h' st vst @ slots h' (Some e) (frame f m) =
      stack_slots h ((e, left) # st) (f # vst) @ slots h (Some a) m"
proof -
  obtain n where f: "f = (n, False)" "wf_node (nd_left n)"
    using assms(4) by (cases f) auto
  then have left: "\<not> left" and q: "\<exists>q Fo. h e = Some (cell_of n q p) \<and> holds h q (nd_left n) Fo"
    using assms(2) by auto
  then obtain c h' F' G' where c: "h e = Some c"
      "update_sizes_h e (h(e \<mapsto> c\<lparr>cl_right := Some a, cl_dirty := True\<rparr>)) = Some (Inr h')"
      "holds h' (Some e) (frame f m) F'" "holds_stack h' (Some e) st vst G'" "F' \<inter> G' = {}"
      "F' \<union> G' = F \<union> G" "dom h' = dom h" "\<forall>x. x \<noteq> e \<longrightarrow> h' x = h x" "e \<in> G"
      "cl_left c \<noteq> None \<longrightarrow> keeps h h'"
      "nd_left n \<noteq> Null \<and> right_turns vst \<longrightarrow> stack_slots h' st vst @ slots h' (Some e) (frame f m) =
        stack_slots h ((e, False) # st) (f # vst) @ slots h (Some a) m"
    using update_child_holds [OF assms(1), of p e False st n vst G] assms(2,3) f(1) unfolding frame_def by auto
  have "cl_left c \<noteq> None"
    using q c(1) holds_Null_iff [of h _ "nd_left n"] wf_node_neq_Null [OF f(2)] by fastforce
  moreover have "nd_left n \<noteq> Null" "right_turns vst"
    using f(2) assms(4) frames_right_turns by auto
  ultimately show ?thesis
    using c left by (intro exI [of _ c] exI [of _ h'] exI [of _ F'] exI [of _ G']) auto
qed

lemma process_stack_loop_h_holds:
  "frames_ok n vst \<Longrightarrow> wf_node n \<Longrightarrow> nleaves n + frame_leaves vst \<le> max_leaves \<Longrightarrow>
   holds h (Some a) n F \<Longrightarrow> holds_stack h p st vst G \<Longrightarrow> F \<inter> G = {} \<Longrightarrow>
   \<exists>a' n' st' vst' h' F' G'. process_stack_loop_h whole a st h = Some (Inr (a', st', h')) \<and>
     process_stack_loop whole n vst = (n', vst') \<and> holds h' (Some a') n' F' \<and>
     holds_stack h' (Some a') st' vst' G' \<and> F' \<inter> G' = {} \<and> F' \<union> G' = F \<union> G \<and> dom h' = dom h \<and>
     (\<forall>x. x \<notin> F \<union> G \<longrightarrow> h' x = h x) \<and> keeps h h' \<and>
     stack_slots h' st' vst' @ slots h' (Some a') n' = stack_slots h st vst @ slots h (Some a) n \<and>
     right_turns vst'"
proof (induction vst arbitrary: n h a F p st G)
  case Nil
  then have "node_invariant_h a h = Some (Inr True)"
    using holds_wf_invariant by simp
  with Nil show ?case by (auto simp: right_turns_def)
next
  case (Cons f vst)
  obtain e left st1 where st: "st = (e, left) # st1"
    using Cons.prems(5) by (cases st) auto
  have le: "nleaves (nd_left (fst f)) + nleaves n \<le> max_leaves"
    using Cons.prems(3) by simp
  note fw = frame_wf [OF Cons.prems(1,2) le]
  obtain c h1 F1 G1 where step: "h e = Some c" "\<not> left"
      "update_sizes_h e (h(e \<mapsto> c\<lparr>cl_right := Some a, cl_dirty := True\<rparr>)) = Some (Inr h1)"
      "holds h1 (Some e) (frame f n) F1" "holds_stack h1 (Some e) st1 vst G1" "F1 \<inter> G1 = {}"
      "F1 \<union> G1 = F \<union> G" "dom h1 = dom h" "\<forall>x. x \<notin> F \<union> G \<longrightarrow> h1 x = h x" "keeps h h1"
      "stack_slots h1 st1 vst @ slots h1 (Some e) (frame f n) = stack_slots h st (f # vst) @ slots h (Some a) n"
    using frame_holds [OF Cons.prems(4) Cons.prems(5) [unfolded st] Cons.prems(6,1)] unfolding st by blast
  have le1: "nleaves (frame f n) + frame_leaves vst \<le> max_leaves"
    using Cons.prems(3) fw(2) by simp
  have full: "is_full_h e h1 = Some (Inr (is_full (frame f n)))"
    using is_full_h_eq [OF step(4) fw(1)] le1 by simp
  have run: "process_stack_loop_h whole a st h =
      (if \<not> whole \<and> \<not> is_full (frame f n) then Some (Inr (e, st1, h1)) else process_stack_loop_h whole e st1 h1)"
    using step(1-3) full by (simp add: st)
  have vrun: "process_stack_loop whole n (f # vst) =
      (if \<not> whole \<and> \<not> is_full (frame f n) then (frame f n, vst) else process_stack_loop whole (frame f n) vst)"
    by (cases f) (simp add: frame_def Let_def)
  show ?case
  proof (cases "\<not> whole \<and> \<not> is_full (frame f n)")
    case True
    have "right_turns vst"
      using Cons.prems(1) frames_right_turns by auto
    with True run vrun step show ?thesis
      by (intro exI [of _ e] exI [of _ "frame f n"] exI [of _ st1] exI [of _ vst] exI [of _ h1]
          exI [of _ F1] exI [of _ G1]) (simp only:, simp)
  next
    case False
    have "frames_ok (frame f n) vst"
      using Cons.prems(1) by simp
    from Cons.IH [OF this fw(1) le1 step(4-6)]
    obtain a' n' st' vst' h' F' G' where "process_stack_loop_h whole e st1 h1 = Some (Inr (a', st', h'))"
       "process_stack_loop whole (frame f n) vst = (n', vst')" "holds h' (Some a') n' F'"
       "holds_stack h' (Some a') st' vst' G'" "F' \<inter> G' = {}" "F' \<union> G' = F1 \<union> G1" "dom h' = dom h1"
       "\<forall>x. x \<notin> F1 \<union> G1 \<longrightarrow> h' x = h1 x" "keeps h1 h'"
       "stack_slots h' st' vst' @ slots h' (Some a') n' = stack_slots h1 st1 vst @ slots h1 (Some e) (frame f n)"
       "right_turns vst'"
      by blast
    moreover from this step(10) have "keeps h h'"
      using keeps_trans by blast
    moreover have "process_stack_loop_h whole a st h = process_stack_loop_h whole e st1 h1"
        "process_stack_loop whole n (f # vst) = process_stack_loop whole (frame f n) vst"
      using run vrun False by simp_all
    ultimately show ?thesis
      using step(7-9,11) by (intro exI [of _ a'] exI [of _ n'] exI [of _ st'] exI [of _ vst'] exI [of _ h']
          exI [of _ F'] exI [of _ G']) auto
  qed
qed

section \<open>Descending to the place of a new leaf\<close>

lemma continue_insertion_stack_h_holds:
  assumes "fresh_addr new"
  shows "wf_node n \<Longrightarrow> nleaves n < max_leaves \<Longrightarrow> finite (dom h) \<Longrightarrow> holds h (Some a) n F \<Longrightarrow>
    holds h (Some b) (node_make x) {b} \<Longrightarrow> b \<notin> F \<Longrightarrow> holds_stack h (Some a) st vst G \<Longrightarrow>
    F \<inter> G = {} \<Longrightarrow> b \<notin> G \<Longrightarrow> right_turns vst \<Longrightarrow>
    \<exists>e m st' vst' h' F' G' p. continue_insertion_stack_h new sz a b st h = Some (Inr ((e, False) # st', h')) \<and>
      continue_insertion_stack sz n (node_make x) vst = Inr ((m, False) # vst') \<and>
      holds h' (Some e) m F' \<and> holds_stack h' p st' vst' G' \<and> F' \<inter> G' = {} \<and>
      F' \<union> G' = insert e (insert b (F \<union> G)) \<and> e \<notin> dom h \<and> dom h' = insert e (dom h) \<and>
      (\<forall>x. x \<notin> insert e F \<longrightarrow> h' x = h x) \<and> keeps h h' \<and>
      stack_slots h' st' vst' @ slots h' (Some e) m = stack_slots h st vst @ slots h (Some a) n @ [b]"
proof (induction n arbitrary: h a F st vst G)
  case Null
  then show ?case by simp
next
  case (Node y l r s ht d)
  let ?n = "Node y l r s ht d" and ?x = "node_make x"
  have le: "nleaves ?n \<le> max_leaves"
    using Node.prems(2) by simp
  have inv: "node_invariant_h a h = Some (Inr True)"
    using holds_wf_invariant [OF Node.prems(4,1) le] .
  have full: "is_full_h a h = Some (Inr (is_full ?n))"
    using is_full_h_eq [OF Node.prems(4,1) le] .
  show ?case
  proof (cases "is_full ?n")
    case True
    have "grows ?n x (node_make2 sz ?n ?x)"
      using node_make2_grows [OF Node.prems(1) True Node.prems(2)] .
    then have "node_invariant (node_make2 sz ?n ?x)"
      using wf_node_invariant Node.prems(2) by (auto simp: grows_def)
    moreover have "F \<inter> {b} = {}"
      using Node.prems(6) by simp
    ultimately obtain e c where e: "e \<notin> dom h" "node_make2_h new sz a b h = Some (Inr (e, h(e \<mapsto> c)))"
        "holds (h(e \<mapsto> c)) (Some e) (node_make2 sz ?n ?x) (insert e (F \<union> {b}))"
        "slots (h(e \<mapsto> c)) (Some e) (node_make2 sz ?n ?x) = slots h (Some a) ?n @ slots h (Some b) ?x"
      using node_make2_h_holds [OF assms Node.prems(3,4,5)] by blast
    have "G \<subseteq> dom h"
      using holds_stack_subset [OF Node.prems(7)] .
    with e(1) have "e \<notin> G"
      by auto
    show ?thesis
    proof (intro exI conjI)
      show "continue_insertion_stack_h new sz a b st h = Some (Inr ((e, False) # st, h(e \<mapsto> c)))"
        using inv full True e(2) by (subst continue_insertion_stack_h.simps) simp
      show "continue_insertion_stack sz ?n ?x vst = Inr ((node_make2 sz ?n ?x, False) # vst)"
        using True by simp
      have "stack_slots (h(e \<mapsto> c)) st vst = stack_slots h st vst"
        using \<open>e \<notin> G\<close> by (intro stack_slots_cong [OF Node.prems(7,10)]) auto
      moreover have "slots h (Some b) ?x = [b]"
        by (simp add: node_make_eq)
      ultimately show "stack_slots (h(e \<mapsto> c)) st vst @ slots (h(e \<mapsto> c)) (Some e) (node_make2 sz ?n ?x) =
          stack_slots h st vst @ slots h (Some a) ?n @ [b]"
        using e(4) by simp
      show "holds_stack (h(e \<mapsto> c)) (Some a) st vst G"
        using \<open>e \<notin> G\<close> by (intro holds_stack_cong [OF Node.prems(7)]) auto
      show "insert e (F \<union> {b}) \<inter> G = {}" "insert e (F \<union> {b}) \<union> G = insert e (insert b (F \<union> G))"
        using \<open>e \<notin> G\<close> Node.prems(8,9) by blast+
      show "keeps h (h(e \<mapsto> c))"
        using e(1) by (rule keeps_new)
      show "holds (h(e \<mapsto> c)) (Some e) (node_make2 sz ?n ?x) (insert e (F \<union> {b}))"
        by (rule e(3))
      show "dom (h(e \<mapsto> c)) = insert e (dom h)"
        by simp
    qed (use e(1) in auto)
  next
    case False
    have inner: "\<not> (l = Null \<and> r = Null)"
      using False is_full_iff [OF Node.prems(1) le] by auto
    note w = wf_node_inner [OF Node.prems(1) inner]
    have fl: "is_full l"
      using inner_left_full [OF Node.prems(1) inner le] .
    have nl: "nleaves r < max_leaves" "nleaves l \<le> max_leaves"
      using inner Node.prems(2) by auto
    obtain pl pr Fl Fr where c: "h a = Some (cell_of ?n pl pr)" "holds h pl l Fl" "holds h pr r Fr"
        "a \<notin> Fl" "a \<notin> Fr" "Fl \<inter> Fr = {}" "F = insert a (Fl \<union> Fr)"
      using Node.prems(4) by (rule holds_SomeE) simp
    obtain al ar where p: "pl = Some al" "pr = Some ar"
      using holds_Null_iff [OF c(2)] holds_Null_iff [OF c(3)] w(3,4) by blast
    let ?d = "Node y l r s ht True"
    define h1 where "h1 = h(a \<mapsto> cell_of ?d pl pr)"
    have h1: "\<And>x. x \<noteq> a \<Longrightarrow> h1 x = h x" "dom h1 = dom h" "keeps h h1" "h1 a = Some (cell_of ?d pl pr)"
      using c(1) p keeps_upd [of h a] by (auto simp: h1_def)
    have "holds h1 (Some al) l Fl" "holds h1 (Some ar) r Fr"
      using c(2-5) unfolding h1_def p by - (rule holds_upd, assumption+)+
    moreover have "holds h1 (Some b) ?x {b}"
      using Node.prems(5,6) c(7) unfolding h1_def by (intro holds_upd) auto
    ultimately have sub: "holds h1 (Some al) l Fl" "holds h1 (Some ar) r Fr" "holds h1 (Some b) ?x {b}"
      by blast+
    have "a \<notin> G" "Fl \<inter> G = {}" "Fr \<inter> G = {}" "b \<notin> Fl" "b \<noteq> a" "b \<notin> Fr"
      using Node.prems(6,8) c(7) by auto
    note out = this
    have "holds_stack h1 (Some a) st vst G"
      using h1(1) out(1) by (intro holds_stack_cong [OF Node.prems(7)]) metis
    then have stack: "holds_stack h1 (Some ar) ((a, False) # st) ((?d, False) # vst) (insert a (Fl \<union> G))"
      unfolding holds_stack.simps using h1(4) p sub(1) c(4) out by auto
    have "Fr \<inter> insert a (Fl \<union> G) = {}" "b \<notin> insert a (Fl \<union> G)" "finite (dom h1)"
      using c(5,6) out Node.prems(3,9) h1(2) by auto
    note dis = this
    have right: "right_turns ((?d, False) # vst)"
      using Node.prems(10) w(1) by (simp add: right_turns_def)
    from Node.IH(2) [OF w(2) nl(1) dis(3) sub(2,3) out(6) stack dis(1,2) right]
    obtain e m st' vst' h' F' G' p' where
      run: "continue_insertion_stack_h new sz ar b ((a, False) # st) h1 = Some (Inr ((e, False) # st', h'))"
        "continue_insertion_stack sz r ?x ((?d, False) # vst) = Inr ((m, False) # vst')"
      and res: "holds h' (Some e) m F'" "holds_stack h' p' st' vst' G'" "F' \<inter> G' = {}"
        "F' \<union> G' = insert e (insert b (Fr \<union> insert a (Fl \<union> G)))" "e \<notin> dom h1" "dom h' = insert e (dom h1)"
        "\<forall>x. x \<notin> insert e Fr \<longrightarrow> h' x = h1 x" "keeps h1 h'"
        "stack_slots h' st' vst' @ slots h' (Some e) m =
          stack_slots h1 ((a, False) # st) ((?d, False) # vst) @ slots h1 (Some ar) r @ [b]"
      by blast
    have "stack_slots h1 st vst = stack_slots h st vst"
      using h1(1) out(1) by (intro stack_slots_cong [OF Node.prems(7,10)]) metis
    moreover have "slots h1 pl l = slots h pl l" "slots h1 pr r = slots h pr r"
      using h1(1) c(4,5) by (metis slots_cong [OF c(2)], metis slots_cong [OF c(3)])
    ultimately have slots: "stack_slots h' st' vst' @ slots h' (Some e) m =
        stack_slots h st vst @ slots h (Some a) ?n @ [b]"
      unfolding res(9) using c(1) h1(4) w(3) p by simp
    have "is_full_h al h1 = Some (Inr True)"
      using is_full_h_eq [OF sub(1) w(1) nl(2)] fl by simp
    then have "continue_insertion_stack_h new sz a b st h = Some (Inr ((e, False) # st', h'))"
      using inv full False c(1) p run(1)
      by (subst continue_insertion_stack_h.simps) (simp add: h1_def cell_of_dirty Let_def)
    moreover have "continue_insertion_stack sz ?n ?x vst = Inr ((m, False) # vst')"
      using False fl w(3,4) run(2) by simp
    moreover have "keeps h h'"
      using keeps_trans h1(3) res(8) by blast
    moreover have "F' \<union> G' = insert e (insert b (F \<union> G))"
      using res(4) c(7) by auto
    moreover have "\<forall>x. x \<notin> insert e F \<longrightarrow> h' x = h x"
      using res(7) h1(1) c(7) by auto
    ultimately show ?thesis
      using res(1-3) slots res(5,6) [unfolded h1(2)] by blast
  qed
qed

section \<open>Hashing\<close>

lemma hash_loop_h_step:
  assumes "h a = Some c" "cl_left c = Some l" "cl_right c = Some r" "h l = Some cl" "h r = Some cr"
  shows "hash_loop_h hf (a # st) k h =
    (if cl_dirty cl then hash_loop_h hf (l # a # st) k h
     else if cl_dirty cr then hash_loop_h hf (r # a # st) k h
     else hash_loop_h hf st (k + 1) (h(a \<mapsto> c\<lparr>cl_hash := hf (cl_hash cl) (cl_hash cr), cl_dirty := False\<rparr>)))"
  using assms by (subst hash_loop_h.simps) (simp add: dirty_child_def)

lemma hash_node_clean: "n \<noteq> Null \<Longrightarrow> \<not> nd_dirty (fst (hash_node hf n))"
  by (cases n) (simp_all split: prod.splits)

lemma wf_dirty_inner: "wf_node n \<Longrightarrow> nd_dirty n \<Longrightarrow> nd_left n \<noteq> Null"
  by (cases n) (auto split: if_splits)

lemma hash_loop_h_holds:
  "wf_node n \<Longrightarrow> nd_left n \<noteq> Null \<Longrightarrow> holds h (Some a) n F \<Longrightarrow>
   \<exists>h'. hash_loop_h hf (a # st) k h = hash_loop_h hf st (k + snd (hash_node hf n)) h' \<and>
     holds h' (Some a) (fst (hash_node hf n)) F \<and> dom h' = dom h \<and> (\<forall>x. x \<notin> F \<longrightarrow> h' x = h x) \<and>
     keeps h h' \<and> slots h' (Some a) (fst (hash_node hf n)) = slots h (Some a) n"
proof (induction n arbitrary: h a F st k)
  case Null
  then show ?case by simp
next
  case (Node x l r s ht d)
  let ?n = "Node x l r s ht d"
  define l' where "l' = (if nd_dirty l then fst (hash_node hf l) else l)"
  define r' where "r' = (if nd_dirty r then fst (hash_node hf r) else r)"
  define kl where "kl = (if nd_dirty l then snd (hash_node hf l) else 0)"
  define kr where "kr = (if nd_dirty r then snd (hash_node hf r) else 0)"
  have inner: "\<not> (l = Null \<and> r = Null)"
    using Node.prems(2) by auto
  note w = wf_node_inner [OF Node.prems(1) inner]
  have hn: "hash_node hf ?n = (Node (hf (nd_hash l') (nd_hash r')) l' r' s ht False, kl + kr + 1)"
    using w(3,4) by (auto simp: l'_def r'_def kl_def kr_def split: prod.splits)
  have clean: "\<not> nd_dirty l'" "\<not> nd_dirty r'"
    using hash_node_clean w(3,4) by (auto simp: l'_def r'_def)
  obtain pl pr Fl Fr where c: "h a = Some (cell_of ?n pl pr)" "holds h pl l Fl" "holds h pr r Fr"
      "a \<notin> Fl" "a \<notin> Fr" "Fl \<inter> Fr = {}" "F = insert a (Fl \<union> Fr)"
    using Node.prems(3) by (rule holds_SomeE) simp
  obtain al ar where p: "pl = Some al" "pr = Some ar"
    using holds_Null_iff [OF c(2)] holds_Null_iff [OF c(3)] w(3,4) by blast
  note cl = c(2) [unfolded p] and cr = c(3) [unfolded p]
  have left: "\<exists>h1. hash_loop_h hf (a # st) k h = hash_loop_h hf (a # st) (k + kl) h1 \<and>
      holds h1 (Some al) l' Fl \<and> dom h1 = dom h \<and> (\<forall>x. x \<notin> Fl \<longrightarrow> h1 x = h x) \<and> keeps h h1 \<and>
      slots h1 (Some al) l' = slots h (Some al) l"
  proof (cases "nd_dirty l")
    case True
    obtain cl' cr' where "h al = Some cl'" "cl_dirty cl'" "h ar = Some cr'"
      using holds_deref [OF cl] holds_deref [OF cr] True by blast
    then have "hash_loop_h hf (a # st) k h = hash_loop_h hf (al # a # st) k h"
      using hash_loop_h_step [of h a, OF c(1)] p by simp
    with Node.IH(1) [OF w(1) wf_dirty_inner [OF w(1) True] cl, of "a # st" k] True show ?thesis
      by (simp add: l'_def kl_def)
  qed (use cl in \<open>auto simp: l'_def kl_def\<close>)
  then obtain h1 where h1: "hash_loop_h hf (a # st) k h = hash_loop_h hf (a # st) (k + kl) h1"
      "holds h1 (Some al) l' Fl" "dom h1 = dom h" "\<forall>x. x \<notin> Fl \<longrightarrow> h1 x = h x" "keeps h h1"
      "slots h1 (Some al) l' = slots h (Some al) l"
    by blast
  have a1: "h1 a = Some (cell_of ?n (Some al) (Some ar))"
    using h1(4) c(1,4) p by simp
  have cr1: "holds h1 (Some ar) r Fr"
    using h1(4) c(6) by (intro holds_cong [OF cr]) blast
  have right: "\<exists>h2. hash_loop_h hf (a # st) (k + kl) h1 = hash_loop_h hf (a # st) (k + kl + kr) h2 \<and>
      holds h2 (Some ar) r' Fr \<and> dom h2 = dom h1 \<and> (\<forall>x. x \<notin> Fr \<longrightarrow> h2 x = h1 x) \<and> keeps h1 h2 \<and>
      slots h2 (Some ar) r' = slots h1 (Some ar) r"
  proof (cases "nd_dirty r")
    case True
    obtain cl' cr' where "h1 al = Some cl'" "\<not> cl_dirty cl'" "h1 ar = Some cr'" "cl_dirty cr'"
      using holds_deref [OF h1(2)] holds_deref [OF cr1] True clean(1) by blast
    then have "hash_loop_h hf (a # st) (k + kl) h1 = hash_loop_h hf (ar # a # st) (k + kl) h1"
      using hash_loop_h_step [of h1 a, OF a1] by simp
    with Node.IH(2) [OF w(2) wf_dirty_inner [OF w(2) True] cr1, of "a # st" "k + kl"] True show ?thesis
      by (simp add: r'_def kr_def)
  qed (use cr1 in \<open>auto simp: r'_def kr_def\<close>)
  then obtain h2 where h2: "hash_loop_h hf (a # st) (k + kl) h1 = hash_loop_h hf (a # st) (k + kl + kr) h2"
      "holds h2 (Some ar) r' Fr" "dom h2 = dom h1" "\<forall>x. x \<notin> Fr \<longrightarrow> h2 x = h1 x" "keeps h1 h2"
      "slots h2 (Some ar) r' = slots h1 (Some ar) r"
    by blast
  have a2: "h2 a = Some (cell_of ?n (Some al) (Some ar))"
    using h2(4) a1 c(5) by simp
  have cl2: "holds h2 (Some al) l' Fl"
    using h2(4) c(6) by (intro holds_cong [OF h1(2)]) blast
  obtain cl' cr' where "h2 al = Some cl'" "\<not> cl_dirty cl'" "cl_hash cl' = nd_hash l'"
      "h2 ar = Some cr'" "\<not> cl_dirty cr'" "cl_hash cr' = nd_hash r'"
    using holds_deref [OF cl2] holds_deref [OF h2(2)] clean by blast
  moreover define n' where "n' = Node (hf (nd_hash l') (nd_hash r')) l' r' s ht False"
  define h3 where "h3 = h2(a \<mapsto> cell_of n' (Some al) (Some ar))"
  ultimately have last: "hash_loop_h hf (a # st) (k + kl + kr) h2 = hash_loop_h hf st (k + kl + kr + 1) h3"
    using hash_loop_h_step [of h2 a, OF a2] by (simp add: h3_def n'_def cell_of_def)
  have "holds h3 (Some al) (nd_left n') Fl" "holds h3 (Some ar) (nd_right n') Fr"
    using cl2 h2(2) c(4,5) by (auto simp: h3_def n'_def intro: holds_upd)
  then have "holds h3 (Some a) n' F"
    unfolding c(7) using c(4-6) by (intro holds_SomeI) (auto simp: h3_def n'_def)
  moreover have "slots h3 (Some a) n' = slots h (Some a) ?n"
  proof -
    have nn: "l' \<noteq> Null"
      using cl2 by (auto simp: holds_Some)
    have "slots h3 (Some al) l' = slots h2 (Some al) l'" "slots h3 (Some ar) r' = slots h2 (Some ar) r'"
      using c(4,5) unfolding h3_def
      by (metis fun_upd_other slots_cong [OF cl2], metis fun_upd_other slots_cong [OF h2(2)])
    moreover have "slots h2 (Some al) l' = slots h1 (Some al) l'"
      using h2(4) c(6) by (intro slots_cong [OF h1(2)]) blast
    moreover have "slots h1 (Some ar) r = slots h (Some ar) r"
      using h1(4) c(6) by (intro slots_cong [OF cr]) blast
    ultimately show ?thesis
      using h1(6) h2(6) c(1) p w(3) nn by (simp add: n'_def h3_def)
  qed
  moreover have "dom h3 = dom h"
    using a2 h1(3) h2(3) by (auto simp: h3_def)
  moreover have "\<forall>x. x \<notin> F \<longrightarrow> h3 x = h x"
    using h1(4) h2(4) c(7) by (simp add: h3_def)
  moreover have "keeps h h3"
    using h1(5) h2(5) keeps_trans keeps_upd [of h2 a, OF a2] unfolding h3_def by fastforce
  moreover have "k + kl + kr + 1 = k + snd (hash_node hf ?n)" "fst (hash_node hf ?n) = n'"
    by (simp_all only: hn fst_conv snd_conv n'_def add.assoc)
  ultimately show ?case
    using h1(1) h2(1) last by metis
qed

lemma hash_h_holds:
  assumes "wf_node n" and "nd_dirty n" and "holds h (Some a) n F"
  shows "\<exists>h'. hash_h hf a h = Some (Inr (snd (hash_node hf n), h')) \<and> holds h' (Some a) (fst (hash_node hf n)) F \<and>
    dom h' = dom h \<and> (\<forall>x. x \<notin> F \<longrightarrow> h' x = h x) \<and> keeps h h' \<and>
    slots h' (Some a) (fst (hash_node hf n)) = slots h (Some a) n"
proof -
  have "hash_loop_h hf [] k h' = Some (Inr (k, h'))" for k h'
    by (subst hash_loop_h.simps) simp
  with hash_loop_h_holds [OF assms(1) wf_dirty_inner [OF assms(1,2)] assms(3), of hf "[]" 0] show ?thesis
    by (auto simp: hash_h_def)
qed

end
