(* ===== verification/Merkle_Convert.thy ===== *)
theory Merkle_Convert
  imports Merkle_Serial
begin

text \<open>
  The remaining constructors, comparisons and conversions of \<open>include/merklecpp.h\<close>: from
  arrays and whole vectors, to vectors, and by moving.
\<close>

section \<open>Hashes\<close>

definition hash_of_array :: "nat \<Rightarrow> bytes \<Rightarrow> hash" where
  "hash_of_array sz bytes = take sz bytes"

text \<open>\<open>memcmp\<close> of the bytes.\<close>

definition hash_equal :: "nat \<Rightarrow> hash \<Rightarrow> hash \<Rightarrow> bool" where
  "hash_equal sz a b \<longleftrightarrow> (\<forall>i\<in>set [0..<sz]. a ! i = b ! i)"

definition hash_not_equal :: "nat \<Rightarrow> hash \<Rightarrow> hash \<Rightarrow> bool" where
  "hash_not_equal sz a b \<longleftrightarrow> \<not> hash_equal sz a b"

definition hash_deserialise_vector :: "nat \<Rightarrow> bytes \<Rightarrow> hash res" where
  "hash_deserialise_vector sz buf = res_bind (hash_deserialise sz buf 0) (\<lambda>(h, _). Inr h)"

definition hash_to_vector :: "hash \<Rightarrow> bytes" where
  "hash_to_vector h = hash_serialise h []"

lemma hash_equal_iff: "hash_ok sz a \<Longrightarrow> hash_ok sz b \<Longrightarrow> hash_equal sz a b \<longleftrightarrow> a = b"
  by (auto simp: hash_equal_def hash_ok_def intro: nth_equalityI)

section \<open>Paths\<close>

text \<open>
  The move constructor moves the list of elements; the hash is copied, and the two indices are
  left as they are in the new object, as in the copy constructor.
\<close>

definition path_move :: "path \<Rightarrow> path \<Rightarrow> path \<times> path" where
  "path_move uninit other =
     (uninit\<lparr>path_leaf := path_leaf other, path_elements := path_elements other\<rparr>,
      other\<lparr>path_elements := []\<rparr>)"

definition path_of_bytes_at :: "nat \<Rightarrow> bytes \<Rightarrow> nat \<Rightarrow> (path \<times> nat) res" where
  "path_of_bytes_at sz bs position = path_deserialise sz bs position"

definition path_deserialise_vector :: "nat \<Rightarrow> bytes \<Rightarrow> path res" where
  "path_deserialise_vector sz bs = res_bind (path_deserialise sz bs 0) (\<lambda>(p, _). Inr p)"

definition path_to_vector :: "path \<Rightarrow> bytes" where
  "path_to_vector p = path_serialise p []"

text \<open>The operator with an index moves an iterator of the list, unchecked.\<close>

definition path_hash_at :: "path \<Rightarrow> nat \<Rightarrow> hash res" where
  "path_hash_at p i = res_bind (vec_get (path_elements p) i) (\<lambda>e. Inr (e_hash e))"

section \<open>Trees\<close>

text \<open>
  The move constructor. The pointer \<open>_root\<close> is copied, so both trees own the nodes below it
  afterwards; the statistics of the new tree start at zero.
\<close>

definition tree_move :: "mtree \<Rightarrow> mtree \<times> mtree" where
  "tree_move other =
     (tree_empty\<lparr>leaf_nodes := leaf_nodes other,
        uninserted_leaf_nodes := uninserted_leaf_nodes other, root_node := root_node other,
        num_flushed := num_flushed other, insertion_stack := insertion_stack other\<rparr>,
      other\<lparr>leaf_nodes := [], uninserted_leaf_nodes := [], insertion_stack := []\<rparr>)"

definition tree_deserialise_vector :: "nat \<Rightarrow> nat \<Rightarrow> bytes \<Rightarrow> mtree \<Rightarrow> mtree res" where
  "tree_deserialise_vector sz cap bytes t =
     res_bind (tree_deserialise sz cap bytes 0 t) (\<lambda>(t, _). Inr t)"

definition tree_to_vector ::
  "(hash \<Rightarrow> hash \<Rightarrow> hash) \<Rightarrow> nat \<Rightarrow> mtree \<Rightarrow> (bytes \<times> mtree) res" where
  "tree_to_vector hf sz t = tree_serialise hf sz t []"

section \<open>Conversions are inverse\<close>

theorem vector_conversions:
  assumes "hash_ok sz h" and "sz < 2 ^ 64" and "path_ok sz p" and "length (path_to_vector p) < 2 ^ 64"
  shows "hash_of_vector sz (hash_to_vector h) = Inr h"
    and "hash_deserialise_vector sz (hash_to_vector h) = Inr h"
    and "path_deserialise_vector sz (path_to_vector p) = Inr p"
  using assms path_of_bytes_serialise [of sz p]
  by (simp_all add: hash_to_vector_def hash_serialise_eq hash_of_vector_ok hash_ok_def
      hash_deserialise_vector_def hash_deserialise_ok path_deserialise_vector_def path_to_vector_def
      path_of_bytes_def)

text \<open>The moved-to tree represents the leaves of the other one. The moved-from tree keeps the
  root: its destructor deletes nodes of the moved-to tree.\<close>

theorem tree_move_shares_root:
  assumes "tree_inv hf other xs"
  shows "tree_inv hf (fst (tree_move other)) xs"
    and "root_node (snd (tree_move other)) = root_node (fst (tree_move other))"
proof -
  have "fst (tree_move other) = other\<lparr>stats := stats tree_empty\<rparr>"
    by (simp add: tree_move_def)
  with assms show "tree_inv hf (fst (tree_move other)) xs"
    by simp
  show "root_node (snd (tree_move other)) = root_node (fst (tree_move other))"
    by (simp add: tree_move_def)
qed

end
