(* ===== verification/Merkle_Heap_Tree.thy ===== *)
theory Merkle_Heap_Tree
  imports Merkle_Heap_Insert Merkle_Convert
begin

text \<open>
  Trees with the addresses of their nodes (\<open>TreeT\<close> of \<open>include/merklecpp.h\<close>): construction,
  insertion, \<open>root\<close>, \<open>size\<close>, assignment, copy, move and the destructor. \<open>tree_holds\<close> relates such a
  tree in a heap to the value of \<open>Merkle_Tree\<close> and names the nodes it owns: those below
  \<open>_root\<close>, those on the insertion stack with their other children, and the pending leaves.
\<close>

section \<open>Operations\<close>

record htree =
  ht_leaf_nodes :: "addr list"
  ht_uninserted :: "addr list"
  ht_flushed :: nat
  ht_root :: "addr option"
  ht_stack :: hstack
  ht_stats :: statistics

definition htree_empty :: htree where
  "htree_empty = \<lparr>ht_leaf_nodes = [], ht_uninserted = [], ht_flushed = 0, ht_root = None,
     ht_stack = [], ht_stats = stats tree_empty\<rparr>"

definition ht_num_leaves :: "htree \<Rightarrow> nat" where
  "ht_num_leaves T = size_wrap (ht_flushed T + length (ht_leaf_nodes T) + length (ht_uninserted T))"

definition ht_max_index :: "htree \<Rightarrow> nat" where
  "ht_max_index T = (let n = ht_num_leaves T in if n = 0 then 0 else n - 1)"

definition tree_insert_h :: "(nheap \<Rightarrow> addr) \<Rightarrow> hash \<Rightarrow> htree \<Rightarrow> nheap \<Rightarrow> (htree \<times> nheap) res option" where
  "tree_insert_h new x T h =
     run_bind (node_make_h new x h) (\<lambda>(a, h).
       Some (Inr (T\<lparr>ht_uninserted := ht_uninserted T @ [a],
         ht_stats := (ht_stats T)\<lparr>num_insert := num_insert (ht_stats T) + 1\<rparr>\<rparr>, h)))"

definition insert_leaf_h ::
  "(nheap \<Rightarrow> addr) \<Rightarrow> nat \<Rightarrow> addr \<Rightarrow> htree \<Rightarrow> nheap \<Rightarrow> (htree \<times> nheap) res option" where
  "insert_leaf_h new sz n T h =
     (let T = T\<lparr>ht_leaf_nodes := ht_leaf_nodes T @ [n]\<rparr>
      in if ht_stack T = [] \<and> ht_root T = None then Some (Inr (T\<lparr>ht_root := Some n\<rparr>, h))
         else (case ht_root T of None \<Rightarrow> Some (Inl Undefined_Read)
           | Some rt \<Rightarrow>
               run_bind (continue_insertion_stack_h new sz rt n (ht_stack T) h) (\<lambda>(st, h).
               run_bind (process_insertion_stack_h False st h) (\<lambda>(rt, st, h).
                 Some (Inr (T\<lparr>ht_root := Some rt, ht_stack := st\<rparr>, h))))))"

fun insert_leaf_list_h ::
  "(nheap \<Rightarrow> addr) \<Rightarrow> nat \<Rightarrow> addr list \<Rightarrow> htree \<Rightarrow> nheap \<Rightarrow> (htree \<times> nheap) res option" where
  "insert_leaf_list_h new sz [] T h = Some (Inr (T, h))"
| "insert_leaf_list_h new sz (n # ns) T h =
     run_bind (insert_leaf_h new sz n T h) (\<lambda>(T, h). insert_leaf_list_h new sz ns T h)"

definition insert_leaves_h ::
  "(nheap \<Rightarrow> addr) \<Rightarrow> nat \<Rightarrow> bool \<Rightarrow> htree \<Rightarrow> nheap \<Rightarrow> (htree \<times> nheap) res option" where
  "insert_leaves_h new sz whole T h =
     run_bind
       (if ht_uninserted T \<noteq> []
        then run_bind (insert_leaf_list_h new sz (ht_uninserted T) T h)
               (\<lambda>(T, h). Some (Inr (T\<lparr>ht_uninserted := []\<rparr>, h)))
        else Some (Inr (T, h)))
       (\<lambda>(T, h). if whole \<and> ht_stack T \<noteq> []
            then run_bind (process_insertion_stack_h True (ht_stack T) h)
                   (\<lambda>(rt, st, h). Some (Inr (T\<lparr>ht_root := Some rt, ht_stack := st\<rparr>, h)))
            else Some (Inr (T, h)))"

definition compute_root_h ::
  "(nheap \<Rightarrow> addr) \<Rightarrow> (hash \<Rightarrow> hash \<Rightarrow> hash) \<Rightarrow> nat \<Rightarrow> htree \<Rightarrow> nheap \<Rightarrow> (htree \<times> nheap) res option" where
  "compute_root_h new hf sz T h =
     run_bind (insert_leaves_h new sz True T h) (\<lambda>(T, h).
       if ht_num_leaves T = 0 then Some (Inl (Runtime_Error ''empty tree does not have a root''))
       else (case ht_root T of None \<Rightarrow> Some (Inl Assertion_Failed)
         | Some rt \<Rightarrow>
             run_bind (node_invariant_h rt h) (\<lambda>ok.
             run_bind (run_assert ok) (\<lambda>_.
             run_bind (deref rt h) (\<lambda>c.
               if cl_dirty c
               then run_bind (hash_h hf rt h) (\<lambda>(k, h).
                    run_bind (deref rt h) (\<lambda>c.
                    run_bind (run_assert (\<not> cl_dirty c)) (\<lambda>_.
                      Some (Inr (T\<lparr>ht_stats := (ht_stats T)\<lparr>num_hash := num_hash (ht_stats T) + k\<rparr>\<rparr>, h)))))
               else Some (Inr (T, h)))))))"

definition tree_root_h ::
  "(nheap \<Rightarrow> addr) \<Rightarrow> (hash \<Rightarrow> hash \<Rightarrow> hash) \<Rightarrow> nat \<Rightarrow> htree \<Rightarrow> nheap \<Rightarrow> (hash \<times> htree \<times> nheap) res option" where
  "tree_root_h new hf sz T h =
     run_bind (compute_root_h new hf sz
       (T\<lparr>ht_stats := (ht_stats T)\<lparr>num_root := num_root (ht_stats T) + 1\<rparr>\<rparr>) h) (\<lambda>(T, h).
     case ht_root T of None \<Rightarrow> Some (Inl Assertion_Failed)
     | Some rt \<Rightarrow>
         run_bind (deref rt h) (\<lambda>c.
         run_bind (run_assert (\<not> cl_dirty c)) (\<lambda>_. Some (Inr (cl_hash c, T, h)))))"

definition tree_size_h ::
  "(nheap \<Rightarrow> addr) \<Rightarrow> nat \<Rightarrow> htree \<Rightarrow> nheap \<Rightarrow> (nat \<times> htree \<times> nheap) res option" where
  "tree_size_h new sz T h =
     run_bind (if ht_uninserted T \<noteq> [] then insert_leaves_h new sz False T h else Some (Inr (T, h)))
       (\<lambda>(T, h). case ht_root T of None \<Rightarrow> Some (Inr (0, T, h))
          | Some rt \<Rightarrow> run_bind (deref rt h) (\<lambda>c. Some (Inr (cl_size c, T, h))))"

text \<open>The destructor.\<close>

definition tree_destroy_h :: "htree \<Rightarrow> nheap \<Rightarrow> nheap res option" where
  "tree_destroy_h T h = run_bind (node_delete (ht_root T) h) (delete_all (ht_uninserted T))"

text \<open>The move constructor: the new tree, and what is left in the old one.\<close>

definition tree_move_h :: "htree \<Rightarrow> htree \<times> htree" where
  "tree_move_h T = (T\<lparr>ht_stats := stats tree_empty\<rparr>,
     T\<lparr>ht_leaf_nodes := [], ht_uninserted := [], ht_stack := []\<rparr>)"

fun copy_nodes_h ::
  "(nheap \<Rightarrow> addr) \<Rightarrow> addr list \<Rightarrow> nheap \<Rightarrow> (addr list \<times> nheap) res option" where
  "copy_nodes_h new [] h = Some (Inr ([], h))"
| "copy_nodes_h new (n # ns) h =
     run_bind (copy_node_h new (Some n) None h) (\<lambda>(p, _, h).
     run_bind (copy_nodes_h new ns h) (\<lambda>(as, h). Some (Inr (the p # as, h))))"

text \<open>
  \<open>operator=\<close> of two objects; \<open>_root\<close> is overwritten, not deleted. When both are one object
  (\<open>tree_assign_self_h\<close>), the pending leaves are deleted and cleared before the loop that copies those
  of \<open>other\<close>, and the assertions compare the object with itself.
\<close>

definition tree_assign_h ::
  "(nheap \<Rightarrow> addr) \<Rightarrow> htree \<Rightarrow> htree \<Rightarrow> nheap \<Rightarrow> (htree \<times> nheap) res option" where
  "tree_assign_h new T other h =
     run_bind (delete_all (ht_uninserted T) h) (\<lambda>h.
     let to_skip = (if ht_flushed other mod 2 = 0 then 0 else 1)
     in run_bind (copy_node_h new (ht_root other) (Some ([], to_skip)) h) (\<lambda>(rt, acc, h).
        run_bind (copy_nodes_h new (ht_uninserted other) h) (\<lambda>(un, h).
        let T = T\<lparr>ht_leaf_nodes := fst (the acc), ht_uninserted := un, ht_flushed := ht_flushed other,
              ht_root := rt, ht_stack := []\<rparr>
        in if ht_flushed T = ht_flushed other \<and> ht_max_index T = ht_max_index other
           then Some (Inr (T, h)) else Some (Inl Assertion_Failed))))"

definition tree_assign_self_h :: "(nheap \<Rightarrow> addr) \<Rightarrow> htree \<Rightarrow> nheap \<Rightarrow> (htree \<times> nheap) res option" where
  "tree_assign_self_h new T h =
     (let un = ht_uninserted T; T = T\<lparr>ht_leaf_nodes := []\<rparr>
      in run_bind (delete_all un h) (\<lambda>h.
         let T = T\<lparr>ht_uninserted := [], ht_stack := []\<rparr>;
             to_skip = (if ht_flushed T mod 2 = 0 then 0 else 1)
         in run_bind (copy_node_h new (ht_root T) (Some (ht_leaf_nodes T, to_skip)) h) (\<lambda>(rt, acc, h).
            let T = T\<lparr>ht_leaf_nodes := fst (the acc), ht_root := rt\<rparr>
            in run_bind (copy_nodes_h new (ht_uninserted T) h) (\<lambda>(as, h).
               Some (Inr (T\<lparr>ht_uninserted := ht_uninserted T @ as\<rparr>, h))))))"

definition tree_copy_h :: "(nheap \<Rightarrow> addr) \<Rightarrow> htree \<Rightarrow> nheap \<Rightarrow> (htree \<times> nheap) res option" where
  "tree_copy_h new other h = tree_assign_h new htree_empty other h"

section \<open>Trees in the heap\<close>

definition leaves_hold :: "nheap \<Rightarrow> addr list \<Rightarrow> node list \<Rightarrow> bool" where
  "leaves_hold h as ns \<longleftrightarrow> list_all2 (\<lambda>a n. holds h (Some a) n {a}) as ns"

lemma leaves_hold_simps [simp]:
  "leaves_hold h [] ns \<longleftrightarrow> ns = []" "leaves_hold h as [] \<longleftrightarrow> as = []"
  "leaves_hold h (a # as) (n # ns) \<longleftrightarrow> holds h (Some a) n {a} \<and> leaves_hold h as ns"
  by (simp_all add: leaves_hold_def)

lemma leaves_hold_append:
  "leaves_hold h as ns \<Longrightarrow> leaves_hold h bs ms \<Longrightarrow> leaves_hold h (as @ bs) (ns @ ms)"
  by (simp add: leaves_hold_def list_all2_appendI)

lemma leaves_hold_length: "leaves_hold h as ns \<Longrightarrow> length as = length ns"
  by (simp add: leaves_hold_def list_all2_lengthD)

lemma leaves_hold_keeps: "leaves_hold h as ns \<Longrightarrow> keeps h h' \<Longrightarrow> leaves_hold h' as ns"
  unfolding leaves_hold_def by (erule list_all2_mono) (rule holds_keeps)

lemma leaves_hold_cong:
  "leaves_hold h as ns \<Longrightarrow> (\<And>a. a \<in> set as \<Longrightarrow> h' a = h a) \<Longrightarrow> leaves_hold h' as ns"
  unfolding leaves_hold_def
  by (induction rule: list_all2_induct) (auto intro: holds_cong)

lemma leaves_hold_subset: "leaves_hold h as ns \<Longrightarrow> set as \<subseteq> dom h"
  unfolding leaves_hold_def
  by (induction rule: list_all2_induct) (auto dest: holds_subset)

text \<open>The root, the insertion stack and the pointers to the leaves below them, which are those of
  the indices that have not been flushed.\<close>

definition ht_slots :: "nheap \<Rightarrow> htree \<Rightarrow> mtree \<Rightarrow> addr list" where
  "ht_slots h T t =
     stack_slots h (ht_stack T) (insertion_stack t) @ slots h (ht_root T) (root_node t)"

definition inner_holds :: "nheap \<Rightarrow> htree \<Rightarrow> mtree \<Rightarrow> addr set \<Rightarrow> addr set \<Rightarrow> bool" where
  "inner_holds h T t F G \<longleftrightarrow> holds h (ht_root T) (root_node t) F \<and>
     holds_stack h (ht_root T) (ht_stack T) (insertion_stack t) G \<and> F \<inter> G = {} \<and>
     leaves_hold h (ht_leaf_nodes T) (leaf_nodes t) \<and> right_turns (insertion_stack t) \<and>
     ht_leaf_nodes T = drop (num_flushed t) (ht_slots h T t) \<and>
     ht_flushed T = num_flushed t \<and> ht_stats T = stats t"

definition tree_holds :: "nheap \<Rightarrow> htree \<Rightarrow> mtree \<Rightarrow> addr set \<Rightarrow> addr set \<Rightarrow> bool" where
  "tree_holds h T t F G \<longleftrightarrow> inner_holds h T t F G \<and>
     leaves_hold h (ht_uninserted T) (uninserted_leaf_nodes t) \<and> distinct (ht_uninserted T) \<and>
     set (ht_uninserted T) \<inter> (F \<union> G) = {}"

lemma ht_slots_upd [simp]:
  "ht_slots h (T\<lparr>ht_uninserted := u\<rparr>) t = ht_slots h T t" "ht_slots h (T\<lparr>ht_stats := s\<rparr>) t = ht_slots h T t"
  "ht_slots h T (t\<lparr>uninserted_leaf_nodes := v\<rparr>) = ht_slots h T t" "ht_slots h T (t\<lparr>stats := s\<rparr>) = ht_slots h T t"
  by (simp_all add: ht_slots_def)

lemma inner_holds_upd [simp]:
  "inner_holds h (T\<lparr>ht_uninserted := u\<rparr>) t F G = inner_holds h T t F G"
  "inner_holds h T (t\<lparr>uninserted_leaf_nodes := v\<rparr>) F G = inner_holds h T t F G"
  by (simp_all add: inner_holds_def)

lemma inner_holds_stats:
  "inner_holds h T t F G \<Longrightarrow> inner_holds h (T\<lparr>ht_stats := s\<rparr>) (t\<lparr>stats := s\<rparr>) F G"
  by (auto simp: inner_holds_def)

lemma inner_holdsD:
  assumes "inner_holds h T t F G"
  shows "holds h (ht_root T) (root_node t) F" and "holds_stack h (ht_root T) (ht_stack T) (insertion_stack t) G"
    and "F \<inter> G = {}" and "leaves_hold h (ht_leaf_nodes T) (leaf_nodes t)"
    and "right_turns (insertion_stack t)" and "ht_flushed T = num_flushed t" and "ht_stats T = stats t"
    and "ht_leaf_nodes T = drop (num_flushed t) (ht_slots h T t)"
  using assms unfolding inner_holds_def by blast+

lemma tree_holdsD:
  assumes "tree_holds h T t F G"
  shows "inner_holds h T t F G" and "leaves_hold h (ht_uninserted T) (uninserted_leaf_nodes t)"
    and "distinct (ht_uninserted T)" and "set (ht_uninserted T) \<inter> (F \<union> G) = {}"
  using assms by (simp_all add: tree_holds_def)

lemma inner_holds_subset:
  assumes "inner_holds h T t F G"
  shows "F \<subseteq> dom h" and "G \<subseteq> dom h"
  using assms holds_subset holds_stack_subset by (fastforce simp: inner_holds_def)+

lemma ht_slots_cong:
  assumes "inner_holds h T t F G" and "\<And>a. a \<in> F \<union> G \<Longrightarrow> h' a = h a"
  shows "ht_slots h' T t = ht_slots h T t"
proof -
  have "slots h' (ht_root T) (root_node t) = slots h (ht_root T) (root_node t)"
    using assms(2) by (intro slots_cong [OF inner_holdsD(1) [OF assms(1)]]) blast
  moreover have "stack_slots h' (ht_stack T) (insertion_stack t) = stack_slots h (ht_stack T) (insertion_stack t)"
    using assms(2) by (intro stack_slots_cong [OF inner_holdsD(2,5) [OF assms(1)]]) blast
  ultimately show ?thesis
    by (simp add: ht_slots_def)
qed

lemma inner_holds_cong:
  assumes "inner_holds h T t F G" and "\<And>a. a \<in> F \<union> G \<Longrightarrow> h' a = h a"
  shows "inner_holds h' T t F G"
proof -
  note d = inner_holdsD [OF assms(1)]
  have "set (ht_slots h T t) \<subseteq> F \<union> G"
    using slots_subset [OF d(1)] stack_slots_subset [OF d(2,5)] by (auto simp: ht_slots_def)
  moreover have "set (ht_leaf_nodes T) \<subseteq> set (ht_slots h T t)"
    unfolding d(8) by (rule set_drop_subset)
  ultimately have "leaves_hold h' (ht_leaf_nodes T) (leaf_nodes t)"
    using assms(2) by (intro leaves_hold_cong [OF d(4)]) blast
  moreover have "holds h' (ht_root T) (root_node t) F"
    using assms(2) by (intro holds_cong [OF d(1)]) blast
  moreover have "holds_stack h' (ht_root T) (ht_stack T) (insertion_stack t) G"
    using assms(2) by (intro holds_stack_cong [OF d(2)]) blast
  ultimately show ?thesis
    using d(3,5-8) ht_slots_cong [OF assms] by (simp add: inner_holds_def)
qed

lemma tree_holds_subset: "tree_holds h T t F G \<Longrightarrow> set (ht_uninserted T) \<subseteq> dom h"
  using leaves_hold_subset by (fastforce simp: tree_holds_def)

text \<open>
  A step of a tree that owned the nodes \<open>W\<close> and now owns \<open>W'\<close>: the new ones were free, the rest
  of the heap is as before, and nodes without children have not changed.
\<close>

definition heap_step :: "nheap \<Rightarrow> nheap \<Rightarrow> addr set \<Rightarrow> addr set \<Rightarrow> bool" where
  "heap_step h h' W W' \<longleftrightarrow> W \<subseteq> W' \<and> finite (W' - W) \<and> (W' - W) \<inter> dom h = {} \<and> dom h' = dom h \<union> (W' - W) \<and>
     (\<forall>x. x \<notin> W' \<longrightarrow> h' x = h x) \<and> keeps h h'"

lemma heap_step_refl [simp]: "heap_step h h W W"
  by (simp add: heap_step_def)

lemma heap_step_trans:
  assumes "heap_step h h1 W W1" and "heap_step h1 h2 W1 W2"
  shows "heap_step h h2 W W2"
proof -
  have "W2 - W = (W2 - W1) \<union> (W1 - W)"
    using assms by (auto simp: heap_step_def)
  moreover have "keeps h h2"
    using assms keeps_trans by (auto simp: heap_step_def)
  ultimately show ?thesis
    using assms by (auto simp: heap_step_def)
qed

lemma heap_step_weaken: "heap_step h h' W W' \<Longrightarrow> V \<inter> (W' - W) = {} \<Longrightarrow> heap_step h h' (W \<union> V) (W' \<union> V)"
proof -
  assume a: "heap_step h h' W W'" "V \<inter> (W' - W) = {}"
  then have "(W' \<union> V) - (W \<union> V) = W' - W"
    by auto
  with a show ?thesis
    by (auto simp: heap_step_def)
qed

lemma heap_step_old: "heap_step h h' W W' \<Longrightarrow> a \<in> W' \<Longrightarrow> a \<in> dom h \<Longrightarrow> a \<in> W"
  by (auto simp: heap_step_def)

lemma heap_step_finite: "heap_step h h' W W' \<Longrightarrow> finite (dom h) \<Longrightarrow> finite (dom h')"
  by (simp add: heap_step_def)

lemma heap_step_new:
  assumes "a \<notin> dom h" and "a \<notin> W"
  shows "heap_step h (h(a \<mapsto> c)) W (insert a W)"
proof -
  have "insert a W - W = {a}"
    using assms(2) by auto
  then show ?thesis
    using assms(1) keeps_new by (auto simp: heap_step_def)
qed

section \<open>Insertion\<close>

lemma tree_insert_h_holds:
  assumes "fresh_addr new" and "finite (dom h)" and "tree_holds h T t F G"
  shows "\<exists>T' h'. tree_insert_h new x T h = Some (Inr (T', h')) \<and> tree_holds h' T' (tree_insert x t) F G \<and>
    heap_step h h' (F \<union> G \<union> set (ht_uninserted T)) (F \<union> G \<union> set (ht_uninserted T'))"
proof -
  obtain a where a: "a \<notin> dom h"
    and run: "node_make_h new x h = Some (Inr (a, h(a \<mapsto> cell_of (node_make x) None None)))"
    using node_make_h_ok [OF assms(1,2)] by blast
  let ?h = "h(a \<mapsto> cell_of (node_make x) None None)"
  let ?T = "T\<lparr>ht_uninserted := ht_uninserted T @ [a],
         ht_stats := (ht_stats T)\<lparr>num_insert := num_insert (ht_stats T) + 1\<rparr>\<rparr>"
  have keep: "keeps h ?h"
    using a by (rule keeps_new)
  note td = tree_holdsD [OF assms(3)]
  note id = inner_holdsD [OF td(1)]
  have out: "a \<notin> F" "a \<notin> G" "a \<notin> set (ht_uninserted T)"
    using a inner_holds_subset [OF td(1)] tree_holds_subset [OF assms(3)] by blast+
  have "inner_holds ?h T t F G"
    using out by (intro inner_holds_cong [OF td(1)]) auto
  then have "inner_holds ?h ?T (tree_insert x t) F G"
    using id(7) inner_holds_stats [of ?h "T\<lparr>ht_uninserted := ht_uninserted T @ [a]\<rparr>"
        "t\<lparr>uninserted_leaf_nodes := uninserted_leaf_nodes t @ [node_make x]\<rparr>"] by (simp add: tree_insert_def)
  moreover have "holds ?h (Some a) (node_make x) {a}"
    by (simp add: holds_leaf_cell) (simp add: node_make_eq)
  then have "leaves_hold ?h (ht_uninserted T @ [a]) (uninserted_leaf_nodes t @ [node_make x])"
    by (intro leaves_hold_append leaves_hold_keeps [OF td(2) keep]) simp
  ultimately have "tree_holds ?h ?T (tree_insert x t) F G"
    using td(3,4) out by (simp add: tree_holds_def tree_insert_def)
  moreover have "heap_step h ?h (F \<union> G \<union> set (ht_uninserted T)) (F \<union> G \<union> set (ht_uninserted ?T))"
    using heap_step_new [OF a, of "F \<union> G \<union> set (ht_uninserted T)"] out by simp
  ultimately show ?thesis
    using run by (intro exI [of _ ?T] exI [of _ ?h]) (simp add: tree_insert_h_def)
qed

text \<open>The values on the stack when a leaf is inserted.\<close>

lemma insert_leaf_descent:
  assumes "inserted hf t zs" and "length zs < max_leaves" and "root_node t \<noteq> Null"
  obtains m ps where
    "continue_insertion_stack sz (root_node t) (node_make x) (insertion_stack t) =
       Inr ((m, False) # ps @ insertion_stack t)"
    "wf_node m" "nd_dirty m" "update_sizes m = m" "frames_ok m (ps @ insertion_stack t)"
    "nleaves m + frame_leaves (ps @ insertion_stack t) \<le> max_leaves"
    "wf_node (root_node t)" "nleaves (root_node t) < max_leaves"
proof -
  let ?n = "root_node t" and ?st = "insertion_stack t" and ?x = "node_make x"
  have s: "wf_node ?n" "frames_ok ?n ?st" "?st \<noteq> [] \<longrightarrow> \<not> is_full ?n"
    using assms by (auto simp: inserted_def stack_inv_def)
  note w = inserted_nleaves [OF assms(1,3)]
  have lt: "nleaves ?n < max_leaves"
    using w(3) assms(2) by simp
  obtain m ps where c: "continue_insertion_stack sz ?n ?x ?st = Inr ((m, False) # ps @ ?st)"
    and m: "wf_node m" "nd_dirty m" "update_sizes m = m" "frames_ok m ps"
      "nleaves m + frame_leaves ps = nleaves ?n + 1" "plug m ps = node_insert sz ?n ?x"
    using continue_insertion_stack_ok [OF s(1) lt] by metis
  moreover have "frames_ok (node_insert sz ?n ?x) ?st"
    using plug_insert [OF s(2,1,3)] w(3) assms(2) by auto
  ultimately show ?thesis
    using that [OF c m(1-3)] s(1) lt w(3) assms(2) by (simp add: frames_ok_append frame_leaves_append)
qed

lemma insert_leaf_h_holds:
  assumes "fresh_addr new" and "finite (dom h)" and "inner_holds h T t F G" and "inserted hf t zs"
    and "length zs < max_leaves" and "holds h (Some b) (node_make x) {b}" and "b \<notin> F \<union> G"
  shows "\<exists>T' t' h' F' G'. insert_leaf_h new sz b T h = Some (Inr (T', h')) \<and>
    insert_leaf sz (node_make x) t = Inr t' \<and> inner_holds h' T' t' F' G' \<and>
    heap_step h h' (insert b (F \<union> G)) (F' \<union> G') \<and> ht_uninserted T' = ht_uninserted T"
proof (cases "root_node t = Null")
  case True
  note d = assms(3) [unfolded inner_holds_def]
  have "insertion_stack t = []"
    using assms(4) True by (auto simp: inserted_def)
  with True d have e: "ht_root T = None" "ht_stack T = []" "F = {}" "G = {}"
    by auto
  have nf: "num_flushed t = 0"
    using assms(4) True by (simp add: inserted_def)
  have leaf: "slots h (Some b) (node_make x) = [b]" "ht_leaf_nodes T = []" "leaf_nodes t = []"
    using inner_holdsD(4,8) [OF assms(3)] e True \<open>insertion_stack t = []\<close>
    by (simp_all add: ht_slots_def node_make_eq)
  with e nf True \<open>insertion_stack t = []\<close> inner_holdsD(6,7) [OF assms(3)] assms(6) show ?thesis
    by (intro exI [of _ "T\<lparr>ht_leaf_nodes := ht_leaf_nodes T @ [b], ht_root := Some b\<rparr>"]
        exI [of _ "t\<lparr>leaf_nodes := leaf_nodes t @ [node_make x], root_node := node_make x\<rparr>"]
        exI [of _ h] exI [of _ "{b}"] exI [of _ "{}"])
      (simp add: insert_leaf_h_def insert_leaf_def inner_holds_def ht_slots_def right_turns_def)
next
  case False
  note d = assms(3) [unfolded inner_holds_def]
  let ?n = "root_node t" and ?st = "insertion_stack t" and ?x = "node_make x"
  obtain a where a: "ht_root T = Some a"
    using d False by (cases "ht_root T") auto
  obtain m ps where c: "continue_insertion_stack sz ?n ?x ?st = Inr ((m, False) # ps @ ?st)"
    and m: "wf_node m" "nd_dirty m" "update_sizes m = m" "frames_ok m (ps @ ?st)"
      "nleaves m + frame_leaves (ps @ ?st) \<le> max_leaves" "wf_node ?n" "nleaves ?n < max_leaves"
    using insert_leaf_descent [OF assms(4,5) False] by metis
  have pre: "holds h (Some a) ?n F" "holds_stack h (Some a) (ht_stack T) ?st G" "F \<inter> G = {}" "b \<notin> F" "b \<notin> G"
    using d a assms(7) by auto
  obtain e m' st1 vst1 h1 F1 G1 p where c1:
      "continue_insertion_stack_h new sz a b (ht_stack T) h = Some (Inr ((e, False) # st1, h1))"
      "holds h1 (Some e) m' F1" "holds_stack h1 p st1 vst1 G1" "F1 \<inter> G1 = {}"
      "F1 \<union> G1 = insert e (insert b (F \<union> G))" "e \<notin> dom h" "dom h1 = insert e (dom h)"
      "\<forall>x. x \<notin> insert e F \<longrightarrow> h1 x = h x" "keeps h h1"
      "stack_slots h1 st1 vst1 @ slots h1 (Some e) m' =
        stack_slots h (ht_stack T) ?st @ slots h (Some a) ?n @ [b]"
    and c2: "continue_insertion_stack sz ?n ?x ?st = Inr ((m', False) # vst1)"
    using continue_insertion_stack_h_holds [OF assms(1) m(6,7) assms(2) pre(1) assms(6) pre(4,2,3,5)
        inner_holdsD(5) [OF assms(3)], of sz]
    by blast
  have same: "m' = m" "vst1 = ps @ ?st"
    using c c2 by simp_all
  note c1 = c1 [unfolded same]
  obtain c' where u: "update_sizes_h e h1 = Some (Inr (h1(e \<mapsto> c')))" "holds (h1(e \<mapsto> c')) (Some e) m F1"
      "slots (h1(e \<mapsto> c')) (Some e) m = slots h1 (Some e) m"
    using update_sizes_h_holds [OF c1(2)] m(3) wf_dirty_inner [OF m(1,2)] by auto
  have "e \<in> F1"
    using c1(2) by (auto simp: holds_Some)
  then have "e \<notin> G1"
    using c1(4) by blast
  then have "holds_stack (h1(e \<mapsto> c')) p st1 (ps @ ?st) G1"
    and stack1: "stack_slots (h1(e \<mapsto> c')) st1 (ps @ ?st) = stack_slots h1 st1 (ps @ ?st)"
    by (auto intro: holds_stack_cong [OF c1(3)] stack_slots_cong [OF c1(3) frames_right_turns [OF m(4)]])
  from process_stack_loop_h_holds [OF m(4,1,5) u(2) this(1) c1(4), of False]
  obtain a' n' st' vst' h' F' G' where r:
      "process_stack_loop_h False e st1 (h1(e \<mapsto> c')) = Some (Inr (a', st', h'))"
      "process_stack_loop False m (ps @ ?st) = (n', vst')" "holds h' (Some a') n' F'"
      "holds_stack h' (Some a') st' vst' G'" "F' \<inter> G' = {}" "F' \<union> G' = F1 \<union> G1"
      "dom h' = dom (h1(e \<mapsto> c'))" "\<forall>x. x \<notin> F1 \<union> G1 \<longrightarrow> h' x = (h1(e \<mapsto> c')) x" "keeps (h1(e \<mapsto> c')) h'"
      "stack_slots h' st' vst' @ slots h' (Some a') n' =
        stack_slots (h1(e \<mapsto> c')) st1 (ps @ ?st) @ slots (h1(e \<mapsto> c')) (Some e) m" "right_turns vst'"
    by blast
  have slots: "stack_slots h' st' vst' @ slots h' (Some a') n' = ht_slots h T t @ [b]"
    unfolding r(10) stack1 u(3) c1(10) by (simp add: ht_slots_def a)
  have "length (ht_slots h T t) = length zs"
    using inserted_nleaves(3) [OF assms(4) False] length_slots [OF m(6)]
      length_stack_slots [OF inner_holdsD(2,5) [OF assms(3)]] by (simp add: ht_slots_def)
  moreover have "num_flushed t < length zs"
    using assms(4) False by (simp add: inserted_def)
  ultimately have leaves: "ht_leaf_nodes T @ [b] = drop (num_flushed t) (ht_slots h T t @ [b])"
    using inner_holdsD(8) [OF assms(3)] by simp
  obtain cm where "h1 e = Some cm" "cl_dirty cm"
    using holds_deref [OF c1(2)] m(2) by blast
  with c1(1) u(1) r(1) have run: "insert_leaf_h new sz b T h =
      Some (Inr (T\<lparr>ht_leaf_nodes := ht_leaf_nodes T @ [b], ht_root := Some a', ht_stack := st'\<rparr>, h'))"
    by (simp add: insert_leaf_h_def process_insertion_stack_h_def a)
  have vrun: "insert_leaf sz ?x t =
      Inr (t\<lparr>leaf_nodes := leaf_nodes t @ [?x], root_node := n', insertion_stack := vst'\<rparr>)"
    using False c m(2,3) r(2) by (simp add: insert_leaf_def process_insertion_stack_def Let_def)
  have "keeps h (h1(e \<mapsto> c'))"
    using c1(6,9) by (auto simp: keeps_def)
  then have keep: "keeps h h'"
    using r(9) keeps_trans by blast
  have "heap_step h h' (insert b (F \<union> G)) (F' \<union> G')"
    unfolding r(6) c1(5)
  proof -
    have b: "b \<in> dom h"
      using holds_subset [OF assms(6)] by simp
    have "e \<notin> insert b (F \<union> G)"
      using c1(6) b inner_holds_subset [OF assms(3)] by blast
    then have "insert e (insert b (F \<union> G)) - insert b (F \<union> G) = {e}"
      by auto
    moreover have "dom h' = insert e (dom h)"
      using c1(7) r(7) by auto
    moreover have "\<forall>x. x \<notin> insert e (insert b (F \<union> G)) \<longrightarrow> h' x = h x"
      using r(8) c1(8) unfolding c1(5) by simp
    ultimately show "heap_step h h' (insert b (F \<union> G)) (insert e (insert b (F \<union> G)))"
      using c1(6) keep unfolding heap_step_def by (simp add: subset_insertI)
  qed
  moreover have "leaves_hold h' (ht_leaf_nodes T @ [b]) (leaf_nodes t @ [?x])"
    using d keep leaves_hold_keeps holds_keeps [OF assms(6)] by (intro leaves_hold_append) auto
  moreover have "inner_holds h' (T\<lparr>ht_leaf_nodes := ht_leaf_nodes T @ [b], ht_root := Some a', ht_stack := st'\<rparr>)
      (t\<lparr>leaf_nodes := leaf_nodes t @ [?x], root_node := n', insertion_stack := vst'\<rparr>) F' G'"
    unfolding inner_holds_def
  proof (intro conjI)
    show "ht_leaf_nodes (T\<lparr>ht_leaf_nodes := ht_leaf_nodes T @ [b], ht_root := Some a', ht_stack := st'\<rparr>) =
        drop (num_flushed (t\<lparr>leaf_nodes := leaf_nodes t @ [?x], root_node := n', insertion_stack := vst'\<rparr>))
          (ht_slots h' (T\<lparr>ht_leaf_nodes := ht_leaf_nodes T @ [b], ht_root := Some a', ht_stack := st'\<rparr>)
            (t\<lparr>leaf_nodes := leaf_nodes t @ [?x], root_node := n', insertion_stack := vst'\<rparr>))"
      using leaves slots by (simp add: ht_slots_def)
  qed (use r(3-5,11) calculation(2) inner_holdsD(6,7) [OF assms(3)] in simp_all)
  ultimately show ?thesis
    using run vrun
    by (intro exI [of _ "T\<lparr>ht_leaf_nodes := ht_leaf_nodes T @ [b], ht_root := Some a', ht_stack := st'\<rparr>"]
        exI [of _ "t\<lparr>leaf_nodes := leaf_nodes t @ [?x], root_node := n', insertion_stack := vst'\<rparr>"]
        exI [of _ h'] exI [of _ F'] exI [of _ G']) simp
qed

lemma insert_leaf_list_h_holds:
  assumes "fresh_addr new"
  shows "finite (dom h) \<Longrightarrow> inner_holds h T t F G \<Longrightarrow> inserted hf t zs \<Longrightarrow> length (zs @ ys) \<le> max_leaves \<Longrightarrow>
    leaves_hold h bs (map node_make ys) \<Longrightarrow> distinct bs \<Longrightarrow> set bs \<inter> (F \<union> G) = {} \<Longrightarrow>
    \<exists>T' t' h' F' G'. insert_leaf_list_h new sz bs T h = Some (Inr (T', h')) \<and>
      insert_leaf_list sz (map node_make ys) t = Inr t' \<and> inner_holds h' T' t' F' G' \<and>
      heap_step h h' (F \<union> G \<union> set bs) (F' \<union> G') \<and> ht_uninserted T' = ht_uninserted T"
proof (induction ys arbitrary: bs T t h F G zs)
  case Nil
  then have "insert_leaf_list_h new sz bs T h = Some (Inr (T, h))" "bs = []"
    by simp_all
  with Nil.prems(2) show ?case
    by (intro exI [of _ T] exI [of _ t] exI [of _ h] exI [of _ F] exI [of _ G]) simp
next
  case (Cons y ys)
  obtain b bs' where bs: "bs = b # bs'"
    using leaves_hold_length [OF Cons.prems(5)] by (cases bs) auto
  have b: "holds h (Some b) (node_make y) {b}" "leaves_hold h bs' (map node_make ys)" "b \<notin> F \<union> G"
      "b \<notin> set bs'" "distinct bs'" "set bs' \<inter> (F \<union> G) = {}"
    using Cons.prems(5-7) by (auto simp: bs)
  have lt: "length zs < max_leaves"
    using Cons.prems(4) by simp
  obtain T1 t1 h1 F1 G1 where 1: "insert_leaf_h new sz b T h = Some (Inr (T1, h1))"
      "insert_leaf sz (node_make y) t = Inr t1" "inner_holds h1 T1 t1 F1 G1"
      "heap_step h h1 (insert b (F \<union> G)) (F1 \<union> G1)" "ht_uninserted T1 = ht_uninserted T"
    using insert_leaf_h_holds [OF assms Cons.prems(1-3) lt b(1,3)] by blast
  have ins: "inserted hf t1 (zs @ [y])"
    using insert_leaf_inserted [OF Cons.prems(3) lt, of sz y] 1(2) by auto
  have dom: "set bs' \<subseteq> dom h"
    using leaves_hold_subset [OF b(2)] .
  have new: "set bs' \<inter> (F1 \<union> G1 - insert b (F \<union> G)) = {}"
    using heap_step_old [OF 1(4)] dom by blast
  then have dis: "set bs' \<inter> (F1 \<union> G1) = {}"
    using b(4,6) by blast
  have lh: "leaves_hold h1 bs' (map node_make ys)"
    using 1(4) leaves_hold_keeps [OF b(2)] by (simp add: heap_step_def)
  have le: "finite (dom h1)" "length ((zs @ [y]) @ ys) \<le> max_leaves"
    using heap_step_finite [OF 1(4) Cons.prems(1)] Cons.prems(4) by simp_all
  from Cons.IH [OF le(1) 1(3) ins le(2) lh b(5) dis]
  obtain T2 t2 h2 F2 G2 where 2: "insert_leaf_list_h new sz bs' T1 h1 = Some (Inr (T2, h2))"
      "insert_leaf_list sz (map node_make ys) t1 = Inr t2" "inner_holds h2 T2 t2 F2 G2"
      "heap_step h1 h2 (F1 \<union> G1 \<union> set bs') (F2 \<union> G2)" "ht_uninserted T2 = ht_uninserted T1"
    by blast
  have "heap_step h h1 (insert b (F \<union> G) \<union> set bs') (F1 \<union> G1 \<union> set bs')"
    using heap_step_weaken [OF 1(4) new] .
  then have "heap_step h h2 (F \<union> G \<union> set bs) (F2 \<union> G2)"
    using heap_step_trans [OF _ 2(4)] by (simp add: bs Un_commute Un_left_commute)
  with 1(1,2,5) 2(1-3,5) show ?case
    by (intro exI [of _ T2] exI [of _ t2] exI [of _ h2] exI [of _ F2] exI [of _ G2]) (simp add: bs)
qed

lemma insert_leaves_h_pending:
  assumes "fresh_addr new" and "finite (dom h)" and "tree_holds h T t F G" and "tree_inv hf t xs"
  shows "\<exists>T' t' h' F' G'. insert_leaves_h new sz False T h = Some (Inr (T', h')) \<and>
    insert_leaves sz False t = Inr t' \<and> tree_holds h' T' t' F' G' \<and> ht_uninserted T' = [] \<and>
    heap_step h h' (F \<union> G \<union> set (ht_uninserted T)) (F' \<union> G')"
proof -
  note td = tree_holdsD [OF assms(3)]
  obtain zs ys where xs: "length (zs @ ys) \<le> max_leaves" "inserted hf t zs"
    and un: "uninserted_leaf_nodes t = map node_make ys"
    using assms(4) by (auto simp: tree_inv_def)
  obtain T1 t1 h1 F1 G1 where 1: "insert_leaf_list_h new sz (ht_uninserted T) T h = Some (Inr (T1, h1))"
      "insert_leaf_list sz (uninserted_leaf_nodes t) t = Inr t1" "inner_holds h1 T1 t1 F1 G1"
      "heap_step h h1 (F \<union> G \<union> set (ht_uninserted T)) (F1 \<union> G1)"
    using insert_leaf_list_h_holds [OF assms(1,2) td(1) xs(2,1) td(2) [unfolded un] td(3,4)] un by metis
  have nil: "ht_uninserted T = [] \<longleftrightarrow> uninserted_leaf_nodes t = []"
    using leaves_hold_length [OF td(2)] by (metis length_0_conv)
  have "tree_holds h1 (T1\<lparr>ht_uninserted := []\<rparr>) (t1\<lparr>uninserted_leaf_nodes := []\<rparr>) F1 G1"
    using 1(3) by (simp add: tree_holds_def)
  moreover have "insert_leaves_h new sz False T h = Some (Inr (T1\<lparr>ht_uninserted := []\<rparr>, h1))"
    using 1(1) by (cases "ht_uninserted T = []") (auto simp: insert_leaves_h_def)
  moreover have "insert_leaves sz False t = Inr (t1\<lparr>uninserted_leaf_nodes := []\<rparr>)"
    using 1(2) by (cases "uninserted_leaf_nodes t = []") (auto simp: insert_leaves_def)
  ultimately show ?thesis
    using 1(4)
    by (intro exI [of _ "T1\<lparr>ht_uninserted := []\<rparr>"] exI [of _ "t1\<lparr>uninserted_leaf_nodes := []\<rparr>"]
        exI [of _ h1] exI [of _ F1] exI [of _ G1]) simp
qed

lemma process_resume_h:
  assumes "holds h (Some a) n F" and "holds_stack h (Some a) st vst G" and "F \<inter> G = {}" and "frames_ok n vst"
    and "wf_node n" and "nleaves n + frame_leaves vst \<le> max_leaves" and "vst \<noteq> []"
  shows "\<exists>a' h'. process_insertion_stack_h True st h = Some (Inr (a', [], h')) \<and>
    holds h' (Some a') (plug n vst) (F \<union> G) \<and> dom h' = dom h \<and> (\<forall>x. x \<notin> F \<union> G \<longrightarrow> h' x = h x) \<and>
    keeps h h' \<and> slots h' (Some a') (plug n vst) = stack_slots h st vst @ slots h (Some a) n"
proof -
  obtain f vst1 where vst: "vst = f # vst1"
    using assms(7) by (cases vst) auto
  obtain e left st1 where st: "st = (e, left) # st1"
    using assms(2) vst by (cases st) auto
  obtain c h1 F1 G1 where c: "h e = Some c" "\<not> left"
      "update_sizes_h e (h(e \<mapsto> c\<lparr>cl_right := Some a, cl_dirty := True\<rparr>)) = Some (Inr h1)"
      "holds h1 (Some e) (frame f n) F1" "holds_stack h1 (Some e) st1 vst1 G1" "F1 \<inter> G1 = {}"
      "F1 \<union> G1 = F \<union> G" "dom h1 = dom h" "\<forall>x. x \<notin> F \<union> G \<longrightarrow> h1 x = h x" "keeps h h1"
      "stack_slots h1 st1 vst1 @ slots h1 (Some e) (frame f n) = stack_slots h st vst @ slots h (Some a) n"
    using frame_holds [OF assms(1) assms(2) [unfolded st vst] assms(3) assms(4) [unfolded vst]]
    unfolding st vst by blast
  obtain m where f: "f = (m, False)" "nd_dirty m"
    using assms(4) vst by (cases f) auto
  have "\<exists>q. h e = Some (cell_of m q (Some a))"
    using assms(2) f c(2) by (auto simp: st vst)
  then have cell: "c\<lparr>cl_right := Some a, cl_dirty := True\<rparr> = c" "cl_dirty c"
    using c(1) f(2) by (auto simp: cell_of_def)
  have "h(e \<mapsto> c) = h"
    using c(1) by auto
  with c(3) have up: "update_sizes_h e h = Some (Inr h1)"
    by (simp only: cell(1))
  have le: "nleaves (nd_left (fst f)) + nleaves n \<le> max_leaves"
    using assms(6) vst by simp
  note fw = frame_wf [OF assms(4) [unfolded vst] assms(5) le]
  have "frames_ok (frame f n) vst1" "nleaves (frame f n) + frame_leaves vst1 \<le> max_leaves"
    using assms(4,6) fw(2) vst by auto
  from process_stack_loop_h_holds [OF this(1) fw(1) this(2) c(4,5,6), of True]
  obtain a' n' st' vst' h' F' G' where r: "process_stack_loop_h True e st1 h1 = Some (Inr (a', st', h'))"
     "process_stack_loop True (frame f n) vst1 = (n', vst')" "holds h' (Some a') n' F'"
     "holds_stack h' (Some a') st' vst' G'" "F' \<inter> G' = {}" "F' \<union> G' = F1 \<union> G1" "dom h' = dom h1"
     "\<forall>x. x \<notin> F1 \<union> G1 \<longrightarrow> h' x = h1 x" "keeps h1 h'"
     "stack_slots h' st' vst' @ slots h' (Some a') n' = stack_slots h1 st1 vst1 @ slots h1 (Some e) (frame f n)"
    by blast
  have n': "n' = plug n vst" "vst' = []"
    using r(2) vst by (simp_all add: process_stack_loop_all)
  then have "st' = []" "F' = F \<union> G"
    using r(4,6) c(7) by auto
  moreover have "process_insertion_stack_h True st h = Some (Inr (a', st', h'))"
    using c(1) cell(2) up r(1) by (simp add: process_insertion_stack_h_def st)
  ultimately show ?thesis
    using r(3,7-10) n' c(7-11) keeps_trans by (intro exI [of _ a'] exI [of _ h']) auto
qed

lemma insert_leaves_h_complete:
  assumes "insert_leaves_h new sz False T h = Some (Inr (T1, h1))"
  shows "insert_leaves_h new sz True T h =
    (if ht_stack T1 \<noteq> []
     then run_bind (process_insertion_stack_h True (ht_stack T1) h1)
            (\<lambda>(rt, st, h). Some (Inr (T1\<lparr>ht_root := Some rt, ht_stack := st\<rparr>, h)))
     else Some (Inr (T1, h1)))"
proof -
  have "(if ht_uninserted T \<noteq> []
      then run_bind (insert_leaf_list_h new sz (ht_uninserted T) T h)
             (\<lambda>(T, h). Some (Inr (T\<lparr>ht_uninserted := []\<rparr>, h)))
      else Some (Inr (T, h))) = Some (Inr (T1, h1))"
    using assms unfolding insert_leaves_h_def run_bind_Inr_iff [of "if _ then _ else _"] by auto
  then show ?thesis
    by (simp only: insert_leaves_h_def run_bind_simps prod.case simp_thms)
qed

lemma insert_leaves_h_whole:
  assumes "fresh_addr new" and "finite (dom h)" and "tree_holds h T t F G" and "tree_inv hf t xs"
  shows "\<exists>T' t' h' F'. insert_leaves_h new sz True T h = Some (Inr (T', h')) \<and>
    insert_leaves sz True t = Inr t' \<and> tree_holds h' T' t' F' {} \<and> ht_uninserted T' = [] \<and> ht_stack T' = [] \<and>
    heap_step h h' (F \<union> G \<union> set (ht_uninserted T)) F'"
proof -
  obtain T1 t1 h1 F1 G1 where 1: "insert_leaves_h new sz False T h = Some (Inr (T1, h1))"
      "insert_leaves sz False t = Inr t1" "tree_holds h1 T1 t1 F1 G1" "ht_uninserted T1 = []"
      "heap_step h h1 (F \<union> G \<union> set (ht_uninserted T)) (F1 \<union> G1)"
    using insert_leaves_h_pending [OF assms] by blast
  obtain t2 where t2: "insert_leaves sz True t = Inr t2" "insertion_stack t2 = []"
    using insert_leaves_whole [OF assms(4), of sz] by blast
  note td = tree_holdsD [OF 1(3)] and id = inner_holdsD [OF tree_holdsD(1) [OF 1(3)]]
  have ins: "inserted hf t1 xs"
    using insert_leaves_pending [OF assms(4), of sz] 1(2) by auto
  note run = insert_leaves_h_complete [OF 1(1)]
  show ?thesis
  proof (cases "insertion_stack t1 = []")
    case True
    moreover from this have "G1 = {}" "ht_stack T1 = []"
      using id(2) by simp_all
    moreover from True have "insert_leaves sz True t = Inr t1"
      using 1(2) t2(1) unfolding insert_leaves_def by (auto simp: res_bind_Inr_iff split: if_splits)
    ultimately show ?thesis
      using run 1 by (intro exI [of _ T1] exI [of _ t1] exI [of _ h1] exI [of _ F1]) simp
  next
    case False
    then have nn: "root_node t1 \<noteq> Null" and s: "stack_inv t1"
      using ins by (auto simp: inserted_def split: if_splits)
    obtain a where a: "ht_root T1 = Some a"
      using id(1) nn by (cases "ht_root T1") auto
    obtain a' h' where p: "process_insertion_stack_h True (ht_stack T1) h1 = Some (Inr (a', [], h'))"
       "holds h' (Some a') (whole_tree t1) (F1 \<union> G1)" "dom h' = dom h1"
       "\<forall>x. x \<notin> F1 \<union> G1 \<longrightarrow> h' x = h1 x" "keeps h1 h'"
       "slots h' (Some a') (whole_tree t1) =
         stack_slots h1 (ht_stack T1) (insertion_stack t1) @ slots h1 (Some a) (root_node t1)"
      using process_resume_h [OF id(1) [unfolded a] id(2) [unfolded a] id(3)] s False
      unfolding stack_inv_def whole_tree_def by blast
    have st: "ht_stack T1 \<noteq> []"
      using id(2) False by auto
    have v: "process_insertion_stack True (resume (root_node t1) (insertion_stack t1)) = Inr (whole_tree t1, [])"
      unfolding whole_tree_def using s False by (intro process_resume) (auto simp: stack_inv_def)
    have vrun: "insert_leaves sz True t = Inr (t1\<lparr>root_node := whole_tree t1, insertion_stack := []\<rparr>)"
      using 1(2) v False unfolding insert_leaves_def by (auto simp: res_bind_Inr_iff split: if_splits)
    have "inner_holds h' (T1\<lparr>ht_root := Some a', ht_stack := []\<rparr>)
        (t1\<lparr>root_node := whole_tree t1, insertion_stack := []\<rparr>) (F1 \<union> G1) {}"
      using p(2,6) id(6-8) leaves_hold_keeps [OF id(4) p(5)]
      by (auto simp: inner_holds_def ht_slots_def right_turns_def a)
    moreover have "uninserted_leaf_nodes t1 = []"
      using td(2) 1(4) by simp
    ultimately have "tree_holds h' (T1\<lparr>ht_root := Some a', ht_stack := []\<rparr>)
        (t1\<lparr>root_node := whole_tree t1, insertion_stack := []\<rparr>) (F1 \<union> G1) {}"
      using 1(4) by (simp add: tree_holds_def)
    moreover have "heap_step h1 h' (F1 \<union> G1) (F1 \<union> G1)"
      using p(3-5) by (simp add: heap_step_def)
    then have "heap_step h h' (F \<union> G \<union> set (ht_uninserted T)) (F1 \<union> G1)"
      using heap_step_trans [OF 1(5)] by blast
    ultimately show ?thesis
      using run st p(1) vrun 1(4)
      by (intro exI [of _ "T1\<lparr>ht_root := Some a', ht_stack := []\<rparr>"] exI [of _ h'] exI [of _ "F1 \<union> G1"]
          exI [of _ "t1\<lparr>root_node := whole_tree t1, insertion_stack := []\<rparr>"]) simp
  qed
qed

section \<open>The root\<close>

lemma ht_num_leaves_eq:
  assumes "tree_holds h T t F G"
  shows "ht_num_leaves T = num_leaves t"
  using inner_holdsD(4,6) [OF tree_holdsD(1) [OF assms]] tree_holdsD(2) [OF assms]
  by (simp add: ht_num_leaves_def num_leaves_def leaves_hold_length)

lemma ht_max_index_eq: "tree_holds h T t F G \<Longrightarrow> ht_max_index T = max_index t"
  by (simp add: ht_max_index_def max_index_def ht_num_leaves_eq)

lemma tree_holds_stats:
  "tree_holds h T t F G \<Longrightarrow> tree_holds h (T\<lparr>ht_stats := s\<rparr>) (t\<lparr>stats := s\<rparr>) F G"
  by (simp add: tree_holds_def inner_holds_stats)

lemma compute_root_h_holds:
  assumes "fresh_addr new" and "finite (dom h)" and "tree_holds h T t F G" and "tree_inv hf t xs" and "xs \<noteq> []"
  shows "\<exists>T' t' h' F'. compute_root_h new hf sz T h = Some (Inr (T', h')) \<and> compute_root hf sz t = Inr t' \<and>
    tree_holds h' T' t' F' {} \<and> ht_uninserted T' = [] \<and> ht_stack T' = [] \<and> completed hf t' xs \<and>
    num_flushed t' = num_flushed t \<and> heap_step h h' (F \<union> G \<union> set (ht_uninserted T)) F'"
proof -
  obtain T1 t1 h1 F1 where 1: "insert_leaves_h new sz True T h = Some (Inr (T1, h1))"
      "insert_leaves sz True t = Inr t1" "tree_holds h1 T1 t1 F1 {}" "ht_uninserted T1 = []" "ht_stack T1 = []"
      "heap_step h h1 (F \<union> G \<union> set (ht_uninserted T)) F1"
    using insert_leaves_h_whole [OF assms(1-4)] by blast
  have ins: "inserted hf t1 xs" "uninserted_leaf_nodes t1 = []" "insertion_stack t1 = []"
    using insert_leaves_whole [OF assms(4), of sz] 1(2) by auto
  then have nn: "root_node t1 \<noteq> Null" and s: "stack_inv t1"
    using assms(5) by (auto simp: inserted_def split: if_splits)
  then have wf: "wf_node (root_node t1)" "nleaves (root_node t1) \<le> max_leaves"
    by (auto simp: stack_inv_def)
  note id = inner_holdsD [OF tree_holdsD(1) [OF 1(3)]]
  obtain a where a: "ht_root T1 = Some a"
    using id(1) nn by (cases "ht_root T1") auto
  obtain c where c: "h1 a = Some c" "cl_dirty c = nd_dirty (root_node t1)"
    using holds_deref id(1) a by metis
  obtain t' where t': "compute_root hf sz t = Inr t'" "completed hf t' xs" "num_flushed t' = num_flushed t"
    using compute_root_ok [OF assms(4,5)] by blast
  have nz: "num_leaves t1 \<noteq> 0"
    using t'(1) 1(2) by (simp add: compute_root_def split: if_splits)
  then have "ht_num_leaves T1 \<noteq> 0"
    using ht_num_leaves_eq [OF 1(3)] by simp
  moreover have "node_invariant_h a h1 = Some (Inr True)"
    using holds_wf_invariant [OF id(1) [unfolded a] wf] .
  ultimately have run: "compute_root_h new hf sz T h =
      (if nd_dirty (root_node t1)
       then run_bind (hash_h hf a h1) (\<lambda>(k, h).
            run_bind (deref a h) (\<lambda>c.
            run_bind (run_assert (\<not> cl_dirty c)) (\<lambda>_.
              Some (Inr (T1\<lparr>ht_stats := (ht_stats T1)\<lparr>num_hash := num_hash (ht_stats T1) + k\<rparr>\<rparr>, h)))))
       else Some (Inr (T1, h1)))"
    using 1(1) a c by (simp add: compute_root_h_def)
  show ?thesis
  proof (cases "nd_dirty (root_node t1)")
    case False
    then have "t' = t1"
      using t'(1) 1(2) nz nn by (simp add: compute_root_def)
    with False run 1 t' show ?thesis
      by (intro exI [of _ T1] exI [of _ t1] exI [of _ h1] exI [of _ F1]) simp
  next
    case True
    let ?n = "fst (hash_node hf (root_node t1))" and ?k = "snd (hash_node hf (root_node t1))"
    obtain h2 where h2: "hash_h hf a h1 = Some (Inr (?k, h2))" "holds h2 (Some a) ?n F1" "dom h2 = dom h1"
        "\<forall>x. x \<notin> F1 \<longrightarrow> h2 x = h1 x" "keeps h1 h2" "slots h2 (Some a) ?n = slots h1 (Some a) (root_node t1)"
      using hash_h_holds [OF wf(1) True id(1) [unfolded a]] by blast
    let ?T = "T1\<lparr>ht_stats := (ht_stats T1)\<lparr>num_hash := num_hash (ht_stats T1) + ?k\<rparr>\<rparr>"
    let ?t = "t1\<lparr>root_node := ?n, stats := (stats t1)\<lparr>num_hash := num_hash (stats t1) + ?k\<rparr>\<rparr>"
    have eq: "t' = ?t"
      using t'(1) 1(2) nz nn True by (simp add: compute_root_def case_prod_unfold Let_def)
    obtain c2 where "h2 a = Some c2" "\<not> cl_dirty c2"
      using holds_deref [OF h2(2)] hash_node_clean nn by blast
    with run True h2(1) have "compute_root_h new hf sz T h = Some (Inr (?T, h2))"
      by simp
    moreover have "tree_holds h2 ?T ?t F1 {}"
      using id a h2(2,6) leaves_hold_keeps [OF id(4) h2(5)] 1(4,5) ins(2,3)
      by (auto simp: tree_holds_def inner_holds_def ht_slots_def)
    moreover have "heap_step h1 h2 F1 F1"
      using h2(3-5) by (simp add: heap_step_def)
    then have "heap_step h h2 (F \<union> G \<union> set (ht_uninserted T)) F1"
      using heap_step_trans [OF 1(6)] by blast
    ultimately show ?thesis
      using t' 1(4,5) unfolding eq by (intro exI [of _ ?T] exI [of _ ?t] exI [of _ h2] exI [of _ F1]) simp
  qed
qed

lemma compute_root_h_empty:
  assumes "fresh_addr new" and "finite (dom h)" and "tree_holds h T t F G" and "tree_inv hf t []"
  shows "compute_root_h new hf sz T h = Some (Inl (Runtime_Error ''empty tree does not have a root''))"
proof -
  obtain T1 t1 h1 F1 where 1: "insert_leaves_h new sz True T h = Some (Inr (T1, h1))"
      "insert_leaves sz True t = Inr t1" "tree_holds h1 T1 t1 F1 {}"
    using insert_leaves_h_whole [OF assms] by blast
  have "inserted hf t1 []" "uninserted_leaf_nodes t1 = []"
    using insert_leaves_whole [OF assms(4), of sz] 1(2) by auto
  then have "num_leaves t1 = 0"
    by (auto simp: num_leaves_def inserted_def split: if_splits)
  with 1(1) ht_num_leaves_eq [OF 1(3)] show ?thesis
    by (simp add: compute_root_h_def)
qed

lemma tree_root_h_holds:
  assumes "fresh_addr new" and "finite (dom h)" and "tree_holds h T t F G" and "tree_inv hf t xs" and "xs \<noteq> []"
  shows "\<exists>T' t' h' F'. tree_root_h new hf sz T h = Some (Inr (merkle_root hf xs, T', h')) \<and>
    tree_root hf sz t = Inr (merkle_root hf xs, t') \<and> tree_holds h' T' t' F' {} \<and> ht_uninserted T' = [] \<and>
    heap_step h h' (F \<union> G \<union> set (ht_uninserted T)) F'"
proof -
  let ?s = "(stats t)\<lparr>num_root := num_root (stats t) + 1\<rparr>"
  let ?T = "T\<lparr>ht_stats := ?s\<rparr>" and ?t = "t\<lparr>stats := ?s\<rparr>"
  have inv: "tree_inv hf ?t xs"
    using assms(4) by simp
  have "ht_stats T = stats t"
    using inner_holdsD(7) [OF tree_holdsD(1) [OF assms(3)]] .
  obtain T' t' h' F' where 1: "compute_root_h new hf sz ?T h = Some (Inr (T', h'))"
      "compute_root hf sz ?t = Inr t'" "tree_holds h' T' t' F' {}" "ht_uninserted T' = []" "completed hf t' xs"
      "heap_step h h' (F \<union> G \<union> set (ht_uninserted T)) F'"
    using compute_root_h_holds [OF assms(1,2) tree_holds_stats [OF assms(3)] inv assms(5), of sz] by auto
  note d = completedD [OF 1(5)]
  note id = inner_holdsD [OF tree_holdsD(1) [OF 1(3)]]
  obtain a where a: "ht_root T' = Some a"
    using id(1) d(1) by (cases "ht_root T'") auto
  obtain c where "h' a = Some c" "cl_dirty c = nd_dirty (root_node t')" "cl_hash c = nd_hash (root_node t')"
    using holds_deref id(1) a by metis
  then have "tree_root_h new hf sz T h = Some (Inr (merkle_root hf xs, T', h'))"
    using 1(1) a d(5,12) \<open>ht_stats T = stats t\<close> by (simp add: tree_root_h_def)
  moreover have "tree_root hf sz t = Inr (merkle_root hf xs, t')"
    using 1(2) d(12) by (simp add: tree_root_def)
  ultimately show ?thesis
    using 1(3,4,6) by blast
qed

lemma tree_size_h_holds:
  assumes "fresh_addr new" and "finite (dom h)" and "tree_holds h T t F G" and "tree_inv hf t xs"
  shows "\<exists>n T' t' h' F' G'. tree_size_h new sz T h = Some (Inr (n, T', h')) \<and> tree_size sz t = Inr (n, t') \<and>
    tree_holds h' T' t' F' G' \<and> heap_step h h' (F \<union> G \<union> set (ht_uninserted T)) (F' \<union> G' \<union> set (ht_uninserted T'))"
proof -
  have nil: "ht_uninserted T = [] \<longleftrightarrow> uninserted_leaf_nodes t = []"
    using leaves_hold_length [OF tree_holdsD(2) [OF assms(3)]] by (metis length_0_conv)
  obtain T1 t1 h1 F1 G1 where 1:
      "(if ht_uninserted T \<noteq> [] then insert_leaves_h new sz False T h else Some (Inr (T, h))) = Some (Inr (T1, h1))"
      "(if uninserted_leaf_nodes t \<noteq> [] then insert_leaves sz False t else Inr t) = Inr t1"
      "tree_holds h1 T1 t1 F1 G1"
      "heap_step h h1 (F \<union> G \<union> set (ht_uninserted T)) (F1 \<union> G1 \<union> set (ht_uninserted T1))"
  proof (cases "ht_uninserted T = []")
    case True
    with that [of T h t F G] nil assms(3) show ?thesis by simp
  next
    case False
    obtain T1 t1 h1 F1 G1 where "insert_leaves_h new sz False T h = Some (Inr (T1, h1))"
        "insert_leaves sz False t = Inr t1" "tree_holds h1 T1 t1 F1 G1" "ht_uninserted T1 = []"
        "heap_step h h1 (F \<union> G \<union> set (ht_uninserted T)) (F1 \<union> G1)"
      using insert_leaves_h_pending [OF assms] by blast
    with that [of T1 h1 t1 F1 G1] nil False show ?thesis by simp
  qed
  note id = inner_holdsD [OF tree_holdsD(1) [OF 1(3)]]
  show ?thesis
  proof (cases "ht_root T1")
    case None
    with id(1) 1 show ?thesis
      by (intro exI [of _ 0] exI [of _ T1] exI [of _ t1] exI [of _ h1] exI [of _ F1] exI [of _ G1])
        (simp add: tree_size_h_def tree_size_def)
  next
    case (Some a)
    obtain c where "h1 a = Some c" "cl_size c = nd_size (root_node t1)"
      using holds_deref id(1) Some by metis
    moreover have "root_node t1 \<noteq> Null"
      using holds_Null_iff [OF id(1)] Some by simp
    ultimately show ?thesis
      using 1 Some
      by (intro exI [of _ "nd_size (root_node t1)"] exI [of _ T1] exI [of _ t1] exI [of _ h1] exI [of _ F1]
          exI [of _ G1]) (simp add: tree_size_h_def tree_size_def)
  qed
qed

end
