(* ===== verification/Merkle_Heap_Own.thy ===== *)
theory Merkle_Heap_Own
  imports Merkle_Heap_Tree Merkle_Copy
begin

text \<open>
  The destructor of a tree (\<open>~TreeT\<close> of \<open>include/merklecpp.h\<close>) frees the nodes below its root
  and the pending leaves, each once, and nothing else.
\<close>

section \<open>The destructor\<close>

lemma leaves_hold_restrict:
  assumes "leaves_hold h as ns" and "set as \<inter> B = {}"
  shows "leaves_hold (h |` (- B)) as ns"
proof (rule leaves_hold_cong [OF assms(1)])
  show "(h |` (- B)) a = h a" if "a \<in> set as" for a
    using that assms(2) by (auto simp: restrict_map_def)
qed

lemma delete_all_leaves:
  "leaves_hold h as (map node_make ys) \<Longrightarrow> distinct as \<Longrightarrow> delete_all as h = Some (Inr (h |` (- set as)))"
proof (induction as arbitrary: h ys)
  case Nil
  then show ?case by (simp add: restrict_map_def)
next
  case (Cons a as)
  obtain y ys' where ys: "ys = y # ys'"
    using leaves_hold_length [OF Cons.prems(1)] by (cases ys) auto
  have del: "node_delete (Some a) h = Some (Inr (h |` (- {a})))"
    using Cons.prems(1) ys by (intro node_delete_holds [of _ _ "node_make y"]) (auto simp: node_make_eq)
  have rest: "leaves_hold h as (map node_make ys')"
    using Cons.prems(1) ys by simp
  have "leaves_hold (h |` (- {a})) as (map node_make ys')"
    using Cons.prems(2) by (intro leaves_hold_restrict [OF rest]) simp
  then have "delete_all as (h |` (- {a})) = Some (Inr (h |` (- {a}) |` (- set as)))"
    using Cons.IH Cons.prems(2) by simp
  moreover have "h |` (- {a}) |` (- set as) = h |` (- set (a # as))"
    by (auto simp: restrict_map_def fun_eq_iff)
  ultimately show ?case
    using del by simp
qed

lemma inserted_root_invariant:
  assumes "inserted hf t zs"
  shows "root_node t = Null \<or> node_invariant (root_node t)"
proof (cases "root_node t = Null")
  case False
  with assms have "wf_node (root_node t)" "nleaves (root_node t) \<le> max_leaves"
    by (auto simp: inserted_def stack_inv_def)
  then show ?thesis
    using wf_node_invariant by blast
qed simp

text \<open>The nodes the destructor frees; what is on the insertion stack is not among them.\<close>

lemma tree_destroy_h_holds:
  assumes "tree_holds h T t F G" and "tree_inv hf t xs"
  shows "tree_destroy_h T h = Some (Inr (h |` (- (F \<union> set (ht_uninserted T)))))"
proof -
  note td = tree_holdsD [OF assms(1)]
  note id = inner_holdsD [OF td(1)]
  obtain zs ys where ins: "inserted hf t zs" and un: "uninserted_leaf_nodes t = map node_make ys"
    using assms(2) by (auto simp: tree_inv_def)
  have root: "node_delete (ht_root T) h = Some (Inr (h |` (- F)))"
    using node_delete_holds [OF id(1) inserted_root_invariant [OF ins]] .
  have "leaves_hold (h |` (- F)) (ht_uninserted T) (map node_make ys)"
    using td(4) by (intro leaves_hold_restrict [OF td(2) [unfolded un]]) blast
  then have "delete_all (ht_uninserted T) (h |` (- F)) = Some (Inr (h |` (- F) |` (- set (ht_uninserted T))))"
    using delete_all_leaves td(3) by blast
  with root show ?thesis
    by (simp add: tree_destroy_h_def)
qed

end
