(* ===== verification/Merkle_Heap_Copy.thy ===== *)
theory Merkle_Heap_Copy
  imports Merkle_Heap_Own
begin

text \<open>
  Copies of trees with their addresses (\<open>Node::copy_node\<close>, \<open>operator=\<close> and the copy constructor
  of \<open>include/merklecpp.h\<close>): a copy has nodes of its own, and its leaf vector leads to the
  leaves below its own root. It can be destroyed before or after the original. What
  \<open>operator=\<close> overwrites is not freed.
\<close>

section \<open>The leaves a copy collects\<close>

text \<open>The addresses of the nodes \<open>copy_node\<close> takes for leaves, in their order.\<close>

fun singles :: "nheap \<Rightarrow> addr option \<Rightarrow> node \<Rightarrow> addr list" where
  "singles h p Null = []"
| "singles h p (Node x l r s ht d) =
     (if l = Null \<and> r = Null then if s = 1 then [the p] else []
      else singles h (cl_left (the (h (the p)))) l @ singles h (cl_right (the (h (the p)))) r)"

lemma singles_cong: "holds h p n F \<Longrightarrow> (\<And>a. a \<in> F \<Longrightarrow> h' a = h a) \<Longrightarrow> singles h' p n = singles h p n"
proof (induction n arbitrary: p F)
  case Null
  then show ?case by simp
next
  case (Node x l r s ht d)
  then obtain a pl pr Fl Fr where c: "p = Some a" "h a = Some (cell_of (Node x l r s ht d) pl pr)"
      "holds h pl l Fl" "holds h pr r Fr" "F = insert a (Fl \<union> Fr)"
    by auto
  with Node.IH(1) [OF c(3)] Node.IH(2) [OF c(4)] Node.prems(2) show ?case
    by simp
qed

definition collects :: "(addr list \<times> nat) option \<Rightarrow> addr list \<Rightarrow> (addr list \<times> nat) option" where
  "collects acc as = map_option (\<lambda>(ns, k). (ns @ drop k as, k - length as)) acc"

lemma collects_append: "collects (collects acc as) bs = collects acc (as @ bs)"
  by (cases acc) (auto simp: collects_def)

lemma collects_Nil [simp]: "collects acc [] = acc"
  by (cases acc) (auto simp: collects_def)

text \<open>A copy is made of new nodes, and nothing else changes.\<close>

lemma copy_node_h_holds:
  assumes "fresh_addr new"
  shows "holds h p n F \<Longrightarrow> finite (dom h) \<Longrightarrow>
    \<exists>q h' G. copy_node_h new p acc h = Some (Inr (q, collects acc (singles h' q n), h')) \<and> holds h' q n G \<and>
      G \<inter> dom h = {} \<and> dom h' = dom h \<union> G \<and> (\<forall>a\<in>dom h. h' a = h a)"
proof (induction n arbitrary: p F acc h)
  case Null
  then show ?case
    by (subst copy_node_h.simps) auto
next
  case (Node x l r s ht d)
  let ?n = "Node x l r s ht d"
  obtain a pl pr Fl Fr where c: "p = Some a" "h a = Some (cell_of ?n pl pr)"
      "holds h pl l Fl" "holds h pr r Fr"
    using Node.prems(1) by auto
  obtain b where b: "b \<notin> dom h"
    and mk: "node_make_h new x h = Some (Inr (b, h(b \<mapsto> cell_of (node_make x) None None)))"
    using node_make_h_ok [OF assms Node.prems(2)] by blast
  have sub: "Fl \<subseteq> dom h" "Fr \<subseteq> dom h" "a \<in> dom h"
    using c holds_subset by blast+
  then have ab: "a \<noteq> b"
    using b by auto
  define h1 where "h1 = h(b \<mapsto> cell_of ?n None None)"
  have h1: "dom h1 = insert b (dom h)" "finite (dom h1)" "\<forall>e\<in>dom h. h1 e = h e" "h1 b = Some (cell_of ?n None None)"
    using b Node.prems(2) by (auto simp: h1_def)
  have "holds h1 pl l Fl"
    using h1(3) sub by (intro holds_cong [OF c(3)]) auto
  from Node.IH(1) [OF this h1(2), of acc]
  obtain q1 h2 G1 where run1: "copy_node_h new pl acc h1 = Some (Inr (q1, collects acc (singles h2 q1 l), h2))"
    and h2: "holds h2 q1 l G1" "G1 \<inter> dom h1 = {}" "dom h2 = dom h1 \<union> G1" "\<forall>e\<in>dom h1. h2 e = h1 e"
    by blast
  define h3 where "h3 = h2(b \<mapsto> cell_of ?n q1 None)"
  have h3: "dom h3 = insert b (dom h \<union> G1)" "finite (dom h3)" "\<forall>e\<in>dom h. h3 e = h e"
      "\<forall>e\<in>G1. h3 e = h2 e" "h3 b = Some (cell_of ?n q1 None)"
    using b h1 h2 holds_finite [OF h2(1)] by (auto simp: h3_def)
  have "holds h3 pr r Fr"
    using h3(3) sub by (intro holds_cong [OF c(4)]) auto
  from Node.IH(2) [OF this h3(2), of "collects acc (singles h2 q1 l)"]
  obtain q2 h4 G2 where run2: "copy_node_h new pr (collects acc (singles h2 q1 l)) h3 =
      Some (Inr (q2, collects acc (singles h2 q1 l @ singles h4 q2 r), h4))"
    and h4: "holds h4 q2 r G2" "G2 \<inter> dom h3 = {}" "dom h4 = dom h3 \<union> G2" "\<forall>e\<in>dom h3. h4 e = h3 e"
    by (auto simp: collects_append)
  define h5 where "h5 = h4(b \<mapsto> cell_of ?n q1 q2)"
  let ?G = "insert b (G1 \<union> G2)"
  have dis: "b \<notin> G1" "b \<notin> G2" "G1 \<inter> G2 = {}" "?G \<inter> dom h = {}"
    using b h1(1) h2(2) h3(1) h4(2) by auto
  have h5: "dom h5 = dom h \<union> ?G" "\<forall>e\<in>dom h. h5 e = h e" "h5 b = Some (cell_of ?n q1 q2)"
      "\<And>e. e \<in> G1 \<Longrightarrow> h5 e = h2 e" "\<And>e. e \<in> G2 \<Longrightarrow> h5 e = h4 e"
    using b dis h3 h4 by (auto simp: h5_def)
  have sub5: "holds h5 q1 l G1" "holds h5 q2 r G2"
    using holds_cong [OF h2(1)] holds_cong [OF h4(1)] h5(4,5) by blast+
  then have copy: "holds h5 (Some b) ?n ?G"
    unfolding holds.simps using dis(1-3) h5(3) by blast
  have null: "q1 = None \<longleftrightarrow> l = Null" "q2 = None \<longleftrightarrow> r = Null"
    using holds_Null_iff h2(1) h4(1) by blast+
  have si: "singles h5 q1 l = singles h2 q1 l" "singles h5 q2 r = singles h4 q2 r"
    using singles_cong [OF h2(1) h5(4)] singles_cong [OF h4(1) h5(5)] by simp_all
  let ?acc2 = "collects acc (singles h2 q1 l @ singles h4 q2 r)"
  have acc: "(case ?acc2 of None \<Rightarrow> None
     | Some (ns, k) \<Rightarrow> if s = 1 \<and> q1 = None \<and> q2 = None
         then if k = 0 then Some (ns @ [b], k) else Some (ns, k - 1) else ?acc2) =
     collects acc (singles h5 (Some b) ?n)"
  proof (cases "s = 1 \<and> l = Null \<and> r = Null")
    case True
    then show ?thesis
      using null h5(3) by (cases acc) (auto simp: collects_def)
  next
    case False
    then show ?thesis
      using null h5(3) si by (auto simp: collects_def split: option.split)
  qed
  have "h2 b = Some (cell_of ?n None None)" "h4 b = Some (cell_of ?n q1 None)" "h3 a = h a"
    using h1 h2(4) h3 h4(4) sub(3) by auto
  then have "copy_node_h new p acc h = Some (Inr (Some b, case ?acc2 of None \<Rightarrow> None
     | Some (ns, k) \<Rightarrow> if s = 1 \<and> q1 = None \<and> q2 = None
         then if k = 0 then Some (ns @ [b], k) else Some (ns, k - 1) else ?acc2, h5))"
    using c(1,2) ab mk run1 run2
    by (subst copy_node_h.simps)
      (simp add: Let_def cell_of_node_make [where l = l and r = r] h1_def [symmetric] h3_def [symmetric] h5_def [symmetric]
        split: option.split)
  with copy dis(4) h5(1,2) show ?case
    unfolding acc by blast
qed

section \<open>Leaves by index\<close>

text \<open>The indices that have not been flushed lead to leaves of their own.\<close>

lemma slots_hold:
  "wf_node n \<Longrightarrow> represents hf n xs \<Longrightarrow> conflated_below f n \<Longrightarrow> holds h p n F \<Longrightarrow>
   leaves_hold h (drop f (slots h p n)) (map node_make (drop f xs))"
proof (induction n arbitrary: xs f p F)
  case Null
  then show ?case by simp
next
  case (Node y l r s ht d)
  let ?n = "Node y l r s ht d"
  obtain a pl pr Fl Fr where c: "p = Some a" "h a = Some (cell_of ?n pl pr)" "holds h pl l Fl" "holds h pr r Fr"
    using Node.prems(4) by auto
  show ?case
  proof (cases "l = Null \<and> r = Null")
    case True
    then have len: "length xs = 2 ^ (ht - 1)"
      using Node.prems(2) by simp
    show ?thesis
    proof (cases "length xs \<le> f")
      case True
      with len \<open>l = Null \<and> r = Null\<close> show ?thesis by simp
    next
      case False
      with True len Node.prems(3) have "ht = 1" and "f = 0"
        by auto
      moreover obtain x where "xs = [x]" "?n = node_make x"
        using leaf_represents [OF Node.prems(1) _ _ Node.prems(2)] True \<open>ht = 1\<close> by auto
      moreover have "holds h (Some a) ?n {a}"
        using Node.prems(4) True c(1) by auto
      ultimately show ?thesis
        using c(1) by (simp add: node_make_eq)
    qed
  next
    case False
    note w = wf_node_inner [OF Node.prems(1) False]
    have cb: "conflated_below f l" "conflated_below (f - nleaves l) r"
      using False Node.prems(3) by auto
    obtain ys zs where xs: "xs = ys @ zs" and rep: "represents hf l ys" "represents hf r zs"
      and len: "length ys = nleaves l"
      using represents_inner [OF Node.prems(1) False Node.prems(2)] by metis
    show ?thesis
      using leaves_hold_append [OF Node.IH(1) [OF w(1) rep(1) cb(1) c(3)] Node.IH(2) [OF w(2) rep(2) cb(2) c(4)]]
        w(3) c(1,2) len length_slots [OF w(1)] by (simp add: xs)
  qed
qed

text \<open>When the last of the flushed leaves is still a node of its own, it is the one skipped.\<close>

lemma singles_conflated:
  assumes "wf_node n" and "nd_left n = Null"
  shows "singles h p n = (if nleaves n = 1 then [the p] else [])"
proof -
  obtain x ht where n: "n = Node x Null Null (2 ^ ht - 1) ht False"
    using assms by (rule childless)
  have "nd_size n = 1 \<longleftrightarrow> nleaves n = 1"
    using wf_leaves [OF assms(1)] by linarith
  with n show ?thesis by auto
qed

lemma drop_singles:
  "wf_node n \<Longrightarrow> conflated_below f n \<Longrightarrow> f < nleaves n \<Longrightarrow>
   drop (f mod 2) (singles h p n) = drop f (slots h p n)"
proof (induction n arbitrary: f p)
  case Null
  then show ?case by simp
next
  case (Node y l r s ht d)
  show ?case
  proof (cases "l = Null \<and> r = Null")
    case True
    with Node.prems show ?thesis by auto
  next
    case False
    note w = wf_node_inner [OF Node.prems(1) False]
    have c: "conflated_below f l" "conflated_below (f - nleaves l) r" "nleaves l \<le> f \<longrightarrow> nd_left l = Null"
      using False Node.prems(2) by auto
    let ?pl = "cl_left (the (h (the p)))" and ?pr = "cl_right (the (h (the p)))"
    have right: "singles h ?pr r = slots h ?pr r" if "f < nleaves l"
      using Node.IH(2) [OF w(2), of 0 ?pr] c(2) nleaves_pos [OF w(2)] that by simp
    show ?thesis
    proof (cases "f < nleaves l")
      case True
      note left = Node.IH(1) [OF w(1) c(1) True, of ?pl]
      have "drop f (slots h ?pl l) \<noteq> []"
        using True length_slots [OF w(1)] by simp
      then have "f mod 2 \<le> length (singles h ?pl l)"
        unfolding left [symmetric] by simp
      with True right [OF True] left length_slots [OF w(1), of h ?pl] w(3)
      show ?thesis by simp
    next
      case past: False
      let ?f = "f - nleaves l"
      have f: "?f < nleaves r"
        using Node.prems(3) False past by auto
      have pow: "nleaves l = 2 ^ (nd_height l - 1)"
        using wf_perfect [OF w(1)] w(5) by simp
      have "drop (f mod 2) (singles h ?pl l @ singles h ?pr r) = drop (?f mod 2) (singles h ?pr r)"
      proof (cases "nd_height l = 1")
        case True
        then have one: "nleaves l = 1" "nleaves r \<le> 1"
          using pow w(6) wf_leaves [OF w(2)] by (auto intro: order_trans)
        then have "f = 1"
          using f past by linarith
        with one past c(3) singles_conflated [OF w(1)] show ?thesis by simp
      next
        case False
        then have j: "nd_height l - 1 \<noteq> 0"
          using wf_leaves [OF w(1)] by auto
        then have "nleaves l \<noteq> 1"
          using pow by (auto simp: power_eq_if)
        moreover have "?f mod 2 = f mod 2"
          using pow2_minus_mod2 [OF _ j, of f] past pow by simp
        ultimately show ?thesis
          using past c(3) singles_conflated [OF w(1)] by simp
      qed
      with Node.IH(2) [OF w(2) c(2) f, of ?pr] past w(3) length_slots [OF w(1), of h ?pl]
      show ?thesis by simp
    qed
  qed
qed

section \<open>Assignment\<close>

lemma copy_nodes_h_holds:
  assumes "fresh_addr new"
  shows "leaves_hold h as ns \<Longrightarrow> finite (dom h) \<Longrightarrow>
    \<exists>bs h'. copy_nodes_h new as h = Some (Inr (bs, h')) \<and> leaves_hold h' bs ns \<and> distinct bs \<and>
      set bs \<inter> dom h = {} \<and> dom h' = dom h \<union> set bs \<and> (\<forall>a\<in>dom h. h' a = h a)"
proof (induction as arbitrary: h ns)
  case Nil
  then show ?case by simp
next
  case (Cons a as)
  obtain n ns' where ns: "ns = n # ns'"
    using leaves_hold_length [OF Cons.prems(1)] by (cases ns) auto
  have hd: "holds h (Some a) n {a}" and tl: "leaves_hold h as ns'"
    using Cons.prems(1) unfolding ns by simp_all
  obtain q h1 G where 1: "copy_node_h new (Some a) None h = Some (Inr (q, None, h1))" "holds h1 q n G"
      "G \<inter> dom h = {}" "dom h1 = dom h \<union> G" "\<forall>e\<in>dom h. h1 e = h e"
    using copy_node_h_holds [OF assms hd Cons.prems(2), of None] by (auto simp: collects_def)
  have "n \<noteq> Null" "nd_left n = Null" "nd_right n = Null"
    using hd by (auto simp: holds_leaf_cell)
  with 1(2) obtain b where b: "q = Some b" "G = {b}"
    by (cases q) (auto simp: holds_Some)
  have tl1: "leaves_hold h1 as ns'"
    using 1(5) leaves_hold_subset [OF tl] by (intro leaves_hold_cong [OF tl]) blast
  have "finite (dom h1)"
    using 1(4) b Cons.prems(2) by simp
  then obtain bs h2 where 2: "copy_nodes_h new as h1 = Some (Inr (bs, h2))" "leaves_hold h2 bs ns'" "distinct bs"
      "set bs \<inter> dom h1 = {}" "dom h2 = dom h1 \<union> set bs" "\<forall>e\<in>dom h1. h2 e = h1 e"
    using Cons.IH [OF tl1] by blast
  have "holds h2 (Some b) n {b}"
  proof (rule holds_cong [OF 1(2) [unfolded b]])
    show "h2 e = h1 e" if "e \<in> {b}" for e
      using that 1(4) 2(6) b(2) by blast
  qed
  with 1 2 b show ?case
    unfolding ns by (intro exI [of _ "b # bs"] exI [of _ h2]) auto
qed

text \<open>The root and the leaf vector of a copy.\<close>

lemma copy_root_holds:
  assumes "fresh_addr new" and "finite (dom h)" and "inserted hf t zs" and "insertion_stack t = []"
    and "holds h p (root_node t) F"
  shows "\<exists>q as h' F'. copy_node_h new p (Some ([], if num_flushed t mod 2 = 0 then 0 else 1)) h =
      Some (Inr (q, Some as, h')) \<and> holds h' q (root_node t) F' \<and>
      fst as = drop (num_flushed t) (slots h' q (root_node t)) \<and> leaves_hold h' (fst as) (leaf_nodes t) \<and>
      F' \<inter> dom h = {} \<and> dom h' = dom h \<union> F' \<and> (\<forall>a\<in>dom h. h' a = h a)"
proof -
  let ?n = "root_node t" and ?f = "num_flushed t"
  have skip: "(if ?f mod 2 = 0 then 0 else 1) = ?f mod 2"
    by auto
  obtain q h' F' where c: "copy_node_h new p (Some ([], ?f mod 2)) h =
      Some (Inr (q, Some (drop (?f mod 2) (singles h' q ?n), ?f mod 2 - length (singles h' q ?n)), h'))"
      "holds h' q ?n F'" "F' \<inter> dom h = {}" "dom h' = dom h \<union> F'" "\<forall>a\<in>dom h. h' a = h a"
    using copy_node_h_holds [OF assms(1,5,2), of "Some ([], ?f mod 2)"] by (auto simp: collects_def)
  have "drop (?f mod 2) (singles h' q ?n) = drop ?f (slots h' q ?n) \<and>
      leaves_hold h' (drop ?f (slots h' q ?n)) (leaf_nodes t)"
  proof (cases "?n = Null")
    case True
    with assms(3) show ?thesis by (simp add: inserted_def)
  next
    case False
    then have w: "wf_node ?n" "represents hf ?n zs" "conflated_below ?f ?n" "?f < length zs"
        "leaf_nodes t = map node_make (drop ?f zs)"
      using assms(3,4) by (auto simp: inserted_def stack_inv_def whole_tree_def)
    then have "?f < nleaves ?n"
      using represents_length [OF w(1,2)] by simp
    with w drop_singles [OF w(1,3)] slots_hold [OF w(1-3) c(2)] show ?thesis
      by simp
  qed
  with c show ?thesis
    unfolding skip by auto
qed

text \<open>
  Assignment frees the pending leaves of the tree that is overwritten and nothing else: the
  nodes it had below its root stay allocated. The nodes of the copy are new.
\<close>

lemma tree_assign_h_holds:
  assumes "fresh_addr new" and "finite (dom h)"
    and "tree_holds h U u Fu Gu" and "tree_inv hu u ys"
    and "tree_holds h T t F G" and "tree_inv hf t xs" and "ht_stack T = []"
    and "set (ht_uninserted U) \<inter> (F \<union> set (ht_uninserted T)) = {}"
  shows "\<exists>C h' F'. tree_assign_h new U T h = Some (Inr (C, h')) \<and>
    tree_holds h' C (t\<lparr>stats := stats u\<rparr>) F' {} \<and> ht_stack C = [] \<and>
    (F' \<union> set (ht_uninserted C)) \<inter> (dom h - set (ht_uninserted U)) = {} \<and>
    dom h' = (dom h - set (ht_uninserted U)) \<union> F' \<union> set (ht_uninserted C) \<and>
    (\<forall>a\<in>dom h - set (ht_uninserted U). h' a = h a)"
proof -
  let ?P = "set (ht_uninserted U)"
  note ud = tree_holdsD [OF assms(3)]
  note td = tree_holdsD [OF assms(5)]
  note id = inner_holdsD [OF td(1)]
  define h1 where "h1 = h |` (- ?P)"
  obtain us where "uninserted_leaf_nodes u = map node_make us"
    using assms(4) by (auto simp: tree_inv_def)
  then have del: "delete_all (ht_uninserted U) h = Some (Inr h1)"
    using delete_all_leaves ud(2,3) unfolding h1_def by metis
  have h1: "dom h1 = dom h - ?P" "\<And>a. a \<notin> ?P \<Longrightarrow> h1 a = h a"
    by (auto simp: h1_def restrict_map_def dom_def)
  obtain zs where ins: "inserted hf t zs"
    using assms(6) by (auto simp: tree_inv_def)
  have nil: "insertion_stack t = []"
    using id(2) assms(7) by simp
  have root1: "holds h1 (ht_root T) (root_node t) F"
    using assms(8) h1(2) by (intro holds_cong [OF id(1)]) blast
  obtain q as h2 F' where 2: "copy_node_h new (ht_root T) (Some ([], if num_flushed t mod 2 = 0 then 0 else 1)) h1 =
      Some (Inr (q, Some as, h2))" "holds h2 q (root_node t) F'"
      "fst as = drop (num_flushed t) (slots h2 q (root_node t))" "leaves_hold h2 (fst as) (leaf_nodes t)"
      "F' \<inter> dom h1 = {}" "dom h2 = dom h1 \<union> F'" "\<forall>a\<in>dom h1. h2 a = h1 a"
    using copy_root_holds [OF assms(1) _ ins nil root1] h1(1) assms(2) by auto
  have old: "set (ht_uninserted T) \<subseteq> dom h1"
    using leaves_hold_subset [OF td(2)] assms(8) h1(1) by auto
  have un2: "leaves_hold h2 (ht_uninserted T) (uninserted_leaf_nodes t)"
  proof (rule leaves_hold_cong [OF td(2)])
    show "h2 a = h a" if "a \<in> set (ht_uninserted T)" for a
    proof -
      have "a \<in> dom h1" "a \<notin> ?P"
        using that old assms(8) by blast+
      then show ?thesis
        using 2(7) h1(2) by metis
    qed
  qed
  have "finite (dom h2)"
    using 2(6) h1(1) assms(2) holds_finite [OF 2(2)] by simp
  then obtain bs h3 where 3: "copy_nodes_h new (ht_uninserted T) h2 = Some (Inr (bs, h3))"
      "leaves_hold h3 bs (uninserted_leaf_nodes t)" "distinct bs" "set bs \<inter> dom h2 = {}"
      "dom h3 = dom h2 \<union> set bs" "\<forall>a\<in>dom h2. h3 a = h2 a"
    using copy_nodes_h_holds [OF assms(1) un2] by blast
  let ?C = "U\<lparr>ht_leaf_nodes := fst as, ht_uninserted := bs, ht_flushed := num_flushed t, ht_root := q, ht_stack := []\<rparr>"
  let ?t = "t\<lparr>stats := stats u\<rparr>"
  have sub: "F' \<subseteq> dom h2" "set (fst as) \<subseteq> dom h2"
    using 2(6) leaves_hold_subset [OF 2(4)] by auto
  have root3: "holds h3 q (root_node t) F'"
    using sub 3(6) by (intro holds_cong [OF 2(2)]) blast
  moreover have "slots h3 q (root_node t) = slots h2 q (root_node t)"
    using sub 3(6) by (intro slots_cong [OF 2(2)]) blast
  moreover have "leaves_hold h3 (fst as) (leaf_nodes t)"
    using sub 3(6) by (intro leaves_hold_cong [OF 2(4)]) blast
  moreover have "ht_stats U = stats u"
    using inner_holdsD(7) [OF ud(1)] .
  ultimately have "inner_holds h3 ?C ?t F' {}"
    using 2(3) nil by (simp add: inner_holds_def ht_slots_def right_turns_def)
  moreover have "set bs \<inter> F' = {}"
    using 3(4) sub(1) by blast
  ultimately have holds: "tree_holds h3 ?C ?t F' {}"
    using 3(2,3) by (simp add: tree_holds_def)
  have "ht_max_index ?C = ht_max_index T"
    using ht_max_index_eq [OF holds] ht_max_index_eq [OF assms(5)] by (simp add: max_index_def num_leaves_def)
  then have "tree_assign_h new U T h = Some (Inr (?C, h3))"
    using del 2(1) 3(1) id(6) by (simp add: tree_assign_h_def Let_def)
  moreover have "(F' \<union> set bs) \<inter> (dom h - ?P) = {}" "dom h3 = (dom h - ?P) \<union> F' \<union> set bs"
    using 2(5,6) 3(4,5) h1(1) by auto
  moreover have "\<forall>a\<in>dom h - ?P. h3 a = h a"
    using 2(6,7) 3(6) h1 by auto
  ultimately show ?thesis
    using holds by (intro exI [of _ ?C] exI [of _ h3] exI [of _ F']) simp
qed

end
