(* ===== verification/Merkle_Heap_Walk.thy ===== *)
theory Merkle_Heap_Walk
  imports Merkle_Heap_Copy
begin

text \<open>
  Walks from the root to a leaf over nodes with addresses (\<open>walk_to\<close> of
  \<open>include/merklecpp.h\<close>). The callback gets the address of a node, the direction and a state of
  its own; it may write to the heap and free nodes. The locale \<open>walk_callback\<close> is the contract of
  the callbacks that always go on: a left turn changes nothing, a right turn at most the left
  child of the node.
\<close>

section \<open>The walk\<close>

type_synonym 's callback_h = "addr \<Rightarrow> bool \<Rightarrow> 's \<Rightarrow> nheap \<Rightarrow> (bool \<times> 's \<times> nheap) res option"

partial_function (option) walk_loop_h ::
  "'s callback_h \<Rightarrow> bool \<Rightarrow> nat \<Rightarrow> u64 \<Rightarrow> addr option \<Rightarrow> addr list \<Rightarrow> 's \<Rightarrow> nheap \<Rightarrow>
   (addr option \<times> addr list \<times> 's \<times> nheap) res option" where
  "walk_loop_h f upd height it cur walk_stack s h =
     (if height \<le> 1 then Some (Inr (cur, walk_stack, s, h))
      else (case cur of None \<Rightarrow> Some (Inl Undefined_Read)
        | Some a \<Rightarrow>
            run_bind (node_invariant_h a h) (\<lambda>ok.
            run_bind (run_assert ok) (\<lambda>_.
            run_bind (deref a h) (\<lambda>c.
              if cl_height c = height then
                run_bind (f a (bit it 63) s h) (\<lambda>(go_on, s, h).
                  if \<not> go_on
                  then walk_loop_h f upd height it cur (if upd then a # walk_stack else walk_stack) s h
                  else run_bind (deref a h) (\<lambda>c.
                    walk_loop_h f upd (height - 1) (push_bit 1 it)
                      (if bit it 63 then cl_right c else cl_left c)
                      (if upd then a # walk_stack else walk_stack) s h))
              else walk_loop_h f upd (height - 1) (push_bit 1 it) cur
                (if upd then a # walk_stack else walk_stack) s h)))))"

fun update_stack_h :: "addr list \<Rightarrow> nheap \<Rightarrow> nheap res option" where
  "update_stack_h [] h = Some (Inr h)"
| "update_stack_h (a # as) h = run_bind (update_sizes_h a h) (update_stack_h as)"

definition walk_to_h ::
  "(nheap \<Rightarrow> addr) \<Rightarrow> (hash \<Rightarrow> hash \<Rightarrow> hash) \<Rightarrow> nat \<Rightarrow> nat \<Rightarrow> bool \<Rightarrow> 's callback_h \<Rightarrow> htree \<Rightarrow> 's \<Rightarrow> nheap \<Rightarrow>
   (addr option \<times> htree \<times> 's \<times> nheap) res option" where
  "walk_to_h new hf sz index upd f T s h =
     (if index < ht_flushed T \<or> ht_max_index T < index
      then Some (Inl (Runtime_Error ''invalid leaf index''))
      else run_bind (compute_root_h new hf sz T h) (\<lambda>(T, h).
        case ht_root T of None \<Rightarrow> Some (Inl Undefined_Read)
        | Some rt \<Rightarrow>
            run_bind (deref rt h) (\<lambda>c.
            run_bind (run_assert (index < cl_size c)) (\<lambda>_.
            run_bind (walk_loop_h f upd (cl_height c) (walk_bits (cl_height c) index) (Some rt) [] s h)
              (\<lambda>(leaf, walk_stack, s, h).
            run_bind (update_stack_h walk_stack h) (\<lambda>h. Some (Inr (leaf, T, s, h))))))))"

section \<open>Freeing below a node\<close>

text \<open>The nodes of a tree shrink from \<open>F\<close> to \<open>F'\<close>; the others are freed, the rest is untouched.\<close>

definition shrinks :: "nheap \<Rightarrow> nheap \<Rightarrow> addr set \<Rightarrow> addr set \<Rightarrow> bool" where
  "shrinks h h' F F' \<longleftrightarrow> F' \<subseteq> F \<and> dom h' = dom h - (F - F') \<and> (\<forall>x. x \<notin> F \<longrightarrow> h' x = h x)"

lemma shrinks_refl [simp]: "shrinks h h F F"
  by (simp add: shrinks_def)

lemma shrinksD:
  assumes "shrinks h h' F F'"
  shows "F' \<subseteq> F" and "dom h' = dom h - (F - F')" and "x \<notin> F \<Longrightarrow> h' x = h x"
  using assms by (auto simp: shrinks_def)

lemma shrinks_trans: "shrinks h h1 F F1 \<Longrightarrow> shrinks h1 h2 F1 F2 \<Longrightarrow> shrinks h h2 F F2"
  unfolding shrinks_def by auto

lemma shrinks_Un:
  assumes "shrinks h h' F F'" and "F \<inter> V = {}"
  shows "shrinks h h' (F \<union> V) (F' \<union> V)"
proof -
  have "(F \<union> V) - (F' \<union> V) = F - F'"
    using assms by (auto simp: shrinks_def)
  with assms show ?thesis
    by (auto simp: shrinks_def)
qed

text \<open>
  A step of an owner whose nodes were \<open>W\<close> and are \<open>W'\<close>: new nodes come from free addresses, old
  ones that are not in \<open>W'\<close> are free afterwards, and the rest of the heap is untouched.
\<close>

definition framed :: "nheap \<Rightarrow> nheap \<Rightarrow> addr set \<Rightarrow> addr set \<Rightarrow> bool" where
  "framed h h' W W' \<longleftrightarrow> (W' - W) \<inter> dom h = {} \<and> dom h' = (dom h - W) \<union> W' \<and>
     (\<forall>x. x \<notin> W \<union> W' \<longrightarrow> h' x = h x)"

lemma framed_refl [simp]: "W \<subseteq> dom h \<Longrightarrow> framed h h W W"
  by (auto simp: framed_def)

lemma framed_same: "framed h h' W W' \<Longrightarrow> x \<notin> W \<Longrightarrow> x \<notin> W' \<Longrightarrow> h' x = h x"
  by (simp add: framed_def)

lemma framed_trans:
  assumes "framed h h1 W W1" and "framed h1 h2 W1 W2"
  shows "framed h h2 W W2"
proof -
  have d: "dom h1 = (dom h - W) \<union> W1" "dom h2 = (dom h1 - W1) \<union> W2" "(W1 - W) \<inter> dom h = {}"
      "(W2 - W1) \<inter> dom h1 = {}"
    using assms by (simp_all add: framed_def)
  have same: "h2 x = h x" if x: "x \<notin> W \<union> W2" for x
  proof (cases "x \<in> W1")
    case True
    have "x \<notin> dom h" "x \<notin> dom h2"
      using True x d(1,3) by blast (use True x d(2) in blast)
    then show ?thesis
      by (simp add: domIff)
  next
    case False
    then have "h2 x = h1 x" "h1 x = h x"
      using x framed_same [OF assms(2)] framed_same [OF assms(1)] by simp_all
    then show ?thesis by simp
  qed
  note d4 = d(4) [unfolded d(1)]
  have "(W2 - W) \<inter> dom h = {}"
    using d(3) d4 by blast
  moreover have "dom h2 = (dom h - W) \<union> W2"
    unfolding d(1,2) using d(3) by blast
  ultimately have "(W2 - W) \<inter> dom h = {}" "dom h2 = (dom h - W) \<union> W2"
    by simp_all
  with same show ?thesis
    unfolding framed_def by blast
qed

lemma heap_step_framed: "heap_step h h' W W' \<Longrightarrow> W \<subseteq> dom h \<Longrightarrow> framed h h' W W'"
  unfolding heap_step_def framed_def by auto

lemma shrinks_framed: "shrinks h h' F F' \<Longrightarrow> F \<subseteq> dom h \<Longrightarrow> framed h h' F F'"
  unfolding shrinks_def framed_def by auto

lemma framed_finite: "framed h h' W W' \<Longrightarrow> finite (dom h) \<Longrightarrow> finite W' \<Longrightarrow> finite (dom h')"
  by (simp add: framed_def)

text \<open>What a step below one child does to the node.\<close>

lemma right_child_step:
  assumes "h a = Some (cell_of n pl pr)" and "n \<noteq> Null" and "holds h pl (nd_left n) Fl"
    and "a \<notin> Fl" "a \<notin> Fr" "Fl \<inter> Fr = {}"
    and "holds h' pr r' Fr'" and "shrinks h h' Fr Fr'" and "r' \<noteq> Null"
  shows "holds h' (Some a) (set_child False n r') (insert a (Fl \<union> Fr'))"
    and "shrinks h h' (insert a (Fl \<union> Fr)) (insert a (Fl \<union> Fr'))"
    and "slots h' (Some a) (set_child False n r') = slots h pl (nd_left n) @ slots h' pr r'"
proof -
  note s = shrinksD [OF assms(8)]
  have a: "h' a = Some (cell_of (set_child False n r') pl pr)"
    using s(3) [of a] assms(1,2,5) by (cases n) (simp_all add: cell_of_def)
  have l: "holds h' pl (nd_left n) Fl" and sl: "slots h' pl (nd_left n) = slots h pl (nd_left n)"
  proof -
    have agree: "h' x = h x" if "x \<in> Fl" for x
      using s(3) assms(6) that by blast
    show "holds h' pl (nd_left n) Fl"
      using agree by (rule holds_cong [OF assms(3)])
    show "slots h' pl (nd_left n) = slots h pl (nd_left n)"
      using agree by (rule slots_cong [OF assms(3)])
  qed
  have child: "nd_left (set_child False n r') = nd_left n" "nd_right (set_child False n r') = r'"
    "set_child False n r' \<noteq> Null"
    using assms(2) by (cases n; simp)+
  have "a \<notin> Fr'" "Fl \<inter> Fr' = {}"
    using s(1) assms(5,6) by auto
  then show "holds h' (Some a) (set_child False n r') (insert a (Fl \<union> Fr'))"
    using l assms(4,7) child by (intro holds_SomeI [of h' a, OF a]) simp_all
  have "shrinks h h' (Fr \<union> insert a Fl) (Fr' \<union> insert a Fl)"
    using assms(5,6) by (intro shrinks_Un [OF assms(8)]) auto
  then show "shrinks h h' (insert a (Fl \<union> Fr)) (insert a (Fl \<union> Fr'))"
    by (simp add: Un_commute)
  show "slots h' (Some a) (set_child False n r') = slots h pl (nd_left n) @ slots h' pr r'"
    using slots_Some [of h' a, OF a child(3)] child assms(9) sl by simp
qed

lemma left_child_step:
  assumes "h a = Some (cell_of n pl pr)" and "n \<noteq> Null" and "holds h pr (nd_right n) Fr"
    and "a \<notin> Fl" "a \<notin> Fr" "Fl \<inter> Fr = {}"
    and "holds h' pl l' Fl'" and "shrinks h h' Fl Fl'" and "l' \<noteq> Null"
  shows "holds h' (Some a) (set_child True n l') (insert a (Fl' \<union> Fr))"
    and "shrinks h h' (insert a (Fl \<union> Fr)) (insert a (Fl' \<union> Fr))"
    and "slots h' (Some a) (set_child True n l') = slots h' pl l' @ slots h pr (nd_right n)"
proof -
  note s = shrinksD [OF assms(8)]
  have a: "h' a = Some (cell_of (set_child True n l') pl pr)"
    using s(3) [of a] assms(1,2,4) by (cases n) (simp_all add: cell_of_def)
  have r: "holds h' pr (nd_right n) Fr" and sr: "slots h' pr (nd_right n) = slots h pr (nd_right n)"
  proof -
    have agree: "h' x = h x" if "x \<in> Fr" for x
      using s(3) assms(6) that by blast
    show "holds h' pr (nd_right n) Fr"
      using agree by (rule holds_cong [OF assms(3)])
    show "slots h' pr (nd_right n) = slots h pr (nd_right n)"
      using agree by (rule slots_cong [OF assms(3)])
  qed
  have child: "nd_left (set_child True n l') = l'" "nd_right (set_child True n l') = nd_right n"
    "set_child True n l' \<noteq> Null"
    using assms(2) by (cases n; simp)+
  have "a \<notin> Fl'" "Fl' \<inter> Fr = {}"
    using s(1) assms(4,6) by auto
  then show "holds h' (Some a) (set_child True n l') (insert a (Fl' \<union> Fr))"
    using r assms(5,7) child by (intro holds_SomeI [of h' a, OF a]) simp_all
  have "shrinks h h' (Fl \<union> insert a Fr) (Fl' \<union> insert a Fr)"
    using assms(4,6) by (intro shrinks_Un [OF assms(8)]) auto
  then show "shrinks h h' (insert a (Fl \<union> Fr)) (insert a (Fl' \<union> Fr))"
    by simp
  show "slots h' (Some a) (set_child True n l') = slots h' pl l' @ slots h pr (nd_right n)"
    using slots_Some [of h' a, OF a child(3)] child assms(9) sr by simp
qed

section \<open>Callbacks that go on\<close>

definition inner_at :: "nheap \<Rightarrow> addr \<Rightarrow> node \<Rightarrow> addr option \<Rightarrow> addr option \<Rightarrow> addr set \<Rightarrow> addr set \<Rightarrow> bool" where
  "inner_at h a n pl pr Fl Fr \<longleftrightarrow> h a = Some (cell_of n pl pr) \<and> holds h pl (nd_left n) Fl \<and>
     holds h pr (nd_right n) Fr \<and> a \<notin> Fl \<and> a \<notin> Fr \<and> Fl \<inter> Fr = {} \<and>
     wf_node n \<and> nd_left n \<noteq> Null \<and> nleaves n \<le> max_leaves"

lemma inner_atD:
  assumes "inner_at h a n pl pr Fl Fr"
  shows "h a = Some (cell_of n pl pr)" and "holds h pl (nd_left n) Fl" and "holds h pr (nd_right n) Fr"
    and "a \<notin> Fl" and "a \<notin> Fr" and "Fl \<inter> Fr = {}" and "wf_node n" and "nd_left n \<noteq> Null"
    and "nleaves n \<le> max_leaves" and "n \<noteq> Null"
  using assms unfolding inner_at_def by auto

lemma holds_inner_at:
  assumes "holds h (Some a) n F" and "wf_node n" and "nd_left n \<noteq> Null" and "nleaves n \<le> max_leaves"
  obtains pl pr Fl Fr where "inner_at h a n pl pr Fl Fr" "F = insert a (Fl \<union> Fr)"
  using assms unfolding inner_at_def holds_Some by blast

locale walk_callback =
  fixes f :: "'s callback_h" and m :: "node \<Rightarrow> bool \<Rightarrow> node" and u :: "node \<Rightarrow> bool \<Rightarrow> 't \<Rightarrow> 't"
    and related :: "nheap \<Rightarrow> 's \<Rightarrow> 't \<Rightarrow> bool" and reads :: bool
  assumes left: "inner_at h a n pl pr Fl Fr \<Longrightarrow> related h s x \<Longrightarrow>
      \<exists>s'. f a False s h = Some (Inr (True, s', h)) \<and> related h s' (u n False x)"
    and left_node: "m n False = n"
    and right: "inner_at h a n pl pr Fl Fr \<Longrightarrow> related h s x \<Longrightarrow>
      \<exists>s' h' Fl'. f a True s h = Some (Inr (True, s', h')) \<and> related h' s' (u n True x) \<and> h' a = Some (cell_of (m n True) pl pr) \<and>
        holds h' pl (nd_left (m n True)) Fl' \<and> shrinks h h' (insert a Fl) (insert a Fl') \<and> Fl' \<subseteq> Fl \<and> (reads \<longrightarrow> h' = h)"
    and right_child: "nd_right (m n True) = nd_right n"
    and right_node: "wf_node n \<Longrightarrow> nd_left n \<noteq> Null \<Longrightarrow> m n True \<noteq> Null \<and>
      wf_node (nd_left (m n True)) \<and> nleaves (nd_left (m n True)) = nleaves (nd_left n)"
begin

lemma loop:
  assumes h: "height \<le> 64"
  shows "wf_node n \<Longrightarrow> conflated_below k n \<Longrightarrow> k \<le> i \<Longrightarrow> i < nleaves n \<Longrightarrow> nleaves n \<le> max_leaves \<Longrightarrow>
    nd_height n \<le> height \<Longrightarrow> holds h (Some a) n F \<Longrightarrow> related h s x \<Longrightarrow>
    \<exists>s' h' F'. walk_loop_h f False height (push_bit (65 - height) (of_nat i)) (Some a) st s h =
        Some (Inr (Some (slots h (Some a) n ! i), st, s', h')) \<and> related h' s' (fold (\<lambda>(n, g). u n g) (route n i) x) \<and>
      holds h' (Some a) (rebuild m n i) F' \<and> shrinks h h' F F' \<and> rebuild m n i \<noteq> Null \<and>
      drop i (slots h' (Some a) (rebuild m n i)) = drop i (slots h (Some a) n) \<and> (reads \<longrightarrow> h' = h)"
  using h
proof (induction height arbitrary: n k i s x a h F)
  case 0
  then show ?case using wf_leaves [of n] by simp
next
  case (Suc height)
  obtain y l r sz ht d where n: "n = Node y l r sz ht d"
    using Suc.prems(1) by (cases n) auto
  show ?case
  proof (cases "Suc height \<le> 1")
    case True
    then have "ht \<le> 1"
      using Suc.prems(6) n by simp
    then have leaf: "l = Null \<and> r = Null"
      using Suc.prems(1) wf_leaves [of l] unfolding n by (auto split: if_splits)
    moreover from this have "i = 0" "ht = 1"
      using Suc.prems(1,4) \<open>ht \<le> 1\<close> n by auto
    ultimately show ?thesis
      using True Suc.prems(7,8)
      by (subst walk_loop_h.simps) (auto simp: n intro!: exI [of _ h] exI [of _ F])
  next
    case False
    then have h2: "2 \<le> Suc height" "Suc height \<le> 64" "1 \<le> height"
      using Suc.prems(9) by auto
    let ?it = "push_bit (65 - Suc height) (of_nat i) :: u64"
    obtain c where c: "h a = Some c" "cl_height c = nd_height n"
      using holds_deref [OF Suc.prems(7)] by blast
    have inv: "node_invariant_h a h = Some (Inr True)"
      using holds_wf_invariant [OF Suc.prems(7,1,5)] .
    have "walk_loop_h f False (Suc height) ?it (Some a) st s h =
      (if nd_height n = Suc height then
         run_bind (f a (bit ?it 63) s h) (\<lambda>(go_on, s, h).
           if \<not> go_on then walk_loop_h f False (Suc height) ?it (Some a) st s h
           else run_bind (deref a h) (\<lambda>c.
             walk_loop_h f False (Suc height - 1) (push_bit 1 ?it) (if bit ?it 63 then cl_right c else cl_left c) st s h))
       else walk_loop_h f False (Suc height - 1) (push_bit 1 ?it) (Some a) st s h)"
      using False inv c by (subst walk_loop_h.simps) (simp del: push_bit_push_bit diff_Suc_Suc)
    note run = this [unfolded diff_Suc_1]
    show ?thesis
    proof (cases "nd_height n = Suc height")
      case lower: False
      then have "nd_height n \<le> height"
        using Suc.prems(6) by simp
      then show ?thesis
        using Suc.IH [of n k i h a F s x] Suc.prems h2 lower
        unfolding run walk_shift_left [OF h2(2,1)] diff_Suc_1 by simp
    next
      case True
      have inner: "\<not> (l = Null \<and> r = Null)"
      proof
        assume "l = Null \<and> r = Null"
        with True n have "leaf_at n i = n" "nd_height n = Suc height"
          by auto
        with leaf_at_height [OF Suc.prems(1-4)] False show False by simp
      qed
      note w = wf_node_inner [OF Suc.prems(1) [unfolded n] inner]
      have nl: "nleaves l = 2 ^ (Suc height - 2)"
        using wf_perfect [OF w(1)] w(5,7) True n by simp
      have i: "i < 2 ^ (Suc height - 1)"
        using wf_leaves [OF Suc.prems(1)] Suc.prems(4) True by simp
      have sum: "nleaves n = nleaves l + nleaves r"
        using inner n by simp
      have small: "nleaves l \<le> max_leaves" "nleaves r \<le> max_leaves" "nd_height l \<le> height" "nd_height r \<le> height"
          "height \<le> 64"
        using sum Suc.prems(5) w(6,7) True n h2 by auto
      have cb: "conflated_below k l" "conflated_below (k - nleaves l) r"
        using Suc.prems(2) inner n by auto
      have ll: "nd_left n \<noteq> Null" "nd_left n = l" "nd_right n = r"
        using n w(3) by auto
      obtain pl pr Fl Fr where at: "inner_at h a n pl pr Fl Fr" "F = insert a (Fl \<union> Fr)"
        using holds_inner_at [OF Suc.prems(7,1) ll(1) Suc.prems(5)] by blast
      note d = inner_atD [OF at(1)]
      obtain al ar where p: "pl = Some al" "pr = Some ar"
        using holds_Null_iff [OF d(2)] holds_Null_iff [OF d(3)] w(3,4) ll by auto
      note len = length_slots [OF w(1), of h "Some al"]
      have sl: "slots h (Some a) n = slots h (Some al) l @ slots h (Some ar) r"
        using slots_Some [of h a, OF d(1,10)] ll p by simp
      note bit = walk_bit [OF h2(1,2) i]
      show ?thesis
      proof (cases "i < nleaves l")
        case left_turn: True
        have "\<not> bit ?it 63"
          using bit left_turn nl by simp
        obtain s1 where s1: "f a False s h = Some (Inr (True, s1, h))" "related h s1 (u n False x)"
          using left [OF at(1) Suc.prems(8)] by blast
        from \<open>\<not> bit ?it 63\<close> have go: "walk_loop_h f False (Suc height) ?it (Some a) st s h =
            walk_loop_h f False height (push_bit (65 - height) (of_nat i)) (Some al) st s1 h"
          using run True s1(1) d(1) p walk_shift_left [OF h2(2,1), of "of_nat i"]
          by (simp del: push_bit_push_bit)
        obtain s' h' Fl' where rec: "walk_loop_h f False height (push_bit (65 - height) (of_nat i)) (Some al) st s1 h =
              Some (Inr (Some (slots h (Some al) l ! i), st, s', h'))"
            "holds h' (Some al) (rebuild m l i) Fl'" "shrinks h h' Fl Fl'" "rebuild m l i \<noteq> Null"
            "drop i (slots h' (Some al) (rebuild m l i)) = drop i (slots h (Some al) l)" "reads \<longrightarrow> h' = h"
            "related h' s' (fold (\<lambda>(n, g). u n g) (route l i) (u n False x))"
          using Suc.IH [OF w(1) cb(1) Suc.prems(3) left_turn small(1,3) d(2) [unfolded p ll(2)] s1(2) small(5)] by blast
        note step = left_child_step [OF d(1,10,3-6) rec(2) [folded p] rec(3,4)]
        have reb: "rebuild m n i = set_child True n (rebuild m l i)"
          unfolding n using w(3) left_turn left_node by simp
        have "length (slots h' (Some al) (rebuild m l i)) = length (slots h (Some al) l)"
          using arg_cong [OF rec(5), of length] left_turn len by simp
        then have "drop i (slots h' (Some a) (rebuild m n i)) = drop i (slots h (Some a) n)"
          using step(3) rec(5) left_turn len p ll unfolding reb sl by simp
        moreover have "route n i = (n, False) # route l i"
          unfolding n using w(3) left_turn by simp
        moreover have "slots h (Some a) n ! i = slots h (Some al) l ! i"
          using sl left_turn len by (simp add: nth_append)
        moreover have "rebuild m n i \<noteq> Null"
          using step(1) unfolding reb by (auto simp: holds_Some)
        ultimately show ?thesis
          using go rec(1,6,7) step(1,2) at(2) unfolding reb by auto
      next
        case right_turn: False
        let ?i = "i - nleaves l"
        have "bit ?it 63"
          using bit right_turn nl by simp
        obtain s1 h1 Fl' where cb1: "f a True s h = Some (Inr (True, s1, h1))"
            "h1 a = Some (cell_of (m n True) pl pr)" "holds h1 pl (nd_left (m n True)) Fl'"
            "shrinks h h1 (insert a Fl) (insert a Fl')" "Fl' \<subseteq> Fl" "reads \<longrightarrow> h1 = h" "related h1 s1 (u n True x)"
          using right [OF at(1) Suc.prems(8)] by blast
        note rn = right_node [OF Suc.prems(1) ll(1)]
        have agree: "h1 e = h e" if "e \<in> Fr" for e
          using shrinksD(3) [OF cb1(4), of e] that d(5,6) by auto
        have r1: "holds h1 (Some ar) r Fr" and sr1: "slots h1 (Some ar) r = slots h (Some ar) r"
          using holds_cong [OF d(3) agree] slots_cong [OF d(3) agree] unfolding p ll by blast+
        have go: "walk_loop_h f False (Suc height) ?it (Some a) st s h =
            walk_loop_h f False height (push_bit (65 - height) (of_nat ?i)) (Some ar) st s1 h1"
          using run True \<open>bit ?it 63\<close> cb1(1,2) p
            walk_shift_right [OF h2(1,2) right_turn [unfolded nl not_less], folded nl]
          by (simp del: push_bit_push_bit)
        have i': "k - nleaves l \<le> ?i" "?i < nleaves r"
          using Suc.prems(3,4) right_turn sum by auto
        obtain s' h2' Fr' where rec: "walk_loop_h f False height (push_bit (65 - height) (of_nat ?i)) (Some ar) st s1 h1 =
              Some (Inr (Some (slots h1 (Some ar) r ! ?i), st, s', h2'))"
            "holds h2' (Some ar) (rebuild m r ?i) Fr'" "shrinks h1 h2' Fr Fr'" "rebuild m r ?i \<noteq> Null"
            "drop ?i (slots h2' (Some ar) (rebuild m r ?i)) = drop ?i (slots h1 (Some ar) r)" "reads \<longrightarrow> h2' = h1"
            "related h2' s' (fold (\<lambda>(n, g). u n g) (route r ?i) (u n True x))"
          using Suc.IH [OF w(2) cb(2) i' small(2,4) r1 cb1(7) small(5)] by blast
        note rn' = rn [THEN conjunct1]
        have dis: "a \<notin> Fl'" "Fl' \<inter> Fr = {}"
          using cb1(5) d(4,6) by auto
        note step = right_child_step [OF cb1(2) rn' cb1(3) dis(1) d(5) dis(2) rec(2) [folded p] rec(3,4)]
        have reb: "rebuild m n i = set_child False (m n True) (rebuild m r ?i)"
          unfolding n using w(3) right_turn by simp
        have len': "length (slots h1 (Some al) (nd_left (m n True))) = nleaves l"
          using length_slots rn ll by auto
        then have "drop i (slots h2' (Some a) (rebuild m n i)) = drop ?i (slots h2' (Some ar) (rebuild m r ?i))"
          using step(3) right_turn p unfolding reb by simp
        moreover have "drop i (slots h (Some a) n) = drop ?i (slots h (Some ar) r)"
          using sl right_turn len by simp
        moreover have "route n i = (n, True) # route r ?i"
          unfolding n using w(3) right_turn by simp
        moreover have "slots h (Some a) n ! i = slots h1 (Some ar) r ! ?i"
          using sl sr1 right_turn len by (simp add: nth_append)
        moreover have "rebuild m n i \<noteq> Null"
          using step(1) unfolding reb by (auto simp: holds_Some)
        moreover have "shrinks h h1 F (insert a (Fl' \<union> Fr))"
          using shrinks_Un [OF cb1(4), of Fr] d(5,6) at(2) by simp
        then have "shrinks h h2' F (insert a (Fl' \<union> Fr'))"
          using step(2) by (rule shrinks_trans)
        ultimately show ?thesis
          using go rec(1,5-7) cb1(6) step(1) sr1 unfolding reb by auto
      qed
    qed
  qed
qed

end

text \<open>
  A walk to a leaf of a tree. The heap afterwards holds the root that the walk over values
  computes; the pointers to the leaves that are behind the index are still right.
\<close>

definition walked :: "nheap \<Rightarrow> nheap \<Rightarrow> htree \<Rightarrow> mtree \<Rightarrow> node \<Rightarrow> nat \<Rightarrow> addr set \<Rightarrow> addr set \<Rightarrow> bool" where
  "walked h h' T t n i W F \<longleftrightarrow> holds h' (ht_root T) n F \<and> framed h h' W F \<and>
     drop (i - num_flushed t) (ht_leaf_nodes T) = drop i (slots h' (ht_root T) n) \<and>
     ht_uninserted T = [] \<and> ht_stack T = [] \<and> ht_flushed T = num_flushed t \<and> ht_stats T = stats t"

lemma walkedD:
  assumes "walked h h' T t n i W F"
  shows "holds h' (ht_root T) n F" and "framed h h' W F"
    and "drop (i - num_flushed t) (ht_leaf_nodes T) = drop i (slots h' (ht_root T) n)"
    and "ht_uninserted T = []" and "ht_stack T = []" and "ht_flushed T = num_flushed t" and "ht_stats T = stats t"
  using assms unfolding walked_def by blast+

definition ht_owned :: "htree \<Rightarrow> addr set \<Rightarrow> addr set \<Rightarrow> addr set" where
  "ht_owned T F G = F \<union> G \<union> set (ht_uninserted T)"

lemma owned_subset: "tree_holds h T t F G \<Longrightarrow> ht_owned T F G \<subseteq> dom h"
  using inner_holds_subset tree_holds_subset tree_holdsD(1) by (fastforce simp: ht_owned_def)

lemma compute_root_h_start:
  assumes "fresh_addr new" and "finite (dom h)" and "tree_holds h T t F G" and "tree_inv hf t xs"
    and "num_flushed t \<le> i" and "i < length xs"
  obtains T1 t1 h1 F1 rt c where "compute_root_h new hf sz T h = Some (Inr (T1, h1))" "compute_root hf sz t = Inr t1"
    "tree_holds h1 T1 t1 F1 {}" "ht_uninserted T1 = []" "ht_stack T1 = []" "completed hf t1 xs"
    "num_flushed t1 = num_flushed t" "heap_step h h1 (ht_owned T F G) F1"
    "ht_root T1 = Some rt" "h1 rt = Some c" "cl_height c = nd_height (root_node t1)"
    "cl_size c = nd_size (root_node t1)" "i < nd_size (root_node t1)" "\<not> (i < ht_flushed T \<or> ht_max_index T < i)"
    "walk_bits (nd_height (root_node t1)) i = push_bit (65 - nd_height (root_node t1)) (of_nat i)"
    "nd_height (root_node t1) \<le> 64"
proof -
  have ne: "xs \<noteq> []"
    using assms(6) by auto
  obtain T1 t1 h1 F1 where 1: "compute_root_h new hf sz T h = Some (Inr (T1, h1))" "compute_root hf sz t = Inr t1"
      "tree_holds h1 T1 t1 F1 {}" "ht_uninserted T1 = []" "ht_stack T1 = []" "completed hf t1 xs"
      "num_flushed t1 = num_flushed t" "heap_step h h1 (F \<union> G \<union> set (ht_uninserted T)) F1"
    using compute_root_h_holds [OF assms(1-4) ne] by blast
  note c = completedD [OF 1(6)]
  note id = inner_holdsD [OF tree_holdsD(1) [OF 1(3)]]
  have nn: "root_node t1 \<noteq> Null"
    using c(1) by auto
  obtain rt where rt: "ht_root T1 = Some rt"
    using holds_Null_iff [OF id(1)] nn by auto
  obtain e where e: "h1 rt = Some e" "cl_height e = nd_height (root_node t1)" "cl_size e = nd_size (root_node t1)"
    using holds_deref id(1) rt by metis
  have nl: "nleaves (root_node t1) \<le> max_leaves" "i < nleaves (root_node t1)"
    using c(8,11) assms(6) by auto
  have "nd_height (root_node t1) \<le> 64"
    using wf_node_bounds [OF c(1) nl(1)] by simp
  moreover have "i < nd_size (root_node t1)"
    using wf_size_eq [OF c(1)] nl by simp
  moreover have "ht_flushed T = num_flushed t"
    using inner_holdsD(6) [OF tree_holdsD(1) [OF assms(3)]] .
  then have "\<not> (i < ht_flushed T \<or> ht_max_index T < i)"
    using assms(5,6) tree_inv_max_index [OF assms(4)] ht_max_index_eq [OF assms(3)] by simp
  ultimately show thesis
    using that 1 rt e walk_bits_eq [OF c(1) nl] by (simp add: ht_owned_def)
qed

context walk_callback begin

lemma to_leaf:
  assumes "fresh_addr new" and "finite (dom h)" and "tree_holds h T t F G" and "tree_inv hf t xs"
    and "num_flushed t \<le> i" and "i < length xs" and start: "\<And>h. related h s x"
  shows "\<exists>b T' t1 r y h' F'. walk_to_h new hf sz i False f T s h = Some (Inr (b, T', r, h')) \<and>
    walk_to hf sz i False (\<lambda>n g s. (True, m n g, u n g s)) t x =
      Inr (leaf_at (root_node t1) i, t1\<lparr>root_node := rebuild m (root_node t1) i\<rparr>, y) \<and> related h' r y \<and>
    completed hf t1 xs \<and> num_flushed t1 = num_flushed t \<and>
    walked h h' T' t1 (rebuild m (root_node t1) i) i (ht_owned T F G) F' \<and>
    (reads \<longrightarrow> tree_holds h' T' t1 F' {} \<and> rebuild m (root_node t1) i = root_node t1)"
proof -
  obtain T1 t1 h1 F1 rt c where 1: "compute_root_h new hf sz T h = Some (Inr (T1, h1))" "compute_root hf sz t = Inr t1"
      "tree_holds h1 T1 t1 F1 {}" "ht_uninserted T1 = []" "ht_stack T1 = []" "completed hf t1 xs"
      "num_flushed t1 = num_flushed t" "heap_step h h1 (ht_owned T F G) F1"
    and rt: "ht_root T1 = Some rt" "h1 rt = Some c" "cl_height c = nd_height (root_node t1)"
      "cl_size c = nd_size (root_node t1)" "i < nd_size (root_node t1)" "\<not> (i < ht_flushed T \<or> ht_max_index T < i)"
      "walk_bits (nd_height (root_node t1)) i = push_bit (65 - nd_height (root_node t1)) (of_nat i)"
      "nd_height (root_node t1) \<le> 64"
    by (rule compute_root_h_start [OF assms(1-6)])
  let ?n = "root_node t1"
  note c = completedD [OF 1(6)]
  note id = inner_holdsD [OF tree_holdsD(1) [OF 1(3)]]
  have nl: "nleaves ?n \<le> max_leaves" "i < nleaves ?n" "num_flushed t1 \<le> i"
    using c(8,11) assms(5,6) 1(7) by auto
  obtain r h' F' where w: "walk_loop_h f False (nd_height ?n) (push_bit (65 - nd_height ?n) (of_nat i)) (Some rt) [] s h1 =
        Some (Inr (Some (slots h1 (Some rt) ?n ! i), [], r, h'))"
      "holds h' (Some rt) (rebuild m ?n i) F'" "shrinks h1 h' F1 F'"
      "drop i (slots h' (Some rt) (rebuild m ?n i)) = drop i (slots h1 (Some rt) ?n)" "reads \<longrightarrow> h' = h1"
      "related h' r (fold (\<lambda>(n, g). u n g) (route ?n i) x)"
    using loop [OF rt(8) c(1,4) nl(3,2,1) order.refl id(1) [unfolded rt(1)] start, of "[]"] by blast
  have run: "walk_to_h new hf sz i False f T s h =
      Some (Inr (Some (slots h1 (Some rt) ?n ! i), T1, r, h'))"
    using 1(1) rt w(1) by (simp add: walk_to_h_def)
  have "walk_loop (\<lambda>n g s. (True, m n g, u n g s)) False (nd_height ?n) (push_bit (65 - nd_height ?n) (of_nat i)) ?n x =
      Some (leaf_at ?n i, rebuild m ?n i, fold (\<lambda>(n, g). u n g) (route ?n i) x)"
    using right_child left_node by (intro walk_loop_steps [OF _ _ rt(8) c(1,4) nl(3,2)]) simp_all
  moreover have idx: "\<not> (i < min_index t \<or> max_index t < i)"
    using assms(5,6) tree_inv_max_index [OF assms(4)] by (simp add: min_index_def)
  ultimately have val: "walk_to hf sz i False (\<lambda>n g s. (True, m n g, u n g s)) t x =
      Inr (leaf_at ?n i, t1\<lparr>root_node := rebuild m ?n i\<rparr>, fold (\<lambda>(n, g). u n g) (route ?n i) x)"
    using idx 1(2) rt(5,7) by (simp add: walk_to_def Let_def)
  have sub: "ht_owned T F G \<subseteq> dom h" "F1 \<subseteq> dom h1"
    using owned_subset [OF assms(3)] inner_holds_subset [OF tree_holdsD(1) [OF 1(3)]] by blast+
  have "framed h h' (ht_owned T F G) F'"
    using framed_trans [OF heap_step_framed [OF 1(8) sub(1)] shrinks_framed [OF w(3) sub(2)]] .
  moreover have "insertion_stack t1 = []"
    using c(10) .
  then have "ht_leaf_nodes T1 = drop (num_flushed t1) (slots h1 (Some rt) ?n)"
    using id(8) 1(5) rt(1) by (simp add: ht_slots_def)
  then have "drop (i - num_flushed t1) (ht_leaf_nodes T1) = drop i (slots h' (Some rt) (rebuild m ?n i))"
    using w(4) nl(3) by simp
  ultimately have "walked h h' T1 t1 (rebuild m ?n i) i (ht_owned T F G) F'"
    using w(2) 1(4,5) id(6,7) rt(1) by (simp add: walked_def)
  moreover have "tree_holds h' T1 t1 F' {} \<and> rebuild m ?n i = ?n" if reads
  proof -
    have "h' = h1"
      using w(5) that by simp
    moreover from this have "rebuild m ?n i = ?n" "F' = F1"
      using holds_inj [OF id(1) [unfolded rt(1)], of "rebuild m ?n i" F'] w(2) by simp_all
    ultimately show ?thesis
      using 1(3) by simp
  qed
  ultimately show ?thesis
    using run val w(6) 1(6,7) by blast
qed

end

section \<open>The callbacks\<close>

text \<open>The callbacks of \<open>path\<close>, of the two \<open>serialise\<close> and of \<open>flush_to\<close>.\<close>

definition hash_at :: "addr option \<Rightarrow> nheap \<Rightarrow> hash res option" where
  "hash_at p h =
     (case p of None \<Rightarrow> Some (Inl Undefined_Read) | Some a \<Rightarrow> run_bind (deref a h) (\<lambda>c. Some (Inr (cl_hash c))))"

definition child_element_h :: "cell \<Rightarrow> bool \<Rightarrow> nheap \<Rightarrow> element res option" where
  "child_element_h c go_right h =
     run_bind (hash_at (if go_right then cl_left c else cl_right c) h) (\<lambda>x.
       Some (Inr \<lparr>e_hash = x, e_direction = (if go_right then PATH_LEFT else PATH_RIGHT)\<rparr>))"

definition path_callback_h :: "element list callback_h" where
  "path_callback_h n go_right elements h =
     run_bind (deref n h) (\<lambda>c.
     run_bind (child_element_h c go_right h) (\<lambda>e. Some (Inr (True, e # elements, h))))"

definition conflate_h :: "addr \<Rightarrow> nheap \<Rightarrow> nheap res option" where
  "conflate_h l h =
     run_bind (deref l h) (\<lambda>c.
     run_bind (node_delete (cl_left c) h) (\<lambda>h.
     run_bind (deref l h) (\<lambda>c.
     let h = h(l \<mapsto> c\<lparr>cl_left := None\<rparr>)
     in run_bind (node_delete (cl_right c) h) (\<lambda>h.
        run_bind (deref l h) (\<lambda>c. Some (Inr (h(l \<mapsto> c\<lparr>cl_right := None\<rparr>))))))))"

definition flush_callback_h :: "(hash \<Rightarrow> hash \<Rightarrow> hash) \<Rightarrow> nat callback_h" where
  "flush_callback_h hf n go_right hashes h =
     run_bind (deref n h) (\<lambda>c.
       case (if go_right then cl_left c else None) of None \<Rightarrow> Some (Inr (True, hashes, h))
       | Some l \<Rightarrow>
           run_bind (dirty_child (Some l) h) (\<lambda>dl.
           run_bind (if dl then hash_h hf l h else Some (Inr (0, h))) (\<lambda>(k, h).
           run_bind (conflate_h l h) (\<lambda>h. Some (Inr (True, hashes + k, h))))))"

lemma hash_at_holds:
  assumes "holds h p n F" and "n \<noteq> Null"
  shows "hash_at p h = Some (Inr (nd_hash n))"
proof -
  obtain a where a: "p = Some a"
    using holds_Null_iff [OF assms(1)] assms(2) by auto
  obtain c where "h a = Some c" "cl_hash c = nd_hash n"
    using holds_deref assms(1) unfolding a by blast
  with a show ?thesis
    by (simp add: hash_at_def)
qed

lemma inner_right: "wf_node n \<Longrightarrow> nd_left n \<noteq> Null \<Longrightarrow> nd_right n \<noteq> Null"
  by (cases n) (auto split: if_splits)

lemma child_element_h_eq:
  assumes "holds h pl (nd_left n) Fl" and "holds h pr (nd_right n) Fr" and "wf_node n" and "nd_left n \<noteq> Null"
  shows "child_element_h (cell_of n pl pr) g h = Some (Inr (path_element n g))"
  using hash_at_holds [OF assms(1,4)] hash_at_holds [OF assms(2) inner_right [OF assms(3,4)]]
  by (simp add: child_element_h_def path_element_def)

lemma path_callback_h_eq:
  assumes "inner_at h a n pl pr Fl Fr"
  shows "path_callback_h a g es h = Some (Inr (True, path_element n g # es, h))"
proof -
  note d = inner_atD [OF assms]
  show ?thesis
    using child_element_h_eq [OF d(2,3,7,8)] d(1) by (simp add: path_callback_h_def)
qed

text \<open>A callback that only reads.\<close>

lemma reads_only:
  assumes "\<And>h a n pl pr Fl Fr g s x. inner_at h a n pl pr Fl Fr \<Longrightarrow> related h s x \<Longrightarrow>
    \<exists>s'. f a g s h = Some (Inr (True, s', h)) \<and> related h s' (u n g x)"
  shows "walk_callback f (\<lambda>n g. n) u related True"
proof
  fix h a n pl pr Fl Fr s x
  assume at: "inner_at h a n pl pr Fl Fr" and rel: "related h s x"
  note d = inner_atD [OF at]
  show "\<exists>s'. f a False s h = Some (Inr (True, s', h)) \<and> related h s' (u n False x)"
    by (rule assms [OF at rel])
  show "\<exists>s' h' Fl'. f a True s h = Some (Inr (True, s', h')) \<and> related h' s' (u n True x) \<and>
      h' a = Some (cell_of n pl pr) \<and> holds h' pl (nd_left n) Fl' \<and> shrinks h h' (insert a Fl) (insert a Fl') \<and>
      Fl' \<subseteq> Fl \<and> (True \<longrightarrow> h' = h)"
    using assms [OF at rel, of True] d(1,2) shrinks_refl by blast
next
  fix n
  assume "wf_node n" and "nd_left n \<noteq> Null"
  then show "n \<noteq> Null \<and> wf_node (nd_left n) \<and> nleaves (nd_left n) = nleaves (nd_left n)"
    by (cases n) (auto split: if_splits)
qed (rule refl)+

interpretation path_walk: walk_callback path_callback_h "\<lambda>n g. n" "\<lambda>n g es. path_element n g # es"
    "\<lambda>h s x. s = x" True
  by (rule reads_only) (simp add: path_callback_h_eq)

lemma hash_node_wf:
  "wf_node n \<Longrightarrow> wf_node (fst (hash_node hf n)) \<and> nleaves (fst (hash_node hf n)) = nleaves n \<and>
     nd_size (fst (hash_node hf n)) = nd_size n \<and> nd_height (fst (hash_node hf n)) = nd_height n"
proof (induction n)
  case (Node x l r s ht d)
  then show ?case
    by (cases "l = Null \<and> r = Null") (auto split: prod.splits if_splits)
qed simp

lemma conflate_wf:
  assumes "wf_node n" and "nd_size n = 2 ^ nd_height n - 1" and "\<not> nd_dirty n"
  shows "wf_node (conflate n)" and "nleaves (conflate n) = nleaves n"
proof -
  obtain x l r s ht d where n: "n = Node x l r s ht d"
    using assms(1) by (cases n) auto
  have "1 \<le> ht" "nleaves n = 2 ^ (ht - 1)"
    using wf_leaves [OF assms(1)] wf_perfect [OF assms(1)] assms(2) n by auto
  with assms n show "wf_node (conflate n)" "nleaves (conflate n) = nleaves n"
    by auto
qed

lemma wf_invariant_or_null: "n = Null \<or> wf_node n \<and> nleaves n \<le> max_leaves \<Longrightarrow> n = Null \<or> node_invariant n"
  using wf_node_invariant by blast

lemma conflate_h_holds:
  assumes "holds h (Some l) n F" and "wf_node n" and "nleaves n \<le> max_leaves"
  shows "\<exists>h'. conflate_h l h = Some (Inr h') \<and> holds h' (Some l) (conflate n) {l} \<and> shrinks h h' F {l}"
proof (rule holds_SomeE [OF assms(1)])
  fix pl pr Fl Fr
  assume c: "n \<noteq> Null" "h l = Some (cell_of n pl pr)" "holds h pl (nd_left n) Fl" "holds h pr (nd_right n) Fr"
    "l \<notin> Fl" "l \<notin> Fr" "Fl \<inter> Fr = {}" "F = insert l (Fl \<union> Fr)"
  have inv: "nd_left n = Null \<or> node_invariant (nd_left n)" "nd_right n = Null \<or> node_invariant (nd_right n)"
    using assms(2,3) wf_invariant_or_null by (cases n; auto split: if_splits)+
  define h1 where "h1 = (h |` (- Fl))(l \<mapsto> cell_of n None pr)"
  have left: "node_delete pl h = Some (Inr (h |` (- Fl)))"
    using node_delete_holds [OF c(3) inv(1)] .
  have agree: "h1 x = h x" if "x \<in> Fr" for x
    using c(6,7) that by (auto simp: h1_def restrict_map_def)
  have "holds h1 pr (nd_right n) Fr"
    using agree by (rule holds_cong [OF c(4)])
  then have right: "node_delete pr h1 = Some (Inr (h1 |` (- Fr)))"
    using inv(2) by (rule node_delete_holds)
  have l: "(h |` (- Fl)) l = Some (cell_of n pl pr)" "(h1 |` (- Fr)) l = Some (cell_of n None pr)"
    using c(2,5,6) by (simp_all add: h1_def restrict_map_def)
  define h2 where "h2 = (h1 |` (- Fr))(l \<mapsto> cell_of n None None)"
  have "conflate_h l h = Some (Inr h2)"
    using c(2) left right l by (simp add: conflate_h_def Let_def h1_def [symmetric] h2_def)
  moreover have "cell_of (conflate n) None None = cell_of n None None"
    using c(1) by (cases n) (simp_all add: cell_of_def)
  then have "holds h2 (Some l) (conflate n) {l}"
    using c(1) by (cases n) (simp_all add: h2_def)
  moreover have "dom h2 = dom h - (F - {l})"
    using c(2,5,6,8) by (auto simp: h2_def h1_def restrict_map_def dom_def split: if_splits)
  moreover have "h2 x = h x" if "x \<notin> F" for x
    using that c(8) by (simp add: h2_def h1_def restrict_map_def)
  ultimately show ?thesis
    using c(8) by (intro exI [of _ h2]) (simp add: shrinks_def)
qed

lemma flush_callback_h_right:
  assumes "inner_at h a n pl pr Fl Fr"
  shows "\<exists>h' Fl'. flush_callback_h hf a True k h = Some (Inr (True, flush_hashes hf n True k, h')) \<and>
    h' a = Some (cell_of (flush_node hf n True) pl pr) \<and>
    holds h' pl (nd_left (flush_node hf n True)) Fl' \<and> shrinks h h' (insert a Fl) (insert a Fl') \<and> Fl' \<subseteq> Fl"
proof -
  note d = inner_atD [OF assms]
  let ?l = "nd_left n"
  have w: "wf_node ?l" "nleaves ?l \<le> max_leaves"
    using d(7-9) by (cases n; auto split: if_splits)+
  obtain l where l: "pl = Some l"
    using holds_Null_iff [OF d(2)] d(8) by auto
  obtain cl where cl: "h l = Some cl" "cl_dirty cl = nd_dirty ?l"
    using holds_deref d(2) l by blast
  define L where "L = (if nd_dirty ?l then fst (hash_node hf ?l) else ?l)"
  define j where "j = (if nd_dirty ?l then snd (hash_node hf ?l) else 0)"
  have "\<exists>h1. (if nd_dirty ?l then hash_h hf l h else Some (Inr (0, h))) = Some (Inr (j, h1)) \<and>
      holds h1 (Some l) L Fl \<and> dom h1 = dom h \<and> (\<forall>x. x \<notin> Fl \<longrightarrow> h1 x = h x)"
  proof (cases "nd_dirty ?l")
    case True
    with hash_h_holds [OF w(1) True, of h l Fl hf] d(2) l show ?thesis
      by (auto simp: L_def j_def)
  qed (use d(2) l in \<open>simp add: L_def j_def\<close>)
  then obtain h1 where h1: "(if nd_dirty ?l then hash_h hf l h else Some (Inr (0, h))) = Some (Inr (j, h1))"
      "holds h1 (Some l) L Fl" "dom h1 = dom h" "\<forall>x. x \<notin> Fl \<longrightarrow> h1 x = h x"
    by blast
  have wL: "wf_node L" "nleaves L \<le> max_leaves"
    using w hash_node_wf [OF w(1), of hf] by (auto simp: L_def)
  obtain h2 where h2: "conflate_h l h1 = Some (Inr h2)" "holds h2 (Some l) (conflate L) {l}" "shrinks h1 h2 Fl {l}"
    using conflate_h_holds [OF h1(2) wL] by blast
  have node: "flush_node hf n True = set_child True n (conflate L)" "flush_hashes hf n True k = k + j"
    using d(8) by (simp_all add: flush_node_def flush_hashes_def L_def j_def)
  have "shrinks h h2 Fl {l}"
    using h2(3) h1(3,4) by (auto simp: shrinks_def)
  then have sh: "shrinks h h2 (insert a Fl) (insert a {l})"
    using shrinks_Un [of h h2 Fl "{l}" "{a}"] d(4) by simp
  have "h2 a = h a"
    using shrinksD(3) [OF h2(3) d(4)] h1(4) d(4) by simp
  then have "h2 a = Some (cell_of (flush_node hf n True) pl pr)"
    using d(1,10) unfolding node by (cases n) (simp_all add: cell_of_def)
  moreover have "nd_left (flush_node hf n True) = conflate L"
    using d(10) unfolding node by (cases n) simp_all
  moreover have "flush_callback_h hf a True k h = Some (Inr (True, k + j, h2))"
    using d(1) l cl h1(1) h2(1) by (simp add: flush_callback_h_def dirty_child_def)
  ultimately show ?thesis
    using h2(2) sh shrinksD(1) [OF h2(3)] l node(2) by auto
qed

interpretation flush_walk: walk_callback "flush_callback_h hf" "flush_node hf" "flush_hashes hf"
    "\<lambda>h s x. s = x" False for hf
proof
  fix h a n pl pr Fl Fr and s x :: nat
  assume eq: "s = x" and at: "inner_at h a n pl pr Fl Fr"
  note d = inner_atD [OF at]
  show "\<exists>s'. flush_callback_h hf a False s h = Some (Inr (True, s', h)) \<and> s' = flush_hashes hf n False x"
    using d(1) eq by (simp add: flush_callback_h_def flush_hashes_def)
  show "\<exists>s' h' Fl'. flush_callback_h hf a True s h = Some (Inr (True, s', h')) \<and> s' = flush_hashes hf n True x \<and>
      h' a = Some (cell_of (flush_node hf n True) pl pr) \<and>
      holds h' pl (nd_left (flush_node hf n True)) Fl' \<and> shrinks h h' (insert a Fl) (insert a Fl') \<and> Fl' \<subseteq> Fl \<and>
      (False \<longrightarrow> h' = h)"
    using flush_callback_h_right [OF at] eq by blast
next
  fix n
  show "flush_node hf n False = n" "nd_right (flush_node hf n True) = nd_right n"
    using flush_node_child by (simp_all add: flush_node_def)
next
  fix n
  assume wf: "wf_node n" and nn: "nd_left n \<noteq> Null"
  obtain x l r s ht dd where n: "n = Node x l r s ht dd"
    using wf by (cases n) auto
  have inner: "\<not> (l = Null \<and> r = Null)"
    using nn n by simp
  note w = wf_node_inner [OF wf [unfolded n] inner]
  let ?L = "if nd_dirty l then fst (hash_node hf l) else l"
  have "\<not> nd_dirty ?L"
    using hash_node_clean [OF w(3)] by simp
  moreover have "wf_node ?L" "nleaves ?L = nleaves l" "nd_size ?L = 2 ^ nd_height ?L - 1"
    using hash_node_wf [OF w(1), of hf] w(1,5) by auto
  ultimately have "wf_node (conflate ?L)" "nleaves (conflate ?L) = nleaves l"
    using conflate_wf [of ?L] by simp_all
  then show "flush_node hf n True \<noteq> Null \<and>
      wf_node (nd_left (flush_node hf n True)) \<and> nleaves (nd_left (flush_node hf n True)) = nleaves (nd_left n)"
    using w(3) unfolding n by (cases "nd_dirty l") (simp_all add: flush_node_def)
qed

end
