(* ===== verification/Merkle_Heap_Retract.thy ===== *)
theory Merkle_Heap_Retract
  imports Merkle_Heap_Walk
begin

text \<open>
  The walk of \<open>retract_to\<close> (\<open>include/merklecpp.h\<close>) over nodes with addresses. On a left turn the
  callback frees the right subtree, moves the left child into the place of the node and frees the
  memory the child was in, so that the walk visits the same address again; the sizes along the
  route are updated afterwards, from the stack of the visited addresses.
\<close>

section \<open>The callback\<close>

definition retract_callback_h :: "unit callback_h" where
  "retract_callback_h n go_right s h =
     run_bind (deref n h) (\<lambda>c.
     let h = h(n \<mapsto> c\<lparr>cl_dirty := True\<rparr>)
     in if \<not> go_right \<and> cl_right c \<noteq> None then
          let old_left = cl_left c
          in run_bind (node_delete (cl_right c) h) (\<lambda>h.
             run_bind (deref n h) (\<lambda>c.
             let h = h(n \<mapsto> c\<lparr>cl_right := None\<rparr>)
             in case old_left of None \<Rightarrow> Some (Inl Undefined_Read)
                | Some l \<Rightarrow>
                    run_bind (deref l h) (\<lambda>cl.
                    let h = h(n \<mapsto> cl); h = h(l \<mapsto> cl\<lparr>cl_left := None, cl_right := None\<rparr>)
                    in run_bind (node_delete (Some l) h) (\<lambda>h.
                       run_bind (deref n h) (\<lambda>c.
                       let h = (if cl_left c \<noteq> None \<and> cl_right c \<noteq> None then h(n \<mapsto> c\<lparr>cl_dirty := True\<rparr>) else h)
                       in run_bind (node_invariant_h n h) (\<lambda>ok.
                          run_bind (run_assert ok) (\<lambda>_. Some (Inr (False, s, h)))))))))
        else Some (Inr (True, s, h)))"

lemma cell_of_set_dirty: "n \<noteq> Null \<Longrightarrow> (cell_of n pl pr)\<lparr>cl_dirty := True\<rparr> = cell_of (set_dirty n) pl pr"
  by (cases n) (simp_all add: cell_of_def)

lemma retract_callback_h_right:
  "h a = Some (cell_of n pl pr) \<Longrightarrow> n \<noteq> Null \<Longrightarrow>
   retract_callback_h a True s h = Some (Inr (True, s, h(a \<mapsto> cell_of (set_dirty n) pl pr)))"
  by (simp add: retract_callback_h_def cell_of_set_dirty)

definition pulled_up :: "node \<Rightarrow> node" where
  "pulled_up l = (if nd_left l \<noteq> Null \<and> nd_right l \<noteq> Null then set_dirty l else l)"

lemma retract_callback_h_left:
  assumes "inner_at h a n pl pr Fl Fr"
  shows "\<exists>h' F'. retract_callback_h a False s h = Some (Inr (False, s, h')) \<and>
    holds h' (Some a) (pulled_up (nd_left n)) F' \<and> shrinks h h' (insert a (Fl \<union> Fr)) F' \<and>
    (nd_left (nd_left n) \<noteq> Null \<longrightarrow> slots h' (Some a) (pulled_up (nd_left n)) = slots h pl (nd_left n))"
proof -
  note d = inner_atD [OF assms]
  let ?l = "nd_left n"
  have w: "wf_node ?l" "nleaves ?l \<le> max_leaves" "wf_node (nd_right n)" "nleaves (nd_right n) \<le> max_leaves"
    using d(7-9) by (cases n; auto split: if_splits)+
  obtain al ar where p: "pl = Some al" "pr = Some ar"
    using holds_Null_iff [OF d(2)] holds_Null_iff [OF d(3)] d(8) inner_right [OF d(7,8)] by auto
  obtain ql qr Gl Gr where l: "?l \<noteq> Null" "h al = Some (cell_of ?l ql qr)" "holds h ql (nd_left ?l) Gl"
      "holds h qr (nd_right ?l) Gr" "al \<notin> Gl" "al \<notin> Gr" "Gl \<inter> Gr = {}" "Fl = insert al (Gl \<union> Gr)"
    using d(2) unfolding p by (rule holds_SomeE)
  have dis: "a \<noteq> al" "a \<notin> Gl" "a \<notin> Gr" "al \<notin> Fr" "Gl \<inter> Fr = {}" "Gr \<inter> Fr = {}"
    using d(4,6) l(8) by auto
  define h1 where "h1 = h(a \<mapsto> cell_of (set_dirty n) pl pr)"
  have "holds h1 pr (nd_right n) Fr"
    unfolding h1_def using d(3,5) by (rule holds_upd)
  then have del: "node_delete pr h1 = Some (Inr (h1 |` (- Fr)))"
    by (rule node_delete_holds) (use wf_node_invariant [OF w(3,4)] in simp)
  define h3 where "h3 = (h1 |` (- Fr))(a \<mapsto> cell_of (set_dirty n) pl None)"
  define h4 where "h4 = h3(a \<mapsto> cell_of ?l ql qr, al \<mapsto> cell_of ?l None None)"
  have leaf: "holds h4 (Some al) (conflate ?l) {al}"
    using l(1) by (cases ?l) (simp_all add: h4_def cell_of_def)
  have "node_invariant (conflate ?l)"
    using wf_node_invariant [OF w(1,2)] by (cases ?l) simp_all
  then have del2: "node_delete (Some al) h4 = Some (Inr (h4 |` (- {al})))"
    using node_delete_holds [OF leaf] by simp
  define h5 where "h5 = h4 |` (- {al})"
  define h6 where "h6 = (if ql \<noteq> None \<and> qr \<noteq> None then h5(a \<mapsto> cell_of (set_dirty ?l) ql qr) else h5)"
  have at: "(h1 |` (- Fr)) a = Some (cell_of (set_dirty n) pl pr)" "h3 al = Some (cell_of ?l ql qr)"
      "h5 a = Some (cell_of ?l ql qr)"
    using d(5) dis l(2) by (simp_all add: h1_def h3_def h4_def h5_def restrict_map_def)
  have null: "ql = None \<longleftrightarrow> nd_left ?l = Null" "qr = None \<longleftrightarrow> nd_right ?l = Null"
    using holds_Null_iff l(3,4) by blast+
  have a6: "h6 a = Some (cell_of (pulled_up ?l) ql qr)"
    using at(3) null by (auto simp: h6_def pulled_up_def)
  have agree: "h6 x = h x" if "x \<noteq> a" "x \<noteq> al" "x \<notin> Fr" for x
    using that by (simp add: h6_def h5_def h4_def h3_def h1_def restrict_map_def)
  have gl: "holds h6 ql (nd_left ?l) Gl" "holds h6 qr (nd_right ?l) Gr"
      "slots h6 ql (nd_left ?l) = slots h ql (nd_left ?l)" "slots h6 qr (nd_right ?l) = slots h qr (nd_right ?l)"
  proof -
    have eq: "h6 x = h x" if "x \<in> Gl \<union> Gr" for x
      using that dis l(5,6) by (intro agree) blast+
    show "holds h6 ql (nd_left ?l) Gl" "slots h6 ql (nd_left ?l) = slots h ql (nd_left ?l)"
      by (rule holds_cong [OF l(3)] slots_cong [OF l(3)], rule eq, simp)+
    show "holds h6 qr (nd_right ?l) Gr" "slots h6 qr (nd_right ?l) = slots h qr (nd_right ?l)"
      by (rule holds_cong [OF l(4)] slots_cong [OF l(4)], rule eq, simp)+
  qed
  have child: "nd_left (pulled_up ?l) = nd_left ?l" "nd_right (pulled_up ?l) = nd_right ?l" "pulled_up ?l \<noteq> Null"
    using l(1) by (simp_all add: pulled_up_def)
  have res: "holds h6 (Some a) (pulled_up ?l) (insert a (Gl \<union> Gr))"
    using gl(1,2) child dis(2,3) l(7) by (intro holds_SomeI [of h6 a, OF a6]) simp_all
  have "nd_left ?l \<noteq> Null \<Longrightarrow> slots h6 (Some a) (pulled_up ?l) = slots h pl ?l"
    using slots_Some [of h6 a, OF a6 child(3)] slots_Some [of h al, OF l(2,1)] child gl(3,4) p by simp
  moreover have "shrinks h h6 (insert a (Fl \<union> Fr)) (insert a (Gl \<union> Gr))"
  proof -
    have out: "h6 al = None" "x \<in> Fr \<Longrightarrow> h6 x = None" for x
      using dis(1,4) d(5) by (auto simp: h6_def h5_def h4_def h3_def h1_def restrict_map_def)
    have sub: "insert a (Fl \<union> Fr) \<subseteq> dom h"
      using holds_subset d(1-3) by blast
    have "x \<in> dom h6 \<longleftrightarrow> x \<in> dom h - (insert a (Fl \<union> Fr) - insert a (Gl \<union> Gr))" for x
    proof (cases "x = a \<or> x = al \<or> x \<in> Fr")
      case True
      with out a6 d(1) dis l(5,6,8) sub show ?thesis by auto
    next
      case False
      with agree [of x] l(8) show ?thesis by (auto simp: domIff)
    qed
    then have "dom h6 = dom h - (insert a (Fl \<union> Fr) - insert a (Gl \<union> Gr))"
      by blast
    with agree l(8) show ?thesis
      by (auto simp: shrinks_def)
  qed
  moreover have "wf_node (pulled_up ?l)" "nleaves (pulled_up ?l) \<le> max_leaves"
    using w(1,2) by (auto simp: pulled_up_def set_dirty_inner)
  then have "node_invariant_h a h6 = Some (Inr True)"
    using holds_wf_invariant [OF res] by blast
  then have "retract_callback_h a False s h = Some (Inr (False, s, h6))"
    using d(1,10) p del del2 at l(1)
    by (cases "ql \<noteq> None \<and> qr \<noteq> None")
      (auto simp: retract_callback_h_def Let_def cell_of_set_dirty h1_def [unfolded p, symmetric]
        h3_def [unfolded p, symmetric] h4_def [symmetric] h5_def [symmetric] h6_def simp del: not_None_eq)
  ultimately show ?thesis
    using res by blast
qed

section \<open>The walk\<close>

lemma update_stack_h_append:
  "update_stack_h (ps @ qs) h = run_bind (update_stack_h ps h) (update_stack_h qs)"
proof (induction ps arbitrary: h)
  case (Cons a ps)
  obtain r where "update_sizes_h a h = Some r"
    by (cases "update_sizes_h a h") (auto simp: update_sizes_h_def deref_def run_bind_def split: option.splits sum.splits)
  with Cons show ?case
    by (cases r) simp_all
qed simp

lemma update_sizes_h_pointers:
  assumes "update_sizes_h a h = Some (Inr h')" and "h a = Some c"
  shows "\<exists>c'. h' a = Some c' \<and> cl_left c' = cl_left c \<and> cl_right c' = cl_right c"
  using assms by (auto simp: update_sizes_h_def run_bind_Inr_iff split: option.splits)

lemma update_sizes_h_same:
  assumes "holds h (Some a) n F" and "update_sizes n = n"
  shows "update_sizes_h a h = Some (Inr h)"
proof -
  obtain c where c: "update_sizes_h a h = Some (Inr (h(a \<mapsto> c)))" "holds (h(a \<mapsto> c)) (Some a) n F"
    using update_sizes_h_holds [OF assms(1)] assms(2) by auto
  obtain pl pr where old: "h a = Some (cell_of n pl pr)"
    using assms(1) by (auto simp: holds_Some)
  moreover obtain ql qr where new: "c = cell_of n ql qr"
    using c(2) by (auto simp: holds_Some)
  ultimately have "c = cell_of n pl pr"
    using update_sizes_h_pointers [OF c(1) old] by simp
  with c(1) old show ?thesis
    by (simp add: fun_upd_idem)
qed

text \<open>The node visited first is updated last.\<close>

lemma update_top:
  assumes "update_stack_h ps h1 = Some (Inr h2)" and "holds h2 (Some a) n F" and "update_sizes n = n \<or> nd_left n \<noteq> Null"
  obtains h3 where "update_stack_h (ps @ [a]) h1 = Some (Inr h3)" "holds h3 (Some a) (update_sizes n) F"
    "shrinks h2 h3 F F" "slots h3 (Some a) (update_sizes n) = slots h2 (Some a) n"
proof (cases "update_sizes n = n")
  case True
  with that [of h2] assms(1,2) update_sizes_h_same [OF assms(2)] show thesis
    by (simp add: update_stack_h_append)
next
  case False
  obtain c where c: "update_sizes_h a h2 = Some (Inr (h2(a \<mapsto> c)))" "holds (h2(a \<mapsto> c)) (Some a) (update_sizes n) F"
      "nd_left n \<noteq> Null \<longrightarrow> slots (h2(a \<mapsto> c)) (Some a) (update_sizes n) = slots h2 (Some a) n"
    using update_sizes_h_holds [OF assms(2)] by blast
  have "a \<in> F" "a \<in> dom h2"
    using assms(2) by (auto simp: holds_Some)
  then have "shrinks h2 (h2(a \<mapsto> c)) F F"
    by (auto simp: shrinks_def)
  with that [of "h2(a \<mapsto> c)"] assms(1,3) c False show thesis
    by (simp add: update_stack_h_append)
qed

lemma retracted_sel:
  assumes "\<not> (l = Null \<and> r = Null)"
  shows "i < nleaves l \<Longrightarrow> retracted (Node x l r s ht d) i = retracted l i"
    and "\<not> i < nleaves l \<Longrightarrow> retracted (Node x l r s ht d) i =
      update_sizes (set_child False (set_dirty (Node x l r s ht d)) (retracted r (i - nleaves l)))"
  using assms by auto

definition retract_walked :: "nheap \<Rightarrow> addr \<Rightarrow> node \<Rightarrow> nat \<Rightarrow> addr set \<Rightarrow> nat \<Rightarrow> u64 \<Rightarrow> bool" where
  "retract_walked h a n i F height it \<longleftrightarrow> (\<forall>st. \<exists>b ps h1 h2 F'.
     walk_loop_h retract_callback_h True height it (Some a) st () h = Some (Inr (Some b, ps @ st, (), h1)) \<and>
     update_stack_h ps h1 = Some (Inr h2) \<and> holds h2 (Some a) (retracted n i) F' \<and> shrinks h h2 F F' \<and>
     slots h2 (Some a) (retracted n i) = take i (slots h (Some a) n) @ [b])"

text \<open>Where the node is below the height of the loop, only the stack grows.\<close>

lemma retract_lower:
  assumes "holds h (Some a) n F" and "wf_node n" and "conflated_below k n" and "k \<le> i" and "i < nleaves n"
    and "nleaves n \<le> max_leaves" and "nd_height n \<le> height" and "1 \<le> height"
    and "retract_walked h a n i F height (push_bit 1 it)"
  shows "retract_walked h a n i F (Suc height) it"
  unfolding retract_walked_def
proof
  fix st
  obtain b ps h1 h2 F' where 1: "walk_loop_h retract_callback_h True height (push_bit 1 it) (Some a) (a # st) () h =
        Some (Inr (Some b, ps @ a # st, (), h1))"
      "update_stack_h ps h1 = Some (Inr h2)" "holds h2 (Some a) (retracted n i) F'" "shrinks h h2 F F'"
      "slots h2 (Some a) (retracted n i) = take i (slots h (Some a) n) @ [b]"
    using assms(9) unfolding retract_walked_def by blast
  obtain c where c: "h a = Some c" "cl_height c = nd_height n"
    using holds_deref [OF assms(1)] by blast
  have "walk_loop_h retract_callback_h True (Suc height) it (Some a) st () h =
      walk_loop_h retract_callback_h True height (push_bit 1 it) (Some a) (a # st) () h"
    using c assms(7,8) holds_wf_invariant [OF assms(1,2,6)] by (subst walk_loop_h.simps) simp
  moreover have same: "update_sizes (retracted n i) = retracted n i"
    using retracted_sizes [OF assms(2-6)] .
  moreover obtain h3 where "update_stack_h (ps @ [a]) h1 = Some (Inr h3)" "holds h3 (Some a) (retracted n i) F'"
      "shrinks h2 h3 F' F'" "slots h3 (Some a) (retracted n i) = slots h2 (Some a) (retracted n i)"
    using update_top [OF 1(2,3)] same by metis
  ultimately show "\<exists>b ps h1 h2 F'.
     walk_loop_h retract_callback_h True (Suc height) it (Some a) st () h = Some (Inr (Some b, ps @ st, (), h1)) \<and>
     update_stack_h ps h1 = Some (Inr h2) \<and> holds h2 (Some a) (retracted n i) F' \<and> shrinks h h2 F F' \<and>
     slots h2 (Some a) (retracted n i) = take i (slots h (Some a) n) @ [b]"
    using 1(1,5) shrinks_trans [OF 1(4)]
    by (intro exI [of _ b] exI [of _ "ps @ [a]"] exI [of _ h1] exI [of _ h3] exI [of _ F']) simp
qed

lemma pulled_up_sel:
  assumes "wf_node l"
  shows "wf_node (pulled_up l)" "conflated_below k (pulled_up l) = conflated_below k l"
    "nleaves (pulled_up l) = nleaves l" "nd_height (pulled_up l) = nd_height l" "retracted (pulled_up l) i = retracted l i"
  using assms by (auto simp: pulled_up_def set_dirty_inner)

lemma retract_left:
  assumes "inner_at h a n pl pr Fl Fr" and "\<not> bit it 63" and "i < nleaves (nd_left n)" and "nd_height n = Suc height"
    and "1 \<le> height" and "conflated_below k (nd_left n)" and "k \<le> i"
    and rec: "\<And>h' F'. holds h' (Some a) (pulled_up (nd_left n)) F' \<Longrightarrow>
      retract_walked h' a (pulled_up (nd_left n)) i F' (Suc height) it"
  shows "retract_walked h a n i (insert a (Fl \<union> Fr)) (Suc height) it"
  unfolding retract_walked_def
proof
  fix st
  note d = inner_atD [OF assms(1)]
  let ?l = "nd_left n"
  have wf: "wf_node ?l"
    using d(7,8) by (cases n) (auto split: if_splits)
  obtain h1 F1 where 1: "retract_callback_h a False () h = Some (Inr (False, (), h1))"
      "holds h1 (Some a) (pulled_up ?l) F1" "shrinks h h1 (insert a (Fl \<union> Fr)) F1"
      "nd_left ?l \<noteq> Null \<longrightarrow> slots h1 (Some a) (pulled_up ?l) = slots h pl ?l"
    using retract_callback_h_left [OF assms(1)] by blast
  obtain b ps h2 h3 F2 where 2: "walk_loop_h retract_callback_h True (Suc height) it (Some a) (a # st) () h1 =
        Some (Inr (Some b, ps @ a # st, (), h2))"
      "update_stack_h ps h2 = Some (Inr h3)" "holds h3 (Some a) (retracted (pulled_up ?l) i) F2" "shrinks h1 h3 F1 F2"
      "slots h3 (Some a) (retracted (pulled_up ?l) i) = take i (slots h1 (Some a) (pulled_up ?l)) @ [b]"
    using rec [OF 1(2)] unfolding retract_walked_def by blast
  have inv: "node_invariant_h a h = Some (Inr True)"
    using d by (intro holds_wf_invariant [of _ _ n "insert a (Fl \<union> Fr)"] holds_SomeI) auto
  have go: "walk_loop_h retract_callback_h True (Suc height) it (Some a) st () h =
      walk_loop_h retract_callback_h True (Suc height) it (Some a) (a # st) () h1"
    using inv d(1) assms(2,4,5) 1(1) by (subst walk_loop_h.simps) simp
  have ret: "retracted (pulled_up ?l) i = retracted n i"
    using assms(3) d(8,10) pulled_up_sel(5) [OF wf] by (cases n) auto
  have le: "nleaves ?l \<le> max_leaves"
    using d(7-9) by (cases n) auto
  then have same: "update_sizes (retracted n i) = retracted n i"
    using retracted_sizes [OF wf assms(6,7,3)] pulled_up_sel(5) [OF wf] ret by simp
  obtain h4 where h4: "update_stack_h (ps @ [a]) h2 = Some (Inr h4)" "holds h4 (Some a) (retracted n i) F2"
      "shrinks h3 h4 F2 F2" "slots h4 (Some a) (retracted n i) = slots h3 (Some a) (retracted n i)"
    using update_top [OF 2(2,3)] same unfolding ret by metis
  have "take i (slots h1 (Some a) (pulled_up ?l)) = take i (slots h (Some a) n)"
  proof -
    have "slots h (Some a) n = slots h pl ?l @ slots h pr (nd_right n)"
      using slots_Some [of h a, OF d(1,10)] d(8) by simp
    moreover have "i = 0" if "nd_left ?l = Null"
      using childless [OF wf that] assms(3,6,7) by fastforce
    ultimately show ?thesis
      using 1(4) assms(3) length_slots [OF wf] by (cases "nd_left ?l = Null") auto
  qed
  then show "\<exists>b ps h1 h2 F'.
     walk_loop_h retract_callback_h True (Suc height) it (Some a) st () h = Some (Inr (Some b, ps @ st, (), h1)) \<and>
     update_stack_h ps h1 = Some (Inr h2) \<and> holds h2 (Some a) (retracted n i) F' \<and>
     shrinks h h2 (insert a (Fl \<union> Fr)) F' \<and>
     slots h2 (Some a) (retracted n i) = take i (slots h (Some a) n) @ [b]"
    using go 2(1,5) h4 shrinks_trans [OF 1(3) shrinks_trans [OF 2(4) h4(3)]] ret
    by (intro exI [of _ b] exI [of _ "ps @ [a]"] exI [of _ h2] exI [of _ h4] exI [of _ F2]) simp
qed

lemma retract_right:
  assumes "inner_at h a n pl (Some ar) Fl Fr" and "bit it 63" and "\<not> i < nleaves (nd_left n)" and "nd_height n = Suc height"
    and "1 \<le> height"
    and rec: "\<And>h'. holds h' (Some ar) (nd_right n) Fr \<Longrightarrow>
      retract_walked h' ar (nd_right n) (i - nleaves (nd_left n)) Fr height (push_bit 1 it)"
  shows "retract_walked h a n i (insert a (Fl \<union> Fr)) (Suc height) it"
  unfolding retract_walked_def
proof
  fix st
  note d = inner_atD [OF assms(1)]
  let ?i = "i - nleaves (nd_left n)" and ?n = "set_dirty n"
  define h1 where "h1 = h(a \<mapsto> cell_of ?n pl (Some ar))"
  have cb: "retract_callback_h a True () h = Some (Inr (True, (), h1))"
    unfolding h1_def by (rule retract_callback_h_right [of h a, OF d(1,10)])
  have c1: "holds h1 pl (nd_left n) Fl" "holds h1 (Some ar) (nd_right n) Fr"
    using d(2-5) by (auto simp: h1_def intro: holds_upd)
  have s1: "slots h1 pl (nd_left n) = slots h pl (nd_left n)" "slots h1 (Some ar) (nd_right n) = slots h (Some ar) (nd_right n)"
    using d(4,5) by (auto simp: h1_def intro: slots_cong [OF d(2)] slots_cong [OF d(3)])
  obtain b ps h2 h3 F2 where 2: "walk_loop_h retract_callback_h True height (push_bit 1 it) (Some ar) (a # st) () h1 =
        Some (Inr (Some b, ps @ a # st, (), h2))"
      "update_stack_h ps h2 = Some (Inr h3)" "holds h3 (Some ar) (retracted (nd_right n) ?i) F2" "shrinks h1 h3 Fr F2"
      "slots h3 (Some ar) (retracted (nd_right n) ?i) = take ?i (slots h1 (Some ar) (nd_right n)) @ [b]"
    using rec [OF c1(2)] unfolding retract_walked_def by blast
  let ?r = "retracted (nd_right n) ?i"
  have a1: "h1 a = Some (cell_of ?n pl (Some ar))" "?n \<noteq> Null" "?r \<noteq> Null"
    using d(10) 2(3) by (auto simp: h1_def holds_Some)
  have lt: "holds h1 pl (nd_left ?n) Fl"
    using c1(1) by simp
  note step = right_child_step [OF a1(1,2) lt d(4-6) 2(3,4) a1(3)]
  have left: "nd_left (set_child False ?n ?r) \<noteq> Null"
    using d(8,10) by (cases n) auto
  have ret: "update_sizes (set_child False ?n ?r) = retracted n i"
    using assms(3) d(8,10) by (cases n) auto
  obtain h4 where h4: "update_stack_h (ps @ [a]) h2 = Some (Inr h4)"
      "holds h4 (Some a) (retracted n i) (insert a (Fl \<union> F2))"
      "shrinks h3 h4 (insert a (Fl \<union> F2)) (insert a (Fl \<union> F2))"
      "slots h4 (Some a) (retracted n i) = slots h3 (Some a) (set_child False ?n ?r)"
    using update_top [OF 2(2) step(1)] left unfolding ret by metis
  have inv: "node_invariant_h a h = Some (Inr True)"
    using d by (intro holds_wf_invariant [of _ _ n "insert a (Fl \<union> Fr)"] holds_SomeI) auto
  have go: "walk_loop_h retract_callback_h True (Suc height) it (Some a) st () h =
      walk_loop_h retract_callback_h True height (push_bit 1 it) (Some ar) (a # st) () h1"
    using inv d(1) assms(2,4,5) cb a1(1) by (subst walk_loop_h.simps) simp
  have "a \<in> dom h"
    using d(1) by auto
  then have "shrinks h h1 (insert a (Fl \<union> Fr)) (insert a (Fl \<union> Fr))"
    by (auto simp: h1_def shrinks_def)
  note sh = shrinks_trans [OF this shrinks_trans [OF step(2) h4(3)]]
  have wf: "wf_node (nd_left n)"
    using d(7,8) by (cases n) (auto split: if_splits)
  have "slots h (Some a) n = slots h pl (nd_left n) @ slots h (Some ar) (nd_right n)"
    using slots_Some [of h a, OF d(1,10)] d(8) by simp
  then have "slots h4 (Some a) (retracted n i) = take i (slots h (Some a) n) @ [b]"
    using h4(4) step(3) 2(5) s1 assms(3) length_slots [OF wf] by simp
  then show "\<exists>b ps h1 h2 F'.
     walk_loop_h retract_callback_h True (Suc height) it (Some a) st () h = Some (Inr (Some b, ps @ st, (), h1)) \<and>
     update_stack_h ps h1 = Some (Inr h2) \<and> holds h2 (Some a) (retracted n i) F' \<and>
     shrinks h h2 (insert a (Fl \<union> Fr)) F' \<and>
     slots h2 (Some a) (retracted n i) = take i (slots h (Some a) n) @ [b]"
    using go 2(1) h4(1,2) sh
    by (intro exI [of _ b] exI [of _ "ps @ [a]"] exI [of _ h2] exI [of _ h4] exI [of _ "insert a (Fl \<union> F2)"]) simp
qed

lemma retract_loop:
  assumes "height \<le> 64"
  shows "wf_node n \<Longrightarrow> conflated_below k n \<Longrightarrow> k \<le> i \<Longrightarrow> i < nleaves n \<Longrightarrow> nleaves n \<le> max_leaves \<Longrightarrow>
    nd_height n \<le> height \<Longrightarrow> holds h (Some a) n F \<Longrightarrow>
    retract_walked h a n i F height (push_bit (65 - height) (of_nat i))"
  using assms
proof (induction height arbitrary: n k i a h F)
  case 0
  then show ?case using wf_leaves [of n] by simp
next
  case (Suc height)
  let ?it = "push_bit (65 - Suc height) (of_nat i) :: u64"
  show ?case
  proof (cases "Suc height \<le> 1")
    case True
    then have leaf: "nd_left n = Null" "nd_right n = Null" "n \<noteq> Null" "nd_height n = 1"
      using Suc.prems(1,6) wf_leaves [of "nd_left n"] by (cases n; auto split: if_splits)+
    then have "i = 0" "retracted n i = n" "slots h (Some a) n = [a]"
      using Suc.prems(4) by (cases n; simp)+
    with True Suc.prems(7) show ?thesis
      unfolding retract_walked_def
      by (subst walk_loop_h.simps) (auto intro!: exI [of _ "[]"])
  next
    case False
    then have h2: "2 \<le> Suc height" "Suc height \<le> 64" "1 \<le> height"
      using Suc.prems(8) by auto
    have lower: "retract_walked h' a m i F' (Suc height) ?it"
      if "holds h' (Some a) m F'" "wf_node m" "conflated_below k m" "i < nleaves m" "nleaves m \<le> max_leaves"
        "nd_height m \<le> height" for h' m F'
      using Suc.IH [OF that(2,3) Suc.prems(3) that(4-6,1)] h2 that Suc.prems(3)
      unfolding walk_shift_left [OF h2(2,1), symmetric, simplified diff_Suc_1]
      by (intro retract_lower [OF that(1-3) Suc.prems(3) that(4-6)]) simp_all
    show ?thesis
    proof (cases "nd_height n = Suc height")
      case low: False
      then show ?thesis
        using Suc.prems by (intro lower) auto
    next
      case True
      obtain x l r sz ht d where n: "n = Node x l r sz ht d"
        using Suc.prems(1) by (cases n) auto
      have inner: "\<not> (l = Null \<and> r = Null)"
      proof
        assume "l = Null \<and> r = Null"
        with True n have "leaf_at n i = n" "nd_height n = Suc height"
          by auto
        with leaf_at_height [OF Suc.prems(1-4)] False show False by simp
      qed
      note w = wf_node_inner [OF Suc.prems(1) [unfolded n] inner]
      have sel: "nd_left n = l" "nd_right n = r" "nd_left n \<noteq> Null"
        using n w(3) by simp_all
      have nl: "nleaves l = 2 ^ (Suc height - 2)"
        using wf_perfect [OF w(1)] w(5,7) True n by simp
      have i: "i < 2 ^ (Suc height - 1)"
        using wf_leaves [OF Suc.prems(1)] Suc.prems(4) True by simp
      have sum: "nleaves n = nleaves l + nleaves r"
        using inner n by simp
      have cb: "conflated_below k l" "conflated_below (k - nleaves l) r"
        using Suc.prems(2) inner n by auto
      have small: "nleaves l \<le> max_leaves" "nleaves r \<le> max_leaves" "nd_height l \<le> height" "nd_height r \<le> height"
          "height \<le> 64"
        using sum Suc.prems(5) w(6,7) True n h2 by auto
      note bit = walk_bit [OF h2(1,2) i]
      obtain pl pr Fl Fr where at: "inner_at h a n pl pr Fl Fr" "F = insert a (Fl \<union> Fr)"
        using holds_inner_at [OF Suc.prems(7,1) sel(3) Suc.prems(5)] by blast
      note d = inner_atD [OF at(1)]
      obtain ar where ar: "pr = Some ar"
        using holds_Null_iff [OF d(3)] w(4) sel by auto
      show ?thesis
      proof (cases "i < nleaves l")
        case left: True
        have bit0: "\<not> bit ?it 63"
          using bit left nl by simp
        have rec: "retract_walked h' a (pulled_up (nd_left n)) i F' (Suc height) ?it"
          if "holds h' (Some a) (pulled_up (nd_left n)) F'" for h' F'
          using that pulled_up_sel [OF w(1)] cb(1) left small(1,3) unfolding sel(1) by (intro lower) simp_all
        show ?thesis
          using retract_left [OF at(1) bit0 left [folded sel(1)] True h2(3) cb(1) [folded sel(1)] Suc.prems(3) rec] at(2) by simp
      next
        case right: False
        have bit1: "bit ?it 63"
          using bit right nl by simp
        let ?i = "i - nleaves l"
        have i': "k - nleaves l \<le> ?i" "?i < nleaves r"
          using Suc.prems(3,4) right sum by auto
        have shift: "push_bit 1 ?it = (push_bit (65 - height) (of_nat ?i) :: u64)"
          using walk_shift_right [OF h2(1,2) right [unfolded nl not_less], folded nl] by simp
        have rec: "retract_walked h' ar (nd_right n) (i - nleaves (nd_left n)) Fr height (push_bit 1 ?it)"
          if "holds h' (Some ar) (nd_right n) Fr" for h'
          using Suc.IH [OF w(2) cb(2) i' small(2,4) that [unfolded sel(2)] small(5)] unfolding shift sel(1,2) .
        show ?thesis
          using retract_right [OF at(1) [unfolded ar] bit1 right [folded sel(1)] True h2(3) rec] at(2) by simp
      qed
    qed
  qed
qed

text \<open>The walk of \<open>retract_to\<close> to a leaf that is in the tree.\<close>

lemma retract_walk_to:
  assumes "fresh_addr new" and "finite (dom h)" and "tree_holds h T t F G" and "tree_inv hf t xs"
    and "num_flushed t \<le> i" and "i < length xs"
  shows "\<exists>b T' t1 h' F'. walk_to_h new hf sz i True retract_callback_h T () h = Some (Inr (Some b, T', (), h')) \<and>
    walk_to hf sz i True retract_callback t () =
      Inr (leaf_at (root_node t1) i, t1\<lparr>root_node := retracted (root_node t1) i\<rparr>, ()) \<and>
    completed hf t1 xs \<and> num_flushed t1 = num_flushed t \<and>
    holds h' (ht_root T') (retracted (root_node t1) i) F' \<and> framed h h' (ht_owned T F G) F' \<and>
    drop (num_flushed t1) (slots h' (ht_root T') (retracted (root_node t1) i)) =
      take (i - num_flushed t1) (ht_leaf_nodes T') @ [b] \<and>
    length (ht_leaf_nodes T') = length xs - num_flushed t1 \<and>
    ht_uninserted T' = [] \<and> ht_stack T' = [] \<and> ht_flushed T' = num_flushed t1 \<and> ht_stats T' = stats t1"
proof -
  obtain T1 t1 h1 F1 rt c where 1: "compute_root_h new hf sz T h = Some (Inr (T1, h1))" "compute_root hf sz t = Inr t1"
      "tree_holds h1 T1 t1 F1 {}" "ht_uninserted T1 = []" "ht_stack T1 = []" "completed hf t1 xs"
      "num_flushed t1 = num_flushed t" "heap_step h h1 (ht_owned T F G) F1"
    and rt: "ht_root T1 = Some rt" "h1 rt = Some c" "cl_height c = nd_height (root_node t1)"
      "cl_size c = nd_size (root_node t1)" "i < nd_size (root_node t1)" "\<not> (i < ht_flushed T \<or> ht_max_index T < i)"
      "walk_bits (nd_height (root_node t1)) i = push_bit (65 - nd_height (root_node t1)) (of_nat i)"
      "nd_height (root_node t1) \<le> 64"
    by (rule compute_root_h_start [OF assms])
  let ?n = "root_node t1"
  note c = completedD [OF 1(6)]
  note id = inner_holdsD [OF tree_holdsD(1) [OF 1(3)]]
  have nl: "nleaves ?n \<le> max_leaves" "i < nleaves ?n" "num_flushed t1 \<le> i"
    using c(8,11) assms(5,6) 1(7) by auto
  have "retract_walked h1 rt ?n i F1 (nd_height ?n) (push_bit (65 - nd_height ?n) (of_nat i))"
    using retract_loop [OF rt(8) c(1,4) nl(3,2,1) order.refl id(1) [unfolded rt(1)]] .
  then obtain b ps h2 h' F' where w: "walk_loop_h retract_callback_h True (nd_height ?n)
        (push_bit (65 - nd_height ?n) (of_nat i)) (Some rt) [] () h1 = Some (Inr (Some b, ps, (), h2))"
      "update_stack_h ps h2 = Some (Inr h')" "holds h' (Some rt) (retracted ?n i) F'" "shrinks h1 h' F1 F'"
      "slots h' (Some rt) (retracted ?n i) = take i (slots h1 (Some rt) ?n) @ [b]"
    unfolding retract_walked_def by (metis append_Nil2)
  have run: "walk_to_h new hf sz i True retract_callback_h T () h = Some (Inr (Some b, T1, (), h'))"
    using 1(1) rt w(1,2) by (simp add: walk_to_h_def)
  have "walk_loop retract_callback True (nd_height ?n) (push_bit (65 - nd_height ?n) (of_nat i)) ?n () =
      Some (leaf_at ?n i, retracted ?n i, ())"
    by (rule walk_loop_retract [OF rt(8) nl(1) c(1,4) nl(3,2) order.refl])
  moreover have idx: "\<not> (i < min_index t \<or> max_index t < i)"
    using assms(5,6) tree_inv_max_index [OF assms(4)] by (simp add: min_index_def)
  ultimately have val: "walk_to hf sz i True retract_callback t () =
      Inr (leaf_at ?n i, t1\<lparr>root_node := retracted ?n i\<rparr>, ())"
    using 1(2) rt(5,7) by (simp add: walk_to_def Let_def)
  have sub: "ht_owned T F G \<subseteq> dom h" "F1 \<subseteq> dom h1"
    using owned_subset [OF assms(3)] inner_holds_subset [OF tree_holdsD(1) [OF 1(3)]] by blast+
  have fr: "framed h h' (ht_owned T F G) F'"
    using framed_trans [OF heap_step_framed [OF 1(8) sub(1)] shrinks_framed [OF w(4) sub(2)]] .
  have "insertion_stack t1 = []"
    using c(10) .
  then have leaves: "ht_leaf_nodes T1 = drop (num_flushed t1) (slots h1 (Some rt) ?n)"
    using id(8) 1(5) rt(1) by (simp add: ht_slots_def)
  have "length (slots h1 (Some rt) ?n) = length xs"
    using length_slots [OF c(1)] c(11) by simp
  then have "drop (num_flushed t1) (slots h' (Some rt) (retracted ?n i)) = take (i - num_flushed t1) (ht_leaf_nodes T1) @ [b]"
      "length (ht_leaf_nodes T1) = length xs - num_flushed t1"
    using w(5) nl(3) assms(6) unfolding leaves by (simp_all add: drop_take)
  then show ?thesis
    using run val 1 c w(3) fr id(6,7) rt(1) by metis
qed

end
