(* ===== verification/Merkle_Heap_Ops.thy ===== *)
theory Merkle_Heap_Ops
  imports Merkle_Heap_Retract
begin

text \<open>
  The operations of \<open>TreeT\<close> that walk to a leaf, over nodes with addresses: \<open>leaf\<close>, \<open>path\<close>,
  \<open>past_root\<close>, \<open>flush_to\<close> and \<open>retract_to\<close> of \<open>include/merklecpp.h\<close>. Each computes what the
  operation on values does and leaves a heap that holds its result; the last two free the
  nodes that the tree no longer has.
\<close>

section \<open>Operations\<close>

definition leaf_node_h :: "htree \<Rightarrow> nat \<Rightarrow> addr res" where
  "leaf_node_h T index =
     (if ht_num_leaves T \<le> index then Inl (Runtime_Error ''leaf index out of bounds'')
      else let i = size_sub index (ht_flushed T)
           in if length (ht_leaf_nodes T) \<le> i
              then vec_get (ht_uninserted T) (i - length (ht_leaf_nodes T))
              else vec_get (ht_leaf_nodes T) i)"

definition tree_leaf_h :: "htree \<Rightarrow> nat \<Rightarrow> nheap \<Rightarrow> hash res option" where
  "tree_leaf_h T index h =
     run_bind (Some (leaf_node_h T index)) (\<lambda>a. run_bind (deref a h) (\<lambda>c. Some (Inr (cl_hash c))))"

definition tree_path_h ::
  "(nheap \<Rightarrow> addr) \<Rightarrow> (hash \<Rightarrow> hash \<Rightarrow> hash) \<Rightarrow> nat \<Rightarrow> nat \<Rightarrow> htree \<Rightarrow> nheap \<Rightarrow> (path \<times> htree \<times> nheap) res option" where
  "tree_path_h new hf sz index T h =
     (let T = T\<lparr>ht_stats := (ht_stats T)\<lparr>num_paths := num_paths (ht_stats T) + 1\<rparr>\<rparr>
      in run_bind (walk_to_h new hf sz index False path_callback_h T [] h) (\<lambda>(_, T, elements, h).
         run_bind (tree_leaf_h T index h) (\<lambda>x.
           Some (Inr (path_make x index elements (ht_max_index T), T, h)))))"

definition past_root_h ::
  "(nheap \<Rightarrow> addr) \<Rightarrow> (hash \<Rightarrow> hash \<Rightarrow> hash) \<Rightarrow> nat \<Rightarrow> nat \<Rightarrow> htree \<Rightarrow> nheap \<Rightarrow> (hash \<times> htree \<times> nheap) res option" where
  "past_root_h new hf sz index T h =
     (let T = T\<lparr>ht_stats := (ht_stats T)\<lparr>num_past_root := num_past_root (ht_stats T) + 1\<rparr>\<rparr>
      in run_bind (tree_path_h new hf sz index T h) (\<lambda>(p, T, h).
           Some (Inr (foldl (past_step hf) (path_leaf p) (path_elements p), T, h))))"

definition flush_to_h ::
  "(nheap \<Rightarrow> addr) \<Rightarrow> (hash \<Rightarrow> hash \<Rightarrow> hash) \<Rightarrow> nat \<Rightarrow> nat \<Rightarrow> htree \<Rightarrow> nheap \<Rightarrow> (htree \<times> nheap) res option" where
  "flush_to_h new hf sz index T h =
     (let T = T\<lparr>ht_stats := (ht_stats T)\<lparr>num_flush := num_flush (ht_stats T) + 1\<rparr>\<rparr>
      in if index \<le> ht_flushed T then Some (Inr (T, h))
         else run_bind (walk_to_h new hf sz index False (flush_callback_h hf) T 0 h) (\<lambda>(_, T, k, h).
           let num_newly_flushed = index - ht_flushed T
           in Some (Inr (T\<lparr>ht_leaf_nodes := drop num_newly_flushed (ht_leaf_nodes T),
                ht_flushed := ht_flushed T + num_newly_flushed,
                ht_stats := (ht_stats T)\<lparr>num_hash := num_hash (ht_stats T) + k\<rparr>\<rparr>, h))))"

definition retract_to_h ::
  "(nheap \<Rightarrow> addr) \<Rightarrow> (hash \<Rightarrow> hash \<Rightarrow> hash) \<Rightarrow> nat \<Rightarrow> nat \<Rightarrow> htree \<Rightarrow> nheap \<Rightarrow> (htree \<times> nheap) res option" where
  "retract_to_h new hf sz index T h =
     (let T = T\<lparr>ht_stats := (ht_stats T)\<lparr>num_retract := num_retract (ht_stats T) + 1\<rparr>\<rparr>
      in if ht_max_index T < index then Some (Inr (T, h))
         else if index < ht_flushed T then Some (Inl (Runtime_Error ''leaf index out of bounds''))
         else if ht_flushed T + length (ht_leaf_nodes T) \<le> index
         then let over = index - (ht_flushed T + length (ht_leaf_nodes T)) + 1
              in run_bind (delete_all (rev (drop over (ht_uninserted T))) h) (\<lambda>h.
                   Some (Inr (T\<lparr>ht_uninserted := take over (ht_uninserted T)\<rparr>, h)))
         else run_bind (walk_to_h new hf sz index True retract_callback_h T () h) (\<lambda>(new_leaf_node, T, _, h).
           let leaves = (ht_leaf_nodes T)[index - ht_flushed T := the new_leaf_node];
               num_retracted = size_sub (size_sub (ht_num_leaves T) index) 1;
               T = T\<lparr>ht_leaf_nodes := if num_retracted < length leaves
                 then take (length leaves - num_retracted) leaves else []\<rparr>
           in if ht_num_leaves T = size_wrap (index + 1) then Some (Inr (T, h)) else Some (Inl Assertion_Failed)))"

section \<open>Leaves and paths\<close>

lemma leaves_hold_nth: "leaves_hold h as ns \<Longrightarrow> i < length as \<Longrightarrow> holds h (Some (as ! i)) (ns ! i) {as ! i}"
  by (simp add: leaves_hold_def list_all2_conv_all_nth)

lemma leaf_node_h_holds:
  assumes "tree_holds h T t F G"
  shows "(\<exists>e. leaf_node t i = Inl e \<and> leaf_node_h T i = Inl e) \<or>
    (\<exists>n a. leaf_node t i = Inr n \<and> leaf_node_h T i = Inr a \<and> holds h (Some a) n {a})"
proof -
  note td = tree_holdsD [OF assms] and id = inner_holdsD [OF tree_holdsD(1) [OF assms]]
  note len = leaves_hold_length [OF id(4)] leaves_hold_length [OF td(2)]
  show ?thesis
    using leaves_hold_nth [OF id(4)] leaves_hold_nth [OF td(2)] id(6) len
    by (auto simp: leaf_node_h_def leaf_node_def ht_num_leaves_eq [OF assms] Let_def vec_get_def)
qed

lemma tree_leaf_h_eq:
  assumes "tree_holds h T t F G"
  shows "tree_leaf_h T i h = Some (tree_leaf t i)"
proof -
  consider (bad) e where "leaf_node t i = Inl e" "leaf_node_h T i = Inl e"
    | (good) n a where "leaf_node t i = Inr n" "leaf_node_h T i = Inr a" "holds h (Some a) n {a}"
    using leaf_node_h_holds [OF assms] by blast
  then show ?thesis
  proof cases
    case bad
    then show ?thesis by (simp add: tree_leaf_h_def tree_leaf_def)
  next
    case good
    obtain c where "h a = Some c" "cl_hash c = nd_hash n"
      using holds_deref [OF good(3)] by blast
    with good(1,2) show ?thesis by (simp add: tree_leaf_h_def tree_leaf_def)
  qed
qed

lemma path_callback_eq: "path_callback = (\<lambda>n g es. (True, n, path_element n g # es))"
  by (simp add: fun_eq_iff path_callback_def)

lemma ht_stats_eq: "tree_holds h T t F G \<Longrightarrow> ht_stats T = stats t"
  using inner_holdsD(7) tree_holdsD(1) by blast

lemma tree_path_h_holds:
  assumes "fresh_addr new" and "finite (dom h)" and "tree_holds h T t F G" and "tree_inv hf t xs"
    and "num_flushed t \<le> i" and "i < length xs"
  shows "\<exists>p T' t' h' F'. tree_path_h new hf sz i T h = Some (Inr (p, T', h')) \<and> tree_path hf sz i t = Inr (p, t') \<and>
    tree_holds h' T' t' F' {} \<and> ht_uninserted T' = [] \<and> framed h h' (ht_owned T F G) F'"
proof -
  let ?s = "(stats t)\<lparr>num_paths := num_paths (stats t) + 1\<rparr>"
  let ?T = "T\<lparr>ht_stats := ?s\<rparr>" and ?t = "t\<lparr>stats := ?s\<rparr>"
  have inv: "tree_inv hf ?t xs" "num_flushed ?t \<le> i"
    using assms(4,5) by simp_all
  obtain b T' t1 r h' F' where 1: "walk_to_h new hf sz i False path_callback_h ?T [] h = Some (Inr (b, T', r, h'))"
      "walk_to hf sz i False path_callback ?t [] =
        Inr (leaf_at (root_node t1) i, t1\<lparr>root_node := rebuild (\<lambda>n g. n) (root_node t1) i\<rparr>, r)"
      "completed hf t1 xs" "walked h h' T' t1 (rebuild (\<lambda>n g. n) (root_node t1) i) i (ht_owned ?T F G) F'"
      "tree_holds h' T' t1 F' {}"
    using path_walk.to_leaf [OF assms(1,2) tree_holds_stats [OF assms(3)] inv assms(6) refl]
    unfolding path_callback_eq by blast
  note inv1 = completed_tree_inv [OF 1(3)]
  have "num_flushed t1 \<le> i"
    using walk_to_steps [of "\<lambda>n g. n" hf ?t xs i sz "\<lambda>n g es. path_element n g # es" "[]"] inv assms(6) 1(2)
    unfolding path_callback_eq by (auto simp: rebuild_id)
  then have leaf: "leaf_node t1 i = Inr (node_make (xs ! i))"
    using leaf_node_ok [OF inv1 _ assms(6)] by blast
  then have "tree_leaf_h T' i h' = Some (Inr (xs ! i))"
    using tree_leaf_h_eq [OF 1(5)] by (simp add: tree_leaf_def)
  then have "tree_path_h new hf sz i T h = Some (Inr (path_make (xs ! i) i r (max_index t1), T', h'))"
    using 1(1) ht_stats_eq [OF assms(3)] ht_max_index_eq [OF 1(5)] by (simp add: tree_path_h_def)
  moreover have "tree_path hf sz i t = Inr (path_make (xs ! i) i r (max_index t1), t1)"
    using 1(2) leaf by (simp add: tree_path_def rebuild_id)
  ultimately show ?thesis
    using 1(5) walkedD(2,4) [OF 1(4)] by (auto simp: ht_owned_def)
qed

lemma past_root_h_holds:
  assumes "fresh_addr new" and "finite (dom h)" and "tree_holds h T t F G" and "tree_inv hf t xs"
    and "num_flushed t \<le> i" and "i < length xs"
  shows "\<exists>x T' t' h' F'. past_root_h new hf sz i T h = Some (Inr (x, T', h')) \<and> past_root hf sz i t = Inr (x, t') \<and>
    tree_holds h' T' t' F' {} \<and> ht_uninserted T' = [] \<and> framed h h' (ht_owned T F G) F'"
proof -
  let ?s = "(stats t)\<lparr>num_past_root := num_past_root (stats t) + 1\<rparr>"
  let ?T = "T\<lparr>ht_stats := ?s\<rparr>" and ?t = "t\<lparr>stats := ?s\<rparr>"
  have inv: "tree_inv hf ?t xs" "num_flushed ?t \<le> i"
    using assms(4,5) by simp_all
  obtain p T' t' h' F' where "tree_path_h new hf sz i ?T h = Some (Inr (p, T', h'))" "tree_path hf sz i ?t = Inr (p, t')"
      "tree_holds h' T' t' F' {}" "ht_uninserted T' = []" "framed h h' (ht_owned ?T F G) F'"
    using tree_path_h_holds [OF assms(1,2) tree_holds_stats [OF assms(3)] inv assms(6)] by blast
  then show ?thesis
    using ht_stats_eq [OF assms(3)] by (auto simp: past_root_h_def past_root_def ht_owned_def)
qed

section \<open>Flushing\<close>

lemma tree_holds_single:
  assumes "holds h (ht_root T) (root_node t) F" and "ht_stack T = []" and "insertion_stack t = []"
    and "ht_uninserted T = []" and "uninserted_leaf_nodes t = []" and "ht_flushed T = num_flushed t"
    and "ht_stats T = stats t" and "ht_leaf_nodes T = drop (num_flushed t) (slots h (ht_root T) (root_node t))"
    and "wf_node (root_node t)" and "represents hf (root_node t) xs" and "conflated_below (num_flushed t) (root_node t)"
    and "leaf_nodes t = map node_make (drop (num_flushed t) xs)"
  shows "tree_holds h T t F {}"
proof -
  have "leaves_hold h (ht_leaf_nodes T) (leaf_nodes t)"
    using slots_hold [OF assms(9-11,1)] unfolding assms(8,12) .
  with assms(1-8) show ?thesis
    by (simp add: tree_holds_def inner_holds_def ht_slots_def right_turns_def)
qed

lemma flush_to_h_holds:
  assumes "fresh_addr new" and "finite (dom h)" and "tree_holds h T t F G" and "tree_inv hf t xs"
    and "i < length xs"
  shows "\<exists>T' t' h' F' G'. flush_to_h new hf sz i T h = Some (Inr (T', h')) \<and> flush_to hf sz i t = Inr t' \<and>
    tree_holds h' T' t' F' G' \<and> framed h h' (ht_owned T F G) (ht_owned T' F' G') \<and> (G = {} \<longrightarrow> G' = {})"
proof -
  let ?s = "(stats t)\<lparr>num_flush := num_flush (stats t) + 1\<rparr>"
  let ?T = "T\<lparr>ht_stats := ?s\<rparr>" and ?t = "t\<lparr>stats := ?s\<rparr>"
  have st: "ht_stats T = stats t" "ht_flushed T = num_flushed t"
    using ht_stats_eq [OF assms(3)] inner_holdsD(6) [OF tree_holdsD(1) [OF assms(3)]] .
  note hold = tree_holds_stats [OF assms(3), of ?s]
  show ?thesis
  proof (cases "i \<le> num_flushed t")
    case True
    have "framed h h (ht_owned T F G) (ht_owned ?T F G)"
      using owned_subset [OF assms(3)] by (simp add: ht_owned_def)
    with True st hold show ?thesis
      by (intro exI [of _ ?T] exI [of _ ?t] exI [of _ h] exI [of _ F] exI [of _ G])
        (simp add: flush_to_h_def flush_to_def min_index_def)
  next
    case False
    then have inv: "tree_inv hf ?t xs" "num_flushed ?t \<le> i"
      using assms(4) by simp_all
    obtain b T1 t1 k h' F' where 1: "walk_to_h new hf sz i False (flush_callback_h hf) ?T 0 h = Some (Inr (b, T1, k, h'))"
        "walk_to hf sz i False (flush_callback hf) ?t 0 =
          Inr (leaf_at (root_node t1) i, t1\<lparr>root_node := rebuild (flush_node hf) (root_node t1) i\<rparr>, k)"
        "completed hf t1 xs" "num_flushed t1 = num_flushed ?t"
        "walked h h' T1 t1 (rebuild (flush_node hf) (root_node t1) i) i (ht_owned ?T F G) F'"
      using flush_walk.to_leaf [OF assms(1,2) hold inv assms(5) refl] unfolding flush_callback_eq by blast
    let ?n = "rebuild (flush_node hf) (root_node t1) i"
    note wk = walkedD [OF 1(5)]
    note c = completedD [OF 1(3)]
    let ?T' = "T1\<lparr>ht_leaf_nodes := drop (i - num_flushed t) (ht_leaf_nodes T1), ht_flushed := i,
        ht_stats := (ht_stats T1)\<lparr>num_hash := num_hash (ht_stats T1) + k\<rparr>\<rparr>"
    let ?t' = "t1\<lparr>root_node := ?n, leaf_nodes := drop (i - num_flushed t) (leaf_nodes t1), num_flushed := i,
        stats := (stats t1)\<lparr>num_hash := num_hash (stats t1) + k\<rparr>\<rparr>"
    have "flush_to_h new hf sz i T h = Some (Inr (?T', h'))"
      using False 1(1,4) st wk(6) by (simp add: flush_to_h_def Let_def)
    moreover have "flush_to hf sz i t = Inr ?t'"
      using False 1(2,4) by (simp add: flush_to_def Let_def min_index_def)
    moreover have "flushed i hf xs (root_node t1) ?n"
      using rebuild_flushed [OF c(1,3,5,2,4)] assms(5) inv(2) 1(4) c(11) by simp
    then have "tree_holds h' ?T' ?t' F' {}"
      using wk 1(4) c(6,9,10) inv(2) by (intro tree_holds_single) (auto simp: flushed_def drop_map)
    moreover have "framed h h' (ht_owned T F G) (ht_owned ?T' F' {})"
      using wk(2,4) by (simp add: ht_owned_def)
    ultimately show ?thesis
      by blast
  qed
qed

section \<open>Retracting\<close>

lemma ht_stats_upd_index [simp]:
  "ht_max_index (T\<lparr>ht_stats := s\<rparr>) = ht_max_index T" "ht_num_leaves (T\<lparr>ht_stats := s\<rparr>) = ht_num_leaves T"
  by (simp_all add: ht_max_index_def ht_num_leaves_def)

lemma leaves_hold_take: "leaves_hold h as ns \<Longrightarrow> leaves_hold h (take k as) (take k ns)"
  and leaves_hold_drop: "leaves_hold h as ns \<Longrightarrow> leaves_hold h (drop k as) (drop k ns)"
  and leaves_hold_rev: "leaves_hold h as ns \<Longrightarrow> leaves_hold h (rev as) (rev ns)"
  by (simp_all add: leaves_hold_def list_all2_takeI list_all2_dropI list_all2_rev)

lemma retract_pending_h:
  assumes "tree_holds h T t F G" and "tree_inv hf t xs"
  shows "\<exists>h'. delete_all (rev (drop k (ht_uninserted T))) h = Some (Inr h') \<and>
    tree_holds h' (T\<lparr>ht_uninserted := take k (ht_uninserted T)\<rparr>)
      (t\<lparr>uninserted_leaf_nodes := take k (uninserted_leaf_nodes t)\<rparr>) F G \<and>
    framed h h' (ht_owned T F G) (ht_owned (T\<lparr>ht_uninserted := take k (ht_uninserted T)\<rparr>) F G)"
proof -
  let ?D = "set (drop k (ht_uninserted T))" and ?K = "set (take k (ht_uninserted T))"
  note td = tree_holdsD [OF assms(1)]
  obtain ys where ys: "uninserted_leaf_nodes t = map node_make ys"
    using assms(2) by (auto simp: tree_inv_def)
  have "leaves_hold h (rev (drop k (ht_uninserted T))) (map node_make (rev (drop k ys)))"
    using leaves_hold_rev [OF leaves_hold_drop [OF td(2), of k]] unfolding ys by (simp add: drop_map rev_map)
  then have run: "delete_all (rev (drop k (ht_uninserted T))) h = Some (Inr (h |` (- ?D)))"
    using delete_all_leaves td(3) by fastforce
  have dis: "?K \<inter> ?D = {}" "set (ht_uninserted T) = ?K \<union> ?D"
    using set_take_disj_set_drop_if_distinct [OF td(3), of k k]
    by (auto simp flip: set_append)
  have FG: "(F \<union> G) \<inter> ?D = {}"
    using td(4) dis(2) by blast
  have "inner_holds (h |` (- ?D)) T t F G"
    using FG by (intro inner_holds_cong [OF td(1)]) (auto simp: restrict_map_def)
  moreover have "leaves_hold (h |` (- ?D)) (take k (ht_uninserted T)) (take k (uninserted_leaf_nodes t))"
    by (rule leaves_hold_restrict [OF leaves_hold_take [OF td(2)] dis(1)])
  ultimately have "tree_holds (h |` (- ?D)) (T\<lparr>ht_uninserted := take k (ht_uninserted T)\<rparr>)
      (t\<lparr>uninserted_leaf_nodes := take k (uninserted_leaf_nodes t)\<rparr>) F G"
    using td(3,4) dis(2) by (auto simp: tree_holds_def)
  moreover have "framed h (h |` (- ?D)) (F \<union> G \<union> (?K \<union> ?D)) (F \<union> G \<union> ?K)"
    using owned_subset [OF assms(1)] FG dis unfolding ht_owned_def framed_def by (auto simp: restrict_map_def)
  ultimately show ?thesis
    using run dis(2) by (simp add: ht_owned_def)
qed

lemma retract_inserted_h:
  assumes "holds h (ht_root T) (retracted (root_node t1) i) F" and "completed hf t1 xs" and "num_flushed t1 \<le> i"
    and "i < length xs" and "ht_stack T = []" and "ht_uninserted T = []" and "ht_flushed T = num_flushed t1"
    and "ht_stats T = stats t1"
    and "drop (num_flushed t1) (slots h (ht_root T) (retracted (root_node t1) i)) =
      take (i - num_flushed t1) (ht_leaf_nodes T) @ [b]"
  shows "tree_holds h (T\<lparr>ht_leaf_nodes := take (i - num_flushed t1) (ht_leaf_nodes T) @ [b]\<rparr>)
    (t1\<lparr>root_node := retracted (root_node t1) i, leaf_nodes := take (Suc i - num_flushed t1) (leaf_nodes t1)\<rparr>) F {}"
proof -
  note c = completedD [OF assms(2)]
  have "retracts hf xs (num_flushed t1) i (root_node t1) (retracted (root_node t1) i)"
    using retracted_retracts [OF c(1,3,2,4) assms(3)] assms(4) c(8,11) by simp
  then have "wf_node (retracted (root_node t1) i)" "represents hf (retracted (root_node t1) i) (take (Suc i) xs)"
      "conflated_below (num_flushed t1) (retracted (root_node t1) i)"
    by (auto simp: retracts_def)
  moreover have "take (Suc i - num_flushed t1) (leaf_nodes t1) = map node_make (drop (num_flushed t1) (take (Suc i) xs))"
    unfolding c(6) by (simp add: take_map drop_take)
  ultimately show ?thesis
    using assms(1,5-9) c(9,10) by (intro tree_holds_single [of _ _ _ _ hf "take (Suc i) xs"]) simp_all
qed

lemma retract_to_h_inside:
  assumes "fresh_addr new" and "finite (dom h)" and "tree_holds h T t F G" and "tree_inv hf t xs"
    and "num_flushed t \<le> i" and "i < num_flushed t + length (leaf_nodes t)" and "i < length xs"
  shows "\<exists>T' t' h' F'. retract_to_h new hf sz i T h = Some (Inr (T', h')) \<and> retract_to hf sz i t = Inr t' \<and>
    tree_holds h' T' t' F' {} \<and> ht_uninserted T' = [] \<and> framed h h' (ht_owned T F G) F'"
proof -
  let ?s = "(stats t)\<lparr>num_retract := num_retract (stats t) + 1\<rparr>"
  let ?T = "T\<lparr>ht_stats := ?s\<rparr>" and ?t = "t\<lparr>stats := ?s\<rparr>"
  have st: "ht_stats T = stats t" "ht_flushed T = num_flushed t" "length (ht_leaf_nodes T) = length (leaf_nodes t)"
    using ht_stats_eq [OF assms(3)] inner_holdsD(4,6) [OF tree_holdsD(1) [OF assms(3)]] leaves_hold_length by blast+
  have inv: "tree_inv hf ?t xs" "num_flushed ?t \<le> i"
    using assms(4,5) by simp_all
  obtain b T1 t1 h' F' where 1: "walk_to_h new hf sz i True retract_callback_h ?T () h = Some (Inr (Some b, T1, (), h'))"
      "walk_to hf sz i True retract_callback ?t () =
        Inr (leaf_at (root_node t1) i, t1\<lparr>root_node := retracted (root_node t1) i\<rparr>, ())"
      "completed hf t1 xs" "num_flushed t1 = num_flushed ?t"
      "holds h' (ht_root T1) (retracted (root_node t1) i) F'" "framed h h' (ht_owned ?T F G) F'"
      "drop (num_flushed t1) (slots h' (ht_root T1) (retracted (root_node t1) i)) =
        take (i - num_flushed t1) (ht_leaf_nodes T1) @ [b]"
      "length (ht_leaf_nodes T1) = length xs - num_flushed t1"
      "ht_uninserted T1 = []" "ht_stack T1 = []" "ht_flushed T1 = num_flushed t1" "ht_stats T1 = stats t1"
    using retract_walk_to [OF assms(1,2) tree_holds_stats [OF assms(3)] inv assms(7)] by blast
  let ?f = "num_flushed t"
  have f: "num_flushed t1 = ?f"
    using 1(4) by simp
  have len: "length xs < 2 ^ 64"
    using completedD(8) [OF 1(3)] max_leaves_lt by simp
  let ?T' = "T1\<lparr>ht_leaf_nodes := take (i - ?f) (ht_leaf_nodes T1) @ [b]\<rparr>"
  let ?t' = "t1\<lparr>root_node := retracted (root_node t1) i, leaf_nodes := take (Suc i - ?f) (leaf_nodes t1)\<rparr>"
  have hold: "tree_holds h' ?T' ?t' F' {}"
    using retract_inserted_h [OF 1(5,3) _ assms(7) 1(10,9,11,12,7)] assms(5) unfolding f by blast
  have n: "ht_num_leaves T1 = length xs" "ht_num_leaves ?T' = size_wrap (i + 1)"
    using 1(8,9,11) assms(5,7) f len by (simp_all add: ht_num_leaves_def)
  have upd: "(ht_leaf_nodes T1)[i - ?f := b] = take (i - ?f) (ht_leaf_nodes T1) @ b # drop (Suc i - ?f) (ht_leaf_nodes T1)"
    using 1(8) assms(5,7) f by (simp add: upd_conv_take_nth_drop Suc_diff_le)
  have lt: "length xs - Suc i < length xs - ?f"
    using assms(5,7) by linarith
  have "\<not> (ht_max_index T < i)" "\<not> i < ht_flushed T" "\<not> (ht_flushed T + length (ht_leaf_nodes T) \<le> i)"
    using assms(5-7) st tree_inv_max_index [OF assms(4)] ht_max_index_eq [OF assms(3)] by auto
  then have "retract_to_h new hf sz i T h = Some (Inr (?T', h'))"
    using 1(1,8,11) n f len lt assms(5,7) st(1)
    by (simp add: retract_to_h_def Let_def upd size_sub_le Suc_diff_le)
  moreover have "retract_to hf sz i t = Inr ?t'"
    using retract_to_walked [OF assms(4) 1(3) f assms(5-7) 1(2)] f by simp
  ultimately show ?thesis
    using hold 1(6,9) by (auto simp: ht_owned_def)
qed

lemma retract_to_h_holds:
  assumes "fresh_addr new" and "finite (dom h)" and "tree_holds h T t F G" and "tree_inv hf t xs"
  shows "(\<exists>e. retract_to_h new hf sz i T h = Some (Inl e) \<and> retract_to hf sz i t = Inl e) \<or>
    (\<exists>T' t' h' F' G'. retract_to_h new hf sz i T h = Some (Inr (T', h')) \<and> retract_to hf sz i t = Inr t' \<and>
      tree_holds h' T' t' F' G' \<and> framed h h' (ht_owned T F G) (ht_owned T' F' G') \<and> (G = {} \<longrightarrow> G' = {}))"
proof -
  let ?s = "(stats t)\<lparr>num_retract := num_retract (stats t) + 1\<rparr>"
  let ?T = "T\<lparr>ht_stats := ?s\<rparr>" and ?t = "t\<lparr>stats := ?s\<rparr>"
  have st: "ht_stats T = stats t" "ht_flushed T = num_flushed t" "length (ht_leaf_nodes T) = length (leaf_nodes t)"
    using ht_stats_eq [OF assms(3)] inner_holdsD(4,6) [OF tree_holdsD(1) [OF assms(3)]] leaves_hold_length by blast+
  have mx: "ht_max_index T = max_index t"
    using ht_max_index_eq [OF assms(3)] .
  note hold = tree_holds_stats [OF assms(3), of ?s]
  consider (high) "max_index t < i" | (low) "i \<le> max_index t" "i < num_flushed t"
    | (pending) "i \<le> max_index t" "num_flushed t + length (leaf_nodes t) \<le> i"
    | (inside) "i \<le> max_index t" "num_flushed t \<le> i" "i < num_flushed t + length (leaf_nodes t)"
    by linarith
  then show ?thesis
  proof cases
    case high
    have "framed h h (ht_owned T F G) (ht_owned ?T F G)"
      using owned_subset [OF assms(3)] by (simp add: ht_owned_def)
    with high st mx hold show ?thesis
      by (intro disjI2 exI [of _ ?T] exI [of _ ?t] exI [of _ h] exI [of _ F] exI [of _ G])
        (simp add: retract_to_h_def retract_to_def Let_def)
  next
    case low
    with st mx show ?thesis
      by (simp add: retract_to_h_def retract_to_def Let_def min_index_def)
  next
    case pending
    let ?k = "i - (num_flushed t + length (leaf_nodes t)) + 1"
    have "tree_inv hf ?t xs"
      using assms(4) by simp
    then obtain h' where h': "delete_all (rev (drop ?k (ht_uninserted ?T))) h = Some (Inr h')"
        "tree_holds h' (?T\<lparr>ht_uninserted := take ?k (ht_uninserted ?T)\<rparr>)
          (?t\<lparr>uninserted_leaf_nodes := take ?k (uninserted_leaf_nodes ?t)\<rparr>) F G"
        "framed h h' (ht_owned ?T F G) (ht_owned (?T\<lparr>ht_uninserted := take ?k (ht_uninserted ?T)\<rparr>) F G)"
      using retract_pending_h [OF hold, of hf xs ?k] by blast
    have "retract_to_h new hf sz i T h = Some (Inr (?T\<lparr>ht_uninserted := take ?k (ht_uninserted ?T)\<rparr>, h'))"
      using pending st mx h'(1) by (simp add: retract_to_h_def Let_def)
    moreover have "retract_to hf sz i t = Inr (?t\<lparr>uninserted_leaf_nodes := take ?k (uninserted_leaf_nodes ?t)\<rparr>)"
      using pending by (simp add: retract_to_def Let_def min_index_def)
    ultimately show ?thesis
      using h'(2,3) by (auto simp: ht_owned_def)
  next
    case inside
    have "num_flushed t + length (leaf_nodes t) \<le> length xs"
      using assms(4) by (auto simp: tree_inv_def inserted_def split: if_splits)
    with inside have "i < length xs"
      by simp
    then obtain T' t' h' F' where "retract_to_h new hf sz i T h = Some (Inr (T', h'))" "retract_to hf sz i t = Inr t'"
        "tree_holds h' T' t' F' {}" "ht_uninserted T' = []" "framed h h' (ht_owned T F G) F'"
      using retract_to_h_inside [OF assms inside(2,3)] by blast
    then show ?thesis
      by (intro disjI2 exI [of _ T'] exI [of _ t'] exI [of _ h'] exI [of _ F'] exI [of _ "{}"]) (simp add: ht_owned_def)
  qed
qed

section \<open>Agreement with the operations on values\<close>

text \<open>The result of an operation in the heap is that of the operation on values: the same fault,
  or the same answer and a tree that holds the new value, with the rest of the heap untouched.\<close>

definition heap_agrees ::
  "nheap \<Rightarrow> htree \<Rightarrow> addr set \<Rightarrow> addr set \<Rightarrow> ('a \<times> htree \<times> nheap) res option \<Rightarrow> ('a \<times> mtree) res \<Rightarrow> bool" where
  "heap_agrees h T F G c v \<longleftrightarrow>
     (case v of Inl e \<Rightarrow> c = Some (Inl e)
      | Inr (x, t') \<Rightarrow> \<exists>T' h' F' G'. c = Some (Inr (x, T', h')) \<and> tree_holds h' T' t' F' G' \<and>
          framed h h' (ht_owned T F G) (ht_owned T' F' G') \<and> (G = {} \<longrightarrow> G' = {}))"

lemma heap_agrees_fault [simp]: "heap_agrees h T F G c (Inl e) \<longleftrightarrow> c = Some (Inl e)"
  by (simp add: heap_agrees_def)

lemma heap_agreesI:
  "v = Inr (x, t') \<Longrightarrow> c = Some (Inr (x, T', h')) \<Longrightarrow> tree_holds h' T' t' F' G' \<Longrightarrow>
   framed h h' (ht_owned T F G) (ht_owned T' F' G') \<Longrightarrow> (G = {} \<Longrightarrow> G' = {}) \<Longrightarrow> heap_agrees h T F G c v"
  by (auto simp: heap_agrees_def)

lemma heap_agrees_cleared:
  "v = Inr (x, t') \<Longrightarrow> c = Some (Inr (x, T', h')) \<Longrightarrow> tree_holds h' T' t' F' {} \<Longrightarrow> ht_uninserted T' = [] \<Longrightarrow>
   framed h h' (ht_owned T F G) F' \<Longrightarrow> heap_agrees h T F G c v"
  by (erule (2) heap_agreesI) (simp_all add: ht_owned_def)

lemma walk_to_h_fails:
  assumes "fresh_addr new" and "finite (dom h)" and "tree_holds h T t F G" and "tree_inv hf t xs"
    and "\<not> (num_flushed t \<le> i \<and> i < length xs)"
  shows "\<exists>e. walk_to_h new hf sz i upd f T s h = Some (Inl e) \<and> walk_to hf sz i upd g t x = Inl e"
proof -
  have st: "ht_flushed T = num_flushed t" "ht_max_index T = max_index t" "max_index t = length xs - 1"
    using inner_holdsD(6) [OF tree_holdsD(1) [OF assms(3)]] ht_max_index_eq [OF assms(3)] tree_inv_max_index [OF assms(4)]
    by simp_all
  show ?thesis
  proof (cases "i < num_flushed t \<or> max_index t < i")
    case True
    with st show ?thesis
      by (simp add: walk_to_h_def walk_to_def min_index_def)
  next
    case False
    then have "xs = []"
      using assms(5) st(3) by (cases xs) auto
    with False st show ?thesis
      using compute_root_h_empty [OF assms(1-3), of hf] compute_root_empty [of hf t] assms(4)
      by (simp add: walk_to_h_def walk_to_def min_index_def)
  qed
qed

lemma tree_insert_h_agrees:
  assumes "fresh_addr new" and "finite (dom h)" and "tree_holds h T t F G"
  shows "heap_agrees h T F G (run_bind (tree_insert_h new x T h) (\<lambda>(T, h). Some (Inr (d, T, h)))) (Inr (d, tree_insert x t))"
proof -
  obtain T' h' where i: "tree_insert_h new x T h = Some (Inr (T', h'))" "tree_holds h' T' (tree_insert x t) F G"
      "heap_step h h' (F \<union> G \<union> set (ht_uninserted T)) (F \<union> G \<union> set (ht_uninserted T'))"
    using tree_insert_h_holds [OF assms] by blast
  have "framed h h' (ht_owned T F G) (ht_owned T' F G)"
    using heap_step_framed [OF i(3)] owned_subset [OF assms(3)] by (simp add: ht_owned_def)
  with i(1,2) show ?thesis
    by (intro heap_agreesI [OF refl, where T' = T' and h' = h' and F' = F and G' = G]) simp_all
qed

lemma tree_root_h_agrees:
  assumes "fresh_addr new" and "finite (dom h)" and "tree_holds h T t F G" and "tree_inv hf t xs"
  shows "heap_agrees h T F G (tree_root_h new hf sz T h) (tree_root hf sz t)"
proof (cases "xs = []")
  case True
  let ?s = "(stats t)\<lparr>num_root := num_root (stats t) + 1\<rparr>"
  have "tree_inv hf (t\<lparr>stats := ?s\<rparr>) []"
    using assms(4) True by simp
  with compute_root_h_empty [OF assms(1,2) tree_holds_stats [OF assms(3)] this] compute_root_empty [OF this] show ?thesis
    using ht_stats_eq [OF assms(3)] by (simp add: tree_root_h_def tree_root_def Let_def)
next
  case False
  obtain T' t' h' F' where r: "tree_root_h new hf sz T h = Some (Inr (merkle_root hf xs, T', h'))"
    "tree_root hf sz t = Inr (merkle_root hf xs, t')" "tree_holds h' T' t' F' {}" "ht_uninserted T' = []"
    "heap_step h h' (F \<union> G \<union> set (ht_uninserted T)) F'"
    using tree_root_h_holds [OF assms False] by blast
  have "framed h h' (ht_owned T F G) F'"
    using heap_step_framed [OF r(5)] owned_subset [OF assms(3)] by (simp add: ht_owned_def)
  with r show ?thesis
    by (intro heap_agrees_cleared)
qed

lemma tree_path_h_agrees:
  assumes "fresh_addr new" and "finite (dom h)" and "tree_holds h T t F G" and "tree_inv hf t xs"
  shows "heap_agrees h T F G (tree_path_h new hf sz i T h) (tree_path hf sz i t)"
proof (cases "num_flushed t \<le> i \<and> i < length xs")
  case True
  with tree_path_h_holds [OF assms] heap_agrees_cleared show ?thesis
    by metis
next
  case False
  let ?s = "(stats t)\<lparr>num_paths := num_paths (stats t) + 1\<rparr>"
  have "tree_inv hf (t\<lparr>stats := ?s\<rparr>) xs" "\<not> (num_flushed (t\<lparr>stats := ?s\<rparr>) \<le> i \<and> i < length xs)"
    using assms(4) False by simp_all
  from walk_to_h_fails [OF assms(1,2) tree_holds_stats [OF assms(3)] this, of sz False path_callback_h "[]"
      path_callback "[]"]
  show ?thesis
    using ht_stats_eq [OF assms(3)] by (auto simp: tree_path_h_def tree_path_def Let_def)
qed

lemma past_root_h_agrees:
  assumes "fresh_addr new" and "finite (dom h)" and "tree_holds h T t F G" and "tree_inv hf t xs"
  shows "heap_agrees h T F G (past_root_h new hf sz i T h) (past_root hf sz i t)"
proof (cases "num_flushed t \<le> i \<and> i < length xs")
  case True
  with past_root_h_holds [OF assms] heap_agrees_cleared show ?thesis
    by metis
next
  case False
  let ?s = "(stats t)\<lparr>num_past_root := num_past_root (stats t) + 1\<rparr>"
  let ?s' = "?s\<lparr>num_paths := num_paths ?s + 1\<rparr>"
  have "tree_inv hf (t\<lparr>stats := ?s'\<rparr>) xs" "\<not> (num_flushed (t\<lparr>stats := ?s'\<rparr>) \<le> i \<and> i < length xs)"
    using assms(4) False by simp_all
  from walk_to_h_fails [OF assms(1,2) tree_holds_stats [OF assms(3)] this, of sz False path_callback_h "[]"
      path_callback "[]"]
  show ?thesis
    using ht_stats_eq [OF assms(3)] by (auto simp: past_root_h_def past_root_def tree_path_h_def tree_path_def Let_def)
qed

lemma flush_to_h_agrees:
  assumes "fresh_addr new" and "finite (dom h)" and "tree_holds h T t F G" and "tree_inv hf t xs"
  shows "heap_agrees h T F G (run_bind (flush_to_h new hf sz i T h) (\<lambda>(T, h). Some (Inr (d, T, h))))
    (res_bind (flush_to hf sz i t) (\<lambda>t. Inr (d, t)))"
proof (cases "i \<le> num_flushed t \<or> i < length xs")
  case True
  show ?thesis
  proof (cases "i < length xs")
    case True
    obtain T' t' h' F' G' where "flush_to_h new hf sz i T h = Some (Inr (T', h'))" "flush_to hf sz i t = Inr t'"
        "tree_holds h' T' t' F' G'" "framed h h' (ht_owned T F G) (ht_owned T' F' G')" "G = {} \<longrightarrow> G' = {}"
      using flush_to_h_holds [OF assms True] by blast
    then show ?thesis
      by (intro heap_agreesI [where T' = T' and h' = h' and F' = F' and G' = G' and x = d and t' = t']) simp_all
  next
    case False
    let ?s = "(stats t)\<lparr>num_flush := num_flush (stats t) + 1\<rparr>"
    have "framed h h (ht_owned T F G) (ht_owned (T\<lparr>ht_stats := ?s\<rparr>) F G)"
      using owned_subset [OF assms(3)] by (simp add: ht_owned_def)
    moreover have "ht_stats T = stats t" "ht_flushed T = num_flushed t"
      using ht_stats_eq [OF assms(3)] inner_holdsD(6) [OF tree_holdsD(1) [OF assms(3)]] .
    ultimately show ?thesis
      using True False tree_holds_stats [OF assms(3), of ?s]
      by (simp add: heap_agrees_def flush_to_h_def flush_to_def min_index_def Let_def) blast
  qed
next
  case False
  let ?s = "(stats t)\<lparr>num_flush := num_flush (stats t) + 1\<rparr>"
  have "tree_inv hf (t\<lparr>stats := ?s\<rparr>) xs" "\<not> (num_flushed (t\<lparr>stats := ?s\<rparr>) \<le> i \<and> i < length xs)"
    using assms(4) False by simp_all
  from walk_to_h_fails [OF assms(1,2) tree_holds_stats [OF assms(3)] this, of sz False "flush_callback_h hf" 0
      "flush_callback hf" 0]
  show ?thesis
    using False ht_stats_eq [OF assms(3)] inner_holdsD(6) [OF tree_holdsD(1) [OF assms(3)]]
    by (auto simp: flush_to_h_def flush_to_def min_index_def Let_def)
qed

lemma retract_to_h_agrees:
  assumes "fresh_addr new" and "finite (dom h)" and "tree_holds h T t F G" and "tree_inv hf t xs"
  shows "heap_agrees h T F G (run_bind (retract_to_h new hf sz i T h) (\<lambda>(T, h). Some (Inr (d, T, h))))
    (res_bind (retract_to hf sz i t) (\<lambda>t. Inr (d, t)))"
  using retract_to_h_holds [OF assms, of sz i]
proof (elim disjE exE conjE)
  fix T' t' h' F' G'
  assume "retract_to_h new hf sz i T h = Some (Inr (T', h'))" "retract_to hf sz i t = Inr t'"
    "tree_holds h' T' t' F' G'" "framed h h' (ht_owned T F G) (ht_owned T' F' G')" "G = {} \<longrightarrow> G' = {}"
  then show ?thesis
    by (intro heap_agreesI [where T' = T' and h' = h' and F' = F' and G' = G' and x = d and t' = t']) simp_all
qed simp

end
