(* ===== verification/Merkle_Heap_Serial.thy ===== *)
theory Merkle_Heap_Serial
  imports Merkle_Heap_Ops Merkle_Serial
begin

text \<open>
  Serialisation of trees with the addresses of their nodes (the two \<open>serialise\<close> and the two
  \<open>serialised_size\<close> of \<open>TreeT\<close> in \<open>include/merklecpp.h\<close>). The walk collects pointers to the
  subtrees left of the route, whose hashes are read after it.
\<close>

section \<open>Operations\<close>

fun serialise_nodes_h :: "addr option list \<Rightarrow> bytes \<Rightarrow> nheap \<Rightarrow> bytes res option" where
  "serialise_nodes_h [] bytes h = Some (Inr bytes)"
| "serialise_nodes_h (p # ps) bytes h =
     run_bind (hash_at p h) (\<lambda>x. serialise_nodes_h ps (hash_serialise x bytes) h)"

definition extras_callback_h :: "addr option list callback_h" where
  "extras_callback_h n go_right extras h =
     run_bind (deref n h) (\<lambda>c.
       Some (Inr (True, if go_right then extras @ [cl_left c] else extras, h)))"

definition count_callback_h :: "nat callback_h" where
  "count_callback_h n go_right num_extras h =
     Some (Inr (True, if go_right then num_extras + 1 else num_extras, h))"

definition serialise_extras_h ::
  "(nheap \<Rightarrow> addr) \<Rightarrow> (hash \<Rightarrow> hash \<Rightarrow> hash) \<Rightarrow> nat \<Rightarrow> nat \<Rightarrow> htree \<Rightarrow> bytes \<Rightarrow> nheap \<Rightarrow>
   (bytes \<times> htree \<times> nheap) res option" where
  "serialise_extras_h new hf sz index T bytes h =
     (if ht_num_leaves T = 0 then Some (Inr (bytes, T, h))
      else run_bind (compute_root_h new hf sz T h) (\<lambda>(T, h).
           run_bind (walk_to_h new hf sz index False extras_callback_h T [] h) (\<lambda>(_, T, extras, h).
           run_bind (serialise_nodes_h (rev extras) bytes h) (\<lambda>bytes. Some (Inr (bytes, T, h))))))"

definition tree_serialise_h ::
  "(nheap \<Rightarrow> addr) \<Rightarrow> (hash \<Rightarrow> hash \<Rightarrow> hash) \<Rightarrow> nat \<Rightarrow> htree \<Rightarrow> bytes \<Rightarrow> nheap \<Rightarrow>
   (bytes \<times> htree \<times> nheap) res option" where
  "tree_serialise_h new hf sz T bytes h =
     (let bytes = serialise_uint64_t (of_nat (length (ht_leaf_nodes T) + length (ht_uninserted T))) bytes;
          bytes = serialise_uint64_t (of_nat (ht_flushed T)) bytes
      in run_bind (serialise_nodes_h (map Some (ht_leaf_nodes T)) bytes h) (\<lambda>bytes.
         run_bind (serialise_nodes_h (map Some (ht_uninserted T)) bytes h) (\<lambda>bytes.
           serialise_extras_h new hf sz (ht_flushed T) T bytes h)))"

fun serialise_leaves_h :: "htree \<Rightarrow> nat list \<Rightarrow> bytes \<Rightarrow> nheap \<Rightarrow> bytes res option" where
  "serialise_leaves_h T [] bytes h = Some (Inr bytes)"
| "serialise_leaves_h T (i # is) bytes h =
     run_bind (tree_leaf_h T i h) (\<lambda>x. serialise_leaves_h T is (hash_serialise x bytes) h)"

definition tree_serialise_segment_h ::
  "(nheap \<Rightarrow> addr) \<Rightarrow> (hash \<Rightarrow> hash \<Rightarrow> hash) \<Rightarrow> nat \<Rightarrow> nat \<Rightarrow> nat \<Rightarrow> htree \<Rightarrow> bytes \<Rightarrow> nheap \<Rightarrow>
   (bytes \<times> htree \<times> nheap) res option" where
  "tree_serialise_segment_h new hf sz lo hi T bytes h =
     (if (lo < ht_flushed T \<or> ht_max_index T < lo) \<or> (hi < ht_flushed T \<or> ht_max_index T < hi) \<or> hi < lo
      then Some (Inl (Runtime_Error ''invalid leaf indices''))
      else let bytes = serialise_uint64_t (of_nat (hi - lo + 1)) bytes;
               bytes = serialise_uint64_t (of_nat lo) bytes
           in run_bind (serialise_leaves_h T [lo..<hi + 1] bytes h) (\<lambda>bytes.
                serialise_extras_h new hf sz lo T bytes h))"

definition tree_serialised_size_h ::
  "(nheap \<Rightarrow> addr) \<Rightarrow> (hash \<Rightarrow> hash \<Rightarrow> hash) \<Rightarrow> nat \<Rightarrow> htree \<Rightarrow> nheap \<Rightarrow> (nat \<times> htree \<times> nheap) res option" where
  "tree_serialised_size_h new hf sz T h =
     run_bind
       (if ht_num_leaves T = 0 then Some (Inr (0, T, h))
        else run_bind (walk_to_h new hf sz (ht_flushed T) False count_callback_h T 0 h)
          (\<lambda>(_, T, num_extras, h). Some (Inr (num_extras, T, h))))
       (\<lambda>(num_extras, T, h).
         Some (Inr (size_wrap (8 + 8 + length (ht_leaf_nodes T) * sz + num_extras * sz), T, h)))"

definition tree_serialised_size_segment_h ::
  "(nheap \<Rightarrow> addr) \<Rightarrow> (hash \<Rightarrow> hash \<Rightarrow> hash) \<Rightarrow> nat \<Rightarrow> nat \<Rightarrow> nat \<Rightarrow> htree \<Rightarrow> nheap \<Rightarrow>
   (nat \<times> htree \<times> nheap) res option" where
  "tree_serialised_size_segment_h new hf sz lo hi T h =
     run_bind (walk_to_h new hf sz lo False count_callback_h T 0 h) (\<lambda>(_, T, num_extras, h).
       Some (Inr (size_wrap (8 + 8 + (size_sub hi lo + 1) * sz + num_extras * sz), T, h)))"

section \<open>Pointers to nodes\<close>

definition nodes_hold :: "nheap \<Rightarrow> addr option list \<Rightarrow> node list \<Rightarrow> bool" where
  "nodes_hold h ps ns \<longleftrightarrow> list_all2 (\<lambda>p n. n \<noteq> Null \<and> (\<exists>F. holds h p n F)) ps ns"

lemma nodes_hold_snoc: "nodes_hold h ps ns \<Longrightarrow> holds h p n F \<Longrightarrow> n \<noteq> Null \<Longrightarrow> nodes_hold h (ps @ [p]) (ns @ [n])"
  by (auto simp: nodes_hold_def intro: list_all2_appendI)

lemma nodes_hold_rev: "nodes_hold h ps ns \<Longrightarrow> nodes_hold h (rev ps) (rev ns)"
  by (simp add: nodes_hold_def list_all2_rev)

lemma leaves_nodes_hold: "leaves_hold h as ns \<Longrightarrow> nodes_hold h (map Some as) ns"
  unfolding nodes_hold_def leaves_hold_def list_all2_map1
  by (erule list_all2_mono) (metis holds_Null_iff option.distinct(1))

lemma serialise_nodes_h_eq:
  "nodes_hold h ps ns \<Longrightarrow> serialise_nodes_h ps bytes h = Some (Inr (serialise_nodes ns bytes))"
proof (induction ps arbitrary: ns bytes)
  case Nil
  then show ?case by (simp add: nodes_hold_def serialise_nodes_def)
next
  case (Cons p ps)
  then obtain n ns' F where ns: "ns = n # ns'" "nodes_hold h ps ns'" "holds h p n F" "n \<noteq> Null"
    by (cases ns) (auto simp: nodes_hold_def)
  with Cons.IH [OF ns(2)] hash_at_holds [OF ns(3,4)] show ?case
    by (simp add: serialise_nodes_def)
qed

lemma serialise_leaves_h_eq:
  assumes "tree_holds h T t F G"
  shows "serialise_leaves_h T is bytes h = Some (serialise_leaves t is bytes)"
proof (induction "is" arbitrary: bytes)
  case (Cons i "is")
  then show ?case
    by (cases "tree_leaf t i") (simp_all add: tree_leaf_h_eq [OF assms])
qed simp

section \<open>The walks\<close>

interpretation extras_walk: walk_callback extras_callback_h "\<lambda>n g. n" "\<lambda>n g es. if g then es @ [nd_left n] else es"
    nodes_hold True
proof (rule reads_only)
  fix h a n pl pr Fl Fr g s x
  assume at: "inner_at h a n pl pr Fl Fr" and rel: "nodes_hold h s x"
  note d = inner_atD [OF at]
  have "nodes_hold h (s @ [pl]) (x @ [nd_left n])"
    by (rule nodes_hold_snoc [OF rel d(2,8)])
  with d(1) rel show "\<exists>s'. extras_callback_h a g s h = Some (Inr (True, s', h)) \<and>
      nodes_hold h s' (if g then x @ [nd_left n] else x)"
    by (simp add: extras_callback_h_def)
qed

interpretation count_walk: walk_callback count_callback_h "\<lambda>n g. n" "\<lambda>n g k. if g then k + 1 else k"
    "\<lambda>h s x. s = x" True
  by (rule reads_only) (simp add: count_callback_h_def)

lemma extras_callback_eq: "extras_callback = (\<lambda>n g es. (True, n, if g then es @ [nd_left n] else es))"
  by (simp add: fun_eq_iff extras_callback_def)

lemma count_callback_eq: "count_callback = (\<lambda>n g k. (True, n, if g then k + 1 else k))"
  by (simp add: fun_eq_iff count_callback_def)

lemma ht_empty_iff: "tree_holds h T t F G \<Longrightarrow> ht_num_leaves T = 0 \<longleftrightarrow> tree_is_empty t"
  by (simp add: tree_is_empty_def ht_num_leaves_eq)

lemma serialise_extras_h_agrees:
  assumes "fresh_addr new" and "finite (dom h)" and "tree_holds h T t F G" and "tree_inv hf t xs"
    and "xs \<noteq> [] \<Longrightarrow> num_flushed t \<le> i \<and> i < length xs"
  shows "heap_agrees h T F G (serialise_extras_h new hf sz i T bytes h) (serialise_extras hf sz i t bytes)"
proof (cases "xs = []")
  case True
  then have "tree_is_empty t"
    using tree_inv_num_leaves [OF assms(4)] by (simp add: tree_is_empty_def)
  with ht_empty_iff [OF assms(3)] owned_subset [OF assms(3)] assms(3) show ?thesis
    by (intro heap_agreesI [where T' = T and h' = h and F' = F and G' = G and x = bytes and t' = t])
      (simp_all add: serialise_extras_h_def serialise_extras_def)
next
  case False
  then have i: "num_flushed t \<le> i" "i < length xs" and ne: "\<not> tree_is_empty t"
    using assms(5) tree_inv_num_leaves [OF assms(4)] by (simp_all add: tree_is_empty_def)
  obtain T1 t1 h1 F1 where 1: "compute_root_h new hf sz T h = Some (Inr (T1, h1))" "compute_root hf sz t = Inr t1"
      "tree_holds h1 T1 t1 F1 {}" "ht_uninserted T1 = []" "completed hf t1 xs" "num_flushed t1 = num_flushed t"
      "heap_step h h1 (F \<union> G \<union> set (ht_uninserted T)) F1"
    using compute_root_h_holds [OF assms(1-4) False] by blast
  have fin: "finite (dom h1)"
    using heap_step_finite [OF 1(7) assms(2)] .
  have nil: "nodes_hold h'' [] []" for h''
    by (simp add: nodes_hold_def)
  have i1: "num_flushed t1 \<le> i"
    using i(1) 1(6) by simp
  obtain b T' t2 r y h' F' where 2: "walk_to_h new hf sz i False extras_callback_h T1 [] h1 = Some (Inr (b, T', r, h'))"
      "walk_to hf sz i False extras_callback t1 [] =
        Inr (leaf_at (root_node t2) i, t2\<lparr>root_node := rebuild (\<lambda>n g. n) (root_node t2) i\<rparr>, y)"
      "nodes_hold h' r y" "walked h1 h' T' t2 (rebuild (\<lambda>n g. n) (root_node t2) i) i (ht_owned T1 F1 {}) F'"
      "tree_holds h' T' t2 F' {}"
    using extras_walk.to_leaf [OF assms(1) fin 1(3) completed_tree_inv [OF 1(5)] i1 i(2) nil]
    unfolding extras_callback_eq by blast
  have own: "ht_owned T1 F1 {} = F1" "ht_owned T F G \<subseteq> dom h"
    using 1(4) owned_subset [OF assms(3)] by (auto simp: ht_owned_def)
  have "framed h h1 (ht_owned T F G) F1"
    using heap_step_framed [OF 1(7)] own(2) by (simp add: ht_owned_def)
  then have "framed h h' (ht_owned T F G) F'"
    using framed_trans walkedD(2) [OF 2(4)] unfolding own by blast
  moreover have "serialise_extras_h new hf sz i T bytes h = Some (Inr (serialise_nodes (rev y) bytes, T', h'))"
    using ne ht_empty_iff [OF assms(3)] 1(1) 2(1) serialise_nodes_h_eq [OF nodes_hold_rev [OF 2(3)]]
    by (simp add: serialise_extras_h_def)
  moreover have "serialise_extras hf sz i t bytes = Inr (serialise_nodes (rev y) bytes, t2)"
    using ne 1(2) 2(2) by (simp add: serialise_extras_def rebuild_id)
  ultimately show ?thesis
    using 2(5) walkedD(4) [OF 2(4)] by (intro heap_agrees_cleared)
qed

lemma tree_inv_flushed_less: "tree_inv hf t xs \<Longrightarrow> xs \<noteq> [] \<Longrightarrow> num_flushed t < length xs"
  using tree_inv_flushed by fastforce

lemma tree_serialise_h_agrees:
  assumes "fresh_addr new" and "finite (dom h)" and "tree_holds h T t F G" and "tree_inv hf t xs"
  shows "heap_agrees h T F G (tree_serialise_h new hf sz T bytes h) (tree_serialise hf sz t bytes)"
proof -
  note td = tree_holdsD [OF assms(3)] and id = inner_holdsD [OF tree_holdsD(1) [OF assms(3)]]
  have "tree_serialise_h new hf sz T bytes h = serialise_extras_h new hf sz (num_flushed t) T
      (serialise_nodes (uninserted_leaf_nodes t) (serialise_nodes (leaf_nodes t)
        (serialise_uint64_t (of_nat (num_flushed t)) (serialise_uint64_t
          (of_nat (length (leaf_nodes t) + length (uninserted_leaf_nodes t))) bytes)))) h"
    using serialise_nodes_h_eq [OF leaves_nodes_hold [OF id(4)]] serialise_nodes_h_eq [OF leaves_nodes_hold [OF td(2)]]
      leaves_hold_length [OF id(4)] leaves_hold_length [OF td(2)] id(6)
    by (simp add: tree_serialise_h_def Let_def)
  moreover have "tree_serialise hf sz t bytes = serialise_extras hf sz (num_flushed t) t
      (serialise_nodes (uninserted_leaf_nodes t) (serialise_nodes (leaf_nodes t)
        (serialise_uint64_t (of_nat (num_flushed t)) (serialise_uint64_t
          (of_nat (length (leaf_nodes t) + length (uninserted_leaf_nodes t))) bytes))))"
    by (simp add: tree_serialise_def min_index_def Let_def)
  ultimately show ?thesis
    using serialise_extras_h_agrees [OF assms, of "num_flushed t"] tree_inv_flushed_less [OF assms(4)] by simp
qed

lemma tree_serialise_segment_h_agrees:
  assumes "fresh_addr new" and "finite (dom h)" and "tree_holds h T t F G" and "tree_inv hf t xs"
  shows "heap_agrees h T F G (tree_serialise_segment_h new hf sz lo hi T bytes h)
    (tree_serialise_segment hf sz lo hi t bytes)"
proof -
  have st: "ht_flushed T = num_flushed t" "ht_max_index T = max_index t" "max_index t = length xs - 1"
    using inner_holdsD(6) [OF tree_holdsD(1) [OF assms(3)]] ht_max_index_eq [OF assms(3)] tree_inv_max_index [OF assms(4)]
    by simp_all
  let ?bad = "(lo < num_flushed t \<or> max_index t < lo) \<or> (hi < num_flushed t \<or> max_index t < hi) \<or> hi < lo"
  show ?thesis
  proof (cases ?bad)
    case True
    with st show ?thesis
      by (simp add: tree_serialise_segment_h_def tree_serialise_segment_def min_index_def)
  next
    case False
    let ?b = "serialise_uint64_t (of_nat lo) (serialise_uint64_t (of_nat (hi - lo + 1)) bytes)"
    have c: "tree_serialise_segment_h new hf sz lo hi T bytes h =
        run_bind (Some (serialise_leaves t [lo..<hi + 1] ?b)) (\<lambda>bytes. serialise_extras_h new hf sz lo T bytes h)"
      using False st serialise_leaves_h_eq [OF assms(3)] by (simp add: tree_serialise_segment_h_def Let_def)
    have v: "tree_serialise_segment hf sz lo hi t bytes =
        res_bind (serialise_leaves t [lo..<hi + 1] ?b) (serialise_extras hf sz lo t)"
      using False by (simp add: tree_serialise_segment_def min_index_def Let_def)
    have "xs \<noteq> [] \<Longrightarrow> num_flushed t \<le> lo \<and> lo < length xs"
      using False st(3) by (cases xs) auto
    from serialise_extras_h_agrees [OF assms this] show ?thesis
      unfolding c v by (cases "serialise_leaves t [lo..<hi + 1] ?b") simp_all
  qed
qed

lemma count_walk_agrees:
  assumes "fresh_addr new" and "finite (dom h)" and "tree_holds h T t F G" and "tree_inv hf t xs"
  shows "(\<exists>e. walk_to_h new hf sz i False count_callback_h T 0 h = Some (Inl e) \<and>
      walk_to hf sz i False count_callback t 0 = Inl e) \<or>
    (\<exists>b n T' t' k h' F'. walk_to_h new hf sz i False count_callback_h T 0 h = Some (Inr (b, T', k, h')) \<and>
      walk_to hf sz i False count_callback t 0 = Inr (n, t', k) \<and> tree_holds h' T' t' F' {} \<and>
      ht_uninserted T' = [] \<and> framed h h' (ht_owned T F G) F')"
proof (cases "num_flushed t \<le> i \<and> i < length xs")
  case True
  obtain b T' t' k y h' F' where w: "walk_to_h new hf sz i False count_callback_h T 0 h = Some (Inr (b, T', k, h'))"
      "walk_to hf sz i False count_callback t 0 =
        Inr (leaf_at (root_node t') i, t'\<lparr>root_node := rebuild (\<lambda>n g. n) (root_node t') i\<rparr>, y)" "k = y"
      "walked h h' T' t' (rebuild (\<lambda>n g. n) (root_node t') i) i (ht_owned T F G) F'" "tree_holds h' T' t' F' {}"
    using count_walk.to_leaf [OF assms, of i 0 0] True unfolding count_callback_eq by blast
  then show ?thesis
    using walkedD(2,4) [OF w(4)] by (auto simp: rebuild_id)
next
  case False
  from walk_to_h_fails [OF assms this, of sz False count_callback_h 0 count_callback 0] show ?thesis
    by (rule disjI1)
qed

lemma tree_serialised_size_h_agrees:
  assumes "fresh_addr new" and "finite (dom h)" and "tree_holds h T t F G" and "tree_inv hf t xs"
  shows "heap_agrees h T F G (tree_serialised_size_h new hf sz T h) (tree_serialised_size hf sz t)"
proof (cases "tree_is_empty t")
  case True
  with ht_empty_iff [OF assms(3)] owned_subset [OF assms(3)] assms(3)
    leaves_hold_length [OF inner_holdsD(4) [OF tree_holdsD(1) [OF assms(3)]]] show ?thesis
    by (intro heap_agreesI [where T' = T and h' = h and F' = F and G' = G and t' = t])
      (simp_all add: tree_serialised_size_h_def tree_serialised_size_def)
next
  case False
  note c = count_walk_agrees [OF assms, of sz "num_flushed t"]
  have st: "ht_num_leaves T \<noteq> 0" "ht_flushed T = num_flushed t"
    using ht_empty_iff [OF assms(3)] False inner_holdsD(6) [OF tree_holdsD(1) [OF assms(3)]] by simp_all
  from c show ?thesis
  proof (elim disjE exE conjE)
    fix e
    assume "walk_to_h new hf sz (num_flushed t) False count_callback_h T 0 h = Some (Inl e)"
      "walk_to hf sz (num_flushed t) False count_callback t 0 = Inl e"
    with False st show ?thesis
      by (simp add: tree_serialised_size_h_def tree_serialised_size_def min_index_def)
  next
    fix b n T' t' k h' F'
    assume w: "walk_to_h new hf sz (num_flushed t) False count_callback_h T 0 h = Some (Inr (b, T', k, h'))"
      "walk_to hf sz (num_flushed t) False count_callback t 0 = Inr (n, t', k)" "tree_holds h' T' t' F' {}"
      "ht_uninserted T' = []" "framed h h' (ht_owned T F G) F'"
    have "length (ht_leaf_nodes T') = length (leaf_nodes t')"
      using leaves_hold_length [OF inner_holdsD(4) [OF tree_holdsD(1) [OF w(3)]]] .
    with w False st show ?thesis
      by (intro heap_agrees_cleared [OF _ _ w(3-5)])
        (simp_all add: tree_serialised_size_h_def tree_serialised_size_def min_index_def)
  qed
qed

lemma tree_serialised_size_segment_h_agrees:
  assumes "fresh_addr new" and "finite (dom h)" and "tree_holds h T t F G" and "tree_inv hf t xs"
  shows "heap_agrees h T F G (tree_serialised_size_segment_h new hf sz lo hi T h)
    (tree_serialised_size_segment hf sz lo hi t)"
  using count_walk_agrees [OF assms, of sz lo]
proof (elim disjE exE conjE)
  fix e
  assume "walk_to_h new hf sz lo False count_callback_h T 0 h = Some (Inl e)"
    "walk_to hf sz lo False count_callback t 0 = Inl e"
  then show ?thesis
    by (simp add: tree_serialised_size_segment_h_def tree_serialised_size_segment_def)
next
  fix b n T' t' k h' F'
  assume w: "walk_to_h new hf sz lo False count_callback_h T 0 h = Some (Inr (b, T', k, h'))"
    "walk_to hf sz lo False count_callback t 0 = Inr (n, t', k)" "tree_holds h' T' t' F' {}"
    "ht_uninserted T' = []" "framed h h' (ht_owned T F G) F'"
  then show ?thesis
    by (intro heap_agrees_cleared [OF _ _ w(3-5)])
      (simp_all add: tree_serialised_size_segment_h_def tree_serialised_size_segment_def)
qed

end
