(* ===== verification/Merkle_Heap_Past.thy ===== *)
theory Merkle_Heap_Past
  imports Merkle_Heap_Ops Merkle_Past_Path
begin

text \<open>
  Paths at a past state over nodes with addresses (\<open>TreeT::past_path\<close> of \<open>include/merklecpp.h\<close>):
  two pointers walk down from the root, and the code tells whether they still walk together by
  comparing them.
\<close>

section \<open>The code\<close>

record past_walk_h =
  hp_root_to_fork :: "element list"
  hp_fork_to_index :: "element list"
  hp_fork_to_as_of :: "element list"
  hp_fork_node :: "addr option"
  hp_cur_i :: "addr option"
  hp_cur_a :: "addr option"

definition deref_pointer :: "addr option \<Rightarrow> nheap \<Rightarrow> cell res option" where
  "deref_pointer p h = (case p of None \<Rightarrow> Some (Inl Undefined_Read) | Some a \<Rightarrow> deref a h)"

definition invariant_at :: "addr option \<Rightarrow> nheap \<Rightarrow> bool res option" where
  "invariant_at p h = (case p of None \<Rightarrow> Some (Inl Undefined_Read) | Some a \<Rightarrow> node_invariant_h a h)"

definition child_pointer :: "bool \<Rightarrow> cell \<Rightarrow> addr option" where
  "child_pointer go_right c = (if go_right then cl_right c else cl_left c)"

definition past_fork_h :: "bool \<Rightarrow> bool \<Rightarrow> past_walk_h \<Rightarrow> past_walk_h res option" where
  "past_fork_h go_right_i go_right_a w =
     (if hp_fork_node w = None \<and> go_right_i \<noteq> go_right_a
      then if hp_cur_i w \<noteq> hp_cur_a w then Some (Inl Assertion_Failed)
           else if \<not> (\<not> go_right_i \<and> go_right_a) then Some (Inl Assertion_Failed)
           else Some (Inr (w\<lparr>hp_fork_node := hp_cur_i w\<rparr>))
      else Some (Inr w))"

text \<open>An element where the walk goes right.\<close>

definition left_element_h :: "cell \<Rightarrow> bool \<Rightarrow> nheap \<Rightarrow> element list res option" where
  "left_element_h c go_right h =
     (if go_right then run_bind (child_element_h c go_right h) (\<lambda>e. Some (Inr [e])) else Some (Inr []))"

definition past_together_h :: "nat \<Rightarrow> bool \<Rightarrow> past_walk_h \<Rightarrow> nheap \<Rightarrow> past_walk_h res option" where
  "past_together_h height go_right_i w h =
     (if hp_cur_i w \<noteq> hp_cur_a w then Some (Inl Assertion_Failed)
      else run_bind (deref_pointer (hp_cur_i w) h) (\<lambda>c.
        if cl_height c = height
        then run_bind (left_element_h c go_right_i h) (\<lambda>es.
               Some (Inr (w\<lparr>hp_root_to_fork := hp_root_to_fork w @ es,
                 hp_cur_i := child_pointer go_right_i c, hp_cur_a := child_pointer go_right_i c\<rparr>)))
        else Some (Inr w)))"

definition past_apart_h :: "nat \<Rightarrow> bool \<Rightarrow> bool \<Rightarrow> past_walk_h \<Rightarrow> nheap \<Rightarrow> past_walk_h res option" where
  "past_apart_h height go_right_i go_right_a w h =
     run_bind (deref_pointer (hp_cur_i w) h) (\<lambda>c.
     run_bind
       (if cl_height c = height
        then run_bind (child_element_h c go_right_i h) (\<lambda>e.
               Some (Inr (w\<lparr>hp_fork_to_index := hp_fork_to_index w @ [e], hp_cur_i := child_pointer go_right_i c\<rparr>)))
        else Some (Inr w)) (\<lambda>w.
     run_bind (deref_pointer (hp_cur_a w) h) (\<lambda>c.
       if cl_height c = height
       then run_bind (left_element_h c go_right_a h) (\<lambda>es.
              Some (Inr (w\<lparr>hp_fork_to_as_of := hp_fork_to_as_of w @ es, hp_cur_a := child_pointer go_right_a c\<rparr>)))
       else Some (Inr w))))"

fun past_path_loop_h :: "nat \<Rightarrow> u64 \<Rightarrow> u64 \<Rightarrow> past_walk_h \<Rightarrow> nheap \<Rightarrow> past_walk_h res option" where
  "past_path_loop_h 0 it_i it_a w h = Some (Inr w)"
| "past_path_loop_h (Suc height) it_i it_a w h =
     (if height = 0 then Some (Inr w)
      else run_bind (invariant_at (hp_cur_i w) h) (\<lambda>ok_i.
           run_bind (run_assert ok_i) (\<lambda>_.
           run_bind (invariant_at (hp_cur_a w) h) (\<lambda>ok_a.
           run_bind (run_assert ok_a) (\<lambda>_.
           let go_right_i = bit it_i 63; go_right_a = bit it_a 63
           in run_bind (past_fork_h go_right_i go_right_a w) (\<lambda>w.
              run_bind (if hp_fork_node w = None then past_together_h (Suc height) go_right_i w h
                        else past_apart_h (Suc height) go_right_i go_right_a w h)
                (\<lambda>w. past_path_loop_h height (push_bit 1 it_i) (push_bit 1 it_a) w h)))))))"

definition past_elements_h ::
  "(hash \<Rightarrow> hash \<Rightarrow> hash) \<Rightarrow> past_walk_h \<Rightarrow> nheap \<Rightarrow> element list res option" where
  "past_elements_h hf w h =
     run_bind
       (if hp_fork_node w = None then Some (Inr [])
        else run_bind (hash_at (hp_cur_a w) h) (\<lambda>as_of_hash.
          Some (Inr [\<lparr>e_hash = foldl (\<lambda>as_of_hash e. hf (e_hash e) as_of_hash) as_of_hash
                  (rev (drop 1 (hp_fork_to_as_of w))), e_direction = PATH_RIGHT\<rparr>])))
       (\<lambda>es. Some (Inr (rev (drop 1 (hp_fork_to_index w)) @ es @ rev (hp_root_to_fork w))))"

definition past_path_h ::
  "(nheap \<Rightarrow> addr) \<Rightarrow> (hash \<Rightarrow> hash \<Rightarrow> hash) \<Rightarrow> nat \<Rightarrow> nat \<Rightarrow> nat \<Rightarrow> htree \<Rightarrow> nheap \<Rightarrow>
   (path \<times> htree \<times> nheap) res option" where
  "past_path_h new hf sz index as_of T h =
     (let T = T\<lparr>ht_stats := (ht_stats T)\<lparr>num_past_paths := num_past_paths (ht_stats T) + 1\<rparr>\<rparr>
      in if (index < ht_flushed T \<or> ht_max_index T < index) \<or>
           (as_of < ht_flushed T \<or> ht_max_index T < as_of) \<or> as_of < index
         then Some (Inl (Runtime_Error ''invalid leaf indices''))
         else run_bind (compute_root_h new hf sz T h) (\<lambda>(T, h).
           run_bind (deref_pointer (ht_root T) h) (\<lambda>c.
           run_bind (run_assert (index < cl_size c \<and> as_of < cl_size c)) (\<lambda>_.
           run_bind (past_path_loop_h (cl_height c) (walk_bits (cl_height c) index) (walk_bits (cl_height c) as_of)
               \<lparr>hp_root_to_fork = [], hp_fork_to_index = [], hp_fork_to_as_of = [], hp_fork_node = None,
                hp_cur_i = ht_root T, hp_cur_a = ht_root T\<rparr> h) (\<lambda>w.
           run_bind (past_elements_h hf w h) (\<lambda>elements.
           run_bind (tree_leaf_h T index h) (\<lambda>x.
             Some (Inr (path_make x index elements as_of, T, h)))))))))"

section \<open>Agreement\<close>

definition past_holds :: "nheap \<Rightarrow> past_walk_h \<Rightarrow> past_walk \<Rightarrow> bool" where
  "past_holds h W w \<longleftrightarrow> hp_root_to_fork W = root_to_fork w \<and> hp_fork_to_index W = fork_to_index w \<and>
     hp_fork_to_as_of W = fork_to_as_of w \<and> (hp_fork_node W \<noteq> None \<longleftrightarrow> fork_node w) \<and>
     (\<exists>F. holds h (hp_cur_i W) (cur_i w) F) \<and> (\<exists>F. holds h (hp_cur_a W) (cur_a w) F) \<and>
     (\<not> fork_node w \<longrightarrow> hp_cur_i W = hp_cur_a W) \<and> cur_a w \<noteq> Null"

definition past_agrees :: "nheap \<Rightarrow> past_walk_h res option \<Rightarrow> past_walk res \<Rightarrow> bool" where
  "past_agrees h c v \<longleftrightarrow>
     (case v of Inl e \<Rightarrow> c = Some (Inl e) | Inr w \<Rightarrow> \<exists>W. c = Some (Inr W) \<and> past_holds h W w)"

lemma past_agrees_simps [simp]:
  "past_agrees h c (Inl e) \<longleftrightarrow> c = Some (Inl e)"
  "past_agrees h c (Inr w) \<longleftrightarrow> (\<exists>W. c = Some (Inr W) \<and> past_holds h W w)"
  by (simp_all add: past_agrees_def)

lemma past_agrees_bind:
  assumes "past_agrees h c v" and "\<And>W w. v = Inr w \<Longrightarrow> past_holds h W w \<Longrightarrow> past_agrees h (k W) (m w)"
  shows "past_agrees h (run_bind c k) (res_bind v m)"
  using assms by (cases v) auto

lemma past_same:
  assumes "past_holds h W w" and "\<not> fork_node w"
  shows "cur_a w = cur_i w" and "hp_cur_a W = hp_cur_i W" and "hp_fork_node W = None"
proof -
  show eq: "hp_cur_a W = hp_cur_i W" and "hp_fork_node W = None"
    using assms by (simp_all add: past_holds_def)
  obtain F G where "holds h (hp_cur_i W) (cur_i w) F" "holds h (hp_cur_i W) (cur_a w) G"
    using assms(1) eq by (auto simp: past_holds_def)
  then show "cur_a w = cur_i w"
    using holds_inj by blast
qed

lemma past_fork_h_agrees:
  assumes "past_holds h W w" and "cur_i w \<noteq> Null"
  shows "past_agrees h (past_fork_h gi ga W) (past_fork gi ga w)"
proof (cases "\<not> fork_node w \<and> gi \<noteq> ga")
  case True
  then have nf: "\<not> fork_node w"
    by blast
  note s = past_same [OF assms(1) nf]
  have "hp_cur_i W \<noteq> None"
    using assms by (auto simp: past_holds_def dest: holds_Null_iff)
  with True s assms(1) show ?thesis
    by (auto simp: past_fork_h_def past_fork_def past_holds_def)
next
  case False
  with assms(1) show ?thesis
    by (auto simp: past_fork_h_def past_fork_def past_holds_def)
qed

text \<open>One pointer takes a step.\<close>

lemma at_leaf_pointer:
  assumes "at_leaf (Suc height) k i n" and "1 \<le> height" and "Suc height \<le> 64" and "holds h p n F"
  shows "\<exists>c. deref_pointer p h = Some (Inr c) \<and> invariant_at p h = Some (Inr True) \<and> cl_height c = nd_height n \<and>
    (nd_height n = Suc height \<longrightarrow> child_element_h c g h = Some (Inr (path_element n g)) \<and>
      (\<exists>F'. holds h (child_pointer g c) (child g n) F') \<and> child g n \<noteq> Null)"
proof -
  have w: "wf_node n" "nleaves n \<le> max_leaves" "n \<noteq> Null"
    using assms(1) by (auto simp: at_leaf_def)
  obtain a where a: "p = Some a"
    using holds_Null_iff [OF assms(4)] w(3) by auto
  show ?thesis
  proof (rule holds_SomeE [OF assms(4) [unfolded a]])
    fix pl pr Fl Fr
    assume c: "h a = Some (cell_of n pl pr)" "holds h pl (nd_left n) Fl" "holds h pr (nd_right n) Fr"
    have inner: "nd_left n \<noteq> Null" if height: "nd_height n = Suc height"
    proof -
      obtain x l r s d where n: "n = Node x l r s (Suc height) d"
        using height w(3) by (cases n) auto
      with at_leaf_inner(1) [OF assms(1-3) n] w(1) show ?thesis
        by auto
    qed
    have "node_invariant_h a h = Some (Inr True)"
      using holds_wf_invariant [OF assms(4) [unfolded a] w(1,2)] .
    moreover have "child_element_h (cell_of n pl pr) g h = Some (Inr (path_element n g))"
      if "nd_height n = Suc height"
      using child_element_h_eq [OF c(2,3) w(1) inner [OF that]] .
    moreover have "\<exists>F'. holds h (child_pointer g (cell_of n pl pr)) (child g n) F'"
      using c(2,3) by (auto simp: child_pointer_def child_def)
    moreover have "child g n \<noteq> Null" if "nd_height n = Suc height"
      using inner [OF that] inner_right [OF w(1)] by (simp add: child_def)
    ultimately show ?thesis
      using c(1) a by (simp add: deref_pointer_def invariant_at_def)
  qed
qed

lemma left_element_h_eq:
  "child_element_h c g h = Some (Inr e) \<Longrightarrow> left_element_h c g h = Some (Inr (if g then [e] else []))"
  by (cases g) (simp_all add: left_element_h_def)

lemma past_together_h_agrees:
  assumes "past_holds h W w" and "\<not> fork_node w" and "at_leaf (Suc height) k i (cur_i w)" and "1 \<le> height"
    and "Suc height \<le> 64"
  shows "past_agrees h (past_together_h (Suc height) g W h) (past_together (Suc height) g w)"
proof -
  note s = past_same [OF assms(1,2)]
  obtain F where F: "holds h (hp_cur_i W) (cur_i w) F"
    using assms(1) by (auto simp: past_holds_def)
  obtain c where c: "deref_pointer (hp_cur_i W) h = Some (Inr c)" "cl_height c = nd_height (cur_i w)"
      "nd_height (cur_i w) = Suc height \<longrightarrow> child_element_h c g h = Some (Inr (path_element (cur_i w) g)) \<and>
        (\<exists>F'. holds h (child_pointer g c) (child g (cur_i w)) F') \<and> child g (cur_i w) \<noteq> Null"
    using at_leaf_pointer [OF assms(3-5) F] by blast
  show ?thesis
  proof (cases "nd_height (cur_i w) = Suc height")
    case False
    with c(1,2) s assms(1) show ?thesis
      by (simp add: past_together_h_def past_together_def)
  next
    case True
    with c s assms(1,2) show ?thesis
      by (auto simp: past_together_h_def past_together_def left_element_h_eq past_holds_def Let_def)
  qed
qed

lemma past_apart_h_agrees:
  assumes "past_holds h W w" and "fork_node w" and "at_leaf (Suc height) k i (cur_i w)"
    and "at_leaf (Suc height) k' a (cur_a w)" and "1 \<le> height" and "Suc height \<le> 64"
  shows "past_agrees h (past_apart_h (Suc height) gi ga W h) (Inr (past_apart (Suc height) gi ga w))"
proof -
  obtain F G where F: "holds h (hp_cur_i W) (cur_i w) F" and G: "holds h (hp_cur_a W) (cur_a w) G"
    using assms(1) by (auto simp: past_holds_def)
  obtain c where c: "deref_pointer (hp_cur_i W) h = Some (Inr c)" "cl_height c = nd_height (cur_i w)"
      "nd_height (cur_i w) = Suc height \<longrightarrow> child_element_h c gi h = Some (Inr (path_element (cur_i w) gi)) \<and>
        (\<exists>F'. holds h (child_pointer gi c) (child gi (cur_i w)) F') \<and> child gi (cur_i w) \<noteq> Null"
    using at_leaf_pointer [OF assms(3,5,6) F] by blast
  obtain d where d: "deref_pointer (hp_cur_a W) h = Some (Inr d)" "cl_height d = nd_height (cur_a w)"
      "nd_height (cur_a w) = Suc height \<longrightarrow> child_element_h d ga h = Some (Inr (path_element (cur_a w) ga)) \<and>
        (\<exists>F'. holds h (child_pointer ga d) (child ga (cur_a w)) F') \<and> child ga (cur_a w) \<noteq> Null"
    using at_leaf_pointer [OF assms(4-6) G] by blast
  show ?thesis
    using c d assms(1,2)
    by (cases "nd_height (cur_i w) = Suc height"; cases "nd_height (cur_a w) = Suc height")
      (auto simp: past_apart_h_def past_apart_def left_element_h_eq past_holds_def Let_def)
qed

lemma past_path_loop_h_agrees:
  "height \<le> 64 \<Longrightarrow> past_holds h W w \<Longrightarrow> at_leaf height k i (cur_i w) \<Longrightarrow> at_leaf height k' a (cur_a w) \<Longrightarrow>
   past_agrees h (past_path_loop_h height (index_bits height i) (index_bits height a) W h)
     (past_path_loop height (index_bits height i) (index_bits height a) w)"
proof (induction height arbitrary: W w k i k' a)
  case 0
  then show ?case by simp
next
  case (Suc height)
  show ?case
  proof (cases "height = 0")
    case True
    with Suc.prems(2) show ?thesis by simp
  next
    case False
    then have h: "1 \<le> height"
      by simp
    let ?gi = "bit (index_bits (Suc height) i) 63" and ?ga = "bit (index_bits (Suc height) a) 63"
    obtain F G where F: "holds h (hp_cur_i W) (cur_i w) F" and G: "holds h (hp_cur_a W) (cur_a w) G"
      using Suc.prems(2) by (auto simp: past_holds_def)
    have inv: "invariant_at (hp_cur_i W) h = Some (Inr True)" "invariant_at (hp_cur_a W) h = Some (Inr True)"
      using at_leaf_pointer [OF Suc.prems(3) h Suc.prems(1) F] at_leaf_pointer [OF Suc.prems(4) h Suc.prems(1) G]
      by blast+
    obtain k1 i1 where i1: "at_leaf height k1 i1 (if nd_height (cur_i w) = Suc height then child ?gi (cur_i w) else cur_i w)"
        "push_bit 1 (index_bits (Suc height) i) = index_bits height i1"
      using at_leaf_step [OF Suc.prems(3) h Suc.prems(1) refl] by blast
    obtain k2 a1 where a1: "at_leaf height k2 a1 (if nd_height (cur_a w) = Suc height then child ?ga (cur_a w) else cur_a w)"
        "push_bit 1 (index_bits (Suc height) a) = index_bits height a1"
      using at_leaf_step [OF Suc.prems(4) h Suc.prems(1) refl] by blast
    let ?c = "run_bind (past_fork_h ?gi ?ga W) (\<lambda>W.
        run_bind (if hp_fork_node W = None then past_together_h (Suc height) ?gi W h
                  else past_apart_h (Suc height) ?gi ?ga W h)
          (\<lambda>W. past_path_loop_h height (index_bits height i1) (index_bits height a1) W h))"
    let ?v = "res_bind (past_fork ?gi ?ga w) (\<lambda>w.
        res_bind (if \<not> fork_node w then past_together (Suc height) ?gi w
                  else Inr (past_apart (Suc height) ?gi ?ga w))
          (past_path_loop height (index_bits height i1) (index_bits height a1)))"
    have nn: "cur_i w \<noteq> Null \<and> node_invariant (cur_i w)" "cur_a w \<noteq> Null \<and> node_invariant (cur_a w)"
      using at_leaf_inv Suc.prems(3,4) by blast+
    have run: "past_path_loop_h (Suc height) (index_bits (Suc height) i) (index_bits (Suc height) a) W h = ?c"
        "past_path_loop (Suc height) (index_bits (Suc height) i) (index_bits (Suc height) a) w = ?v"
      unfolding past_path_loop_h.simps past_path_loop.simps i1(2) a1(2) Let_def
      using False inv nn by simp_all
    have "past_agrees h ?c ?v"
    proof (rule past_agrees_bind [OF past_fork_h_agrees [OF Suc.prems(2)]])
      show "cur_i w \<noteq> Null"
        using nn by blast
      fix W1 w1
      assume fork: "past_fork ?gi ?ga w = Inr w1" and hold: "past_holds h W1 w1"
      have cur: "cur_i w1 = cur_i w" "cur_a w1 = cur_a w" "\<not> fork_node w1 \<longrightarrow> ?gi = ?ga"
        using fork by (auto simp: past_fork_def split: if_splits)
      note at = Suc.prems(3,4) [folded cur(1,2)]
      have fn: "hp_fork_node W1 = None \<longleftrightarrow> \<not> fork_node w1"
        using hold by (auto simp: past_holds_def)
      show "past_agrees h (run_bind (if hp_fork_node W1 = None then past_together_h (Suc height) ?gi W1 h
                  else past_apart_h (Suc height) ?gi ?ga W1 h)
          (\<lambda>W. past_path_loop_h height (index_bits height i1) (index_bits height a1) W h))
        (res_bind (if \<not> fork_node w1 then past_together (Suc height) ?gi w1
                  else Inr (past_apart (Suc height) ?gi ?ga w1))
          (past_path_loop height (index_bits height i1) (index_bits height a1)))"
      proof (cases "fork_node w1")
        case True
        have "past_agrees h (past_apart_h (Suc height) ?gi ?ga W1 h) (Inr (past_apart (Suc height) ?gi ?ga w1))"
          using past_apart_h_agrees [OF hold True at h Suc.prems(1)] .
        moreover have "at_leaf height k1 i1 (cur_i (past_apart (Suc height) ?gi ?ga w1))"
            "at_leaf height k2 a1 (cur_a (past_apart (Suc height) ?gi ?ga w1))"
          unfolding past_apart_sel cur using i1(1) a1(1) by blast+
        ultimately show ?thesis
          using True fn Suc.IH Suc.prems(1)
          by (simp only: if_False if_True not_True_eq_False)
            (rule past_agrees_bind, assumption, auto)
      next
        case False
        note s = past_same [OF hold False]
        have tog: "past_agrees h (past_together_h (Suc height) ?gi W1 h) (past_together (Suc height) ?gi w1)"
          using past_together_h_agrees [OF hold False at(1) h Suc.prems(1)] .
        have "past_agrees h (run_bind (past_together_h (Suc height) ?gi W1 h)
            (\<lambda>W. past_path_loop_h height (index_bits height i1) (index_bits height a1) W h))
          (res_bind (past_together (Suc height) ?gi w1)
            (past_path_loop height (index_bits height i1) (index_bits height a1)))"
        proof (rule past_agrees_bind [OF tog])
          fix W2 w2
          assume "past_together (Suc height) ?gi w1 = Inr w2" and "past_holds h W2 w2"
          moreover from this have "cur_i w2 = (if nd_height (cur_i w) = Suc height then child ?gi (cur_i w) else cur_i w)"
              "cur_a w2 = (if nd_height (cur_a w) = Suc height then child ?ga (cur_a w) else cur_a w)"
            using s(1) cur False by (auto simp: past_together_def Let_def split: if_splits)
          ultimately show "past_agrees h (past_path_loop_h height (index_bits height i1) (index_bits height a1) W2 h)
              (past_path_loop height (index_bits height i1) (index_bits height a1) w2)"
            using Suc.IH Suc.prems(1) i1(1) a1(1) by simp
        qed
        with False fn show ?thesis
          by simp
      qed
    qed
    then show ?thesis
      unfolding run .
  qed
qed

lemma past_elements_h_eq:
  assumes "past_holds h W w"
  shows "past_elements_h hf W h = Some (Inr (past_elements hf w))"
proof -
  obtain F where F: "holds h (hp_cur_a W) (cur_a w) F" "cur_a w \<noteq> Null"
    using assms by (auto simp: past_holds_def)
  show ?thesis
    using assms hash_at_holds [OF F] by (auto simp: past_elements_h_def past_elements_def past_holds_def)
qed

lemma past_path_h_agrees:
  assumes "fresh_addr new" and "finite (dom h)" and "tree_holds h T t F G" and "tree_inv hf t xs"
  shows "heap_agrees h T F G (past_path_h new hf sz i a T h) (past_path hf sz i a t)"
proof -
  let ?s = "(stats t)\<lparr>num_past_paths := num_past_paths (stats t) + 1\<rparr>"
  let ?T = "T\<lparr>ht_stats := ?s\<rparr>" and ?t = "t\<lparr>stats := ?s\<rparr>"
  have st: "ht_flushed T = num_flushed t" "ht_max_index T = max_index t" "max_index t = length xs - 1" "ht_stats T = stats t"
    using inner_holdsD(6) [OF tree_holdsD(1) [OF assms(3)]] ht_max_index_eq [OF assms(3)] tree_inv_max_index [OF assms(4)]
      ht_stats_eq [OF assms(3)] by simp_all
  note hold = tree_holds_stats [OF assms(3), of ?s]
  have inv: "tree_inv hf ?t xs"
    using assms(4) by simp
  let ?bad = "(i < num_flushed t \<or> max_index t < i) \<or> (a < num_flushed t \<or> max_index t < a) \<or> a < i"
  consider (bad) ?bad | (empty) "\<not> ?bad" "xs = []" | (ok) "\<not> ?bad" "xs \<noteq> []"
    by blast
  then show ?thesis
  proof cases
    case bad
    with st show ?thesis
      by (simp add: past_path_h_def past_path_def min_index_def Let_def)
  next
    case empty
    then have "tree_inv hf ?t []"
      using inv by simp
    with compute_root_h_empty [OF assms(1,2) hold this] compute_root_empty [OF this] empty(1) st show ?thesis
      by (simp add: past_path_h_def past_path_def min_index_def Let_def)
  next
    case ok
    then have i: "num_flushed ?t \<le> i" "i < length xs" "a < length xs" "num_flushed t \<le> a"
      using st(3) by (cases xs; auto)+
    obtain T1 t1 h1 F1 rt c where 1: "compute_root_h new hf sz ?T h = Some (Inr (T1, h1))" "compute_root hf sz ?t = Inr t1"
        "tree_holds h1 T1 t1 F1 {}" "ht_uninserted T1 = []" "ht_stack T1 = []" "completed hf t1 xs"
        "num_flushed t1 = num_flushed ?t" "heap_step h h1 (ht_owned ?T F G) F1"
      and rt: "ht_root T1 = Some rt" "h1 rt = Some c" "cl_height c = nd_height (root_node t1)"
        "cl_size c = nd_size (root_node t1)" "i < nd_size (root_node t1)" "\<not> (i < ht_flushed ?T \<or> ht_max_index ?T < i)"
        "walk_bits (nd_height (root_node t1)) i = index_bits (nd_height (root_node t1)) i"
        "nd_height (root_node t1) \<le> 64"
      by (rule compute_root_h_start [OF assms(1,2) hold inv i(1,2)])
    let ?n = "root_node t1"
    note cd = completedD [OF 1(6)]
    note id = inner_holdsD [OF tree_holdsD(1) [OF 1(3)]]
    have nl: "nleaves ?n \<le> max_leaves" "i < nleaves ?n" "a < nleaves ?n"
      using cd(8,11) i by auto
    have bits: "walk_bits (nd_height ?n) a = index_bits (nd_height ?n) a" "a < nd_size ?n"
      using walk_bits_eq [OF cd(1) nl(1,3)] wf_size_eq [OF cd(1)] nl by simp_all
    let ?w = "\<lparr>root_to_fork = [], fork_to_index = [], fork_to_as_of = [], fork_node = False, cur_i = ?n, cur_a = ?n\<rparr>"
    let ?W = "\<lparr>hp_root_to_fork = [], hp_fork_to_index = [], hp_fork_to_as_of = [], hp_fork_node = None,
        hp_cur_i = ht_root T1, hp_cur_a = ht_root T1\<rparr>"
    have start: "past_holds h1 ?W ?w"
      using id(1) cd(1) by (auto simp: past_holds_def)
    have at: "at_leaf (nd_height ?n) (num_flushed t1) i ?n" "at_leaf (nd_height ?n) (num_flushed t1) a ?n"
      using cd(1,4) nl i 1(7) by (simp_all add: at_leaf_def)
    have agree: "past_agrees h1 (past_path_loop_h (nd_height ?n) (index_bits (nd_height ?n) i) (index_bits (nd_height ?n) a) ?W h1)
        (past_path_loop (nd_height ?n) (index_bits (nd_height ?n) i) (index_bits (nd_height ?n) a) ?w)"
      using past_path_loop_h_agrees [OF rt(8) start, of "num_flushed t1" i "num_flushed t1" a] at by simp
    have run: "past_path_h new hf sz i a T h =
        run_bind (past_path_loop_h (nd_height ?n) (index_bits (nd_height ?n) i) (index_bits (nd_height ?n) a) ?W h1) (\<lambda>w.
        run_bind (past_elements_h hf w h1) (\<lambda>es. run_bind (tree_leaf_h T1 i h1) (\<lambda>x. Some (Inr (path_make x i es a, T1, h1)))))"
      using ok(1) st 1(1) rt bits by (simp add: past_path_h_def deref_pointer_def Let_def)
    have val: "past_path hf sz i a t =
        res_bind (past_path_loop (nd_height ?n) (index_bits (nd_height ?n) i) (index_bits (nd_height ?n) a) ?w) (\<lambda>w.
        res_bind (leaf_node t1 i) (\<lambda>leaf. Inr (path_make (nd_hash leaf) i (past_elements hf w) a, t1)))"
      using ok(1) 1(2) rt bits by (simp add: past_path_def min_index_def Let_def)
    have leaf: "leaf_node t1 i = Inr (node_make (xs ! i))"
      using leaf_node_ok [OF completed_tree_inv [OF 1(6)] _ i(2)] 1(7) i(1) by simp
    then have "tree_leaf_h T1 i h1 = Some (Inr (xs ! i))"
      using tree_leaf_h_eq [OF 1(3)] by (simp add: tree_leaf_def)
    moreover have "framed h h1 (ht_owned T F G) F1"
      using heap_step_framed [OF 1(8)] owned_subset [OF assms(3)] by (simp add: ht_owned_def)
    ultimately show ?thesis
    proof (cases "past_path_loop (nd_height ?n) (index_bits (nd_height ?n) i) (index_bits (nd_height ?n) a) ?w")
      case (Inl e)
      with agree run val show ?thesis by simp
    next
      case (Inr w')
      then obtain W' where W': "past_path_loop_h (nd_height ?n) (index_bits (nd_height ?n) i) (index_bits (nd_height ?n) a) ?W h1 =
          Some (Inr W')" "past_holds h1 W' w'"
        using agree by auto
      have "past_elements_h hf W' h1 = Some (Inr (past_elements hf w'))"
        using past_elements_h_eq [OF W'(2)] by blast
      with run W'(1) \<open>tree_leaf_h T1 i h1 = _\<close> have c: "past_path_h new hf sz i a T h =
          Some (Inr (path_make (xs ! i) i (past_elements hf w') a, T1, h1))"
        by simp
      have v: "past_path hf sz i a t = Inr (path_make (xs ! i) i (past_elements hf w') a, t1)"
        using val Inr leaf by simp
      show ?thesis
        using v c 1(3,4) \<open>framed h h1 (ht_owned T F G) F1\<close> by (rule heap_agrees_cleared)
    qed
  qed
qed

end
