(* ===== verification/Merkle_Heap_Refine.thy ===== *)
theory Merkle_Heap_Refine
  imports Merkle_Heap_Serial Merkle_Heap_Past Merkle_Refine
begin

text \<open>
  The operations of a tree over nodes with addresses refine those of the list of its leaves, and
  the heap they leave is accounted for: whatever sequence of operations has been applied to an
  empty tree, its destructor then frees every node that is left and nothing else. The simulation
  is that of \<open>Merkle_Refine\<close> with the heap in the state.
\<close>

section \<open>Operations\<close>

definition answer_of_h ::
  "('a \<Rightarrow> tree_answer) \<Rightarrow> ('a \<times> htree \<times> nheap) res option \<Rightarrow> (tree_answer \<times> htree \<times> nheap) res option" where
  "answer_of_h f c = run_bind c (\<lambda>(x, T, h). Some (Inr (f x, T, h)))"

fun tree_run_h ::
  "(nheap \<Rightarrow> addr) \<Rightarrow> (hash \<Rightarrow> hash \<Rightarrow> hash) \<Rightarrow> nat \<Rightarrow> tree_op \<Rightarrow> htree \<Rightarrow> nheap \<Rightarrow>
   (tree_answer \<times> htree \<times> nheap) res option" where
  "tree_run_h new hf sz (Insert x) T h = run_bind (tree_insert_h new x T h) (\<lambda>(T, h). Some (Inr (Done, T, h)))"
| "tree_run_h new hf sz Root T h = answer_of_h Hash_Is (tree_root_h new hf sz T h)"
| "tree_run_h new hf sz (Leaf i) T h = run_bind (tree_leaf_h T i h) (\<lambda>x. Some (Inr (Hash_Is x, T, h)))"
| "tree_run_h new hf sz (Path i) T h = answer_of_h Path_Is (tree_path_h new hf sz i T h)"
| "tree_run_h new hf sz (Past_Root i) T h = answer_of_h Hash_Is (past_root_h new hf sz i T h)"
| "tree_run_h new hf sz (Past_Path i a) T h = answer_of_h Path_Is (past_path_h new hf sz i a T h)"
| "tree_run_h new hf sz (Flush_To i) T h =
     run_bind (flush_to_h new hf sz i T h) (\<lambda>(T, h). Some (Inr (Done, T, h)))"
| "tree_run_h new hf sz (Retract_To i) T h =
     run_bind (retract_to_h new hf sz i T h) (\<lambda>(T, h). Some (Inr (Done, T, h)))"
| "tree_run_h new hf sz Serialise T h = answer_of_h Bytes_Are (tree_serialise_h new hf sz T [] h)"
| "tree_run_h new hf sz (Serialise_Segment lo hi) T h =
     answer_of_h Bytes_Are (tree_serialise_segment_h new hf sz lo hi T [] h)"

definition tree_step_h ::
  "(nheap \<Rightarrow> addr) \<Rightarrow> (hash \<Rightarrow> hash \<Rightarrow> hash) \<Rightarrow> nat \<Rightarrow> tree_op \<Rightarrow> htree \<times> nheap \<Rightarrow>
   (tree_answer \<times> htree \<times> nheap) res" where
  "tree_step_h new hf sz op s =
     (case tree_run_h new hf sz op (fst s) (snd s) of None \<Rightarrow> Inl No_Return | Some r \<Rightarrow> r)"

lemma answer_of_h_agrees:
  assumes "heap_agrees h T F G c v"
  shows "heap_agrees h T F G (answer_of_h f c) (answer_of f v)"
proof (cases v)
  case (Inl e)
  with assms show ?thesis
    by (simp add: answer_of_h_def answer_of_def)
next
  case (Inr r)
  obtain x t' where r: "v = Inr (x, t')"
    using Inr by (cases r) simp
  obtain T' h' F' G' where "c = Some (Inr (x, T', h'))" "tree_holds h' T' t' F' G'"
      "framed h h' (ht_owned T F G) (ht_owned T' F' G')" "G = {} \<longrightarrow> G' = {}"
    using assms unfolding r heap_agrees_def by auto
  then show ?thesis
    by (intro heap_agreesI [where T' = T' and h' = h' and F' = F' and G' = G' and x = "f x" and t' = t'])
      (simp_all add: r answer_of_h_def answer_of_def)
qed

lemma tree_leaf_h_agrees:
  assumes "tree_holds h T t F G"
  shows "heap_agrees h T F G (run_bind (tree_leaf_h T i h) (\<lambda>x. Some (Inr (f x, T, h))))
    (res_bind (tree_leaf t i) (\<lambda>x. Inr (f x, t)))"
proof (cases "tree_leaf t i")
  case (Inl e)
  then show ?thesis
    by (simp add: tree_leaf_h_eq [OF assms])
next
  case (Inr x)
  then show ?thesis
    using assms owned_subset [OF assms]
    by (intro heap_agreesI [where T' = T and h' = h and F' = F and G' = G and x = "f x" and t' = t])
      (simp_all add: tree_leaf_h_eq [OF assms])
qed

lemma tree_run_h_agrees:
  assumes "fresh_addr new" and "finite (dom h)" and "tree_holds h T t F G" and "tree_inv hf t xs"
  shows "heap_agrees h T F G (tree_run_h new hf sz op T h) (tree_step hf sz op t)"
proof (cases op)
  case (Insert x)
  then show ?thesis
    using tree_insert_h_agrees [OF assms(1-3)] by simp
next
  case (Leaf i)
  then show ?thesis
    using tree_leaf_h_agrees [OF assms(3)] by simp
next
  case (Flush_To i)
  then show ?thesis
    using flush_to_h_agrees [OF assms] by simp
next
  case (Retract_To i)
  then show ?thesis
    using retract_to_h_agrees [OF assms] by simp
qed (simp_all only: tree_run_h.simps tree_step.simps answer_of_h_agrees tree_root_h_agrees [OF assms]
    tree_path_h_agrees [OF assms] past_root_h_agrees [OF assms] past_path_h_agrees [OF assms]
    tree_serialise_h_agrees [OF assms] tree_serialise_segment_h_agrees [OF assms])

section \<open>Sequences of operations\<close>

fun run_ops :: "('op \<Rightarrow> 's \<Rightarrow> ('a \<times> 's) res) \<Rightarrow> 'op list \<Rightarrow> 's \<Rightarrow> 's res" where
  "run_ops step [] s = Inr s"
| "run_ops step (op # ops) s = res_bind (step op s) (\<lambda>(a, s). run_ops step ops s)"

context simulation begin

lemma same_end:
  "related (length ops + n) c s \<Longrightarrow> run_ops astep ops s = Inr s' \<Longrightarrow>
   \<exists>c'. run_ops cstep ops c = Inr c' \<and> related n c' s'"
proof (induction ops arbitrary: c s)
  case Nil
  then show ?case by simp
next
  case (Cons op ops)
  have rel: "related (Suc (length ops + n)) c s"
    using Cons.prems(1) by simp
  obtain a s1 where s1: "astep op s = Inr (a, s1)" "run_ops astep ops s1 = Inr s'"
    using Cons.prems(2) by (auto simp: res_bind_Inr_iff)
  obtain c1 where "cstep op c = Inr (a, c1)" "related (length ops + n) c1 s1"
    using answer [OF rel s1(1)] by blast
  with Cons.IH s1(2) show ?case by auto
qed

end

text \<open>The state: a tree that shares the heap with \<open>h0\<close>, of which it owns nothing.\<close>

definition heap_related ::
  "(nheap \<Rightarrow> addr) \<Rightarrow> nheap \<Rightarrow> (hash \<Rightarrow> hash \<Rightarrow> hash) \<Rightarrow> nat \<Rightarrow> htree \<times> nheap \<Rightarrow> hash list \<times> nat \<Rightarrow> bool" where
  "heap_related new h0 hf n c s \<longleftrightarrow> fresh_addr new \<and> finite (dom h0) \<and>
     (\<exists>t F. tree_holds (snd c) (fst c) t F {} \<and> tree_related hf n t s \<and>
        framed h0 (snd c) {} (ht_owned (fst c) F {}))"

lemma heap_related_finite:
  assumes "finite (dom h0)" and "tree_holds h T t F {}" and "framed h0 h {} (ht_owned T F {})"
  shows "finite (dom h)"
proof -
  have "finite F"
    using holds_finite inner_holdsD(1) tree_holdsD(1) assms(2) by blast
  then show ?thesis
    by (intro framed_finite [OF assms(3,1)]) (simp add: ht_owned_def)
qed

interpretation heap_sim: simulation "tree_step_h new hf sz" "leaves_step hf" "heap_related new h0 hf"
  for new hf sz h0
proof
  fix n op e and c :: "htree \<times> nheap" and s :: "hash list \<times> nat"
  assume rel: "heap_related new h0 hf (Suc n) c s" and fault: "leaves_step hf op s = Inl e"
  obtain T h where c: "c = (T, h)"
    by (cases c)
  obtain t F where t: "fresh_addr new" "finite (dom h0)" "tree_holds h T t F {}" "tree_related hf (Suc n) t s"
      "framed h0 h {} (ht_owned T F {})"
    using rel by (auto simp: heap_related_def c)
  have inv: "tree_inv hf t (fst s)"
    using t(4) by (simp add: tree_related_def)
  have "tree_step hf sz op t = Inl e"
    using tree_sim.fault [OF t(4) fault] .
  with tree_run_h_agrees [OF t(1) heap_related_finite [OF t(2,3,5)] t(3) inv, of sz op]
  show "tree_step_h new hf sz op c = Inl e"
    by (simp add: tree_step_h_def c)
next
  fix n op a and c :: "htree \<times> nheap" and s s' :: "hash list \<times> nat"
  assume rel: "heap_related new h0 hf (Suc n) c s" and step: "leaves_step hf op s = Inr (a, s')"
  obtain T h where c: "c = (T, h)"
    by (cases c)
  obtain t F where t: "fresh_addr new" "finite (dom h0)" "tree_holds h T t F {}" "tree_related hf (Suc n) t s"
      "framed h0 h {} (ht_owned T F {})"
    using rel by (auto simp: heap_related_def c)
  have inv: "tree_inv hf t (fst s)"
    using t(4) by (simp add: tree_related_def)
  obtain t' where t': "tree_step hf sz op t = Inr (a, t')" "tree_related hf n t' s'"
    using tree_sim.answer [OF t(4) step] by blast
  obtain T' h' F' where h': "tree_run_h new hf sz op T h = Some (Inr (a, T', h'))" "tree_holds h' T' t' F' {}"
      "framed h h' (ht_owned T F {}) (ht_owned T' F' {})"
    using tree_run_h_agrees [OF t(1) heap_related_finite [OF t(2,3,5)] t(3) inv, of sz op]
    unfolding t'(1) heap_agrees_def by auto
  have "heap_related new h0 hf n (T', h') s'"
    using t(1,2) h'(2) t'(2) framed_trans [OF t(5) h'(3)] by (auto simp: heap_related_def)
  with h'(1) show "\<exists>c'. tree_step_h new hf sz op c = Inr (a, c') \<and> heap_related new h0 hf n c' s'"
    by (simp add: tree_step_h_def c)
qed

lemma empty_tree_holds: "tree_holds h htree_empty tree_empty {} {}"
  by (simp add: tree_holds_def inner_holds_def htree_empty_def ht_slots_def right_turns_def) (simp add: tree_empty_def)

lemma heap_related_empty:
  assumes "fresh_addr new" and "finite (dom h0)" and "n \<le> max_leaves"
  shows "heap_related new h0 hf n (htree_empty, h0) ([], 0)"
proof -
  have "tree_related hf n tree_empty ([], 0)"
    using assms(3) tree_inv_empty by (simp add: tree_related_def) (simp add: tree_empty_def)
  moreover have "tree_holds h0 htree_empty tree_empty {} {}"
    by (rule empty_tree_holds)
  moreover have "ht_owned htree_empty {} {} = {}"
    by (simp add: ht_owned_def htree_empty_def)
  ultimately show ?thesis
    using assms(1,2) unfolding heap_related_def by (metis framed_refl empty_subsetI fst_conv snd_conv)
qed

text \<open>C6: over nodes with addresses a tree refines the list of its leaves as well: every sequence of
  insertions, roots, leaves, paths, paths and roots of past states, flushes, retractions and
  serialisations gives the answers of the list, up to and with the first exception. In particular
  no operation reads a node that has been freed or never allocated, no assertion of the code fails,
  every walk and every recursion over the nodes ends.\<close>

theorem heap_tree_refines_leaves:
  assumes "fresh_addr new" and "finite (dom h0)" and "length ops \<le> max_leaves"
  shows "answers (tree_step_h new hf sz) ops (htree_empty, h0) = answers (leaves_step hf) ops ([], 0)"
  by (rule heap_sim.same_answers [OF heap_related_empty [OF assms]])

lemma fresh_addr_example: "fresh_addr (\<lambda>h. Suc (Max (insert 0 (dom h))))"
  unfolding fresh_addr_def
proof (intro allI impI notI)
  fix h :: nheap
  assume "finite (dom h)" and "Suc (Max (insert 0 (dom h))) \<in> dom h"
  then have "Suc (Max (insert 0 (dom h))) \<le> Max (insert 0 (dom h))"
    by (intro Max_ge) auto
  then show False by simp
qed

theorem heap_tree_refines_leaves_witness:
  "answers (tree_step_h (\<lambda>h. Suc (Max (insert 0 (dom h)))) (\<lambda>a b. a @ b) 1)
     [Insert [1], Insert [2], Insert [3], Flush_To 2, Retract_To 2, Leaf 2, Leaf 0] (htree_empty, Map.empty) =
   ([Done, Done, Done, Done, Done, Hash_Is [3]], Some Undefined_Read)"
  by (subst heap_tree_refines_leaves [OF fresh_addr_example])
    (simp_all add: max_leaves_def at_index_def valid_index_def Let_def)

text \<open>C7: the memory of a tree is accounted for. After every sequence of operations on an empty tree
  in which none throws, the destructor frees each node the tree still has once, and the heap is
  the one from before the tree was built: no node is lost on the way, by insertions, by flushes
  that conflate subtrees or by retractions that move nodes, and none is freed twice.\<close>

theorem heap_tree_lifetime:
  assumes "fresh_addr new" and "finite (dom h0)" and "length ops \<le> max_leaves"
    and "run_ops (leaves_step hf) ops ([], 0) = Inr s"
  shows "\<exists>T h. run_ops (tree_step_h new hf sz) ops (htree_empty, h0) = Inr (T, h) \<and>
    tree_destroy_h T h = Some (Inr h0)"
proof -
  have "heap_related new h0 hf (length ops + 0) (htree_empty, h0) ([], 0)"
    using heap_related_empty [OF assms(1,2), of "length ops"] assms(3) by simp
  from heap_sim.same_end [OF this assms(4), where sz = sz] obtain T h t F
    where run: "run_ops (tree_step_h new hf sz) ops (htree_empty, h0) = Inr (T, h)"
      and t: "tree_holds h T t F {}" "tree_related hf 0 t s" "framed h0 h {} (ht_owned T F {})"
    by (auto simp: heap_related_def)
  have "tree_inv hf t (fst s)"
    using t(2) by (simp add: tree_related_def)
  then have "tree_destroy_h T h = Some (Inr (h |` (- (F \<union> set (ht_uninserted T)))))"
    by (rule tree_destroy_h_holds [OF t(1)])
  moreover have "h |` (- (F \<union> set (ht_uninserted T))) = h0"
  proof
    fix x
    show "(h |` (- (F \<union> set (ht_uninserted T)))) x = h0 x"
    proof (cases "x \<in> ht_owned T F {}")
      case True
      then have "x \<notin> dom h0"
        using t(3) by (auto simp: framed_def)
      with True show ?thesis
        by (auto simp: ht_owned_def restrict_map_def domIff)
    next
      case False
      with framed_same [OF t(3)] show ?thesis
        by (auto simp: ht_owned_def restrict_map_def)
    qed
  qed
  ultimately show ?thesis
    using run by auto
qed

theorem heap_tree_lifetime_witness:
  "\<exists>T h. run_ops (tree_step_h (\<lambda>h. Suc (Max (insert 0 (dom h)))) (\<lambda>a b. a @ b) 1)
     [Insert [1], Insert [2], Insert [3], Root, Flush_To 1, Insert [4], Retract_To 2, Insert [5]]
     (htree_empty, Map.empty) = Inr (T, h) \<and> tree_destroy_h T h = Some (Inr Map.empty)"
  by (rule heap_tree_lifetime [OF fresh_addr_example, where s = "([[1], [2], [3], [5]], 1)" and hf = "\<lambda>a b. a @ b"])
    (simp_all add: max_leaves_def Let_def)

end
