(* ===== verification/Merkle_Heap_Read.thy ===== *)
theory Merkle_Heap_Read
  imports Merkle_Heap_Refine
begin

text \<open>
  Reading a tree into nodes with addresses (\<open>TreeT::deserialise\<close> of \<open>include/merklecpp.h\<close>). The
  nodes of the tree that is overwritten are freed first, except those that only its insertion stack
  leads to; the leaves are new nodes, and the levels above them are built of further new nodes, until
  one root is left.
\<close>

section \<open>Operations\<close>

fun read_leaves_h ::
  "(nheap \<Rightarrow> addr) \<Rightarrow> nat \<Rightarrow> bytes \<Rightarrow> nat \<Rightarrow> nat \<Rightarrow> addr list \<Rightarrow> nheap \<Rightarrow>
   (addr list \<times> nat \<times> nheap) res option" where
  "read_leaves_h new sz bytes 0 position acc h = Some (Inr (acc, position, h))"
| "read_leaves_h new sz bytes (Suc k) position acc h =
     run_bind (Some (hash_of_pointer sz bytes position)) (\<lambda>x.
     run_bind (node_make_h new x h) (\<lambda>(n, h).
       read_leaves_h new sz bytes k (position + sz) (acc @ [n]) h))"

definition restore_extra_h ::
  "(nheap \<Rightarrow> addr) \<Rightarrow> nat \<Rightarrow> bytes \<Rightarrow> nat \<Rightarrow> nat \<Rightarrow> addr list \<Rightarrow> nheap \<Rightarrow>
   (addr list \<times> nat \<times> nheap) res option" where
  "restore_extra_h new sz bytes position level_no level h =
     run_bind (Some (hash_of_vector_at sz bytes position)) (\<lambda>(x, position).
     run_bind (node_make_h new x h) (\<lambda>(n, h).
     run_bind (deref n h) (\<lambda>c.
     let ht = (level_no + 1) mod 2 ^ 8
     in if 30 < ht then Some (Inl Int_Overflow)
        else let h = h(n \<mapsto> c\<lparr>cl_height := ht, cl_size := max_size ht\<rparr>)
        in run_bind (node_invariant_h n h) (\<lambda>ok.
        run_bind (run_assert ok) (\<lambda>_. Some (Inr (n # level, position, h)))))))"

fun rebuild_level_h ::
  "(nheap \<Rightarrow> addr) \<Rightarrow> nat \<Rightarrow> addr list \<Rightarrow> nheap \<Rightarrow> (addr list \<times> nheap) res option" where
  "rebuild_level_h new sz [] h = Some (Inr ([], h))"
| "rebuild_level_h new sz [n] h = Some (Inr ([n], h))"
| "rebuild_level_h new sz (l # r # ns) h =
     run_bind (node_make2_h new sz l r h) (\<lambda>(n, h).
     run_bind (rebuild_level_h new sz ns h) (\<lambda>(ms, h). Some (Inr (n # ms, h))))"

partial_function (option) rebuild_levels_h ::
  "(nheap \<Rightarrow> addr) \<Rightarrow> nat \<Rightarrow> bytes \<Rightarrow> nat \<Rightarrow> nat \<Rightarrow> nat \<Rightarrow> addr list \<Rightarrow> nheap \<Rightarrow>
   (addr list \<times> nat \<times> nheap) res option" where
  "rebuild_levels_h new sz bytes position it level_no level h =
     (if it \<noteq> 0 \<or> 1 < length level
      then run_bind
        (if odd it then restore_extra_h new sz bytes position level_no level h
         else Some (Inr (level, position, h)))
        (\<lambda>(level, position, h).
         run_bind (rebuild_level_h new sz level h) (\<lambda>(level, h).
           rebuild_levels_h new sz bytes position (it div 2) ((level_no + 1) mod 2 ^ 8) level h))
      else Some (Inr (level, position, h)))"

definition set_root_h :: "htree \<Rightarrow> addr list \<Rightarrow> nheap \<Rightarrow> htree res option" where
  "set_root_h T level h =
     (case level of [] \<Rightarrow> Some (Inr T)
      | [n] \<Rightarrow> run_bind (node_invariant_h n h) (\<lambda>ok.
          run_bind (run_assert ok) (\<lambda>_. Some (Inr (T\<lparr>ht_root := Some n\<rparr>))))
      | _ \<Rightarrow> Some (Inl Assertion_Failed))"

definition tree_deserialise_h ::
  "(nheap \<Rightarrow> addr) \<Rightarrow> nat \<Rightarrow> nat \<Rightarrow> bytes \<Rightarrow> nat \<Rightarrow> htree \<Rightarrow> nheap \<Rightarrow>
   (htree \<times> nat \<times> nheap) res option" where
  "tree_deserialise_h new sz cap bytes position T h =
     run_bind (node_delete (ht_root T) h) (\<lambda>h.
     run_bind (delete_all (ht_uninserted T) h) (\<lambda>h.
     let T = T\<lparr>ht_leaf_nodes := [], ht_uninserted := [], ht_stack := [], ht_root := None\<rparr>
     in run_bind (Some (deserialise_uint64_t bytes position)) (\<lambda>(num_leaf_nodes, position).
        run_bind (Some (deserialise_uint64_t bytes position)) (\<lambda>(flushed, position).
        if cap < unat num_leaf_nodes then Some (Inl Length_Error)
        else run_bind (read_leaves_h new sz bytes (unat num_leaf_nodes) position [] h) (\<lambda>(leaves, position, h).
        let T = T\<lparr>ht_flushed := unat flushed, ht_leaf_nodes := leaves\<rparr>
        in run_bind (rebuild_levels_h new sz bytes position (unat flushed) 0 leaves h) (\<lambda>(level, position, h).
           run_bind (set_root_h T level h) (\<lambda>T. Some (Inr (T, position, h)))))))))"

section \<open>Heaps that only grow\<close>

definition adds :: "nheap \<Rightarrow> nheap \<Rightarrow> addr set \<Rightarrow> bool" where
  "adds h h' N \<longleftrightarrow> finite N \<and> N \<inter> dom h = {} \<and> dom h' = dom h \<union> N \<and> (\<forall>a\<in>dom h. h' a = h a)"

lemma adds_refl [simp]: "adds h h {}"
  by (simp add: adds_def)

lemma addsD:
  assumes "adds h h' N"
  shows "finite N" and "N \<inter> dom h = {}" and "dom h' = dom h \<union> N" and "\<And>a. a \<in> dom h \<Longrightarrow> h' a = h a"
  using assms by (simp_all add: adds_def)

lemma adds_trans:
  assumes "adds h h1 N" and "adds h1 h2 M"
  shows "adds h h2 (N \<union> M)" and "N \<inter> M = {}"
proof -
  note a = addsD [OF assms(1)] and b = addsD [OF assms(2)]
  have "h2 x = h x" if "x \<in> dom h" for x
    using a(4) [OF that] b(4) [of x] that a(3) by simp
  moreover have "(N \<union> M) \<inter> dom h = {}"
    using a(2) b(2) unfolding a(3) by blast
  moreover have "dom h2 = dom h \<union> (N \<union> M)"
    unfolding b(3) a(3) by blast
  ultimately show "adds h h2 (N \<union> M)"
    using a(1) b(1) by (simp add: adds_def)
  show "N \<inter> M = {}"
    using b(2) unfolding a(3) by blast
qed

lemma adds_new: "a \<notin> dom h \<Longrightarrow> adds h (h(a \<mapsto> c)) {a}"
  by (auto simp: adds_def)

lemma adds_finite: "adds h h' N \<Longrightarrow> finite (dom h) \<Longrightarrow> finite (dom h')"
  by (simp add: adds_def)

lemma adds_holds: "adds h h' N \<Longrightarrow> holds h p n F \<Longrightarrow> holds h' p n F"
  using holds_cong holds_subset addsD(4) by blast

lemma adds_slots:
  assumes "adds h h' N" and "holds h p n F"
  shows "slots h' p n = slots h p n"
proof (rule slots_cong [OF assms(2)])
  show "h' a = h a" if "a \<in> F" for a
    using that holds_subset [OF assms(2)] addsD(4) [OF assms(1)] by blast
qed

lemma adds_leaves: "adds h h' N \<Longrightarrow> leaves_hold h as ns \<Longrightarrow> leaves_hold h' as ns"
  unfolding leaves_hold_def by (erule list_all2_mono) (rule adds_holds)

section \<open>Levels\<close>

fun level_holds :: "nheap \<Rightarrow> addr list \<Rightarrow> node list \<Rightarrow> addr set \<Rightarrow> bool" where
  "level_holds h [] [] F \<longleftrightarrow> F = {}"
| "level_holds h (a # as) (n # ns) F \<longleftrightarrow>
     (\<exists>G H. holds h (Some a) n G \<and> level_holds h as ns H \<and> G \<inter> H = {} \<and> F = G \<union> H)"
| "level_holds h as ns F \<longleftrightarrow> False"

fun level_slots :: "nheap \<Rightarrow> addr list \<Rightarrow> node list \<Rightarrow> addr list" where
  "level_slots h (a # as) (n # ns) = slots h (Some a) n @ level_slots h as ns"
| "level_slots h as ns = []"

lemma level_holds_length: "level_holds h as ns F \<Longrightarrow> length as = length ns"
  by (induction h as ns F rule: level_holds.induct) auto

lemma level_holds_subset: "level_holds h as ns F \<Longrightarrow> F \<subseteq> dom h"
  by (induction h as ns F rule: level_holds.induct) (auto dest: holds_subset)

lemma adds_level: "adds h h' N \<Longrightarrow> level_holds h as ns F \<Longrightarrow> level_holds h' as ns F"
proof (induction h as ns F rule: level_holds.induct)
  case (2 h a as n ns F)
  then obtain G H where "holds h (Some a) n G" "level_holds h as ns H" "G \<inter> H = {}" "F = G \<union> H"
    by auto
  with 2 adds_holds [OF 2(2)] show ?case
    by (metis level_holds.simps(2))
qed auto

lemma adds_level_slots:
  "adds h h' N \<Longrightarrow> level_holds h as ns F \<Longrightarrow> level_slots h' as ns = level_slots h as ns"
proof (induction h as ns F rule: level_holds.induct)
  case (2 h a as n ns F)
  then show ?case
    using adds_slots [OF 2(2)] by auto
qed auto

section \<open>Leaves\<close>

lemma leaves_level:
  "leaves_hold h as (map node_make xs) \<Longrightarrow> distinct as \<Longrightarrow>
   level_holds h as (map node_make xs) (set as) \<and> level_slots h as (map node_make xs) = as"
proof (induction as arbitrary: xs)
  case Nil
  then show ?case
    using leaves_hold_length [OF Nil(1)] by simp
next
  case (Cons a as)
  obtain y ys where xs: "xs = y # ys"
    using leaves_hold_length [OF Cons.prems(1)] by (cases xs) auto
  have "holds h (Some a) (node_make y) {a}" "leaves_hold h as (map node_make ys)"
    using Cons.prems(1) xs by simp_all
  moreover have "slots h (Some a) (node_make y) = [a]"
    by (simp add: node_make_eq)
  ultimately show ?case
    using Cons.IH Cons.prems(2) unfolding xs list.map(2) level_holds.simps(2) level_slots.simps(1)
    by (intro conjI exI [of _ "{a}"] exI [of _ "set as"]) auto
qed

lemma read_leaves_h_holds:
  assumes "fresh_addr new"
  shows "finite (dom h) \<Longrightarrow> leaves_hold h acc (map node_make xs) \<Longrightarrow> distinct acc \<Longrightarrow>
    (case read_leaves sz bytes k position (map node_make xs) of
       Inl e \<Rightarrow> read_leaves_h new sz bytes k position acc h = Some (Inl e)
     | Inr (ns, p) \<Rightarrow> \<exists>as ys h'. read_leaves_h new sz bytes k position acc h = Some (Inr (acc @ as, p, h')) \<and>
         ns = map node_make (xs @ ys) \<and> leaves_hold h' (acc @ as) ns \<and> distinct (acc @ as) \<and> adds h h' (set as))"
proof (induction k arbitrary: h acc xs position)
  case 0
  then show ?case
    by (auto intro!: exI [of _ "[]"])
next
  case (Suc k)
  show ?case
  proof (cases "hash_of_pointer sz bytes position")
    case (Inl e)
    then show ?thesis by simp
  next
    case (Inr x)
    obtain a where a: "a \<notin> dom h"
      and mk: "node_make_h new x h = Some (Inr (a, h(a \<mapsto> cell_of (node_make x) None None)))"
      using node_make_h_ok [OF assms Suc.prems(1)] by blast
    let ?h = "h(a \<mapsto> cell_of (node_make x) None None)"
    have add: "adds h ?h {a}"
      using a by (rule adds_new)
    have "holds ?h (Some a) (node_make x) {a}"
      by (simp add: node_make_eq)
    then have held: "leaves_hold ?h (acc @ [a]) (map node_make (xs @ [x]))"
      using leaves_hold_append [OF adds_leaves [OF add Suc.prems(2)], of "[a]" "[node_make x]"] by simp
    have "a \<notin> set acc"
      using a leaves_hold_subset [OF Suc.prems(2)] by blast
    then have dist: "distinct (acc @ [a])"
      using Suc.prems(3) by simp
    note IH = Suc.IH [OF adds_finite [OF add Suc.prems(1)] held dist, of "position + sz"]
    have v: "read_leaves sz bytes (Suc k) position (map node_make xs) =
        read_leaves sz bytes k (position + sz) (map node_make (xs @ [x]))"
      and c: "read_leaves_h new sz bytes (Suc k) position acc h = read_leaves_h new sz bytes k (position + sz) (acc @ [a]) ?h"
      using Inr mk by simp_all
    show ?thesis
    proof (cases "read_leaves sz bytes k (position + sz) (map node_make (xs @ [x]))")
      case (Inl e)
      with IH show ?thesis
        unfolding v c by simp
    next
      case (Inr r)
      obtain ns p where r: "r = (ns, p)"
        by (cases r)
      obtain as ys h' where 1: "read_leaves_h new sz bytes k (position + sz) (acc @ [a]) ?h = Some (Inr ((acc @ [a]) @ as, p, h'))"
          "ns = map node_make ((xs @ [x]) @ ys)" "leaves_hold h' ((acc @ [a]) @ as) ns" "distinct ((acc @ [a]) @ as)"
          "adds ?h h' (set as)"
        using IH Inr r by auto
      have "adds h h' (set (a # as))"
        using adds_trans(1) [OF add 1(5)] by simp
      with 1 Inr r show ?thesis
        unfolding v c by (simp add: exI [of _ "a # as"] exI [of _ "x # ys"])
    qed
  qed
qed

section \<open>Building the levels\<close>

lemma rebuild_level_h_holds:
  assumes "fresh_addr new"
  shows "finite (dom h) \<Longrightarrow> level_holds h as ns F \<Longrightarrow>
    (\<exists>bs h' N. rebuild_level_h new sz as h = Some (Inr (bs, h')) \<and>
       level_holds h' bs (rebuild_level sz ns) (F \<union> N) \<and> adds h h' N \<and>
       level_slots h' bs (rebuild_level sz ns) = level_slots h as ns) \<or>
    rebuild_level_h new sz as h = Some (Inl Assertion_Failed) \<and>
       \<not> Ball (set (rebuild_level sz ns)) node_invariant"
proof (induction sz ns arbitrary: as h F rule: rebuild_level.induct)
  case (1 sz)
  then have "as = []"
    using level_holds_length by fastforce
  with 1 show ?case by simp
next
  case (2 sz n)
  then obtain a where "as = [a]"
    using level_holds_length [OF 2(2)] by (cases as) auto
  with 2 show ?case
    by (intro disjI1 exI [of _ as] exI [of _ h] exI [of _ "{}"]) simp
next
  case (3 sz l r ns)
  obtain a b cs where as: "as = a # b # cs"
    using level_holds_length [OF 3(3)] by (cases as; cases "tl as") auto
  obtain G H K where lev: "holds h (Some a) l G" "holds h (Some b) r H" "level_holds h cs ns K"
      "G \<inter> (H \<union> K) = {}" "H \<inter> K = {}" "F = G \<union> (H \<union> K)"
    using 3(3) unfolding as by (auto 0 3)
  then have gh: "G \<inter> H = {}"
    by blast
  obtain e c where e: "e \<notin> dom h" and run: "node_make2_h new sz a b h =
      Some (if node_invariant (node_make2 sz l r) then Inr (e, h(e \<mapsto> c)) else Inl Assertion_Failed)"
    and node: "holds (h(e \<mapsto> c)) (Some e) (node_make2 sz l r) (insert e (G \<union> H))"
      "slots (h(e \<mapsto> c)) (Some e) (node_make2 sz l r) = slots h (Some a) l @ slots h (Some b) r"
    using node_make2_h_any [OF assms 3(2) lev(1,2) gh] by blast
  let ?h = "h(e \<mapsto> c)"
  show ?case
  proof (cases "node_invariant (node_make2 sz l r)")
    case False
    then show ?thesis
      using run by (simp add: as)
  next
    case True
    have add: "adds h ?h {e}"
      using e by (rule adds_new)
    from "3.IH" [OF adds_finite [OF add 3(2)] adds_level [OF add lev(3)]] show ?thesis
    proof
      assume "rebuild_level_h new sz cs ?h = Some (Inl Assertion_Failed) \<and> \<not> Ball (set (rebuild_level sz ns)) node_invariant"
      then show ?thesis
        using run True by (simp add: as)
    next
      assume "\<exists>bs h' N. rebuild_level_h new sz cs ?h = Some (Inr (bs, h')) \<and>
          level_holds h' bs (rebuild_level sz ns) (K \<union> N) \<and> adds ?h h' N \<and>
          level_slots h' bs (rebuild_level sz ns) = level_slots ?h cs ns"
      then obtain bs h' N where r: "rebuild_level_h new sz cs ?h = Some (Inr (bs, h'))"
          "level_holds h' bs (rebuild_level sz ns) (K \<union> N)" "adds ?h h' N"
          "level_slots h' bs (rebuild_level sz ns) = level_slots ?h cs ns"
        by blast
      have sub: "G \<subseteq> dom h" "H \<subseteq> dom h" "K \<subseteq> dom h"
        using holds_subset lev(1,2) level_holds_subset [OF lev(3)] by blast+
      have "N \<inter> insert e (dom h) = {}"
        using addsD(2) [OF r(3)] by simp
      with sub e lev(4,5) have "insert e (G \<union> H) \<inter> (K \<union> N) = {}"
        by blast
      moreover have "F \<union> insert e N = insert e (G \<union> H) \<union> (K \<union> N)"
        using lev(6) by blast
      ultimately have "level_holds h' (e # bs) (rebuild_level sz (l # r # ns)) (F \<union> insert e N)"
        using adds_holds [OF r(3) node(1)] r(2) by (metis level_holds.simps(2) rebuild_level.simps(3))
      moreover have "adds h h' (insert e N)"
        using adds_trans(1) [OF add r(3)] by simp
      moreover have "level_slots h' (e # bs) (rebuild_level sz (l # r # ns)) = level_slots h as (l # r # ns)"
        using r(4) adds_slots [OF r(3) node(1)] node(2) adds_level_slots [OF add lev(3)] by (simp add: as)
      moreover have "rebuild_level_h new sz as h = Some (Inr (e # bs, h'))"
        using run True r(1) by (simp add: as)
      ultimately show ?thesis
        by blast
    qed
  qed
qed

text \<open>A hash that stands for a flushed subtree is a node without children.\<close>

lemma restored_childless:
  "restored_node x k = Node x Null Null (max_size ((k + 1) mod 2 ^ 8)) ((k + 1) mod 2 ^ 8) False"
  by (simp add: restored_node_def node_make_eq Let_def)

lemma restore_extra_h_holds:
  assumes "fresh_addr new" and "finite (dom h)"
  shows "case restore_extra sz bytes position k ns of
      Inl e \<Rightarrow> restore_extra_h new sz bytes position k as h = Some (Inl e)
    | Inr (ms, p) \<Rightarrow> \<exists>a x h'. restore_extra_h new sz bytes position k as h = Some (Inr (a # as, p, h')) \<and>
        ms = restored_node x k # ns \<and> adds h h' {a} \<and> holds h' (Some a) (restored_node x k) {a}"
proof (cases "hash_of_vector_at sz bytes position")
  case (Inl e)
  then show ?thesis
    by (simp add: restore_extra_def restore_extra_h_def)
next
  case (Inr r)
  obtain x p where r: "r = (x, p)"
    by (cases r)
  obtain a where a: "a \<notin> dom h"
    and mk: "node_make_h new x h = Some (Inr (a, h(a \<mapsto> cell_of (node_make x) None None)))"
    using node_make_h_ok [OF assms] by blast
  let ?n = "restored_node x k"
  let ?h = "h(a \<mapsto> cell_of ?n None None)"
  have cell: "cell_of (node_make x) None None\<lparr>cl_height := (k + 1) mod 2 ^ 8, cl_size := max_size ((k + 1) mod 2 ^ 8)\<rparr> =
      cell_of ?n None None"
    by (simp add: cell_of_def node_make_eq restored_childless)
  have node: "holds ?h (Some a) ?n {a}"
    by (simp add: restored_childless)
  have inv: "node_invariant_h a ?h = Some (Inr (node_invariant ?n))"
    using node_invariant_h_eq [OF node] .
  have "restore_extra_h new sz bytes position k as h =
      (if 30 < (k + 1) mod 2 ^ 8 then Some (Inl Int_Overflow)
       else if node_invariant ?n then Some (Inr (a # as, p, ?h)) else Some (Inl Assertion_Failed))"
    using Inr r mk inv
    by (simp only: restore_extra_h_def Let_def run_bind_simps prod.case deref_Some fun_upd_same fun_upd_upd cell)
      (simp add: run_assert_def)
  moreover have "restore_extra sz bytes position k ns =
      (if 30 < (k + 1) mod 2 ^ 8 then Inl Int_Overflow
       else if node_invariant ?n then Inr (?n # ns, p) else Inl Assertion_Failed)"
    using Inr r by (simp add: restore_extra_def)
  moreover have "adds h ?h {a}"
    using a by (rule adds_new)
  ultimately show ?thesis
    using node by auto
qed

text \<open>The indices below \<open>flushed\<close> lead to the restored nodes, those after it to the leaves.\<close>

lemma restore_step:
  assumes "fresh_addr new" and "finite (dom h)" and "level_holds h as ns F" and "level_slots h as ns = junk @ ls"
    and "length junk = fl mod 2 ^ k" and "fl < 2 ^ 64"
  shows "case (if odd (fl div 2 ^ k) then restore_extra sz bytes position (k mod 2 ^ 8) ns else Inr (ns, position)) of
      Inl e \<Rightarrow> (if odd (fl div 2 ^ k) then restore_extra_h new sz bytes position (k mod 2 ^ 8) as h
        else Some (Inr (as, position, h))) = Some (Inl e)
    | Inr (ms, p) \<Rightarrow> \<exists>bs h' N junk'. (if odd (fl div 2 ^ k) then restore_extra_h new sz bytes position (k mod 2 ^ 8) as h
        else Some (Inr (as, position, h))) = Some (Inr (bs, p, h')) \<and> level_holds h' bs ms (F \<union> N) \<and> adds h h' N \<and>
        level_slots h' bs ms = junk' @ ls \<and> length junk' = fl mod 2 ^ Suc k \<and> (\<exists>es. ms = es @ ns)"
proof -
  have m: "fl mod 2 ^ Suc k = 2 ^ k * (fl div 2 ^ k mod 2) + fl mod 2 ^ k"
    by (simp add: mod_mult2_eq mult.commute [of 2])
  show ?thesis
  proof (cases "odd (fl div 2 ^ k)")
    case False
    with m assms(5) have "length junk = fl mod 2 ^ Suc k"
      by simp
    with False assms(3,4) show ?thesis
      by (simp, intro exI [of _ "{}"]) simp
  next
    case odd: True
    then have "2 ^ k \<le> fl"
      by (metis div_less even_zero not_le)
    then have "(2 :: nat) ^ k < 2 ^ 64"
      using assms(6) by simp
    then have k: "k < 64"
      by (rule power_less_imp_less_exp [rotated]) simp
    show ?thesis
    proof (cases "restore_extra sz bytes position (k mod 2 ^ 8) ns")
      case (Inl e)
      with odd restore_extra_h_holds [OF assms(1,2), of sz bytes position "k mod 2 ^ 8" as ns] show ?thesis
        by simp
    next
      case (Inr r)
      obtain ms p where r: "r = (ms, p)"
        by (cases r)
      obtain a x h' where 1: "restore_extra_h new sz bytes position (k mod 2 ^ 8) as h = Some (Inr (a # as, p, h'))"
          "ms = restored_node x (k mod 2 ^ 8) # ns" "adds h h' {a}" "holds h' (Some a) (restored_node x (k mod 2 ^ 8)) {a}"
        using restore_extra_h_holds [OF assms(1,2), of sz bytes position "k mod 2 ^ 8" as ns] Inr r by auto
      have "a \<notin> F"
        using addsD(2) [OF 1(3)] level_holds_subset [OF assms(3)] by blast
      then have "level_holds h' (a # as) ms (F \<union> {a})"
        using 1(2,4) adds_level [OF 1(3) assms(3)] by auto
      moreover have "level_slots h' (a # as) ms = (replicate (2 ^ k) a @ junk) @ ls"
        using 1(2) adds_level_slots [OF 1(3) assms(3)] assms(4) k by (simp add: restored_childless)
      moreover have "length (replicate (2 ^ k) a @ junk) = fl mod 2 ^ Suc k"
        using m odd assms(5) by (simp add: odd_iff_mod_2_eq_one)
      moreover have "ms = [restored_node x (k mod 2 ^ 8)] @ ns"
        using 1(2) by simp
      ultimately show ?thesis
        using odd Inr r 1(1,3) by (simp only: not_False_eq_True if_True sum.case prod.case) blast
    qed
  qed
qed

lemma rebuild_level_invariant:
  "Ball (set (rebuild_level sz ns)) node_invariant \<Longrightarrow> Ball (set ns) node_invariant"
proof (induction sz ns rule: rebuild_level.induct)
  case (3 sz l r ns)
  have "node_invariant (node_make2 sz l r) \<Longrightarrow> node_invariant l \<and> node_invariant r"
    by (cases "l = Null"; cases "r = Null") (auto simp: node_make2_def)
  with 3 show ?case by simp
qed simp_all

lemma rebuild_levels_invariant:
  "rebuild_levels sz bytes position it level_no ns = Inr (ms, p) \<Longrightarrow> Ball (set ms) node_invariant \<Longrightarrow>
   Ball (set ns) node_invariant"
proof (induction sz bytes position it level_no ns rule: rebuild_levels.induct)
  case (1 sz bytes position it level_no ns)
  show ?case
  proof (cases "it \<noteq> 0 \<or> 1 < length ns")
    case False
    with "1.prems" show ?thesis
      by (subst (asm) rebuild_levels.simps) simp
  next
    case True
    then obtain es q where e: "(if odd it then restore_extra sz bytes position level_no ns else Inr (ns, position)) = Inr (es, q)"
        "rebuild_levels sz bytes q (it div 2) ((level_no + 1) mod 2 ^ 8) (rebuild_level sz es) = Inr (ms, p)"
      using "1.prems"(1) by (subst (asm) rebuild_levels.simps) (auto simp: res_bind_Inr_iff)
    have "Ball (set (rebuild_level sz es)) node_invariant"
      using "1.IH" [OF True e(1) refl e(2) "1.prems"(2)] .
    then have "Ball (set es) node_invariant"
      by (rule rebuild_level_invariant)
    moreover have "set ns \<subseteq> set es"
      using e(1) by (auto simp: restore_extra_def res_bind_Inr_iff split: if_splits)
    ultimately show ?thesis by blast
  qed
qed

lemma rebuild_levels_h_holds:
  assumes "fresh_addr new" and "fl < 2 ^ 64"
  shows "finite (dom h) \<Longrightarrow> level_holds h as ns F \<Longrightarrow> level_slots h as ns = junk @ ls \<Longrightarrow> length junk = fl mod 2 ^ k \<Longrightarrow>
    it = fl div 2 ^ k \<Longrightarrow> level_no = k mod 2 ^ 8 \<Longrightarrow>
    (case rebuild_levels sz bytes position it level_no ns of
       Inl e \<Rightarrow> \<exists>e'\<in>{e, Assertion_Failed}. rebuild_levels_h new sz bytes position it level_no as h = Some (Inl e')
     | Inr (ms, p) \<Rightarrow>
         (\<exists>bs h' N junk'. rebuild_levels_h new sz bytes position it level_no as h = Some (Inr (bs, p, h')) \<and>
            level_holds h' bs ms (F \<union> N) \<and> adds h h' N \<and> level_slots h' bs ms = junk' @ ls \<and> length junk' = fl) \<or>
         rebuild_levels_h new sz bytes position it level_no as h = Some (Inl Assertion_Failed) \<and>
            \<not> Ball (set ms) node_invariant)"
proof (induction sz bytes position it level_no ns arbitrary: as h F k junk rule: rebuild_levels.induct)
  case (1 sz bytes position it level_no ns)
  have len: "length as = length ns"
    using level_holds_length [OF "1.prems"(2)] .
  let ?v = "rebuild_levels sz bytes position it level_no ns"
  let ?c = "rebuild_levels_h new sz bytes position it level_no as h"
  show ?case
  proof (cases "it \<noteq> 0 \<or> 1 < length ns")
    case False
    then have "fl div 2 ^ k = 0"
      using "1.prems"(5) by simp
    then have "length junk = fl"
      using "1.prems"(4) by (simp add: div_eq_0_iff)
    moreover have "?v = Inr (ns, position)" "?c = Some (Inr (as, position, h))"
      using False len by (subst rebuild_levels.simps, simp) (subst rebuild_levels_h.simps, use False len in simp)
    ultimately show ?thesis
      using "1.prems"(2,3) by (simp, intro disjI1 exI [of _ "{}"]) simp
  next
    case True
    let ?rv = "if odd it then restore_extra sz bytes position level_no ns else Inr (ns, position)"
    let ?rc = "if odd it then restore_extra_h new sz bytes position level_no as h else Some (Inr (as, position, h))"
    let ?no = "(level_no + 1) mod 2 ^ 8"
    have v: "?v = res_bind ?rv (\<lambda>(level, position).
        rebuild_levels sz bytes position (it div 2) ?no (rebuild_level sz level))"
      using True by (subst rebuild_levels.simps) simp
    have c: "?c = run_bind ?rc (\<lambda>(level, position, h). run_bind (rebuild_level_h new sz level h)
        (\<lambda>(level, h). rebuild_levels_h new sz bytes position (it div 2) ?no level h))"
      using True len by (subst rebuild_levels_h.simps) simp
    note step = restore_step [OF assms(1) "1.prems"(1-4) assms(2), of sz bytes position, folded "1.prems"(5,6)]
    show ?thesis
    proof (cases ?rv)
      case (Inl e)
      with step have "?rc = Some (Inl e)"
        by (simp only: sum.case)
      then show ?thesis
        unfolding v c Inl by simp
    next
      case (Inr r)
      obtain es q where r: "r = (es, q)"
        by (cases r)
      obtain bs h1 N junk1 where 1: "?rc = Some (Inr (bs, q, h1))" "level_holds h1 bs es (F \<union> N)" "adds h h1 N"
          "level_slots h1 bs es = junk1 @ ls" "length junk1 = fl mod 2 ^ Suc k"
        using step unfolding Inr r by (simp only: sum.case prod.case) blast
      have v': "?v = rebuild_levels sz bytes q (it div 2) ?no (rebuild_level sz es)"
        unfolding v Inr r by simp
      have fin: "finite (dom h1)"
        using adds_finite [OF 1(3) "1.prems"(1)] .
      from rebuild_level_h_holds [OF assms(1) fin 1(2), of sz] show ?thesis
      proof
        assume f: "rebuild_level_h new sz bs h1 = Some (Inl Assertion_Failed) \<and>
            \<not> Ball (set (rebuild_level sz es)) node_invariant"
        then have "?c = Some (Inl Assertion_Failed)"
          unfolding c 1(1) by simp
        moreover have "\<not> Ball (set ms) node_invariant" if "?v = Inr (ms, p)" for ms p
          using rebuild_levels_invariant that f unfolding v' by blast
        ultimately show ?thesis
          by (cases ?v) auto
      next
        assume "\<exists>cs h2 M. rebuild_level_h new sz bs h1 = Some (Inr (cs, h2)) \<and>
            level_holds h2 cs (rebuild_level sz es) (F \<union> N \<union> M) \<and> adds h1 h2 M \<and>
            level_slots h2 cs (rebuild_level sz es) = level_slots h1 bs es"
        then obtain cs h2 M where 2: "rebuild_level_h new sz bs h1 = Some (Inr (cs, h2))"
            "level_holds h2 cs (rebuild_level sz es) (F \<union> N \<union> M)" "adds h1 h2 M"
            "level_slots h2 cs (rebuild_level sz es) = junk1 @ ls"
          using 1(4) by auto
        have c': "?c = rebuild_levels_h new sz bytes q (it div 2) ?no cs h2"
          unfolding c 1(1) by (simp add: 2(1))
        have idx: "it div 2 = fl div 2 ^ Suc k" "?no = Suc k mod 2 ^ 8"
          unfolding "1.prems"(5,6) by (metis div_mult2_eq power_Suc2) (simp add: mod_Suc_eq)
        note IH = "1.IH" [OF True Inr [unfolded r] refl adds_finite [OF 2(3) fin] 2(2,4) 1(5) idx]
        show ?thesis
        proof (cases ?v)
          case (Inl e)
          with IH show ?thesis
            unfolding c' v' [symmetric] by simp
        next
          case (Inr w)
          obtain ms p where w: "w = (ms, p)"
            by (cases w)
          from IH [folded v', unfolded Inr w sum.case prod.case] show ?thesis
          proof
            assume "\<exists>ds h' K junk'. rebuild_levels_h new sz bytes q (it div 2) ?no cs h2 = Some (Inr (ds, p, h')) \<and>
                level_holds h' ds ms (F \<union> N \<union> M \<union> K) \<and> adds h2 h' K \<and> level_slots h' ds ms = junk' @ ls \<and>
                length junk' = fl"
            then obtain ds h' K junk' where 3: "?c = Some (Inr (ds, p, h'))"
                "level_holds h' ds ms (F \<union> N \<union> M \<union> K)" "adds h2 h' K" "level_slots h' ds ms = junk' @ ls"
                "length junk' = fl"
              unfolding c' by blast
            have "adds h h' (N \<union> M \<union> K)"
              using adds_trans(1) [OF adds_trans(1) [OF 1(3) 2(3)] 3(3)] .
            with 3 show ?thesis
              unfolding Inr w sum.case prod.case by (metis sup_assoc)
          next
            assume "rebuild_levels_h new sz bytes q (it div 2) ?no cs h2 = Some (Inl Assertion_Failed) \<and>
                \<not> Ball (set ms) node_invariant"
            then show ?thesis
              unfolding Inr w c' by simp
          qed
        qed
      qed
    qed
  qed
qed

section \<open>Reading a tree\<close>

lemma set_root_h_holds:
  assumes "level_holds h bs ms F" and "level_slots h bs ms = junk @ ls" and "length junk = fl"
    and "leaves_hold h ls (leaf_nodes t)" and "num_flushed t = fl"
    and "insertion_stack t = []" and "root_node t = Null" and "uninserted_leaf_nodes t = []"
    and "T = \<lparr>ht_leaf_nodes = ls, ht_uninserted = [], ht_flushed = fl, ht_root = None, ht_stack = [], ht_stats = stats t\<rparr>"
    and "set_root t ms = Inr t'"
  shows "\<exists>T'. set_root_h T bs h = Some (Inr T') \<and> tree_holds h T' t' F {} \<and> ht_uninserted T' = [] \<and>
    tree_destroy_h T' h = Some (Inr (h |` (- F)))"
proof (cases ms)
  case Nil
  then have bs: "bs = []" "F = {}"
    using assms(1) level_holds_length [OF assms(1)] by auto
  then have "ls = []" "fl = 0"
    using assms(2,3) by auto
  moreover have "t' = t"
    using assms(10) Nil by (simp add: set_root_def)
  moreover have "node_delete None h = Some (Inr h)"
    by (subst node_delete.simps) simp
  ultimately show ?thesis
    using assms(4-8) bs
    by (simp add: set_root_h_def assms(9) tree_holds_def inner_holds_def ht_slots_def right_turns_def tree_destroy_h_def
        restrict_map_def)
next
  case (Cons n ns)
  then have n: "ms = [n]" "node_invariant n" "t' = t\<lparr>root_node := n\<rparr>"
    using assms(10) by (auto simp: set_root_def split: list.splits if_splits)
  obtain a where a: "bs = [a]"
    using level_holds_length [OF assms(1)] n(1) by (cases bs) auto
  have root: "holds h (Some a) n F"
    using assms(1) unfolding a n(1) by simp
  have sl: "slots h (Some a) n = junk @ ls"
    using assms(2) by (simp add: a n(1))
  have inv: "node_invariant_h a h = Some (Inr True)"
    using node_invariant_h_eq [OF root] n(2) by simp
  have "node_delete (Some a) h = Some (Inr (h |` (- F)))"
    using node_delete_holds [OF root] n(2) by blast
  with inv root sl assms(3-8) show ?thesis
    by (simp add: a set_root_h_def assms(9) n(3) tree_holds_def inner_holds_def ht_slots_def right_turns_def tree_destroy_h_def)
qed

lemma set_root_h_fault:
  assumes "level_holds h bs ms F" and "set_root t ms = Inl e"
  shows "set_root_h T bs h = Some (Inl e) \<and> e = Assertion_Failed"
proof (cases bs)
  case Nil
  then show ?thesis
    using assms level_holds_length [OF assms(1)] by (simp add: set_root_def)
next
  case (Cons a as)
  then obtain n ns where ms: "ms = n # ns"
    using level_holds_length [OF assms(1)] by (cases ms) auto
  show ?thesis
  proof (cases as)
    case Nil
    then have "ns = []" "holds h (Some a) n F"
      using assms(1) Cons ms level_holds_length [OF assms(1)] by auto
    with node_invariant_h_eq [OF this(2)] Cons Nil ms assms(2) show ?thesis
      by (auto simp: set_root_def set_root_h_def run_assert_def split: if_splits)
  next
    case (Cons b bs')
    moreover obtain m ms' where "ns = m # ms'"
      using level_holds_length [OF assms(1)] \<open>bs = a # as\<close> Cons ms by (cases ns) auto
    ultimately show ?thesis
      using \<open>bs = a # as\<close> ms assms(2) by (simp add: set_root_def set_root_h_def)
  qed
qed

text \<open>From the leaves to the root.\<close>

lemma levels_read:
  assumes "fresh_addr new" and "finite (dom h)" and "leaves_hold h ls (map node_make xs)" and "distinct ls"
    and "fl < 2 ^ 64" and "leaf_nodes t = map node_make xs" and "num_flushed t = fl"
    and "insertion_stack t = []" and "root_node t = Null" and "uninserted_leaf_nodes t = []"
    and "T = \<lparr>ht_leaf_nodes = ls, ht_uninserted = [], ht_flushed = fl, ht_root = None, ht_stack = [], ht_stats = stats t\<rparr>"
  shows "case res_bind (rebuild_levels sz bytes p fl 0 (map node_make xs)) (\<lambda>(level, q).
        res_bind (set_root t level) (\<lambda>t. Inr (t, q))) of
      Inl e \<Rightarrow> \<exists>e'\<in>{e, Assertion_Failed}. run_bind (rebuild_levels_h new sz bytes p fl 0 ls h)
        (\<lambda>(level, q, h). run_bind (set_root_h T level h) (\<lambda>T. Some (Inr (T, q, h)))) = Some (Inl e')
    | Inr (t', q) \<Rightarrow> \<exists>T' h' N. run_bind (rebuild_levels_h new sz bytes p fl 0 ls h)
        (\<lambda>(level, q, h). run_bind (set_root_h T level h) (\<lambda>T. Some (Inr (T, q, h)))) = Some (Inr (T', q, h')) \<and>
        tree_holds h' T' t' (set ls \<union> N) {} \<and> ht_uninserted T' = [] \<and> adds h h' N \<and>
        tree_destroy_h T' h' = Some (Inr (h' |` (- (set ls \<union> N))))"
proof -
  let ?v = "rebuild_levels sz bytes p fl 0 (map node_make xs)" and ?c = "rebuild_levels_h new sz bytes p fl 0 ls h"
  note lev = leaves_level [OF assms(3,4)]
  note build = rebuild_levels_h_holds [OF assms(1,5,2) conjunct1 [OF lev], of "[]" ls 0 fl 0 sz bytes p]
  show ?thesis
  proof (cases ?v)
    case (Inl e)
    with build lev show ?thesis by auto
  next
    case (Inr r)
    obtain ms q where r: "r = (ms, q)"
      by (cases r)
    from build lev have "(\<exists>bs h' N junk. ?c = Some (Inr (bs, q, h')) \<and> level_holds h' bs ms (set ls \<union> N) \<and> adds h h' N \<and>
          level_slots h' bs ms = junk @ ls \<and> length junk = fl) \<or>
        ?c = Some (Inl Assertion_Failed) \<and> \<not> Ball (set ms) node_invariant"
      unfolding Inr r by simp
    then show ?thesis
    proof
      assume "?c = Some (Inl Assertion_Failed) \<and> \<not> Ball (set ms) node_invariant"
      then show ?thesis
        unfolding Inr r by (auto simp: set_root_def split: list.splits)
    next
      assume "\<exists>bs h' N junk. ?c = Some (Inr (bs, q, h')) \<and> level_holds h' bs ms (set ls \<union> N) \<and> adds h h' N \<and>
          level_slots h' bs ms = junk @ ls \<and> length junk = fl"
      then obtain bs h' N junk where 1: "?c = Some (Inr (bs, q, h'))" "level_holds h' bs ms (set ls \<union> N)"
          "adds h h' N" "level_slots h' bs ms = junk @ ls" "length junk = fl"
        by blast
      have held: "leaves_hold h' ls (leaf_nodes t)"
        using adds_leaves [OF 1(3) assms(3)] assms(6) by simp
      show ?thesis
      proof (cases "set_root t ms")
        case (Inl e)
        with set_root_h_fault [OF 1(2) Inl, of T] 1(1) \<open>?v = Inr r\<close> r show ?thesis by simp
      next
        case (Inr t')
        from set_root_h_holds [OF 1(2,4,5) held assms(7-11) Inr]
        obtain T' where "set_root_h T bs h' = Some (Inr T')" "tree_holds h' T' t' (set ls \<union> N) {}"
            "ht_uninserted T' = []" "tree_destroy_h T' h' = Some (Inr (h' |` (- (set ls \<union> N))))"
          by blast
        with 1(1,3) Inr \<open>?v = Inr r\<close> r show ?thesis by simp blast
      qed
    qed
  qed
qed

lemma restrict_framed:
  assumes "dom h1 = dom h \<union> W" and "W \<inter> dom h = {}" and "\<forall>a\<in>dom h. h1 a = h a"
  shows "h1 |` (- W) = h"
proof
  fix x
  show "(h1 |` (- W)) x = h x"
  proof (cases "x \<in> dom h")
    case True
    with assms(2,3) show ?thesis
      by (auto simp: restrict_map_def)
  next
    case False
    with assms(1) show ?thesis
      by (auto simp: restrict_map_def domIff)
  qed
qed

lemma adds_restrict: "adds h h' N \<Longrightarrow> h' |` (- N) = h"
  by (intro restrict_framed) (auto simp: adds_def)

text \<open>What \<open>deserialise\<close> does after the two numbers.\<close>

lemma read_body:
  assumes "fresh_addr new" and "finite (dom h)" and "fl < 2 ^ 64"
    and "insertion_stack t = []" and "root_node t = Null" and "uninserted_leaf_nodes t = []"
    and "ht_uninserted T = []" and "ht_root T = None" and "ht_stack T = []" and "ht_stats T = stats t"
    and v: "v = res_bind (read_leaves sz bytes k p []) (\<lambda>(leaves, p). res_bind (rebuild_levels sz bytes p fl 0 leaves)
      (\<lambda>(level, p). res_bind (set_root (t\<lparr>num_flushed := fl, leaf_nodes := leaves\<rparr>) level) (\<lambda>t. Inr (t, p))))"
    and c: "c = run_bind (read_leaves_h new sz bytes k p [] h) (\<lambda>(leaves, p, h).
      run_bind (rebuild_levels_h new sz bytes p fl 0 leaves h) (\<lambda>(level, p, h).
      run_bind (set_root_h (T\<lparr>ht_flushed := fl, ht_leaf_nodes := leaves\<rparr>) level h) (\<lambda>T. Some (Inr (T, p, h)))))"
  shows "case v of Inl e \<Rightarrow> \<exists>e'\<in>{e, Assertion_Failed}. c = Some (Inl e')
    | Inr (t', q) \<Rightarrow> \<exists>T' h' N. c = Some (Inr (T', q, h')) \<and> tree_holds h' T' t' N {} \<and> ht_uninserted T' = [] \<and>
        N \<inter> dom h = {} \<and> tree_destroy_h T' h' = Some (Inr h)"
proof -
  note leaves = read_leaves_h_holds [OF assms(1,2), of "[]" "[]" sz bytes k p]
  show ?thesis
  proof (cases "read_leaves sz bytes k p []")
    case (Inl e)
    with leaves have "read_leaves_h new sz bytes k p [] h = Some (Inl e)"
      by simp
    with Inl show ?thesis
      unfolding v c by simp
  next
    case (Inr r)
    obtain ns p1 where r: "r = (ns, p1)"
      by (cases r)
    obtain ls ys h1 where 1: "read_leaves_h new sz bytes k p [] h = Some (Inr (ls, p1, h1))" "ns = map node_make ys"
        "leaves_hold h1 ls (map node_make ys)" "distinct ls" "adds h h1 (set ls)"
      using leaves Inr r by auto
    let ?t = "t\<lparr>num_flushed := fl, leaf_nodes := map node_make ys\<rparr>" and ?T = "T\<lparr>ht_flushed := fl, ht_leaf_nodes := ls\<rparr>"
    have T: "?T = \<lparr>ht_leaf_nodes = ls, ht_uninserted = [], ht_flushed = fl, ht_root = None, ht_stack = [], ht_stats = stats ?t\<rparr>"
      using assms(7-10) by (cases T) simp
    have v1: "v = res_bind (rebuild_levels sz bytes p1 fl 0 (map node_make ys)) (\<lambda>(level, q).
        res_bind (set_root ?t level) (\<lambda>t. Inr (t, q)))"
      unfolding v Inr r 1(2) by simp
    have c1: "c = run_bind (rebuild_levels_h new sz bytes p1 fl 0 ls h1)
        (\<lambda>(level, q, h). run_bind (set_root_h ?T level h) (\<lambda>T. Some (Inr (T, q, h))))"
      unfolding c 1(1) by simp
    have "leaf_nodes ?t = map node_make ys" "num_flushed ?t = fl" "insertion_stack ?t = []" "root_node ?t = Null"
        "uninserted_leaf_nodes ?t = []"
      using assms(4-6) by simp_all
    note built = levels_read [OF assms(1) adds_finite [OF 1(5) assms(2)] 1(3,4) assms(3) this T, of sz bytes p1,
        folded v1 c1]
    show ?thesis
    proof (cases v)
      case (Inl e)
      with built show ?thesis by simp
    next
      case (Inr w)
      obtain t' q where w: "w = (t', q)"
        by (cases w)
      obtain T' h' N where 2: "c = Some (Inr (T', q, h'))" "tree_holds h' T' t' (set ls \<union> N) {}" "ht_uninserted T' = []"
          "adds h1 h' N" "tree_destroy_h T' h' = Some (Inr (h' |` (- (set ls \<union> N))))"
        using built unfolding Inr w by auto
      have add: "adds h h' (set ls \<union> N)"
        using adds_trans(1) [OF 1(5) 2(4)] .
      then have "tree_destroy_h T' h' = Some (Inr h)"
        using 2(5) adds_restrict by metis
      with 2(1-3) addsD(2) [OF add] show ?thesis
        unfolding Inr w by auto
    qed
  qed
qed

lemma cleared_heap:
  assumes "tree_holds h U u Fu Gu" and "tree_inv hu u ys"
  obtains h1 where "node_delete (ht_root U) h = Some (Inr h1)"
    "delete_all (ht_uninserted U) h1 = Some (Inr (h |` (- ht_owned U Fu {})))"
  using tree_destroy_h_holds [OF assms] that by (auto simp: tree_destroy_h_def run_bind_Inr_iff ht_owned_def)

text \<open>Once the old nodes are freed.\<close>

lemma cleared_read:
  assumes "fresh_addr new" and "finite (dom h0)" and "ht_stats U = stats u"
    and del: "node_delete (ht_root U) h = Some (Inr h1)" "delete_all (ht_uninserted U) h1 = Some (Inr h0)"
  shows "case tree_deserialise sz cap bytes position u of
      Inl e \<Rightarrow> \<exists>e'\<in>{e, Assertion_Failed}. tree_deserialise_h new sz cap bytes position U h = Some (Inl e')
    | Inr (t, p) \<Rightarrow> \<exists>T h' F. tree_deserialise_h new sz cap bytes position U h = Some (Inr (T, p, h')) \<and>
        tree_holds h' T t F {} \<and> ht_uninserted T = [] \<and> F \<inter> dom h0 = {} \<and> tree_destroy_h T h' = Some (Inr h0)"
proof -
  let ?u = "u\<lparr>leaf_nodes := [], uninserted_leaf_nodes := [], insertion_stack := [], root_node := Null\<rparr>"
  let ?U = "U\<lparr>ht_leaf_nodes := [], ht_uninserted := [], ht_stack := [], ht_root := None\<rparr>"
  let ?v = "tree_deserialise sz cap bytes position u" and ?c = "tree_deserialise_h new sz cap bytes position U h"
  show ?thesis
  proof (cases "deserialise_uint64_t bytes position")
    case (Inl e)
    with del show ?thesis
      by (simp add: tree_deserialise_def tree_deserialise_h_def Let_def)
  next
    case (Inr r1)
    then obtain num p1 where 1: "deserialise_uint64_t bytes position = Inr (num, p1)"
      by (cases r1) simp
    show ?thesis
    proof (cases "deserialise_uint64_t bytes p1")
      case (Inl e)
      with del 1 show ?thesis
        by (simp add: tree_deserialise_def tree_deserialise_h_def Let_def)
    next
      case (Inr r2)
      then obtain fl p2 where 2: "deserialise_uint64_t bytes p1 = Inr (fl, p2)"
        by (cases r2) simp
      show ?thesis
      proof (cases "cap < unat num")
        case True
        with del 1 2 show ?thesis
          by (simp add: tree_deserialise_def tree_deserialise_h_def Let_def)
      next
        case False
        have v: "?v = res_bind (read_leaves sz bytes (unat num) p2 []) (\<lambda>(leaves, p).
            res_bind (rebuild_levels sz bytes p (unat fl) 0 leaves) (\<lambda>(level, p).
            res_bind (set_root (?u\<lparr>num_flushed := unat fl, leaf_nodes := leaves\<rparr>) level) (\<lambda>t. Inr (t, p))))"
          using 1 2 False by (simp add: tree_deserialise_def Let_def)
        have c: "?c = run_bind (read_leaves_h new sz bytes (unat num) p2 [] h0) (\<lambda>(leaves, p, h).
            run_bind (rebuild_levels_h new sz bytes p (unat fl) 0 leaves h) (\<lambda>(level, p, h).
            run_bind (set_root_h (?U\<lparr>ht_flushed := unat fl, ht_leaf_nodes := leaves\<rparr>) level h) (\<lambda>T. Some (Inr (T, p, h)))))"
          using del 1 2 False by (simp add: tree_deserialise_h_def Let_def)
        have "unat fl < 2 ^ 64"
          using unsigned_less [of fl] by simp
        from read_body [OF assms(1,2) this _ _ _ _ _ _ _ v c]
        have body: "case ?v of Inl e \<Rightarrow> \<exists>e'\<in>{e, Assertion_Failed}. ?c = Some (Inl e')
          | Inr (t', q) \<Rightarrow> \<exists>T' h' N. ?c = Some (Inr (T', q, h')) \<and> tree_holds h' T' t' N {} \<and>
              ht_uninserted T' = [] \<and> N \<inter> dom h0 = {} \<and> tree_destroy_h T' h' = Some (Inr h0)"
          using assms(3) by simp
        then show ?thesis .
      qed
    qed
  qed
qed

text \<open>C17: \<open>deserialise\<close> over nodes with addresses does what it does on trees as values: on every input
  that the model of trees accepts it returns the same tree, with the indices that have not been flushed
  leading to its leaves, and on every other input it ends with the same fault, or an assertion
  fails. Such a fault is an exception, an assertion, or undefined behaviour: input that ends within the
  header is read past its end (\<open>Undefined_Read\<close>), and \<open>2 ^ 30\<close> or more flushed leaves
  make \<open>(1 << height) - 1\<close> leave the range of \<open>int\<close> (\<open>Int_Overflow\<close>), so the tree returned
  has fewer flushed leaves. Before it reads
  it frees the nodes below the old root and the old pending leaves, each once. The new tree consists of new
  nodes only, and destroying it leaves the heap without the nodes that were freed: those of an
  unfinished insertion stack are still there.\<close>

theorem heap_deserialise:
  assumes "fresh_addr new" and "finite (dom h)" and "tree_holds h U u Fu Gu" and "tree_inv hu u ys"
  shows "case tree_deserialise sz cap bytes position u of
      Inl e \<Rightarrow> \<exists>e'\<in>{e, Assertion_Failed}. tree_deserialise_h new sz cap bytes position U h = Some (Inl e')
    | Inr (t, p) \<Rightarrow> \<exists>T h' F. tree_deserialise_h new sz cap bytes position U h = Some (Inr (T, p, h')) \<and>
        tree_holds h' T t F {} \<and> ht_uninserted T = [] \<and> F \<inter> (dom h - ht_owned U Fu {}) = {} \<and>
        tree_destroy_h T h' = Some (Inr (h |` (- ht_owned U Fu {}))) \<and> num_flushed t < 2 ^ 30"
proof -
  let ?h = "h |` (- ht_owned U Fu {})"
  obtain h1 where del: "node_delete (ht_root U) h = Some (Inr h1)" "delete_all (ht_uninserted U) h1 = Some (Inr ?h)"
    using cleared_heap [OF assms(3,4)] .
  have "ht_stats U = stats u"
    using inner_holdsD(7) [OF tree_holdsD(1) [OF assms(3)]] .
  moreover have "finite (dom ?h)"
    using assms(2) by (simp add: dom_restrict)
  moreover have "dom ?h = dom h - ht_owned U Fu {}"
    by (auto simp: restrict_map_def split: if_splits)
  ultimately have "case tree_deserialise sz cap bytes position u of
      Inl e \<Rightarrow> \<exists>e'\<in>{e, Assertion_Failed}. tree_deserialise_h new sz cap bytes position U h = Some (Inl e')
    | Inr (t, p) \<Rightarrow> \<exists>T h' F. tree_deserialise_h new sz cap bytes position U h = Some (Inr (T, p, h')) \<and>
        tree_holds h' T t F {} \<and> ht_uninserted T = [] \<and> F \<inter> (dom h - ht_owned U Fu {}) = {} \<and>
        tree_destroy_h T h' = Some (Inr ?h)"
    using cleared_read [OF assms(1) _ _ del] by (simp only:)
  then show ?thesis
    using tree_deserialise_flushed [where u = u] by (fastforce split: sum.splits)
qed

theorem heap_deserialise_witness:
  "\<exists>T h' F t. tree_deserialise_h (\<lambda>h. Suc (Max (insert 0 (dom h)))) 1 100
      (tree_bytes (\<lambda>a b. [hd a + 2 * hd b]) [[1], [2], [3]] 1) 0 htree_empty Map.empty =
      Some (Inr (T, length (tree_bytes (\<lambda>a b. [hd a + 2 * hd b]) [[1], [2], [3 :: u8]] 1), h')) \<and>
    tree_holds h' T t F {} \<and> tree_inv (\<lambda>a b. [hd a + 2 * hd b]) t [[1], [2], [3]] \<and> num_flushed t = 1 \<and>
    tree_destroy_h T h' = Some (Inr Map.empty)"
proof -
  let ?hf = "\<lambda>a b. [hd a + 2 * hd b] :: hash"
  let ?bs = "tree_bytes ?hf [[1], [2], [3]] 1"
  have xs: "(1 :: nat) = 0 \<or> 1 < length [[1], [2], [3 :: u8]]" "length [[1], [2], [3 :: u8]] \<le> max_leaves"
      "length [[1], [2], [3 :: u8]] \<le> 100" "\<forall>x\<in>set [[1], [2], [3 :: u8]]. length x = 1" "\<forall>a b. length (?hf a b) = 1"
    by (simp_all add: max_leaves_def)
  have "length ?bs \<le> 16 + length [[1], [2], [3 :: u8]] * 1 + 64 * 1"
    by (rule tree_bytes_bound [OF xs(4,5) _ xs(2)]) simp
  then have "length ?bs < 2 ^ 64"
    by simp
  then obtain t where t: "tree_deserialise 1 100 ?bs 0 tree_empty = Inr (t, length ?bs)"
      "tree_inv ?hf t [[1], [2], [3]]" "num_flushed t = 1"
    using tree_deserialise_ok [OF xs, of 0 ?bs "[]" tree_empty] by auto
  have "ht_owned htree_empty {} {} = {}"
    by (simp add: ht_owned_def htree_empty_def)
  with heap_deserialise [OF fresh_addr_example _ empty_tree_holds tree_inv_empty, of Map.empty 1 100 ?bs 0] t
  show ?thesis
    by auto
qed

end
