(* ===== verification/Merkle_Heap_Life.thy ===== *)
theory Merkle_Heap_Life
  imports Merkle_Heap_Read
begin

text \<open>
  Copies, assignments and moves of trees with addresses (\<open>include/merklecpp.h\<close>). A copy owns its
  nodes. \<open>operator=\<close> overwrites \<open>_root\<close> without freeing what is below, and of a tree to itself it drops the pending
  leaves; \<open>size\<close> leaves nodes that
  only the insertion stack leads to and that the destructor does not free, and the move
  constructor leaves \<open>_root\<close> in the tree it moves from, whose destructor frees its nodes again.
\<close>

section \<open>Examples\<close>

abbreviation next_addr :: "nheap \<Rightarrow> addr" where
  "next_addr h \<equiv> Suc (Max (insert 0 (dom h)))"

abbreviation pair_hash :: "hash \<Rightarrow> hash \<Rightarrow> hash" where
  "pair_hash a b \<equiv> a @ b"

text \<open>A tree with a root, as \<open>root\<close> leaves it.\<close>

lemma rooted_example:
  obtains T t h F where "run_ops (tree_step_h next_addr pair_hash 1) [Insert [1], Insert [2], Root]
      (htree_empty, Map.empty) = Inr (T, h)"
    "finite (dom h)" "tree_holds h T t F {}" "tree_inv pair_hash t [[1], [2]]" "ht_root T \<noteq> None"
proof -
  let ?new = next_addr and ?hf = "\<lambda>a b :: hash. a @ b"
  have rel: "heap_related ?new Map.empty ?hf (length [Insert [1], Insert [2]] + 1) (htree_empty, Map.empty) ([], 0)"
    by (rule heap_related_empty [OF fresh_addr_example]) (simp_all add: max_leaves_def)
  have run: "run_ops (leaves_step ?hf) [Insert [1], Insert [2]] ([], 0) = Inr ([[1], [2]], 0)"
    by simp
  from heap_sim.same_end [OF rel run, where sz = 1] obtain T0 h0
    where 0: "run_ops (tree_step_h ?new ?hf 1) [Insert [1], Insert [2]] (htree_empty, Map.empty) = Inr (T0, h0)"
      and 1: "heap_related ?new Map.empty ?hf 1 (T0, h0) ([[1], [2]], 0)"
    by auto
  from 1 obtain t0 F0 where t0: "tree_holds h0 T0 t0 F0 {}" "tree_inv ?hf t0 [[1], [2]]" "finite (dom h0)"
    using heap_related_finite [of Map.empty] by (fastforce simp: heap_related_def tree_related_def)
  obtain T t h F where r: "tree_root_h ?new ?hf 1 T0 h0 = Some (Inr (merkle_root ?hf [[1], [2]], T, h))"
      "tree_root ?hf 1 t0 = Inr (merkle_root ?hf [[1], [2]], t)" "tree_holds h T t F {}" "ht_uninserted T = []"
      "heap_step h0 h (F0 \<union> {} \<union> set (ht_uninserted T0)) F"
    using tree_root_h_holds [OF fresh_addr_example t0(3,1,2)] by blast
  have c: "completed ?hf t [[1], [2]]"
    using tree_root_ok [OF t0(2), of 1] r(2) by auto
  have "ht_root T \<noteq> None"
    using completedD(1) [OF c] holds_Null_iff [OF inner_holdsD(1) [OF tree_holdsD(1) [OF r(3)]]]
    by (cases "root_node t") auto
  moreover have "run_ops (tree_step_h ?new ?hf 1) [Insert [1], Insert [2], Root] (htree_empty, Map.empty) = Inr (T, h)"
    using 0(1) r(1) by (auto simp: res_bind_Inr_iff tree_step_h_def answer_of_h_def)
  ultimately show thesis
    using that r(3) completed_tree_inv [OF c] heap_step_finite [OF r(5) t0(3)] by blast
qed

section \<open>Copies\<close>

lemma tree_destroy_owned:
  assumes "tree_holds h T t F {}" and "tree_inv hf t xs"
  shows "tree_destroy_h T h = Some (Inr (h |` (- ht_owned T F {})))"
  using tree_destroy_h_holds [OF assms] by (simp add: ht_owned_def)

lemma tree_holds_stack_empty: "tree_holds h T t F {} \<Longrightarrow> ht_stack T = []"
  using inner_holdsD(2) [OF tree_holdsD(1)] by (cases "ht_stack T"; cases "insertion_stack t") fastforce+

lemma tree_holds_cong:
  assumes "tree_holds h T t F G" and "\<And>a. a \<in> ht_owned T F G \<Longrightarrow> h' a = h a"
  shows "tree_holds h' T t F G"
proof -
  note td = tree_holdsD [OF assms(1)]
  have "inner_holds h' T t F G"
    using assms(2) by (intro inner_holds_cong [OF td(1)]) (auto simp: ht_owned_def)
  moreover have "leaves_hold h' (ht_uninserted T) (uninserted_leaf_nodes t)"
    using assms(2) by (intro leaves_hold_cong [OF td(2)]) (auto simp: ht_owned_def)
  ultimately show ?thesis
    using td(3,4) by (simp add: tree_holds_def)
qed

text \<open>C16: the copy constructor makes a deep copy of a tree whose insertion stack is empty, as it is after
  every operation that computes the root. The copy holds the leaves, the pending leaves, the nodes and the number
  of flushed leaves of the original in nodes of its own: destroying the copy gives back the heap
  from before, and when the original is destroyed first the copy is still complete. Without the
  hypothesis the claim fails: after \<open>size\<close> the stack may hold nodes, and then the copy lacks leaves and an
  assertion fails (\<open>tree_copy_unfinished\<close>).\<close>

theorem copied_tree_owns_its_nodes:
  assumes "fresh_addr new" and "finite (dom h)" and "tree_holds h T t F G" and "tree_inv hf t xs"
    and "ht_stack T = []"
  shows "\<exists>C h1 h2 F'. tree_copy_h new T h = Some (Inr (C, h1)) \<and>
    tree_holds h1 C (t\<lparr>stats := stats tree_empty\<rparr>) F' {} \<and> tree_destroy_h C h1 = Some (Inr h) \<and>
    tree_destroy_h T h1 = Some (Inr h2) \<and> tree_holds h2 C (t\<lparr>stats := stats tree_empty\<rparr>) F' {}"
proof -
  have un: "ht_uninserted htree_empty = []"
    by (simp add: htree_empty_def)
  have T: "tree_holds h T t F {}"
    using assms(3,5) inner_holdsD(2) [OF tree_holdsD(1) [OF assms(3)]] by simp
  obtain C h1 F' where c: "tree_assign_h new htree_empty T h = Some (Inr (C, h1))"
      "tree_holds h1 C (t\<lparr>stats := stats tree_empty\<rparr>) F' {}" "(F' \<union> set (ht_uninserted C)) \<inter> dom h = {}"
      "dom h1 = dom h \<union> F' \<union> set (ht_uninserted C)" "\<forall>a\<in>dom h. h1 a = h a"
    using tree_assign_h_holds [OF assms(1,2) empty_tree_holds tree_inv_empty assms(3-5)] un by auto
  have inv: "tree_inv hf (t\<lparr>stats := stats tree_empty\<rparr>) xs"
    using assms(4) by simp
  have own: "ht_owned C F' {} = F' \<union> set (ht_uninserted C)"
    by (simp add: ht_owned_def)
  have "h1 |` (- ht_owned C F' {}) = h"
    using c(3-5) unfolding own by (intro restrict_framed) auto
  then have "tree_destroy_h C h1 = Some (Inr h)"
    using tree_destroy_owned [OF c(2) inv] by simp
  moreover have sub: "ht_owned T F {} \<subseteq> dom h"
    by (rule owned_subset [OF T])
  then have "tree_holds h1 T t F {}"
    using c(5) by (intro tree_holds_cong [OF T]) blast
  then have "tree_destroy_h T h1 = Some (Inr (h1 |` (- ht_owned T F {})))"
    by (rule tree_destroy_owned [OF _ assms(4)])
  moreover have "tree_holds (h1 |` (- ht_owned T F {})) C (t\<lparr>stats := stats tree_empty\<rparr>) F' {}"
  proof (rule tree_holds_cong [OF c(2)])
    fix a
    assume "a \<in> ht_owned C F' {}"
    then have "a \<notin> ht_owned T F {}"
      using c(3) sub unfolding own by blast
    then show "(h1 |` (- ht_owned T F {})) a = h1 a"
      by (simp add: restrict_map_def)
  qed
  ultimately show ?thesis
    using c(1,2) by (auto simp: tree_copy_h_def)
qed

theorem copied_tree_owns_its_nodes_witness:
  "\<exists>T h C h1 h2. run_ops (tree_step_h next_addr pair_hash 1) [Insert [1], Insert [2], Root]
      (htree_empty, Map.empty) = Inr (T, h) \<and> tree_copy_h next_addr T h = Some (Inr (C, h1)) \<and>
     tree_destroy_h C h1 = Some (Inr h) \<and> tree_destroy_h T h1 = Some (Inr h2)"
proof (rule rooted_example)
  fix T t h F
  assume ex: "run_ops (tree_step_h next_addr pair_hash 1) [Insert [1], Insert [2], Root] (htree_empty, Map.empty) = Inr (T, h)"
    "finite (dom h)" "tree_holds h T t F {}" "tree_inv pair_hash t [[1], [2]]"
  with copied_tree_owns_its_nodes [OF fresh_addr_example ex(2-4) tree_holds_stack_empty [OF ex(3)]]
  show ?thesis
    by blast
qed

section \<open>Moves\<close>

lemma rooted_owned:
  assumes "tree_holds h T t F G" and "ht_root T = Some a"
  shows "a \<in> F"
  using inner_holdsD(1) [OF tree_holdsD(1) [OF assms(1)]] unfolding assms(2) by (auto simp: holds_Some)

lemma tree_move_owned:
  assumes "tree_holds h T t F {}" and "tree_inv hf t xs" and "tree_move_h T = (moved, old)"
  shows "tree_destroy_h moved h = Some (Inr (h |` (- ht_owned T F {})))"
    and "tree_destroy_h old h = Some (Inr (h |` (- F)))"
    and "ht_root moved = ht_root T" and "ht_root old = ht_root T"
proof -
  have m: "moved = T\<lparr>ht_stats := stats tree_empty\<rparr>"
      "old = T\<lparr>ht_leaf_nodes := [], ht_uninserted := [], ht_stack := []\<rparr>"
    using assms(3) by (simp_all add: tree_move_h_def)
  obtain zs where ins: "inserted hf t zs"
    using assms(2) by (auto simp: tree_inv_def)
  show "tree_destroy_h moved h = Some (Inr (h |` (- ht_owned T F {})))"
    using tree_destroy_owned [OF assms(1,2)] by (simp add: m(1) tree_destroy_h_def)
  show "tree_destroy_h old h = Some (Inr (h |` (- F)))"
    using node_delete_holds [OF inner_holdsD(1) [OF tree_holdsD(1) [OF assms(1)]] inserted_root_invariant [OF ins]]
    by (simp add: m(2) tree_destroy_h_def)
qed (use assms(3) in \<open>auto simp: tree_move_h_def\<close>)

lemma tree_destroy_dangling:
  assumes "ht_root T = Some a" and "h a = None"
  shows "tree_destroy_h T h = Some (Inl Undefined_Read)"
  using node_delete_dangling [of h a, OF assms(2)] by (simp add: tree_destroy_h_def assms(1))

text \<open>C37: the move constructor copies the pointer \<open>_root\<close> and does not clear it in the tree it moves
  from, which C++ does not do for a raw pointer. Both trees then free the nodes below it: whichever
  destructor runs first, the second one reads a node that has been freed.\<close>

theorem moved_tree_destroyed_twice:
  assumes "tree_holds h T t F {}" and "tree_inv hf t xs" and "ht_root T \<noteq> None"
    and "tree_move_h T = (moved, old)"
  shows "\<exists>h1 h2. tree_destroy_h moved h = Some (Inr h1) \<and> tree_destroy_h old h1 = Some (Inl Undefined_Read) \<and>
    tree_destroy_h old h = Some (Inr h2) \<and> tree_destroy_h moved h2 = Some (Inl Undefined_Read)"
proof -
  note mv = tree_move_owned [OF assms(1,2,4)]
  obtain a where a: "ht_root T = Some a"
    using assms(3) by auto
  have "a \<in> F"
    using rooted_owned [OF assms(1) a] .
  then have "(h |` (- ht_owned T F {})) a = None" "(h |` (- F)) a = None"
    by (simp_all add: ht_owned_def)
  then show ?thesis
    using mv a tree_destroy_dangling by metis
qed

theorem moved_tree_destroyed_twice_witness:
  "\<exists>T h h1 h2. run_ops (tree_step_h next_addr pair_hash 1) [Insert [1], Insert [2], Root]
      (htree_empty, Map.empty) = Inr (T, h) \<and>
     tree_destroy_h (fst (tree_move_h T)) h = Some (Inr h1) \<and>
     tree_destroy_h (snd (tree_move_h T)) h1 = Some (Inl Undefined_Read) \<and>
     tree_destroy_h (snd (tree_move_h T)) h = Some (Inr h2) \<and>
     tree_destroy_h (fst (tree_move_h T)) h2 = Some (Inl Undefined_Read)"
proof (rule rooted_example)
  fix T t h F
  assume "run_ops (tree_step_h next_addr pair_hash 1) [Insert [1], Insert [2], Root] (htree_empty, Map.empty) = Inr (T, h)"
    "tree_holds h T t F {}" "tree_inv pair_hash t [[1], [2]]" "ht_root T \<noteq> None"
  with moved_tree_destroyed_twice [where moved = "fst (tree_move_h T)" and old = "snd (tree_move_h T)"]
  show ?thesis
    by (metis surjective_pairing)
qed

section \<open>Leaks\<close>

text \<open>C38: \<open>operator=\<close> overwrites \<open>_root\<close> and clears the insertion stack without deleting the nodes they
  lead to. After the assignment and the destructor of the tree that was assigned to, the nodes it had
  before the assignment are still allocated; only its pending leaves have been freed.\<close>

theorem assigned_tree_leaks:
  assumes "fresh_addr new" and "finite (dom h)"
    and "tree_holds h U u Fu Gu" and "tree_inv hu u ys" and "tree_holds h T t F {}" and "tree_inv hf t xs"
    and "ht_owned U Fu Gu \<inter> ht_owned T F {} = {}"
  shows "\<exists>C h1 h2. tree_assign_h new U T h = Some (Inr (C, h1)) \<and> tree_destroy_h C h1 = Some (Inr h2) \<and>
    h2 = h |` (- set (ht_uninserted U)) \<and> Fu \<union> Gu \<subseteq> dom h2"
proof -
  let ?P = "set (ht_uninserted U)"
  have apart: "?P \<inter> (F \<union> set (ht_uninserted T)) = {}"
    using assms(7) unfolding ht_owned_def by blast
  from tree_assign_h_holds [OF assms(1-6) tree_holds_stack_empty [OF assms(5)] apart]
  obtain C h1 F' where c: "tree_assign_h new U T h = Some (Inr (C, h1))"
      "tree_holds h1 C (t\<lparr>stats := stats u\<rparr>) F' {}" "(F' \<union> set (ht_uninserted C)) \<inter> (dom h - ?P) = {}"
      "dom h1 = (dom h - ?P) \<union> F' \<union> set (ht_uninserted C)" "\<forall>a\<in>dom h - ?P. h1 a = h a"
    by blast
  have own: "ht_owned C F' {} = F' \<union> set (ht_uninserted C)"
    by (simp add: ht_owned_def)
  have d: "dom (h |` (- ?P)) = dom h - ?P" "\<And>a. a \<in> dom h - ?P \<Longrightarrow> (h |` (- ?P)) a = h a"
    by (auto simp: restrict_map_def domIff split: if_splits)
  have "h1 |` (- ht_owned C F' {}) = h |` (- ?P)"
  proof (rule restrict_framed)
    show "dom h1 = dom (h |` (- ?P)) \<union> ht_owned C F' {}"
      using c(4) unfolding d(1) own by blast
    show "ht_owned C F' {} \<inter> dom (h |` (- ?P)) = {}"
      using c(3) unfolding d(1) own .
    show "\<forall>a\<in>dom (h |` (- ?P)). h1 a = (h |` (- ?P)) a"
      using c(5) d by metis
  qed
  moreover have "tree_inv hf (t\<lparr>stats := stats u\<rparr>) xs"
    using assms(6) by simp
  ultimately have "tree_destroy_h C h1 = Some (Inr (h |` (- ?P)))"
    using tree_destroy_owned [OF c(2)] by simp
  moreover have "Fu \<union> Gu \<subseteq> dom (h |` (- ?P))"
    using inner_holds_subset [OF tree_holdsD(1) [OF assms(3)]] tree_holdsD(4) [OF assms(3)] unfolding d(1) by blast
  ultimately show ?thesis
    using c(1) by blast
qed

theorem assigned_tree_leaks_witness:
  "\<exists>T h C h1 h2. run_ops (tree_step_h next_addr pair_hash 1) [Insert [1], Insert [2], Root]
      (htree_empty, Map.empty) = Inr (T, h) \<and> tree_assign_h next_addr T htree_empty h = Some (Inr (C, h1)) \<and>
     tree_destroy_h C h1 = Some (Inr h2) \<and> h2 \<noteq> Map.empty"
proof (rule rooted_example)
  fix T t h F
  assume run: "run_ops (tree_step_h next_addr pair_hash 1) [Insert [1], Insert [2], Root] (htree_empty, Map.empty) = Inr (T, h)"
    and fin: "finite (dom h)" and T: "tree_holds h T t F {}" "tree_inv pair_hash t [[1], [2]]" "ht_root T \<noteq> None"
  have "ht_owned T F {} \<inter> ht_owned htree_empty {} {} = {}"
    by (simp add: ht_owned_def htree_empty_def)
  from assigned_tree_leaks [OF fresh_addr_example fin T(1,2) empty_tree_holds tree_inv_empty this]
  obtain C h1 h2 where c: "tree_assign_h next_addr T htree_empty h = Some (Inr (C, h1))"
      "tree_destroy_h C h1 = Some (Inr h2)" "F \<subseteq> dom h2"
    by auto
  moreover have "F \<noteq> {}"
    using rooted_owned [OF T(1)] T(3) by auto
  ultimately have "h2 \<noteq> Map.empty"
    by auto
  with run c show ?thesis
    by blast
qed

text \<open>Assigning a tree to itself drops its pending leaves, and the nodes it had are never freed.\<close>

theorem self_assignment_loses_leaves:
  assumes "fresh_addr new" and "finite (dom h)" and "tree_holds h T t F {}" and "tree_inv hf t xs"
  shows "\<exists>C h' F'. tree_assign_self_h new T h = Some (Inr (C, h')) \<and>
    tree_holds h' C (t\<lparr>uninserted_leaf_nodes := []\<rparr>) F' {} \<and>
    dom h' = (dom h - set (ht_uninserted T)) \<union> F' \<and> F \<union> F' \<subseteq> dom h' \<and> F \<inter> F' = {}"
proof -
  let ?P = "set (ht_uninserted T)" and ?t = "t\<lparr>uninserted_leaf_nodes := []\<rparr>"
  note td = tree_holdsD [OF assms(3)]
  note id = inner_holdsD [OF td(1)]
  define h1 where "h1 = h |` (- ?P)"
  obtain zs ys where ins: "inserted hf t zs" and un: "uninserted_leaf_nodes t = map node_make ys"
    using assms(4) by (auto simp: tree_inv_def)
  have del: "delete_all (ht_uninserted T) h = Some (Inr h1)"
    using delete_all_leaves td(2,3) un unfolding h1_def by metis
  have h1: "dom h1 = dom h - ?P" "\<And>a. a \<notin> ?P \<Longrightarrow> h1 a = h a"
    by (auto simp: h1_def restrict_map_def dom_def)
  have nil: "insertion_stack t = []"
    using id(2) tree_holds_stack_empty [OF assms(3)] by simp
  have "holds h1 (ht_root T) (root_node t) F"
    using td(4) h1(2) by (intro holds_cong [OF id(1)]) blast
  then obtain q as h2 F' where 2: "copy_node_h new (ht_root T) (Some ([], if num_flushed t mod 2 = 0 then 0 else 1)) h1 =
      Some (Inr (q, Some as, h2))" "holds h2 q (root_node t) F'"
      "fst as = drop (num_flushed t) (slots h2 q (root_node t))" "leaves_hold h2 (fst as) (leaf_nodes t)"
      "F' \<inter> dom h1 = {}" "dom h2 = dom h1 \<union> F'" "\<forall>a\<in>dom h1. h2 a = h1 a"
    using copy_root_holds [OF assms(1) _ ins nil] h1(1) assms(2) by (metis finite_Diff)
  let ?C = "T\<lparr>ht_leaf_nodes := fst as, ht_uninserted := [], ht_stack := [], ht_root := q\<rparr>"
  have "inner_holds h2 ?C ?t F' {}"
    using 2(2-4) nil id(6,7) by (simp add: inner_holds_def ht_slots_def right_turns_def)
  then have "tree_holds h2 ?C ?t F' {}"
    by (simp add: tree_holds_def)
  moreover have "tree_assign_self_h new T h = Some (Inr (?C, h2))"
    using del 2(1) id(6) by (simp add: tree_assign_self_h_def Let_def)
  moreover have "F \<subseteq> dom h1"
    using td(4) inner_holds_subset(1) [OF td(1)] h1(1) by blast
  ultimately show ?thesis
    using 2(5,6) h1(1) by (intro exI [of _ ?C] exI [of _ h2] exI [of _ F']) blast
qed

text \<open>A sequence of insertions, with the tree it leaves.\<close>

lemma insert_run:
  assumes "fresh_addr new"
  shows "tree_holds h T t F {} \<Longrightarrow> finite (dom h) \<Longrightarrow> framed h0 h {} (ht_owned T F {}) \<Longrightarrow>
    \<exists>T' h'. run_ops (tree_step_h new hf sz) (map Insert xs) (T, h) = Inr (T', h') \<and>
      tree_holds h' T' (tree_insert_list xs t) F {} \<and> finite (dom h') \<and> framed h0 h' {} (ht_owned T' F {})"
proof (induction xs arbitrary: T h t)
  case Nil
  then show ?case
    by (simp add: tree_insert_list_def)
next
  case (Cons x xs)
  obtain T1 h1 where 1: "tree_insert_h new x T h = Some (Inr (T1, h1))" "tree_holds h1 T1 (tree_insert x t) F {}"
      "heap_step h h1 (F \<union> {} \<union> set (ht_uninserted T)) (F \<union> {} \<union> set (ht_uninserted T1))"
    using tree_insert_h_holds [OF assms Cons.prems(2,1)] by blast
  have "framed h h1 (ht_owned T F {}) (ht_owned T1 F {})"
    using heap_step_framed [OF 1(3)] owned_subset [OF Cons.prems(1)] by (simp add: ht_owned_def)
  with Cons.prems(3) have "framed h0 h1 {} (ht_owned T1 F {})"
    by (rule framed_trans)
  from Cons.IH [OF 1(2) heap_step_finite [OF 1(3) Cons.prems(2)] this]
  show ?case
    using 1(1) by (simp add: tree_step_h_def tree_insert_list_def)
qed

lemma holds_stack_empty: "holds_stack h p st vst G \<Longrightarrow> G = {} \<longleftrightarrow> vst = []"
  by (cases st; cases vst) auto

lemma tree_inv_size:
  assumes "tree_inv hf t xs" and "tree_size sz t = Inr (n, t')"
  shows "tree_inv hf t' xs"
proof (cases "uninserted_leaf_nodes t = []")
  case True
  with assms show ?thesis
    by (simp add: tree_size_def)
next
  case False
  obtain t1 where 1: "insert_leaves sz False t = Inr t1" "inserted hf t1 xs" "uninserted_leaf_nodes t1 = []"
    using insert_leaves_pending [OF assms(1)] by blast
  then have "t' = t1"
    using False assms(2) by (simp add: tree_size_def split: if_splits)
  moreover have "length xs \<le> max_leaves"
    using assms(1) by (simp add: tree_inv_def)
  ultimately show ?thesis
    using 1(2,3) by (auto simp: tree_inv_def)
qed

text \<open>The destructor frees the nodes below \<open>_root\<close> and the pending leaves. After \<open>size\<close>, which
  inserts the pending leaves without completing the insertion stack, \<open>_root\<close> leads to the last part of the
  tree only: the nodes on the stack and what is below them stay allocated when the tree is destroyed.
  The heap from before the tree was built is restored if and only if the stack is empty.\<close>

theorem size_leaks_stack:
  assumes "fresh_addr new" and "finite (dom h0)" and "length xs \<le> max_leaves"
    and "tree_size sz (tree_insert_list xs tree_empty) = Inr (n, t)"
  shows "\<exists>T h T' h' h''. run_ops (tree_step_h new hf sz) (map Insert xs) (htree_empty, h0) = Inr (T, h) \<and>
    tree_size_h new sz T h = Some (Inr (n, T', h')) \<and> tree_destroy_h T' h' = Some (Inr h'') \<and>
    (h'' = h0 \<longleftrightarrow> insertion_stack t = [])"
proof -
  have "ht_owned htree_empty {} {} = {}"
    by (simp add: ht_owned_def htree_empty_def)
  then obtain T h where T: "run_ops (tree_step_h new hf sz) (map Insert xs) (htree_empty, h0) = Inr (T, h)"
      "tree_holds h T (tree_insert_list xs tree_empty) {} {}" "finite (dom h)" "framed h0 h {} (ht_owned T {} {})"
    using insert_run [OF assms(1) empty_tree_holds assms(2), of h0 hf sz xs] by auto
  have inv: "tree_inv hf (tree_insert_list xs tree_empty) xs"
    using tree_inv_insert_list [OF tree_inv_empty, of xs hf] assms(3) by simp
  obtain T' h' F' G' where size: "tree_size_h new sz T h = Some (Inr (n, T', h'))" "tree_holds h' T' t F' G'"
      "heap_step h h' ({} \<union> {} \<union> set (ht_uninserted T)) (F' \<union> G' \<union> set (ht_uninserted T'))"
    using tree_size_h_holds [OF assms(1) T(3,2) inv, of sz] unfolding assms(4) by auto
  let ?P = "F' \<union> set (ht_uninserted T')"
  have destroy: "tree_destroy_h T' h' = Some (Inr (h' |` (- ?P)))"
    by (rule tree_destroy_h_holds [OF size(2) tree_inv_size [OF inv assms(4)]])
  have "framed h h' (ht_owned T {} {}) (ht_owned T' F' G')"
    using heap_step_framed [OF size(3)] tree_holds_subset [OF T(2)] by (simp add: ht_owned_def)
  then have f: "framed h0 h' {} (ht_owned T' F' G')"
    by (rule framed_trans [OF T(4)])
  then have d: "dom h' = dom h0 \<union> ht_owned T' F' G'" "ht_owned T' F' G' \<inter> dom h0 = {}" "\<forall>a\<in>dom h0. h' a = h0 a"
    unfolding framed_def by auto
  have split: "ht_owned T' F' G' = ?P \<union> G'" "?P \<inter> G' = {}"
    using tree_holdsD(4) [OF size(2)] inner_holdsD(3) [OF tree_holdsD(1) [OF size(2)]]
    unfolding ht_owned_def by blast+
  have stack: "G' = {} \<longleftrightarrow> insertion_stack t = []"
    using holds_stack_empty [OF inner_holdsD(2) [OF tree_holdsD(1) [OF size(2)]]] .
  have "h' |` (- ?P) = h0 \<longleftrightarrow> G' = {}"
  proof
    assume "h' |` (- ?P) = h0"
    then have "dom h0 = dom h' - ?P"
      by (auto simp: restrict_map_def domIff split: if_splits)
    moreover have "G' \<subseteq> dom h'" "G' \<inter> dom h0 = {}"
      using d(1,2) unfolding split(1) by blast+
    ultimately show "G' = {}"
      using split(2) by blast
  next
    assume "G' = {}"
    with d split restrict_framed [of h' h0 ?P] show "h' |` (- ?P) = h0"
      by simp
  qed
  with T(1) size(1) destroy stack show ?thesis
    by blast
qed

theorem size_leaks_stack_witness:
  "\<exists>T h T' h' h''. run_ops (tree_step_h next_addr pair_hash 1)
      (map Insert [[0], [1], [2], [3], [4], [5], [6], [7], [8], [9], [10], [11], [12], [13]])
      (htree_empty, Map.empty) = Inr (T, h) \<and>
     tree_size_h next_addr 1 T h = Some (Inr (11, T', h')) \<and> tree_destroy_h T' h' = Some (Inr h'') \<and>
     h'' \<noteq> Map.empty"
proof -
  obtain t where t: "tree_size 1 fourteen = Inr (11, t)" "insertion_stack t \<noteq> []"
    using fourteen_sized by blast
  have "finite (dom Map.empty)" and "length [[0], [1], [2], [3], [4], [5], [6], [7], [8], [9], [10], [11], [12], [13 :: 8 word]] \<le> max_leaves"
    by (simp_all add: max_leaves_def)
  from size_leaks_stack [OF fresh_addr_example this t(1) [unfolded fourteen_def], of pair_hash]
  show ?thesis
    using t(2) unfolding fourteen_def by blast
qed

end
