(* ===== verification/Sha256_Spec.thy ===== *)
theory Sha256_Spec
  imports Merkle_Hash
begin

text \<open>
  The compression function of SHA-256 as FIPS 180-4 states it, on 32-bit words, and the padding
  of a message into blocks. Both hash routines of the sources are proved against this
  specification: \<open>sha256_compress\<close> of \<open>include/merklecpp.h\<close> and the hasher of
  \<open>include/pvss/internal/picosha.h\<close>. The round constants are the table of
  \<open>sha256_compress\<close>, in the rows in which the source writes it.
\<close>

section \<open>The compression function\<close>

definition sha_constants :: "u32 list" where
  "sha_constants =
    concat
     [[0x428a2f98, 0x71374491, 0xb5c0fbcf, 0xe9b5dba5, 0x3956c25b, 0x59f111f1, 0x923f82a4, 0xab1c5ed5],
      [0xd807aa98, 0x12835b01, 0x243185be, 0x550c7dc3, 0x72be5d74, 0x80deb1fe, 0x9bdc06a7, 0xc19bf174],
      [0xe49b69c1, 0xefbe4786, 0x0fc19dc6, 0x240ca1cc, 0x2de92c6f, 0x4a7484aa, 0x5cb0a9dc, 0x76f988da],
      [0x983e5152, 0xa831c66d, 0xb00327c8, 0xbf597fc7, 0xc6e00bf3, 0xd5a79147, 0x06ca6351, 0x14292967],
      [0x27b70a85, 0x2e1b2138, 0x4d2c6dfc, 0x53380d13, 0x650a7354, 0x766a0abb, 0x81c2c92e, 0x92722c85],
      [0xa2bfe8a1, 0xa81a664b, 0xc24b8b70, 0xc76c51a3, 0xd192e819, 0xd6990624, 0xf40e3585, 0x106aa070],
      [0x19a4c116, 0x1e376c08, 0x2748774c, 0x34b0bcb5, 0x391c0cb3, 0x4ed8aa4a, 0x5b9cca4f, 0x682e6ff3],
      [0x748f82ee, 0x78a5636f, 0x84c87814, 0x8cc70208, 0x90befffa, 0xa4506ceb, 0xbef9a3f7, 0xc67178f2]]"

definition sha_initial :: "u32 list" where
  "sha_initial = [0x6a09e667, 0xbb67ae85, 0x3c6ef372, 0xa54ff53a,
                  0x510e527f, 0x9b05688c, 0x1f83d9ab, 0x5be0cd19]"

definition Ch :: "u32 \<Rightarrow> u32 \<Rightarrow> u32 \<Rightarrow> u32" where
  "Ch x y z = (x AND y) XOR (NOT x AND z)"

definition Maj :: "u32 \<Rightarrow> u32 \<Rightarrow> u32 \<Rightarrow> u32" where
  "Maj x y z = (x AND y) XOR (x AND z) XOR (y AND z)"

definition Sigma0 :: "u32 \<Rightarrow> u32" where
  "Sigma0 x = word_rotr 2 x XOR word_rotr 13 x XOR word_rotr 22 x"

definition Sigma1 :: "u32 \<Rightarrow> u32" where
  "Sigma1 x = word_rotr 6 x XOR word_rotr 11 x XOR word_rotr 25 x"

definition sigma0 :: "u32 \<Rightarrow> u32" where
  "sigma0 x = word_rotr 7 x XOR word_rotr 18 x XOR drop_bit 3 x"

definition sigma1 :: "u32 \<Rightarrow> u32" where
  "sigma1 x = word_rotr 17 x XOR word_rotr 19 x XOR drop_bit 10 x"

text \<open>The message schedule.\<close>

fun schedule :: "u32 list \<Rightarrow> nat \<Rightarrow> u32" where
  "schedule ws t =
     (if t < 16 then ws ! t
      else sigma1 (schedule ws (t - 2)) + schedule ws (t - 7) + sigma0 (schedule ws (t - 15)) +
        schedule ws (t - 16))"

declare schedule.simps [simp del]

text \<open>One round on the working variables \<open>a\<close> to \<open>h\<close>, given the round's constant and word.\<close>

definition sha_round :: "u32 list \<Rightarrow> u32 \<Rightarrow> u32 \<Rightarrow> u32 list" where
  "sha_round v k w =
     (let t1 = v ! 7 + Sigma1 (v ! 4) + Ch (v ! 4) (v ! 5) (v ! 6) + k + w;
          t2 = Sigma0 (v ! 0) + Maj (v ! 0) (v ! 1) (v ! 2)
      in [t1 + t2, v ! 0, v ! 1, v ! 2, v ! 3 + t1, v ! 4, v ! 5, v ! 6])"

definition sha_rounds :: "u32 list \<Rightarrow> u32 list \<Rightarrow> nat \<Rightarrow> u32 list" where
  "sha_rounds v ws n = foldl (\<lambda>v t. sha_round v (sha_constants ! t) (schedule ws t)) v [0..<n]"

definition compress :: "u32 list \<Rightarrow> u32 list \<Rightarrow> u32 list" where
  "compress h ws = map2 (+) h (sha_rounds h ws 64)"

lemma length_sha_initial [simp]: "length sha_initial = 8"
  by (simp add: sha_initial_def)

lemma length_sha_constants [simp]: "length sha_constants = 64"
  by (simp add: sha_constants_def)

lemma length_sha_round [simp]: "length (sha_round v k w) = 8"
  by (simp add: sha_round_def Let_def)

lemma sha_rounds_0 [simp]: "sha_rounds v ws 0 = v"
  by (simp add: sha_rounds_def)

lemma sha_rounds_Suc:
  "sha_rounds v ws (Suc n) = sha_round (sha_rounds v ws n) (sha_constants ! n) (schedule ws n)"
  by (simp add: sha_rounds_def)

lemma length_sha_rounds [simp]: "length v = 8 \<Longrightarrow> length (sha_rounds v ws n) = 8"
  by (cases n) (simp_all add: sha_rounds_Suc)

lemma length_compress [simp]: "length h = 8 \<Longrightarrow> length (compress h ws) = 8"
  by (simp add: compress_def)

section \<open>Blocks and padding\<close>

text \<open>A word from four bytes, most significant first, and back.\<close>

definition be_word :: "u8 \<Rightarrow> u8 \<Rightarrow> u8 \<Rightarrow> u8 \<Rightarrow> u32" where
  "be_word b0 b1 b2 b3 =
     push_bit 24 (ucast b0) OR push_bit 16 (ucast b1) OR push_bit 8 (ucast b2) OR ucast b3"

definition be_bytes :: "u32 \<Rightarrow> bytes" where
  "be_bytes w = map (\<lambda>i. ucast (drop_bit (24 - 8 * i) w)) [0..<4]"

definition block_words :: "bytes \<Rightarrow> u32 list" where
  "block_words bs =
     map (\<lambda>i. be_word (bs ! (4 * i)) (bs ! (4 * i + 1)) (bs ! (4 * i + 2)) (bs ! (4 * i + 3))) [0..<16]"

definition digest_bytes :: "u32 list \<Rightarrow> bytes" where
  "digest_bytes h = concat (map be_bytes h)"

text \<open>Compression of the full blocks at the front of a byte string.\<close>

fun compress_blocks :: "u32 list \<Rightarrow> bytes \<Rightarrow> u32 list" where
  "compress_blocks h bs =
     (if length bs < 64 then h else compress_blocks (compress h (block_words bs)) (drop 64 bs))"

declare compress_blocks.simps [simp del]

text \<open>The padding: a one bit, zeros, and the length in bits as a 64-bit number, so that the
  total is a multiple of 64 bytes.\<close>

definition pad_zeros :: "nat \<Rightarrow> nat" where
  "pad_zeros n = (if n mod 64 < 56 then 55 - n mod 64 else 119 - n mod 64)"

definition sha_pad :: "bytes \<Rightarrow> bytes" where
  "sha_pad bs = bs @ 0x80 # replicate (pad_zeros (length bs)) 0 @
     uint64_bytes (word_of_nat (8 * length bs))"

definition sha256 :: "bytes \<Rightarrow> bytes" where
  "sha256 bs = digest_bytes (compress_blocks sha_initial (sha_pad bs))"

lemma length_block_words [simp]: "length (block_words bs) = 16"
  by (simp add: block_words_def)

lemma block_words_nth:
  "i < 16 \<Longrightarrow> block_words bs ! i =
    be_word (bs ! (4 * i)) (bs ! (4 * i + 1)) (bs ! (4 * i + 2)) (bs ! (4 * i + 3))"
  by (simp add: block_words_def del: upt_Suc)

lemma block_words_take [simp]: "block_words (take 64 bs) = block_words bs"
  by (rule nth_equalityI) (auto simp: block_words_nth)

lemma compress_blocks_short [simp]: "length bs < 64 \<Longrightarrow> compress_blocks h bs = h"
  by (simp add: compress_blocks.simps)

lemma compress_blocks_block:
  "64 \<le> length bs \<Longrightarrow>
    compress_blocks h bs = compress_blocks (compress h (block_words bs)) (drop 64 bs)"
  by (subst compress_blocks.simps) simp

lemma length_compress_blocks [simp]: "length h = 8 \<Longrightarrow> length (compress_blocks h bs) = 8"
proof (induction h bs rule: compress_blocks.induct)
  case (1 h bs)
  then show ?case
    by (cases "length bs < 64") (simp_all add: compress_blocks_block)
qed

text \<open>Full blocks can be compressed before the rest is known.\<close>

lemma compress_blocks_append:
  "length bs mod 64 = 0 \<Longrightarrow>
    compress_blocks h (bs @ cs) = compress_blocks (compress_blocks h bs) cs"
proof (induction h bs rule: compress_blocks.induct)
  case (1 h bs)
  show ?case
  proof (cases "length bs < 64")
    case True
    with "1.prems" have "bs = []"
      by simp
    then show ?thesis by simp
  next
    case False
    then have len: "length (drop 64 bs) mod 64 = 0" "64 \<le> length bs"
      using "1.prems" by (auto simp: mod_if)
    have "block_words (bs @ cs) = block_words bs"
      using len(2) block_words_take [of "bs @ cs"] by (metis block_words_take diff_is_0_eq take_0 take_append append_Nil2)
    with False len 1 show ?thesis
      by (simp add: compress_blocks_block)
  qed
qed

lemma length_be_bytes [simp]: "length (be_bytes w) = 4"
  by (simp add: be_bytes_def)

lemma length_digest_bytes: "length (digest_bytes h) = 4 * length h"
  by (induction h) (simp_all add: digest_bytes_def)

lemma length_sha256: "length (sha256 bs) = 32"
  by (simp add: sha256_def length_digest_bytes)

lemma length_sha_pad: "length (sha_pad bs) mod 64 = 0"
proof -
  define q m where "q = length bs div 64" and "m = length bs mod 64"
  have n: "length bs = 64 * q + m" and m: "m < 64"
    by (simp_all add: q_def m_def)
  have "length (sha_pad bs) = length bs + 9 + pad_zeros (length bs)"
    by (simp add: sha_pad_def)
  also have "pad_zeros (length bs) = (if m < 56 then 55 - m else 119 - m)"
    by (simp add: pad_zeros_def m_def)
  also have "length bs + 9 + \<dots> = 64 * (if m < 56 then q + 1 else q + 2)"
    using m by (simp add: n)
  finally show ?thesis by simp
qed

end
