(* ===== verification/Merkle_Sha256.thy ===== *)
theory Merkle_Sha256
  imports Sha256_Spec
begin

text \<open>
  \<open>sha256_compress\<close> and \<open>convert_endianness\<close> of \<open>include/merklecpp.h\<close>, the function
  that hashes two nodes of the default tree. The buffers are accessed as 32-bit numbers in the
  byte order of the machine (little-endian); the array \<open>cws\<close> is filled by index; the eight
  working variables are the array \<open>h\<close>.
\<close>

definition convert_endianness :: "u32 \<Rightarrow> u32" where
  "convert_endianness n =
     foldl (\<lambda>r i. r OR push_bit (8 * i) (drop_bit (8 * ((4 - 1) - i)) n AND 0xFF)) 0 [0..<4]"

definition load_word :: "bytes \<Rightarrow> nat \<Rightarrow> u32" where
  "load_word block k =
     foldl (\<lambda>r i. r OR push_bit (8 * i) (ucast (block ! (4 * k + i)))) 0 [0..<4]"

definition store_word :: "u32 \<Rightarrow> bytes" where
  "store_word n = map (\<lambda>i. ucast (drop_bit (8 * i) n)) [0..<4]"

definition cws_load :: "bytes \<Rightarrow> u32 list \<Rightarrow> nat \<Rightarrow> u32 list" where
  "cws_load block cws i = cws[i := convert_endianness (load_word block i)]"

definition cws_extend :: "u32 list \<Rightarrow> nat \<Rightarrow> u32 list" where
  "cws_extend cws i =
     (let t16 = cws ! (i - 16); t15 = cws ! (i - 15); t7 = cws ! (i - 7); t2 = cws ! (i - 2);
          s1 = (drop_bit 17 t2 OR push_bit 15 t2) XOR
               ((drop_bit 19 t2 OR push_bit 13 t2) XOR drop_bit 10 t2);
          s0 = (drop_bit 7 t15 OR push_bit 25 t15) XOR
               ((drop_bit 18 t15 OR push_bit 14 t15) XOR drop_bit 3 t15)
      in cws[i := s1 + t7 + s0 + t16])"

definition compress_round :: "u32 list \<Rightarrow> u32 list \<Rightarrow> nat \<Rightarrow> u32 list" where
  "compress_round cws h i =
     (let a0 = h ! 0; b0 = h ! 1; c0 = h ! 2; d0 = h ! 3; e0 = h ! 4; f0 = h ! 5; g0 = h ! 6;
          h03 = h ! 7;
          w = cws ! i;
          t1 = h03 + ((drop_bit 6 e0 OR push_bit 26 e0) XOR
                 ((drop_bit 11 e0 OR push_bit 21 e0) XOR (drop_bit 25 e0 OR push_bit 7 e0))) +
               ((e0 AND f0) XOR (NOT e0 AND g0)) + sha_constants ! i + w;
          t2 = ((drop_bit 2 a0 OR push_bit 30 a0) XOR
                 ((drop_bit 13 a0 OR push_bit 19 a0) XOR (drop_bit 22 a0 OR push_bit 10 a0))) +
               ((a0 AND b0) XOR ((a0 AND c0) XOR (b0 AND c0)))
      in [t1 + t2, a0, b0, c0, d0 + t1, e0, f0, g0])"

definition sha256_compress :: "hash \<Rightarrow> hash \<Rightarrow> hash" where
  "sha256_compress l r =
     (let block = take 32 l @ take 32 r;
          s = sha_initial;
          cws = foldl (cws_load block) (replicate 64 0) [0..<16];
          cws = foldl cws_extend cws [16..<64];
          h = foldl (compress_round cws) s [0..<64]
      in concat (map (\<lambda>i. store_word (convert_endianness (s ! i + h ! i))) [0..<8]))"

section \<open>Words\<close>

lemma rotr_shifts:
  fixes x :: u32
  assumes "0 < n" and "n < 32"
  shows "drop_bit n x OR push_bit (32 - n) x = word_rotr n x"
proof (rule bit_word_eqI)
  fix k
  assume k: "k < LENGTH(32)"
  show "bit (drop_bit n x OR push_bit (32 - n) x) k \<longleftrightarrow> bit (word_rotr n x) k"
  proof (cases "n + k < 32")
    case True
    with assms k show ?thesis by (auto simp: bit_simps ac_simps)
  next
    case False
    then have "(n + k) mod 32 = n + k - 32"
      using assms k by (simp add: mod_if)
    moreover have "\<not> bit x (n + k)"
      using False bit_imp_le_length [of x "n + k"] by auto
    ultimately show ?thesis
      using assms k False by (auto simp: bit_simps ac_simps)
  qed
qed

lemma upt_4: "[0..<4] = [0, 1, 2, 3::nat]"
  by (simp add: upt_rec)

lemma and_FF: "(x AND 0xFF :: u32) = take_bit 8 x"
  by (simp add: take_bit_eq_mask mask_numeral)

lemma not_bit_byte: "8 \<le> n \<Longrightarrow> \<not> bit (b :: u8) n"
  using bit_imp_le_length [of b n] by auto

lemma load_word_eq:
  "load_word bs k = ucast (bs ! (4 * k)) OR push_bit 8 (ucast (bs ! (4 * k + 1))) OR
    push_bit 16 (ucast (bs ! (4 * k + 2))) OR push_bit 24 (ucast (bs ! (4 * k + 3)))"
  by (simp add: load_word_def upt_4 or.assoc)

lemma convert_endianness_eq:
  "convert_endianness n = take_bit 8 (drop_bit 24 n) OR push_bit 8 (take_bit 8 (drop_bit 16 n)) OR
    push_bit 16 (take_bit 8 (drop_bit 8 n)) OR push_bit 24 (take_bit 8 n)"
  by (simp add: convert_endianness_def upt_4 or.assoc and_FF)

lemma bytes_of_word:
  fixes b0 b1 b2 b3 :: u8
  defines "w \<equiv> ucast b0 OR push_bit 8 (ucast b1) OR push_bit 16 (ucast b2) OR push_bit 24 (ucast b3) :: u32"
  shows "take_bit 8 w = ucast b0" and "take_bit 8 (drop_bit 8 w) = ucast b1"
    and "take_bit 8 (drop_bit 16 w) = ucast b2" and "take_bit 8 (drop_bit 24 w) = ucast b3"
  unfolding w_def by (rule bit_word_eqI, auto simp: bit_simps not_bit_byte dest: bit_imp_le_length)+

lemma convert_load:
  "convert_endianness (load_word bs k) =
    be_word (bs ! (4 * k)) (bs ! (4 * k + 1)) (bs ! (4 * k + 2)) (bs ! (4 * k + 3))"
  unfolding convert_endianness_eq load_word_eq bytes_of_word be_word_def by (simp only: ac_simps)

lemma store_convert: "store_word (convert_endianness w) = be_bytes w"
proof -
  have "store_word v = [ucast v, ucast (drop_bit 8 v), ucast (drop_bit 16 v), ucast (drop_bit 24 v)]"
    for v
    by (simp add: store_word_def upt_4)
  moreover have "be_bytes w = [ucast (drop_bit 24 w), ucast (drop_bit 16 w), ucast (drop_bit 8 w), ucast w]"
    by (simp add: be_bytes_def upt_4)
  moreover have "ucast (convert_endianness w) = (ucast (drop_bit 24 w) :: u8)"
    "ucast (drop_bit 8 (convert_endianness w)) = (ucast (drop_bit 16 w) :: u8)"
    "ucast (drop_bit 16 (convert_endianness w)) = (ucast (drop_bit 8 w) :: u8)"
    "ucast (drop_bit 24 (convert_endianness w)) = (ucast w :: u8)"
    unfolding convert_endianness_eq by (rule bit_word_eqI, auto simp: bit_simps)+
  ultimately show ?thesis by simp
qed

section \<open>Equivalence with the specification\<close>

lemma cws_extend_eq:
  assumes "\<And>j. j < i \<Longrightarrow> cws ! j = schedule ws j" and "16 \<le> i"
  shows "cws_extend cws i = cws[i := schedule ws i]"
  using assms
  by (subst schedule.simps)
    (simp add: cws_extend_def Let_def sigma0_def sigma1_def xor.assoc
      rotr_shifts [of 17, simplified] rotr_shifts [of 19, simplified]
      rotr_shifts [of 7, simplified] rotr_shifts [of 18, simplified])

lemma compress_round_eq: "compress_round cws h i = sha_round h (sha_constants ! i) (cws ! i)"
  by (simp add: compress_round_def sha_round_def Let_def Sigma0_def Sigma1_def Ch_def Maj_def
      xor.assoc rotr_shifts [of 6, simplified] rotr_shifts [of 11, simplified]
      rotr_shifts [of 25, simplified] rotr_shifts [of 2, simplified]
      rotr_shifts [of 13, simplified] rotr_shifts [of 22, simplified])

lemma foldl_compress_round:
  "(\<And>t. t < n \<Longrightarrow> cws ! t = schedule ws t) \<Longrightarrow>
    foldl (compress_round cws) h [0..<n] = sha_rounds h ws n"
  by (induction n) (simp_all add: sha_rounds_Suc compress_round_eq)

lemma sha256_compress_eq:
  assumes "length l = 32" and "length r = 32"
  shows "sha256_compress l r = digest_bytes (compress sha_initial (block_words (l @ r)))"
proof -
  let ?ws = "block_words (l @ r)"
  let ?c16 = "foldl (cws_load (l @ r)) (replicate 64 0) [0..<16]"
  let ?c64 = "foldl cws_extend ?c16 [16..<64]"
  have c16: "length ?c16 = 64 \<and> (\<forall>j<16. ?c16 ! j = schedule ?ws j)"
    by (rule foldl_fill)
      (auto simp: cws_load_def convert_load block_words_nth schedule.simps [of _ i for i])
  have "length ?c64 = 64 \<and> (\<forall>j<64. ?c64 ! j = schedule ?ws j)"
    by (rule foldl_fill) (use c16 in \<open>auto intro: cws_extend_eq\<close>)
  then have h: "foldl (compress_round ?c64) sha_initial [0..<64] = sha_rounds sha_initial ?ws 64"
    by (intro foldl_compress_round) simp
  have "map (\<lambda>i. sha_initial ! i + sha_rounds sha_initial ?ws 64 ! i) [0..<8] =
      compress sha_initial ?ws"
    unfolding compress_def by (rule nth_equalityI) auto
  then have "concat (map (\<lambda>i. be_bytes (sha_initial ! i + sha_rounds sha_initial ?ws 64 ! i)) [0..<8]) =
      digest_bytes (compress sha_initial ?ws)"
    unfolding digest_bytes_def by (metis (no_types, lifting) map_map comp_apply map_eq_conv)
  with h assms show ?thesis
    by (simp add: sha256_compress_def Let_def store_convert)
qed

text \<open>C24: the compression function of the default tree is the SHA-256 compression of FIPS
  180-4 applied to the initial digest and the block made of the two hashes, without padding;
  its result is again a hash of 32 bytes.\<close>

theorem sha256_compress_spec:
  assumes "hash_ok 32 l" and "hash_ok 32 r"
  shows "sha256_compress l r = digest_bytes (compress sha_initial (block_words (l @ r))) \<and>
    hash_ok 32 (sha256_compress l r)"
  using assms sha256_compress_eq [of l r] by (simp add: hash_ok_def length_digest_bytes)

theorem sha256_compress_spec_witness:
  "sha256_compress (replicate 32 1) (replicate 32 2) =
     digest_bytes (compress sha_initial (block_words (replicate 32 1 @ replicate 32 2))) \<and>
   hash_ok 32 (sha256_compress (replicate 32 1) (replicate 32 2))"
  by (rule sha256_compress_spec) (simp_all add: hash_ok_def)

end
