(* ===== verification/Picosha.thy ===== *)
theory Picosha
  imports Sha256_Spec
begin

text \<open>
  The SHA-256 hasher of \<open>include/pvss/internal/picosha.h\<close>. \<open>word_t\<close> is
  \<open>unsigned long\<close>, 64 bits wide; the code masks its results to 32 bits. The object
  \<open>hash256_one_by_one\<close> is a record of its three members. The assertions \<open>n < 32\<close> of
  \<open>rotr\<close> and \<open>shr\<close> concern literals at every call and are left out; the one of
  \<open>hash256_block\<close> is a precondition on the length of the block.
\<close>

section \<open>The block function\<close>

definition mask_8bit :: "u8 \<Rightarrow> u8" where
  "mask_8bit x = x AND 0xff"

definition mask_32bit :: "u64 \<Rightarrow> u64" where
  "mask_32bit x = x AND 0xffffffff"

definition add_constant :: "u64 list" where
  "add_constant =
    concat
     [[0x428a2f98, 0x71374491, 0xb5c0fbcf, 0xe9b5dba5, 0x3956c25b, 0x59f111f1],
      [0x923f82a4, 0xab1c5ed5, 0xd807aa98, 0x12835b01, 0x243185be, 0x550c7dc3],
      [0x72be5d74, 0x80deb1fe, 0x9bdc06a7, 0xc19bf174, 0xe49b69c1, 0xefbe4786],
      [0x0fc19dc6, 0x240ca1cc, 0x2de92c6f, 0x4a7484aa, 0x5cb0a9dc, 0x76f988da],
      [0x983e5152, 0xa831c66d, 0xb00327c8, 0xbf597fc7, 0xc6e00bf3, 0xd5a79147],
      [0x06ca6351, 0x14292967, 0x27b70a85, 0x2e1b2138, 0x4d2c6dfc, 0x53380d13],
      [0x650a7354, 0x766a0abb, 0x81c2c92e, 0x92722c85, 0xa2bfe8a1, 0xa81a664b],
      [0xc24b8b70, 0xc76c51a3, 0xd192e819, 0xd6990624, 0xf40e3585, 0x106aa070],
      [0x19a4c116, 0x1e376c08, 0x2748774c, 0x34b0bcb5, 0x391c0cb3, 0x4ed8aa4a],
      [0x5b9cca4f, 0x682e6ff3, 0x748f82ee, 0x78a5636f, 0x84c87814, 0x8cc70208],
      [0x90befffa, 0xa4506ceb, 0xbef9a3f7, 0xc67178f2]]"

definition initial_message_digest :: "u64 list" where
  "initial_message_digest = [0x6a09e667, 0xbb67ae85, 0x3c6ef372, 0xa54ff53a,
                             0x510e527f, 0x9b05688c, 0x1f83d9ab, 0x5be0cd19]"

definition ch :: "u64 \<Rightarrow> u64 \<Rightarrow> u64 \<Rightarrow> u64" where
  "ch x y z = (x AND y) XOR (NOT x AND z)"

definition maj :: "u64 \<Rightarrow> u64 \<Rightarrow> u64 \<Rightarrow> u64" where
  "maj x y z = (x AND y) XOR (x AND z) XOR (y AND z)"

definition rotr :: "u64 \<Rightarrow> nat \<Rightarrow> u64" where
  "rotr x n = mask_32bit (drop_bit n x OR push_bit (32 - n) x)"

definition bsig0 :: "u64 \<Rightarrow> u64" where
  "bsig0 x = rotr x 2 XOR rotr x 13 XOR rotr x 22"

definition bsig1 :: "u64 \<Rightarrow> u64" where
  "bsig1 x = rotr x 6 XOR rotr x 11 XOR rotr x 25"

definition shr :: "u64 \<Rightarrow> nat \<Rightarrow> u64" where
  "shr x n = drop_bit n x"

definition ssig0 :: "u64 \<Rightarrow> u64" where
  "ssig0 x = rotr x 7 XOR rotr x 18 XOR shr x 3"

definition ssig1 :: "u64 \<Rightarrow> u64" where
  "ssig1 x = rotr x 17 XOR rotr x 19 XOR shr x 10"

definition w_load :: "bytes \<Rightarrow> u64 list \<Rightarrow> nat \<Rightarrow> u64 list" where
  "w_load block w i =
     w[i := push_bit 24 (ucast (mask_8bit (block ! (i * 4)))) OR
            push_bit 16 (ucast (mask_8bit (block ! (i * 4 + 1)))) OR
            push_bit 8 (ucast (mask_8bit (block ! (i * 4 + 2)))) OR
            ucast (mask_8bit (block ! (i * 4 + 3)))]"

definition w_extend :: "u64 list \<Rightarrow> nat \<Rightarrow> u64 list" where
  "w_extend w i =
     w[i := mask_32bit (ssig1 (w ! (i - 2)) + w ! (i - 7) + ssig0 (w ! (i - 15)) + w ! (i - 16))]"

definition block_round :: "u64 list \<Rightarrow> u64 list \<Rightarrow> nat \<Rightarrow> u64 list" where
  "block_round w v i =
     (let a = v ! 0; b = v ! 1; c = v ! 2; d = v ! 3; e = v ! 4; f = v ! 5; g = v ! 6; h = v ! 7;
          temp1 = h + bsig1 e + ch e f g + add_constant ! i + w ! i;
          temp2 = bsig0 a + maj a b c
      in [mask_32bit (temp1 + temp2), a, b, c, mask_32bit (d + temp1), e, f, g])"

definition hash256_block :: "u64 list \<Rightarrow> bytes \<Rightarrow> u64 list" where
  "hash256_block message_digest block =
     (let w = foldl (w_load block) (replicate 64 0) [0..<16];
          w = foldl w_extend w [16..<64];
          v = foldl (block_round w) message_digest [0..<64]
      in map mask_32bit (map2 (+) message_digest v))"

section \<open>The hasher\<close>

record hasher =
  buffer :: bytes
  data_length_digits :: "u64 list"
  h_words :: "u64 list"

definition hasher_init :: hasher where
  "hasher_init = \<lparr>buffer = [], data_length_digits = replicate 4 0, h_words = initial_message_digest\<rparr>"

fun add_carry :: "u64 list \<Rightarrow> u64 \<Rightarrow> nat \<Rightarrow> nat \<Rightarrow> u64 list" where
  "add_carry ds carry i 0 = ds"
| "add_carry ds carry i (Suc k) =
     (let d = ds ! i + carry
      in if 65536 \<le> d then add_carry (ds[i := d AND 65535]) (drop_bit 16 d) (i + 1) k
         else ds[i := d])"

definition add_to_data_length :: "u64 list \<Rightarrow> u64 \<Rightarrow> u64 list" where
  "add_to_data_length ds n = add_carry (ds[0 := ds ! 0 + n]) 0 0 4"

function process_blocks :: "u64 list \<Rightarrow> bytes \<Rightarrow> nat \<Rightarrow> u64 list \<times> nat" where
  "process_blocks h buf i =
     (if i + 64 \<le> length buf
      then process_blocks (hash256_block h (take 64 (drop i buf))) buf (i + 64)
      else (h, i))"
  by pat_completeness auto
termination by (relation "measure (\<lambda>(h, buf, i). length buf - i)") auto

declare process_blocks.simps [simp del]

definition process :: "bytes \<Rightarrow> hasher \<Rightarrow> hasher" where
  "process bs hs =
     (let digits = add_to_data_length (data_length_digits hs) (word_of_nat (length bs));
          buf = buffer hs @ bs;
          (h, i) = process_blocks (h_words hs) buf 0
      in \<lparr>buffer = drop i buf, data_length_digits = digits, h_words = h\<rparr>)"

text \<open>\<open>std::copy\<close> to the front of an array and \<open>std::fill\<close> between two indices.\<close>

definition copy_front :: "bytes \<Rightarrow> bytes \<Rightarrow> bytes" where
  "copy_front bs temp = bs @ drop (length bs) temp"

definition fill_zero :: "nat \<Rightarrow> nat \<Rightarrow> bytes \<Rightarrow> bytes" where
  "fill_zero a b temp = map (\<lambda>i. if a \<le> i \<and> i < b then 0 else temp ! i) [0..<length temp]"

fun shift_digits :: "u64 list \<Rightarrow> u64 \<Rightarrow> u64 list" where
  "shift_digits [] carry = []"
| "shift_digits (before_val # ds) carry =
     ((push_bit 3 before_val OR carry) AND 65535) #
       shift_digits ds (drop_bit (16 - 3) before_val AND 65535)"

definition write_data_bit_length :: "u64 list \<Rightarrow> bytes" where
  "write_data_bit_length ds =
     (let ls = shift_digits ds 0
      in concat (map (\<lambda>i. [ucast (drop_bit 8 (ls ! i)), ucast (ls ! i)]) [3, 2, 1, 0]))"

definition finish :: "hasher \<Rightarrow> hasher" where
  "finish hs =
     (let temp = replicate 64 0;
          remains = length (buffer hs);
          temp = (copy_front (buffer hs) temp)[remains := 0x80];
          (h, temp) =
            (if remains > 55
             then let temp = fill_zero (remains + 1) 64 temp;
                      h = hash256_block (h_words hs) temp
                  in (h, fill_zero 0 (64 - 4) temp)
             else (h_words hs, fill_zero (remains + 1) (64 - 4) temp));
          temp = take 56 temp @ write_data_bit_length (data_length_digits hs)
      in hs\<lparr>h_words := hash256_block h temp\<rparr>)"

definition get_hash_bytes :: "hasher \<Rightarrow> nat \<Rightarrow> bytes" where
  "get_hash_bytes hs len =
     take len (concat (map (\<lambda>x. map (\<lambda>i. mask_8bit (ucast (drop_bit (24 - 8 * i) x))) [0..<4])
       (h_words hs)))"

section \<open>Whole messages and hexadecimal output\<close>

definition k_digest_size :: nat where
  "k_digest_size = 32"

definition hash256_impl :: "bytes \<Rightarrow> nat \<Rightarrow> bytes" where
  "hash256_impl bs len = get_hash_bytes (finish (process bs hasher_init)) len"

text \<open>The variant for input iterators reads pieces of \<open>buffer_size\<close> bytes; with a buffer of
  size \<open>0\<close> it never gets to the end of an input.\<close>

function process_pieces :: "nat \<Rightarrow> bytes \<Rightarrow> hasher \<Rightarrow> hasher res" where
  "process_pieces buffer_size bs hs =
     (if bs = [] then Inr hs
      else if buffer_size = 0 then Inl No_Return
      else process_pieces buffer_size (drop buffer_size bs) (process (take buffer_size bs) hs))"
  by pat_completeness auto
termination by (relation "measure (\<lambda>(n, bs, hs). length bs)") auto

declare process_pieces.simps [simp del]

definition hash256_impl_input :: "nat \<Rightarrow> bytes \<Rightarrow> nat \<Rightarrow> bytes res" where
  "hash256_impl_input buffer_size bs len =
     res_bind (process_pieces buffer_size bs hasher_init) (\<lambda>hs.
       Inr (get_hash_bytes (finish hs) len))"

definition hex_digit :: "nat \<Rightarrow> char" where
  "hex_digit n = ''0123456789abcdef'' ! n"

definition output_hex :: "bytes \<Rightarrow> string" where
  "output_hex bs = concat (map (\<lambda>b. [hex_digit (unat b div 16), hex_digit (unat b mod 16)]) bs)"

definition bytes_to_hex_string :: "bytes \<Rightarrow> string" where
  "bytes_to_hex_string bs = output_hex bs"

definition hash256_hex_string :: "bytes \<Rightarrow> string" where
  "hash256_hex_string bs = output_hex (hash256_impl bs k_digest_size)"

definition get_hash_hex_string :: "hasher \<Rightarrow> string" where
  "get_hash_hex_string hs = bytes_to_hex_string (get_hash_bytes hs k_digest_size)"

text \<open>The overloads with a container as the target: it keeps its size, and what does not fit
  the digest keeps its contents.\<close>

definition hash256_into :: "bytes \<Rightarrow> bytes \<Rightarrow> bytes" where
  "hash256_into src dst = copy_front (hash256_impl src (length dst)) dst"

section \<open>The block function against the specification\<close>

abbreviation lo :: "u64 \<Rightarrow> u32" where
  "lo x \<equiv> ucast x"

abbreviation up :: "u32 \<Rightarrow> u64" where
  "up x \<equiv> ucast x"

lemma lo_up [simp]: "lo (up x) = x"
  by (rule bit_word_eqI) (auto simp: bit_simps)

lemma not_bit_u32: "32 \<le> n \<Longrightarrow> \<not> bit (b :: u32) n"
  using bit_imp_le_length [of b n] by auto

lemma mask_32bit_eq: "mask_32bit x = up (lo x)"
proof -
  have "mask_32bit x = take_bit 32 x"
    by (simp add: mask_32bit_def take_bit_eq_mask mask_numeral)
  then show ?thesis
    by (intro bit_word_eqI) (auto simp: bit_simps)
qed

lemma lo_add: "lo (x + y) = lo x + lo y"
  by (rule word_unat_eq_iff [THEN iffD2])
    (simp add: unat_word_ariths unsigned_ucast_eq take_bit_eq_mod mod_mod_cancel mod_simps)

lemma lo_bits: "lo (x AND y) = lo x AND lo y" "lo (x XOR y) = lo x XOR lo y"
    "lo (NOT x) = NOT (lo x)"
  by (rule bit_word_eqI, auto simp: bit_simps)+

lemma up_xor: "up x XOR up y = up (x XOR y)"
  by (rule bit_word_eqI) (auto simp: bit_simps)

lemma rotr_up: "0 < n \<Longrightarrow> n < 32 \<Longrightarrow> rotr (up x) n = up (word_rotr n x)"
proof -
  assume n: "0 < n" "n < 32"
  have "lo (drop_bit n (up x) OR push_bit (32 - n) (up x)) = word_rotr n x"
  proof (rule bit_word_eqI)
    fix k
    assume k: "k < LENGTH(32)"
    show "bit (lo (drop_bit n (up x) OR push_bit (32 - n) (up x))) k \<longleftrightarrow> bit (word_rotr n x) k"
    proof (cases "n + k < 32")
      case True
      with n k show ?thesis by (auto simp: bit_simps ac_simps)
    next
      case False
      then have "(n + k) mod 32 = n + k - 32"
        using n k by (simp add: mod_if)
      with n k False show ?thesis
        by (auto simp: bit_simps ac_simps not_bit_u32)
    qed
  qed
  then show ?thesis
    by (simp add: rotr_def mask_32bit_eq)
qed

lemma shr_up: "shr (up x) n = up (drop_bit n x)"
  unfolding shr_def by (rule bit_word_eqI) (auto simp: bit_simps dest: bit_imp_le_length)

lemma sigmas_up:
  "bsig0 (up x) = up (Sigma0 x)" "bsig1 (up x) = up (Sigma1 x)"
  "ssig0 (up x) = up (sigma0 x)" "ssig1 (up x) = up (sigma1 x)"
  by (simp_all add: bsig0_def bsig1_def ssig0_def ssig1_def Sigma0_def Sigma1_def sigma0_def
      sigma1_def rotr_up shr_up up_xor)

lemma ch_maj_lo:
  "lo (ch (up x) (up y) (up z)) = Ch x y z" "lo (maj (up x) (up y) (up z)) = Maj x y z"
  by (simp_all add: ch_def maj_def Ch_def Maj_def lo_bits)

lemma add_constant_eq: "add_constant = map up sha_constants"
  by (simp add: add_constant_def sha_constants_def)

lemma initial_message_digest_eq: "initial_message_digest = map up sha_initial"
  by (simp add: initial_message_digest_def sha_initial_def)

lemma mask_8bit_id [simp]: "mask_8bit x = x"
proof -
  have "(0xff :: u8) = - 1"
    by simp
  then show ?thesis
    unfolding mask_8bit_def by (simp only: and.right_neutral)
qed

lemma w_load_eq: "w_load block w i = w[i := up (be_word (block ! (4 * i)) (block ! (4 * i + 1))
    (block ! (4 * i + 2)) (block ! (4 * i + 3)))]"
proof -
  have "push_bit 24 (ucast b0) OR push_bit 16 (ucast b1) OR push_bit 8 (ucast b2) OR ucast b3 =
      up (be_word b0 b1 b2 b3)" for b0 b1 b2 b3 :: u8
    unfolding be_word_def
    by (rule bit_word_eqI) (auto simp: bit_simps dest: bit_imp_le_length)
  then show ?thesis
    by (simp add: w_load_def mult.commute)
qed

lemma w_extend_eq:
  assumes "\<And>j. j < i \<Longrightarrow> w ! j = up (schedule ws j)" and "16 \<le> i"
  shows "w_extend w i = w[i := up (schedule ws i)]"
  using assms
  by (subst schedule.simps) (simp add: w_extend_def mask_32bit_eq lo_add sigmas_up add.assoc)

lemma block_round_eq:
  assumes "length v = 8" and "i < 64" and "w ! i = up x"
  shows "block_round w (map up v) i = map up (sha_round v (sha_constants ! i) x)"
  using assms
  by (simp add: block_round_def sha_round_def Let_def mask_32bit_eq lo_add sigmas_up ch_maj_lo
      add_constant_eq)

lemma foldl_block_round:
  "n \<le> 64 \<Longrightarrow> length v = 8 \<Longrightarrow> (\<And>t. t < n \<Longrightarrow> w ! t = up (schedule ws t)) \<Longrightarrow>
    foldl (block_round w) (map up v) [0..<n] = map up (sha_rounds v ws n)"
  by (induction n) (simp_all add: sha_rounds_Suc block_round_eq)

lemma hash256_block_eq:
  assumes "length h = 8"
  shows "hash256_block (map up h) block = map up (compress h (block_words block))"
proof -
  let ?ws = "block_words block"
  let ?w16 = "foldl (w_load block) (replicate 64 0) [0..<16]"
  let ?w64 = "foldl w_extend ?w16 [16..<64]"
  have w16: "length ?w16 = 64 \<and> (\<forall>j<16. ?w16 ! j = up (schedule ?ws j))"
    by (rule foldl_fill) (auto simp: w_load_eq block_words_nth schedule.simps [of _ i for i])
  have w64: "length ?w64 = 64 \<and> (\<forall>j<64. ?w64 ! j = up (schedule ?ws j))"
    by (rule foldl_fill) (use w16 in \<open>auto intro: w_extend_eq\<close>)
  have "foldl (block_round ?w64) (map up h) [0..<64] = map up (sha_rounds h ?ws 64)"
    by (rule foldl_block_round) (use assms w64 in auto)
  moreover have "map mask_32bit (map2 (+) (map up h) (map up v)) = map up (map2 (+) h v)" for v
    by (rule nth_equalityI) (auto simp: mask_32bit_eq lo_add)
  ultimately show ?thesis
    by (simp add: hash256_block_def Let_def compress_def)
qed

lemma length_hash256_block [simp]: "length h = 8 \<Longrightarrow> length (hash256_block (map up h) block) = 8"
  by (simp add: hash256_block_eq)

section \<open>The length counter\<close>

text \<open>The counter holds the number of bytes in base 65536, least significant digit first.\<close>

fun base_digits :: "nat \<Rightarrow> nat \<Rightarrow> u64 list" where
  "base_digits 0 n = []"
| "base_digits (Suc k) n = word_of_nat (n mod 65536) # base_digits k (n div 65536)"

fun norm_digits :: "u64 list \<Rightarrow> u64 \<Rightarrow> u64 list" where
  "norm_digits [] c = []"
| "norm_digits (d # ds) c =
     (if 65536 \<le> d + c then (d + c AND 65535) # norm_digits ds (drop_bit 16 (d + c))
      else (d + c) # ds)"

lemma length_base_digits [simp]: "length (base_digits k n) = k"
  by (induction k arbitrary: n) simp_all

lemma add_carry_norm:
  "i + k = length ds \<Longrightarrow> add_carry ds c i k = take i ds @ norm_digits (drop i ds) c"
proof (induction k arbitrary: ds c i)
  case 0
  then show ?case by simp
next
  case (Suc k)
  then have i: "i < length ds" and eq: "drop i ds = ds ! i # drop (Suc i) ds"
    by (simp_all add: Cons_nth_drop_Suc)
  have "take (Suc i) (ds[i := x]) = take i ds @ [x]" "drop (Suc i) (ds[i := x]) = drop (Suc i) ds"
    for x
    using i by (simp_all add: take_Suc_conv_app_nth)
  then show ?case
    using Suc.prems Suc.IH [of "Suc i" "ds[i := _]"] i unfolding eq
    by (simp add: Let_def upd_conv_take_nth_drop)
qed

lemma and_65535: "(x AND 65535 :: u64) = take_bit 16 x"
  by (simp add: take_bit_eq_mask mask_numeral)

lemma take_bit_16_of_nat: "take_bit 16 (word_of_nat x :: u64) = word_of_nat (x mod 65536)"
  by (simp add: take_bit_of_nat take_bit_nat_def)

lemma drop_bit_of_nat_u64:
  "x < 2 ^ 64 \<Longrightarrow> drop_bit k (word_of_nat x :: u64) = word_of_nat (x div 2 ^ k)"
  by (rule word_unat_eq_iff [THEN iffD2], simp only: unat_drop_bit_eq unat_of_nat)
    (simp add: drop_bit_eq_div mod_less order_le_less_trans [OF div_le_dividend])

lemma le_of_nat_u64: "x < 2 ^ 64 \<Longrightarrow> (65536 \<le> (word_of_nat x :: u64)) = (65536 \<le> x)"
  by (simp add: word_le_nat_alt unat_of_nat)

lemma norm_digits_eq:
  "n mod 65536 + m < 2 ^ 64 \<Longrightarrow> norm_digits (base_digits k n) (word_of_nat m) = base_digits k (n + m)"
proof (induction k arbitrary: n m)
  case 0
  then show ?case by simp
next
  case (Suc k)
  let ?x = "n mod 65536 + m"
  have d: "word_of_nat (n mod 65536) + word_of_nat m = (word_of_nat ?x :: u64)"
    by simp
  have "(n div 65536) mod 65536 + ?x div 65536 < 2 ^ 64"
  proof -
    have "?x div 65536 < 2 ^ 48"
      using Suc.prems by (simp add: less_mult_imp_div_less)
    moreover have "(n div 65536) mod 65536 < 2 ^ 16"
      by simp
    ultimately show ?thesis by simp
  qed
  moreover have x: "n div 65536 + ?x div 65536 = (n + m) div 65536"
    using div_mult_self2 [of 65536 ?x "n div 65536"] by simp
  moreover have m: "?x mod 65536 = (n + m) mod 65536"
    by (simp add: mod_simps)
  ultimately have "norm_digits (base_digits k (n div 65536)) (word_of_nat (?x div 65536)) =
      base_digits k ((n + m) div 65536)"
    using Suc.IH by metis
  moreover have "?x < 65536 \<Longrightarrow> n div 65536 = (n + m) div 65536 \<and> ?x = (n + m) mod 65536"
    using x m by simp
  ultimately show ?case
    using Suc.prems
    by (simp only: base_digits.simps norm_digits.simps d le_of_nat_u64 and_65535 take_bit_16_of_nat
        drop_bit_of_nat_u64) (auto simp: mod_simps)
qed

lemma add_to_data_length_eq:
  assumes "n + m < 2 ^ 63"
  shows "add_to_data_length (base_digits 4 n) (word_of_nat m) = base_digits 4 (n + m)"
proof -
  have "n mod 65536 + m \<le> n + m"
    by simp
  also note assms
  also have "(2 :: nat) ^ 63 < 2 ^ 64"
    by simp
  finally have "n mod 65536 + m < 2 ^ 64" .
  moreover have "base_digits (Suc 3) n = word_of_nat (n mod 65536) # base_digits 3 (n div 65536)"
    by (rule base_digits.simps)
  ultimately have "add_to_data_length (base_digits 4 n) (word_of_nat m) =
      norm_digits (base_digits 4 n) (word_of_nat m)"
    by (simp add: add_to_data_length_def add_carry_norm)
  then show ?thesis
    using norm_digits_eq [OF \<open>n mod 65536 + m < 2 ^ 64\<close>] by simp
qed

lemma or_shift:
  assumes "c < 8"
  shows "push_bit 3 (word_of_nat x) OR word_of_nat c = (word_of_nat (8 * x + c) :: u64)"
proof -
  have "(word_of_nat c :: u64) = take_bit 3 (word_of_nat c)"
    using assms by (simp add: take_bit_of_nat take_bit_nat_def)
  then have "push_bit 3 (word_of_nat x) OR word_of_nat c = push_bit 3 (word_of_nat x) + (word_of_nat c :: u64)"
    by (intro disjunctive_add [symmetric]) (metis bit_push_bit_iff bit_take_bit_iff not_le)
  then show ?thesis
    by (simp add: push_bit_eq_mult)
qed

lemma shift_digit_arith:
  assumes "c < (8 :: nat)"
  shows "(8 * n + c) div 65536 = 8 * (n div 65536) + n mod 65536 div 8192"
    and "(8 * (n mod 65536) + c) mod 65536 = (8 * n + c) mod 65536"
proof -
  define q a b where "q = n div 65536" and "a = n mod 65536 div 8192" and "b = n mod 65536 mod 8192"
  have n: "n mod 65536 = 8192 * a + b" "n = 65536 * q + (8192 * a + b)" and b: "b < 8192"
    by (simp_all add: q_def a_def b_def)
  have m: "8 * n + c = (8 * b + c) + 65536 * (8 * q + a)" "8 * (n mod 65536) + c = (8 * b + c) + 65536 * a"
    using n by simp_all
  have "8 * b + c < 65536"
    using b assms by simp
  then show "(8 * n + c) div 65536 = 8 * (n div 65536) + n mod 65536 div 8192"
    unfolding m(1) div_mult_self2 [OF zero_neq_numeral [symmetric]] by (simp add: q_def a_def)
  show "(8 * (n mod 65536) + c) mod 65536 = (8 * n + c) mod 65536"
    using mod_mult_self2 [of "8 * b + c" 65536 a] mod_mult_self2 [of "8 * b + c" 65536 "8 * q + a"]
    by (simp only: m)
qed

lemma shift_digits_eq:
  "c < 8 \<Longrightarrow> shift_digits (base_digits k n) (word_of_nat c) = base_digits k (8 * n + c)"
proof (induction k arbitrary: n c)
  case 0
  then show ?case by simp
next
  case (Suc k)
  let ?r = "n mod 65536"
  have r: "?r < 65536" "?r div 8192 < 8"
    by (simp_all add: less_mult_imp_div_less)
  have "drop_bit 13 (word_of_nat ?r :: u64) AND 65535 = word_of_nat (?r div 8192)"
    using r by (simp add: and_65535 drop_bit_of_nat_u64 take_bit_16_of_nat)
  moreover have "(8 * n + c) div 65536 = 8 * (n div 65536) + ?r div 8192"
      "(8 * ?r + c) mod 65536 = (8 * n + c) mod 65536"
    using shift_digit_arith [OF Suc.prems] by simp_all
  ultimately show ?case
    using Suc.IH [OF r(2), of "n div 65536"] or_shift [OF Suc.prems, of ?r]
    by (simp add: and_65535 take_bit_16_of_nat del: of_nat_add of_nat_mult)
qed

lemma base_digits_nth:
  "i < k \<Longrightarrow> base_digits k n ! i = word_of_nat (n div 65536 ^ i mod 65536)"
  by (induction k arbitrary: n i) (auto simp: nth_Cons div_mult2_eq split: nat.splits)

lemma upt_8: "[0..<8] = [0, 1, 2, 3, 4, 5, 6, 7::nat]"
  by (simp add: upt_rec)

lemma ucast_byte_of_nat: "(ucast (word_of_nat x :: u64) :: u8) = word_of_nat (x mod 256)"
  by (rule word_unat_eq_iff [THEN iffD2])
    (simp add: unsigned_ucast_eq unat_of_nat take_bit_nat_def mod_mod_cancel)

lemma write_data_bit_length_eq:
  assumes "8 * n < 2 ^ 64"
  shows "write_data_bit_length (base_digits 4 n) = uint64_bytes (word_of_nat (8 * n))"
proof -
  define m where "m = 8 * n"
  have hi: "ucast (drop_bit 8 (word_of_nat (x mod 65536) :: u64)) = (word_of_nat (x div 256 mod 256) :: u8)"
    and low: "ucast (word_of_nat (x mod 65536) :: u64) = (word_of_nat (x mod 256) :: u8)" for x :: nat
  proof -
    have "x mod 65536 div 256 mod 256 = x div 256 mod 256" "x mod 65536 mod 256 = x mod 256"
      using mod_mult2_eq [of x 256 256] by simp_all
    moreover have "x mod 65536 < 2 ^ 64"
      by (rule order_less_trans [of _ 65536]) simp_all
    ultimately show "ucast (drop_bit 8 (word_of_nat (x mod 65536) :: u64)) =
        (word_of_nat (x div 256 mod 256) :: u8)"
      "ucast (word_of_nat (x mod 65536) :: u64) = (word_of_nat (x mod 256) :: u8)"
      by (simp_all add: drop_bit_of_nat_u64 ucast_byte_of_nat)
  qed
  have "m < 2 ^ 64"
    using assms by (simp add: m_def)
  then have byte: "ucast (drop_bit k (word_of_nat m :: u64)) = (word_of_nat (m div 2 ^ k mod 256) :: u8)" for k
    by (simp only: drop_bit_of_nat_u64 ucast_byte_of_nat)
  have "write_data_bit_length (base_digits 4 n) =
      concat (map (\<lambda>i. [ucast (drop_bit 8 (base_digits 4 m ! i)), ucast (base_digits 4 m ! i)]) [3, 2, 1, 0])"
    using shift_digits_eq [of 0 4 n] by (simp add: write_data_bit_length_def m_def Let_def)
  also have "\<dots> = map (\<lambda>j. word_of_nat (m div 2 ^ (8 * (7 - j)) mod 256)) [0..<8]"
    by (simp add: hi low base_digits_nth upt_8 div_mult2_eq [symmetric])
  finally show ?thesis
    unfolding uint64_bytes_def m_def [symmetric] byte .
qed

section \<open>The hasher computes SHA-256\<close>

text \<open>What a hasher holds after it has been fed the message \<open>msg\<close>.\<close>

definition absorbed :: "hasher \<Rightarrow> bytes \<Rightarrow> bool" where
  "absorbed hs msg \<longleftrightarrow> length (buffer hs) < 64 \<and>
     data_length_digits hs = base_digits 4 (length msg) \<and>
     (\<exists>pre. msg = pre @ buffer hs \<and> length pre mod 64 = 0 \<and>
        h_words hs = map up (compress_blocks sha_initial pre))"

lemma absorbed_init: "absorbed hasher_init []"
proof -
  have "base_digits 4 0 = replicate 4 0"
    by (rule nth_equalityI) (simp_all add: base_digits_nth)
  then show ?thesis
    by (simp add: absorbed_def hasher_init_def initial_message_digest_eq)
qed

lemma process_blocks_eq:
  assumes "length h = 8" and "i \<le> length buf"
  shows "process_blocks (map up h) buf i =
    (map up (compress_blocks h (drop i buf)), i + 64 * ((length buf - i) div 64))"
  using assms
proof (induction "length buf - i" arbitrary: h i rule: less_induct)
  case less
  show ?case
  proof (cases "i + 64 \<le> length buf")
    case True
    have "process_blocks (map up h) buf i =
        process_blocks (map up (compress h (block_words (drop i buf)))) buf (i + 64)"
      using True less.prems by (subst process_blocks.simps) (simp add: hash256_block_eq)
    also have "\<dots> = (map up (compress_blocks (compress h (block_words (drop i buf))) (drop (i + 64) buf)),
        i + 64 + 64 * ((length buf - (i + 64)) div 64))"
      using True less.prems by (intro less.hyps) auto
    also have "compress_blocks (compress h (block_words (drop i buf))) (drop (i + 64) buf) =
        compress_blocks h (drop i buf)"
      using True by (simp add: compress_blocks_block add.commute)
    also have "i + 64 + 64 * ((length buf - (i + 64)) div 64) = i + 64 * ((length buf - i) div 64)"
      using True by (simp add: div_if [of "length buf - i"])
    finally show ?thesis .
  next
    case False
    with less.prems show ?thesis
      by (subst process_blocks.simps) simp
  qed
qed

lemma absorbed_process:
  assumes "absorbed hs msg" and "length msg + length bs < 2 ^ 63"
  shows "absorbed (process bs hs) (msg @ bs)"
proof -
  obtain pre where pre: "msg = pre @ buffer hs" "length pre mod 64 = 0"
      "h_words hs = map up (compress_blocks sha_initial pre)"
    using assms(1) by (auto simp: absorbed_def)
  let ?buf = "buffer hs @ bs"
  let ?k = "64 * (length ?buf div 64)"
  have blocks: "process_blocks (h_words hs) ?buf 0 =
      (map up (compress_blocks (compress_blocks sha_initial pre) ?buf), ?k)"
    unfolding pre(3) by (subst process_blocks_eq) simp_all
  have k: "?k \<le> length ?buf" "length (drop ?k ?buf) < 64"
    using minus_mult_div_eq_mod [of "length ?buf" 64] by (simp_all only: length_drop)
  have "length (take ?k ?buf) mod 64 = 0"
    using k(1) by (simp only: length_take min_absorb2) simp
  then have "compress_blocks (compress_blocks sha_initial pre) (take ?k ?buf @ drop ?k ?buf) =
      compress_blocks (compress_blocks sha_initial pre) (take ?k ?buf)"
    using k(2) by (simp only: compress_blocks_append compress_blocks_short)
  also have "\<dots> = compress_blocks sha_initial (pre @ take ?k ?buf)"
    using pre(2) by (simp only: compress_blocks_append)
  finally have h: "compress_blocks (compress_blocks sha_initial pre) ?buf =
      compress_blocks sha_initial (pre @ take ?k ?buf)"
    by (simp only: append_take_drop_id)
  have digits: "add_to_data_length (data_length_digits hs) (word_of_nat (length bs)) =
      base_digits 4 (length (msg @ bs))"
    using assms add_to_data_length_eq [of "length msg" "length bs"] by (simp add: absorbed_def)
  have "process bs hs = \<lparr>buffer = drop ?k ?buf, data_length_digits = base_digits 4 (length (msg @ bs)),
      h_words = map up (compress_blocks sha_initial (pre @ take ?k ?buf))\<rparr>"
    unfolding process_def Let_def blocks digits h by simp
  moreover have "msg @ bs = (pre @ take ?k ?buf) @ drop ?k ?buf"
    using pre(1) append_take_drop_id [of ?k ?buf] by simp
  moreover have "length (pre @ take ?k ?buf) mod 64 = 0"
    using pre(2) \<open>length (take ?k ?buf) mod 64 = 0\<close> by (simp only: length_append) presburger
  ultimately show ?thesis
    using k(2) unfolding absorbed_def
    by (intro conjI exI [of _ "pre @ take ?k ?buf"]) (simp_all only: hasher.simps)
qed

lemma fill_zero_id:
  "(\<And>i. a \<le> i \<Longrightarrow> i < b \<Longrightarrow> i < length temp \<Longrightarrow> temp ! i = 0) \<Longrightarrow> fill_zero a b temp = temp"
  unfolding fill_zero_def by (rule nth_equalityI) auto

lemma fill_zero_front: "k \<le> length temp \<Longrightarrow> fill_zero 0 k temp = replicate k 0 @ drop k temp"
  unfolding fill_zero_def by (rule nth_equalityI) (auto simp: nth_append)

lemma finish_temp:
  assumes "length buf < 64"
  shows "(copy_front buf (replicate 64 0))[length buf := 0x80] =
    buf @ 0x80 # replicate (63 - length buf) 0"
proof -
  obtain k where "64 - length buf = Suc k" "63 - length buf = k"
    using assms by (cases "64 - length buf") auto
  then show ?thesis
    by (simp add: copy_front_def)
qed

lemma finish_digest:
  assumes "absorbed hs msg" and "length msg < 2 ^ 60"
  shows "h_words (finish hs) = map up (compress_blocks sha_initial (sha_pad msg))"
proof -
  obtain pre where pre: "msg = pre @ buffer hs" "length pre mod 64 = 0"
      "h_words hs = map up (compress_blocks sha_initial pre)"
    using assms(1) by (auto simp: absorbed_def)
  let ?b = "buffer hs" and ?len = "uint64_bytes (word_of_nat (8 * length msg))"
  let ?r = "length ?b" and ?h = "compress_blocks sha_initial pre"
  have r: "?r < 64" "length msg mod 64 = ?r"
    using assms(1) pre(1,2) by (auto simp: absorbed_def)
  have "8 * length msg < 2 ^ 64"
    using assms(2) by simp
  then have len: "write_data_bit_length (data_length_digits hs) = ?len"
    using assms(1) write_data_bit_length_eq by (simp add: absorbed_def)
  let ?temp = "?b @ 0x80 # replicate (63 - ?r) 0"
  have tail: "sha_pad msg = pre @ (?b @ 0x80 # replicate (pad_zeros (length msg)) 0 @ ?len)"
    by (simp add: sha_pad_def pre(1))
  show ?thesis
  proof (cases "?r > 55")
    case True
    have "fill_zero (?r + 1) 64 ?temp = ?temp"
      by (rule fill_zero_id) (auto simp: nth_append nth_Cons split: nat.splits)
    moreover have "fill_zero 0 60 ?temp = replicate 60 0 @ drop 60 ?temp"
      using r(1) by (intro fill_zero_front) simp
    ultimately have fin: "h_words (finish hs) = map up (compress (compress ?h (block_words ?temp))
        (block_words (replicate 56 0 @ ?len)))"
      using True r(1) pre(3) len
      by (simp add: finish_def Let_def finish_temp hash256_block_eq)
    have z: "pad_zeros (length msg) = (63 - ?r) + 56"
      using True r by (simp add: pad_zeros_def)
    have "compress_blocks ?h (?temp @ (replicate 56 0 @ ?len)) =
        compress_blocks (compress_blocks ?h ?temp) (replicate 56 0 @ ?len)"
      using r(1) by (intro compress_blocks_append) simp
    also have "\<dots> = compress (compress ?h (block_words ?temp)) (block_words (replicate 56 0 @ ?len))"
      using r(1) by (simp add: compress_blocks_block)
    finally show ?thesis
      unfolding fin tail compress_blocks_append [OF pre(2)] by (simp add: z replicate_add)
  next
    case False
    have "fill_zero (?r + 1) 60 ?temp = ?temp"
      by (rule fill_zero_id) (auto simp: nth_append nth_Cons split: nat.splits)
    moreover have "take 56 ?temp = ?b @ 0x80 # replicate (55 - ?r) 0"
      using False by (simp add: take_Cons' min_def)
    ultimately have fin: "h_words (finish hs) =
        map up (compress ?h (block_words (?b @ 0x80 # replicate (55 - ?r) 0 @ ?len)))"
      using False r(1) pre(3) len
      by (simp add: finish_def Let_def finish_temp hash256_block_eq)
    have "pad_zeros (length msg) = 55 - ?r"
      using False r by (simp add: pad_zeros_def)
    then show ?thesis
      using False r(1) unfolding fin tail compress_blocks_append [OF pre(2)]
      by (simp add: compress_blocks_block)
  qed
qed

lemma get_hash_bytes_eq:
  assumes "h_words hs = map up h"
  shows "get_hash_bytes hs n = take n (digest_bytes h)"
proof -
  have "map (\<lambda>i. mask_8bit (ucast (drop_bit (24 - 8 * i) (up x)))) [0..<4] = be_bytes x" for x
    unfolding be_bytes_def mask_8bit_id
    by (rule map_cong) (auto intro!: bit_word_eqI simp: bit_simps)
  then show ?thesis
    using assms by (simp add: get_hash_bytes_def digest_bytes_def comp_def)
qed

lemma finish_hash_bytes:
  "absorbed hs msg \<Longrightarrow> length msg < 2 ^ 60 \<Longrightarrow> get_hash_bytes (finish hs) n = take n (sha256 msg)"
  using get_hash_bytes_eq [OF finish_digest] by (simp add: sha256_def)

lemma absorbed_fold:
  "absorbed hs msg \<Longrightarrow> length msg + length (concat pieces) < 2 ^ 60 \<Longrightarrow>
   absorbed (fold process pieces hs) (msg @ concat pieces)"
proof (induction pieces arbitrary: hs msg)
  case Nil
  then show ?case by simp
next
  case (Cons p ps)
  have "absorbed (process p hs) (msg @ p)"
    using Cons.prems by (intro absorbed_process) auto
  with Cons.prems Cons.IH [of "process p hs" "msg @ p"] show ?case by simp
qed

lemma absorbed_pieces:
  assumes "0 < n"
  shows "absorbed hs msg \<Longrightarrow> length msg + length bs < 2 ^ 63 \<Longrightarrow>
    \<exists>hs'. process_pieces n bs hs = Inr hs' \<and> absorbed hs' (msg @ bs)"
proof (induction "length bs" arbitrary: bs hs msg rule: less_induct)
  case less
  show ?case
  proof (cases "bs = []")
    case True
    with less.prems show ?thesis by (subst process_pieces.simps) simp
  next
    case False
    have "absorbed (process (take n bs) hs) (msg @ take n bs)"
      using less.prems by (intro absorbed_process) auto
    then have "\<exists>hs'. process_pieces n (drop n bs) (process (take n bs) hs) = Inr hs' \<and>
        absorbed hs' ((msg @ take n bs) @ drop n bs)"
      using False assms less.prems by (intro less.hyps) (auto simp: min_def)
    then show ?thesis
      using False assms by (subst process_pieces.simps) simp
  qed
qed

text \<open>C9: the hasher computes SHA-256. Feeding it the message in any pieces and finishing gives
  the digest of FIPS 180-4 of the whole message: padding in the last block or in an extra one,
  the length counter with its carries and the masked 64-bit arithmetic included. The bound is
  the length that fits the counter.\<close>

theorem hasher_computes_sha256:
  assumes "length (concat pieces) < 2 ^ 60"
  shows "get_hash_bytes (finish (fold process pieces hasher_init)) k_digest_size =
    sha256 (concat pieces)"
  using finish_hash_bytes [OF absorbed_fold [OF absorbed_init], of pieces] assms
  by (simp add: k_digest_size_def length_sha256)

theorem hasher_computes_sha256_witness:
  "get_hash_bytes (finish (fold process [[97], [98, 99]] hasher_init)) k_digest_size =
     sha256 [97, 98, 99]"
  using hasher_computes_sha256 [of "[[97], [98, 99]]"] by simp

lemma hash256_impl_eq: "length bs < 2 ^ 60 \<Longrightarrow> hash256_impl bs 32 = sha256 bs"
  using finish_hash_bytes [OF absorbed_process [OF absorbed_init, of bs]]
  by (simp add: hash256_impl_def length_sha256)

text \<open>Reading the input through a buffer of any positive size gives the same digest as
  hashing it at once.\<close>

theorem hash256_impl_input_eq:
  assumes "0 < buffer_size" and "length bs < 2 ^ 60"
  shows "hash256_impl_input buffer_size bs k_digest_size = Inr (hash256_impl bs k_digest_size)"
proof -
  obtain hs where "process_pieces buffer_size bs hasher_init = Inr hs" "absorbed hs bs"
    using absorbed_pieces [OF assms(1) absorbed_init, of bs] assms(2) by auto
  then show ?thesis
    using finish_hash_bytes assms(2) hash256_impl_eq [of bs]
    by (simp add: hash256_impl_input_def k_digest_size_def length_sha256)
qed

theorem hash256_impl_input_eq_witness:
  "hash256_impl_input 2 [97, 98, 99] k_digest_size = Inr (hash256_impl [97, 98, 99] k_digest_size)"
  by (rule hash256_impl_input_eq) simp_all

section \<open>The hexadecimal form\<close>

lemma output_hex_Cons:
  "output_hex (b # bs) = [hex_digit (unat b div 16), hex_digit (unat b mod 16)] @ output_hex bs"
  by (simp add: output_hex_def)

lemma length_output_hex [simp]: "length (output_hex bs) = 2 * length bs"
  by (induction bs) (simp_all add: output_hex_Cons, simp add: output_hex_def)

lemma length_hex_string:
  "length bs < 2 ^ 60 \<Longrightarrow> length (hash256_hex_string bs) = 64"
  by (simp add: hash256_hex_string_def k_digest_size_def hash256_impl_eq length_sha256)

text \<open>The overloads agree: the text of a digest does not depend on how the message was fed,
  and a container gets as many bytes of the digest as it can hold.\<close>

lemma hash256_impl_take: "length bs < 2 ^ 60 \<Longrightarrow> hash256_impl bs n = take n (sha256 bs)"
  using finish_hash_bytes [OF absorbed_process [OF absorbed_init, of bs]]
  by (simp add: hash256_impl_def)

theorem hash256_overloads:
  assumes "length (concat pieces) < 2 ^ 60"
  shows "get_hash_hex_string (finish (fold process pieces hasher_init)) =
      hash256_hex_string (concat pieces)"
    and "hash256_into (concat pieces) dst =
      take (length dst) (sha256 (concat pieces)) @ drop 32 dst"
  using finish_hash_bytes [OF absorbed_fold [OF absorbed_init], of pieces] assms
    hash256_impl_take [OF assms]
  by (auto simp: get_hash_hex_string_def bytes_to_hex_string_def hash256_hex_string_def
      hash256_into_def copy_front_def k_digest_size_def length_sha256 min_def)

end
