(* ===== verification/Merkle_Sha_Libs.thy ===== *)
theory Merkle_Sha_Libs
  imports Merkle_Sha256 Picosha
begin

text \<open>
  The hash functions of \<open>include/merklecpp.h\<close> that call OpenSSL or mbedTLS (compiled when
  \<open>HAVE_OPENSSL\<close> or \<open>HAVE_MBEDTLS\<close> is defined). A library is a record of its functions
  on contexts; \<open>sha_lib_laws\<close> says what its documentation promises. The words of a digest
  are stored in the byte order of the machine.
\<close>

record 'c sha_lib =
  sha_init :: "'c \<Rightarrow> int \<times> 'c"
  sha_transform :: "'c \<Rightarrow> bytes \<Rightarrow> 'c"
  sha_state :: "'c \<Rightarrow> u32 list"
  sha_full :: "bytes \<Rightarrow> bytes"

definition sha_lib_laws :: "'c sha_lib \<Rightarrow> bool" where
  "sha_lib_laws S \<longleftrightarrow>
     (\<forall>c. fst (sha_init S c) = 1 \<and> sha_state S (snd (sha_init S c)) = sha_initial) \<and>
     (\<forall>c block. length block = 64 \<longrightarrow>
        sha_state S (sha_transform S c block) = compress (sha_state S c) (block_words block)) \<and>
     (\<forall>bs. sha_full S bs = sha256 bs)"

section \<open>The code\<close>

text \<open>The context is that of the stack, \<open>c\<close>, until it is initialised; a failure of
  \<open>SHA256_Init\<close> is printed and ignored.\<close>

definition sha256_compress_openssl :: "'c sha_lib \<Rightarrow> 'c \<Rightarrow> hash \<Rightarrow> hash \<Rightarrow> hash" where
  "sha256_compress_openssl S c l r =
     (let block = take 32 l @ take 32 r;
          (ok, ctx) = sha_init S c;
          ctx = sha_transform S ctx block
      in concat (map (\<lambda>i. store_word (convert_endianness (sha_state S ctx ! i))) [0..<8]))"

definition sha256_openssl :: "'c sha_lib \<Rightarrow> hash \<Rightarrow> hash \<Rightarrow> hash" where
  "sha256_openssl S l r = (let block = take 32 l @ take 32 r in sha_full S block)"

text \<open>\<open>htobe32\<close> of a little-endian machine exchanges the bytes.\<close>

definition htobe32 :: "u32 \<Rightarrow> u32" where
  "htobe32 w = load_word (rev (store_word w)) 0"

definition sha256_compress_mbedtls :: "'c sha_lib \<Rightarrow> 'c \<Rightarrow> hash \<Rightarrow> hash \<Rightarrow> hash" where
  "sha256_compress_mbedtls S c l r =
     (let block = take 32 l @ take 32 r;
          (_, ctx) = sha_init S c;
          ctx = sha_transform S ctx block
      in concat (map (\<lambda>i. store_word (htobe32 (sha_state S ctx ! i))) [0..<8]))"

definition sha256_mbedtls :: "'c sha_lib \<Rightarrow> hash \<Rightarrow> hash \<Rightarrow> hash" where
  "sha256_mbedtls S l r = (let block = take 32 l @ take 32 r in sha_full S block)"

section \<open>The variants agree\<close>

lemma store_word_4: "store_word v = [ucast v, ucast (drop_bit 8 v), ucast (drop_bit 16 v), ucast (drop_bit 24 v)]"
  by (simp add: store_word_def upt_4)

lemma htobe32_eq: "htobe32 w = convert_endianness w"
  unfolding htobe32_def load_word_eq store_word_4 convert_endianness_eq
  by (rule bit_word_eqI) (auto simp: bit_simps)

lemma digest_stored:
  "length h = 8 \<Longrightarrow> concat (map (\<lambda>i. store_word (convert_endianness (h ! i))) [0..<8]) = digest_bytes h"
proof -
  assume len: "length h = 8"
  have "map be_bytes (map ((!) h) [0..<length h]) = map (\<lambda>i. be_bytes (h ! i)) [0..<8]"
    by (simp only: len map_map comp_def)
  then show ?thesis
    by (simp only: store_convert digest_bytes_def map_nth)
qed

text \<open>The compression functions of the libraries and the portable one are the same function,
  and the full hashes of the libraries are SHA-256 of the two hashes, with padding.\<close>

theorem sha_variants_agree:
  assumes "sha_lib_laws S" and "hash_ok 32 l" and "hash_ok 32 r"
  shows "sha256_compress_openssl S c l r = sha256_compress l r"
    and "sha256_compress_mbedtls S c l r = sha256_compress l r"
    and "sha256_openssl S l r = sha256 (l @ r)" and "sha256_mbedtls S l r = sha256 (l @ r)"
proof -
  have spec: "sha256_compress l r = digest_bytes (compress sha_initial (block_words (l @ r)))"
    using assms(2,3) sha256_compress_eq [of l r] by (simp add: hash_ok_def)
  obtain ok ctx where i: "sha_init S c = (ok, ctx)"
    by (cases "sha_init S c")
  have st: "sha_state S (sha_transform S ctx (l @ r)) = compress sha_initial (block_words (l @ r))"
    using assms i unfolding sha_lib_laws_def hash_ok_def by (metis length_append numeral_Bit0 snd_conv)
  show "sha256_compress_openssl S c l r = sha256_compress l r"
    using assms(2,3)
    by (simp add: sha256_compress_openssl_def Let_def i st spec hash_ok_def digest_stored)
  show "sha256_compress_mbedtls S c l r = sha256_compress l r"
    using assms(2,3)
    by (simp add: sha256_compress_mbedtls_def Let_def i st spec hash_ok_def htobe32_eq digest_stored)
  show "sha256_openssl S l r = sha256 (l @ r)" "sha256_mbedtls S l r = sha256 (l @ r)"
    using assms by (simp_all add: sha256_openssl_def sha256_mbedtls_def Let_def sha_lib_laws_def hash_ok_def)
qed

end
