(* ===== verification/Interpolation.thy ===== *)
theory Interpolation
  imports Beacon_Prelude
begin

text \<open>
  Polynomial functions over a field and their interpolation, the mathematics behind
  \<open>include/pvss/PolyOps.hpp\<close>: a polynomial function of degree at most \<open>d\<close> is determined
  by its values at \<open>d + 1\<close> points; Lagrange's formula gives its value at zero and its
  coefficient of \<open>x ^ d\<close>.
\<close>

text \<open>\<open>polyfn d l f\<close>: \<open>f\<close> is a polynomial function of degree at most \<open>d\<close> whose
  coefficient of \<open>x ^ d\<close> is \<open>l\<close>.\<close>

definition polyfn :: "nat \<Rightarrow> 'a :: field \<Rightarrow> ('a \<Rightarrow> 'a) \<Rightarrow> bool" where
  "polyfn d l f \<longleftrightarrow> (\<exists>c. c d = l \<and> (\<forall>x. f x = (\<Sum>i\<le>d. c i * x ^ i)))"

named_theorems poly_intros \<open>closure properties of polynomial functions\<close>

lemma polyfn_const [poly_intros]: "polyfn 0 a (\<lambda>x. a)"
  unfolding polyfn_def by (intro exI [of _ "\<lambda>i. a"]) simp

lemma polyfn_add [poly_intros]:
  "polyfn d l f \<Longrightarrow> polyfn d k g \<Longrightarrow> polyfn d (l + k) (\<lambda>x. f x + g x)"
proof -
  assume "polyfn d l f" "polyfn d k g"
  then obtain c e where "c d = l" "\<And>x. f x = (\<Sum>i\<le>d. c i * x ^ i)"
      "e d = k" "\<And>x. g x = (\<Sum>i\<le>d. e i * x ^ i)"
    unfolding polyfn_def by auto
  then show ?thesis
    unfolding polyfn_def
    by (intro exI [of _ "\<lambda>i. c i + e i"]) (simp add: sum.distrib algebra_simps)
qed

lemma polyfn_scale [poly_intros]:
  "polyfn d l f \<Longrightarrow> polyfn d (a * l) (\<lambda>x. a * f x)"
proof -
  assume "polyfn d l f"
  then obtain c where "c d = l" "\<And>x. f x = (\<Sum>i\<le>d. c i * x ^ i)"
    unfolding polyfn_def by auto
  then show ?thesis
    unfolding polyfn_def
    by (intro exI [of _ "\<lambda>i. a * c i"]) (simp add: sum_distrib_left mult.assoc)
qed

lemma polyfn_sum [poly_intros]:
  "finite A \<Longrightarrow> (\<And>j. j \<in> A \<Longrightarrow> polyfn d (l j) (f j)) \<Longrightarrow>
    polyfn d (\<Sum>j\<in>A. l j) (\<lambda>x. \<Sum>j\<in>A. f j x)"
proof (induction A rule: finite_induct)
  case empty
  show ?case
    unfolding polyfn_def by (intro exI [of _ "\<lambda>i. 0"]) simp
next
  case (insert a A)
  then show ?case by (simp add: polyfn_add)
qed

lemma polyfn_linear [poly_intros]:
  "polyfn d l f \<Longrightarrow> polyfn (Suc d) l (\<lambda>x. f x * (x - a))"
proof -
  assume "polyfn d l f"
  then obtain c where c: "c d = l" "\<And>x. f x = (\<Sum>i\<le>d. c i * x ^ i)"
    unfolding polyfn_def by auto
  let ?e = "\<lambda>i. (if i = 0 then 0 else c (i - 1)) - a * (if i \<le> d then c i else 0)"
  have "f x * (x - a) = (\<Sum>i\<le>Suc d. ?e i * x ^ i)" for x
  proof -
    have "(\<Sum>i\<le>Suc d. (if i = 0 then 0 else c (i - 1)) * x ^ i) = (\<Sum>i\<le>d. c i * x ^ i) * x"
      by (subst sum.atMost_Suc_shift) (simp add: sum_distrib_left algebra_simps)
    moreover have "(\<Sum>i\<le>Suc d. a * (if i \<le> d then c i else 0) * x ^ i) = a * (\<Sum>i\<le>d. c i * x ^ i)"
      by (simp add: sum_distrib_left algebra_simps)
    ultimately show ?thesis
      unfolding left_diff_distrib sum_subtractf c(2) by (simp add: algebra_simps)
  qed
  with c(1) show ?thesis
    unfolding polyfn_def by (intro exI [of _ ?e]) simp
qed

lemma polyfn_prod [poly_intros]:
  "finite B \<Longrightarrow> polyfn (card B) (\<Prod>m\<in>B. k m) (\<lambda>x. \<Prod>m\<in>B. (x - a m) * k m)"
proof (induction B rule: finite_induct)
  case empty
  show ?case using polyfn_const [of 1] by simp
next
  case (insert m B)
  have "polyfn (Suc (card B)) (k m * (\<Prod>m\<in>B. k m))
      (\<lambda>x. k m * ((\<Prod>m\<in>B. (x - a m) * k m) * (x - a m)))"
    by (intro polyfn_scale polyfn_linear insert.IH)
  with insert.hyps show ?case by (simp add: algebra_simps)
qed

lemma polyfn_raise:
  assumes "polyfn d l f" and "0 < m"
  shows "polyfn (d + m) 0 f"
proof -
  obtain c where c: "\<forall>x. f x = (\<Sum>i\<le>d. c i * x ^ i)"
    using assms(1) unfolding polyfn_def by blast
  have "(\<Sum>i\<le>d + m. (if i \<le> d then c i else 0) * x ^ i) = (\<Sum>i\<le>d. c i * x ^ i)" for x
    by (rule sum.mono_neutral_cong_right) auto
  with c assms(2) show ?thesis
    unfolding polyfn_def by (intro exI [of _ "\<lambda>i. if i \<le> d then c i else 0"]) simp
qed

lemma polyfn_mult [poly_intros]:
  assumes "polyfn d l f" and "polyfn e k g"
  shows "polyfn (d + e) (l * k) (\<lambda>x. f x * g x)"
proof -
  obtain c where c: "c d = l" "\<And>x. f x = (\<Sum>i\<le>d. c i * x ^ i)"
    using assms(1) unfolding polyfn_def by auto
  have power: "polyfn (i + e) k (\<lambda>x. x ^ i * g x)" for i
  proof (induction i)
    case 0
    then show ?case using assms(2) by simp
  next
    case (Suc i)
    from polyfn_linear [OF this, of 0] show ?case by (simp add: algebra_simps)
  qed
  have "polyfn (d + e) (if i = d then c i * k else 0) (\<lambda>x. c i * (x ^ i * g x))" if "i \<le> d" for i
  proof (cases "i = d")
    case True
    then show ?thesis using polyfn_scale [OF power [of i], of "c i"] by simp
  next
    case False
    then have "polyfn (i + e + (d - i)) 0 (\<lambda>x. c i * (x ^ i * g x))"
      using that by (intro polyfn_raise [OF polyfn_scale [OF power]]) simp
    with False that show ?thesis by (simp add: add.commute add.left_commute)
  qed
  then have "polyfn (d + e) (\<Sum>i\<le>d. if i = d then c i * k else 0) (\<lambda>x. \<Sum>i\<le>d. c i * (x ^ i * g x))"
    by (intro polyfn_sum) auto
  moreover have "(\<Sum>i\<le>d. if i = d then c i * k else 0) = l * k"
    using c(1) by simp
  ultimately show ?thesis
    by (simp add: c(2) sum_distrib_right mult.assoc)
qed

text \<open>A polynomial function of degree at most \<open>d\<close> with more than \<open>d\<close> roots is zero.\<close>

lemma polyfn_factor:
  "polyfn (Suc d) l f \<Longrightarrow> \<exists>g. polyfn d l g \<and> (\<forall>x. f x - f a = g x * (x - a))"
proof (induction d arbitrary: f)
  case 0
  then obtain c where c: "c 1 = l" "\<And>x. f x = (\<Sum>i\<le>Suc 0. c i * x ^ i)"
    unfolding polyfn_def by auto
  have "f x - f a = l * (x - a)" for x
    unfolding c(2) using c(1) by (simp add: algebra_simps)
  then show ?case
    using polyfn_const by blast
next
  case (Suc d)
  then obtain c where c: "c (Suc (Suc d)) = l" "\<And>x. f x = (\<Sum>i\<le>Suc (Suc d). c i * x ^ i)"
    unfolding polyfn_def by auto
  let ?h = "\<lambda>x. \<Sum>i\<le>Suc d. c (Suc i) * x ^ i"
  have f: "f x = c 0 + x * ?h x" for x
    unfolding c(2) by (subst sum.atMost_Suc_shift) (simp only: sum_distrib_left power_Suc
        power_0 mult_1_right mult.left_commute)
  have h: "polyfn (Suc d) l ?h"
    unfolding polyfn_def using c(1) by (intro exI [of _ "\<lambda>i. c (Suc i)"]) simp
  then obtain g where g: "polyfn d l g" "\<And>x. ?h x - ?h a = g x * (x - a)"
    using Suc.IH by blast
  have "polyfn (Suc d) (l + a * 0) (\<lambda>x. ?h x + a * g x)"
    using h polyfn_raise [OF g(1), of 1] by (intro polyfn_add polyfn_scale) simp_all
  then have "polyfn (Suc d) l (\<lambda>x. ?h x + a * g x)"
    by simp
  moreover have "f x - f a = (?h x + a * g x) * (x - a)" for x
  proof -
    have "f x - f a = (x - a) * ?h x + a * (?h x - ?h a)"
      unfolding f by (simp only: left_diff_distrib right_diff_distrib) simp
    then show ?thesis
      by (simp only: g(2)) (simp only: distrib_left distrib_right ac_simps)
  qed
  ultimately show ?case
    by (intro exI [of _ "\<lambda>x. ?h x + a * g x"] conjI allI)
qed

lemma polyfn_roots:
  assumes "polyfn d l f" and "finite A" and "d < card A" and "\<And>x. x \<in> A \<Longrightarrow> f x = 0"
  shows "l = 0" and "f x = 0"
proof -
  have "l = 0 \<and> (\<forall>x. f x = 0)"
    using assms
  proof (induction d arbitrary: f A)
    case 0
    then obtain a where "a \<in> A"
      by fastforce
    moreover have "\<And>x. f x = l"
      using "0.prems"(1) unfolding polyfn_def by auto
    ultimately show ?case
      using "0.prems"(4) by auto
  next
    case (Suc d)
    then obtain a where a: "a \<in> A"
      by fastforce
    obtain g where g: "polyfn d l g" "\<And>x. f x - f a = g x * (x - a)"
      using polyfn_factor [OF Suc.prems(1)] by blast
    have "g x = 0" if "x \<in> A - {a}" for x
      using g(2) [of x] Suc.prems(4) [of x] Suc.prems(4) [OF a] that by simp
    moreover have "d < card (A - {a})"
      using a Suc.prems(2,3) by simp
    ultimately have "l = 0 \<and> (\<forall>x. g x = 0)"
      using Suc.IH [OF g(1), of "A - {a}"] Suc.prems(2) by blast
    then show ?case
      using g(2) Suc.prems(4) [OF a] by simp
  qed
  then show "l = 0" "f x = 0" by auto
qed

section \<open>Lagrange's formula\<close>

lemma lagrange_identity:
  fixes x :: "nat \<Rightarrow> 'a :: field"
  assumes f: "polyfn d l f" and A: "finite A" "card A = Suc d" and inj: "inj_on x A"
  shows "(\<Sum>j\<in>A. f (x j) * (\<Prod>m\<in>A - {j}. inverse (x j - x m))) = l"
    and "(\<Sum>j\<in>A. f (x j) * (\<Prod>m\<in>A - {j}. (y - x m) * inverse (x j - x m))) = f y"
proof -
  let ?k = "\<lambda>j. \<Prod>m\<in>A - {j}. inverse (x j - x m)"
  let ?B = "\<lambda>j y. \<Prod>m\<in>A - {j}. (y - x m) * inverse (x j - x m)"
  let ?L = "\<lambda>y. \<Sum>j\<in>A. f (x j) * ?B j y"
  have "polyfn d (f (x j) * ?k j) (\<lambda>y. f (x j) * ?B j y)" if "j \<in> A" for j
  proof -
    have "card (A - {j}) = d"
      using A that by simp
    then show ?thesis
      using polyfn_prod [of "A - {j}" "\<lambda>m. inverse (x j - x m)" x] A(1) by (auto intro: polyfn_scale)
  qed
  then have "polyfn d (\<Sum>j\<in>A. f (x j) * ?k j) ?L"
    using A(1) by (intro polyfn_sum) auto
  from polyfn_add [OF this polyfn_scale [OF f, of "- 1"]]
  have diff: "polyfn d ((\<Sum>j\<in>A. f (x j) * ?k j) - l) (\<lambda>y. ?L y - f y)"
    by simp
  have "?B j (x i) = (if i = j then 1 else 0)" if "i \<in> A" "j \<in> A" for i j
  proof (cases "i = j")
    case True
    have "(\<Prod>m\<in>A - {j}. (x j - x m) * inverse (x j - x m)) = (\<Prod>m\<in>A - {j}. 1)"
      using inj that by (intro prod.cong refl right_inverse) (auto dest: inj_onD)
    with True show ?thesis by simp
  next
    case False
    with that A(1) show ?thesis by (auto intro!: prod_zero)
  qed
  then have "?L (x i) = (\<Sum>j\<in>A. if i = j then f (x j) else 0)" if "i \<in> A" for i
    using that by (intro sum.cong) auto
  then have L: "?L (x i) = f (x i)" if "i \<in> A" for i
    using that A(1) by simp
  have "card (x ` A) = Suc d"
    using A inj by (simp add: card_image)
  then have card: "finite (x ` A)" "d < card (x ` A)"
    using A(1) by simp_all
  have zero: "?L y - f y = 0" if "y \<in> x ` A" for y
    using that L by fastforce
  show "(\<Sum>j\<in>A. f (x j) * ?k j) = l"
    using polyfn_roots(1) [OF diff card zero] by (simp only: right_minus_eq)
  show "?L y = f y"
    using polyfn_roots(2) [OF diff card zero, of y] by (simp only: right_minus_eq)
qed

text \<open>The form in which the code computes the value at zero.\<close>

lemma lagrange_at_zero:
  fixes x :: "nat \<Rightarrow> 'a :: field"
  assumes "polyfn d l f" and "finite A" "card A = Suc d" and "inj_on x A"
  shows "(\<Sum>j\<in>A. (\<Prod>m\<in>A - {j}. x m * inverse (x m - x j)) * f (x j)) = f 0"
proof -
  have "x m * inverse (x m - x j) = (0 - x m) * inverse (x j - x m)" for m j
    using inverse_minus_eq [of "x j - x m"] by simp
  then show ?thesis
    using lagrange_identity(2) [OF assms, of 0] by (simp add: mult.commute)
qed

end
