(* ===== verification/Pvss_Poly.thy ===== *)
theory Pvss_Poly
  imports Interpolation
begin

text \<open>
  \<open>include/pvss/Config.hpp\<close> and \<open>include/pvss/PolyOps.hpp\<close>: the sizes of the system and the
  polynomials of the secret sharing. The scalar field \<open>Fr\<close> of libff is a type of class
  \<open>field\<close>; a group is a type of class \<open>ab_group_add\<close> with its scalar multiplication as the
  argument \<open>smul\<close>; the random generator of the field is the argument \<open>rnd\<close>, a function on
  its state. libff requires the argument of \<open>inverse\<close> to be different from zero; the model
  returns a fault there.
\<close>

section \<open>Configuration\<close>

record SyncSystemConfig =
  num_replicas :: nat
  num_faults :: nat

definition FromNumReplicas :: "nat \<Rightarrow> SyncSystemConfig" where
  "FromNumReplicas n = \<lparr>num_replicas = n, num_faults = size_sub n 1 div 2\<rparr>"

definition FromNumFaults :: "nat \<Rightarrow> SyncSystemConfig" where
  "FromNumFaults f = \<lparr>num_replicas = size_wrap (2 * f + 1), num_faults = f\<rparr>"

definition is_valid :: "SyncSystemConfig \<Rightarrow> bool" where
  "is_valid c \<longleftrightarrow> size_wrap (2 * num_faults c) < num_replicas c"

lemma num_replicas_FromNumReplicas [simp]: "num_replicas (FromNumReplicas n) = n"
  by (simp add: FromNumReplicas_def)

lemma num_faults_FromNumReplicas [simp]:
  "0 < n \<Longrightarrow> n < 2 ^ 64 \<Longrightarrow> num_faults (FromNumReplicas n) = (n - 1) div 2"
  by (simp add: FromNumReplicas_def size_sub_le)


text \<open>The configuration made from a number of replicas is valid exactly when there is a
  replica (without one the subtraction wraps around), and its number of faults is then the
  largest one that the bound \<open>2 f < n\<close> allows.\<close>

theorem FromNumReplicas_valid:
  assumes "n < 2 ^ 64"
  shows "if n = 0 then \<not> is_valid (FromNumReplicas n)
    else is_valid (FromNumReplicas n) \<and> \<not> 2 * (num_faults (FromNumReplicas n) + 1) < n"
proof (cases "n = 0")
  case True
  then show ?thesis
    by (simp add: is_valid_def)
next
  case False
  then have f: "num_faults (FromNumReplicas n) = (n - 1) div 2"
    using assms by simp
  have "2 * ((n - 1) div 2) < n" "\<not> 2 * ((n - 1) div 2 + 1) < n"
    using False by presburger+
  moreover from this have "size_wrap (2 * ((n - 1) div 2)) = 2 * ((n - 1) div 2)"
    using assms by (intro mod_less) linarith
  ultimately show ?thesis
    using False unfolding is_valid_def f num_replicas_FromNumReplicas by simp
qed

theorem FromNumReplicas_valid_witness:
  "is_valid (FromNumReplicas 5) \<and> \<not> 2 * (num_faults (FromNumReplicas 5) + 1) < 5"
  using FromNumReplicas_valid [of 5] by simp

section \<open>Polynomials\<close>

record 'f polynomial =
  coeffs :: "'f list"

text \<open>The conversion of a \<open>size_t\<close> to \<open>long\<close> and from there to a field element.\<close>

definition fr_of_long :: "nat \<Rightarrow> 'f :: field" where
  "fr_of_long n = of_int (sint (word_of_nat n :: u64))"

definition fr_inverse :: "'f :: field \<Rightarrow> 'f res" where
  "fr_inverse x = (if x = 0 then Inl Division_By_Zero else Inr (inverse x))"

fun random_elements :: "('s \<Rightarrow> 'f \<times> 's) \<Rightarrow> nat \<Rightarrow> 's \<Rightarrow> 'f list \<times> 's" where
  "random_elements rnd 0 s = ([], s)"
| "random_elements rnd (Suc k) s =
     (let (x, s) = rnd s; (xs, s) = random_elements rnd k s in (x # xs, s))"

text \<open>The largest size of a vector of field elements, which take 32 bytes each.\<close>

definition fr_max_size :: nat where
  "fr_max_size = (2 ^ 63 - 1) div 32"

text \<open>\<open>Polynomial::Random\<close>: with the degree \<open>SIZE_MAX\<close> nothing is reserved and the loop
  condition \<open>i <= degree\<close> always holds, so \<open>push_back\<close> is called until the vector cannot grow, at the
  latest when it has its greatest size.\<close>

definition poly_random ::
  "('s \<Rightarrow> 'f \<times> 's) \<Rightarrow> nat \<Rightarrow> 's \<Rightarrow> ('f polynomial \<times> 's) res" where
  "poly_random rnd degree s =
     (if fr_max_size < size_wrap (degree + 1) then Inl Length_Error
      else if degree = SIZE_MAX then Inl Length_Error
      else let (poly, s) = random_elements rnd (degree + 1) s in Inr (\<lparr>coeffs = poly\<rparr>, s))"

definition evaluate :: "'f :: field polynomial \<Rightarrow> 'f \<Rightarrow> 'f" where
  "evaluate p point =
     (let degree = length (coeffs p)
      in foldl (\<lambda>result i. result * point + coeffs p ! (degree - i)) 0 [1..<Suc degree])"

definition get_secret :: "'f polynomial \<Rightarrow> 'f res" where
  "get_secret p = vec_at (coeffs p) 0"

text \<open>
  The first \<open>lagrange_interpolation\<close>, at the points \<open>1\<close> to \<open>degree + 1\<close>. With the degree
  \<open>SIZE_MAX\<close> the check of the size passes and the condition \<open>m <= degree\<close> of the inner loop always
  holds: unless an inverse of zero is met, the loop goes through all values of \<open>m\<close> again and again.
\<close>

fun lagrange_prod :: "nat \<Rightarrow> nat list \<Rightarrow> 'f :: field \<Rightarrow> 'f res" where
  "lagrange_prod j [] p = Inr p"
| "lagrange_prod j (m # ms) p =
     (if m = j then lagrange_prod j ms p
      else let xj = fr_of_long (j + 1); xm = fr_of_long (m + 1)
        in res_bind (fr_inverse (xm - xj)) (\<lambda>i. lagrange_prod j ms (xm * i * p)))"

fun lagrange_sum ::
  "('f :: field \<Rightarrow> 'g :: ab_group_add \<Rightarrow> 'g) \<Rightarrow> nat \<Rightarrow> 'g list \<Rightarrow> nat list \<Rightarrow> 'g \<Rightarrow> 'g res" where
  "lagrange_sum smul degree evals [] sm = Inr sm"
| "lagrange_sum smul degree evals (j # js) sm =
     res_bind (lagrange_prod j [0..<Suc degree] 1) (\<lambda>p.
       res_bind (vec_at evals j) (\<lambda>e. lagrange_sum smul degree evals js (sm + smul p e)))"

definition lagrange_interpolation ::
  "('f :: field \<Rightarrow> 'g :: ab_group_add \<Rightarrow> 'g) \<Rightarrow> nat \<Rightarrow> 'g list \<Rightarrow> 'g res" where
  "lagrange_interpolation smul degree evals =
     (if length evals < size_wrap (degree + 1)
      then Inl (Runtime_Error ''insufficient evaluations'')
      else if degree = SIZE_MAX
      then res_bind (lagrange_prod 0 [0..<Suc degree] (1 :: 'f)) (\<lambda>_. Inl No_Return)
      else lagrange_sum smul degree evals [0..<Suc degree] 0)"

text \<open>
  The second \<open>lagrange_interpolation\<close>, at the given points. Its loops end with the degree
  \<open>SIZE_MAX\<close> too: \<open>points.at\<close> throws when \<open>m\<close> reaches the number of the points, which is below
  \<open>SIZE_MAX\<close>.
\<close>

fun lagrange_prod_at :: "'f :: field list \<Rightarrow> nat \<Rightarrow> 'f \<Rightarrow> nat list \<Rightarrow> 'f \<Rightarrow> 'f res" where
  "lagrange_prod_at points j xj [] p = Inr p"
| "lagrange_prod_at points j xj (m # ms) p =
     (if m = j then lagrange_prod_at points j xj ms p
      else res_bind (vec_at points m) (\<lambda>xm.
        res_bind (fr_inverse (xm - xj)) (\<lambda>i. lagrange_prod_at points j xj ms (xm * i * p))))"

fun lagrange_sum_at ::
  "('f :: field \<Rightarrow> 'g :: ab_group_add \<Rightarrow> 'g) \<Rightarrow> nat \<Rightarrow> 'g list \<Rightarrow> 'f list \<Rightarrow> nat list \<Rightarrow> 'g \<Rightarrow> 'g res"
where
  "lagrange_sum_at smul degree evals points [] sm = Inr sm"
| "lagrange_sum_at smul degree evals points (j # js) sm =
     res_bind (vec_at points j) (\<lambda>xj.
       res_bind (lagrange_prod_at points j xj [0..<Suc degree] 1) (\<lambda>p.
         res_bind (vec_at evals j) (\<lambda>e.
           lagrange_sum_at smul degree evals points js (sm + smul p e))))"

definition lagrange_interpolation_at ::
  "('f :: field \<Rightarrow> 'g :: ab_group_add \<Rightarrow> 'g) \<Rightarrow> nat \<Rightarrow> 'g list \<Rightarrow> 'f list \<Rightarrow> 'g res" where
  "lagrange_interpolation_at smul degree evals points =
     (if length evals < size_wrap (degree + 1)
      then Inl (Runtime_Error ''insufficient evaluations'')
      else lagrange_sum_at smul degree evals points [0..<Suc degree] 0)"

text \<open>\<open>ensure_degree\<close>: the check of commitments with a random element of the dual code.\<close>

fun cperp_loop :: "nat \<Rightarrow> nat list \<Rightarrow> 'f :: field \<Rightarrow> 'f res" where
  "cperp_loop i [] cperp = Inr cperp"
| "cperp_loop i (j # js) cperp =
     (let scalar_i = fr_of_long i; scalar_j = fr_of_long j
      in if i \<noteq> j
         then res_bind (fr_inverse (scalar_i - scalar_j)) (\<lambda>v. cperp_loop i js (cperp * v))
         else cperp_loop i js cperp)"

fun ensure_sum ::
  "('f :: field \<Rightarrow> 'g :: ab_group_add \<Rightarrow> 'g) \<Rightarrow> 'f polynomial \<Rightarrow> 'g list \<Rightarrow> nat list \<Rightarrow> 'g \<Rightarrow> 'g res"
where
  "ensure_sum smul poly evaluations [] v = Inr v"
| "ensure_sum smul poly evaluations (i # is) v =
     res_bind (cperp_loop i [1..<Suc (length evaluations)] (evaluate poly (fr_of_long i))) (\<lambda>cperp.
       res_bind (vec_at evaluations (i - 1)) (\<lambda>e.
         ensure_sum smul poly evaluations is (v + smul cperp e)))"

definition ensure_degree ::
  "('f :: field \<Rightarrow> 'g :: ab_group_add \<Rightarrow> 'g) \<Rightarrow> ('s \<Rightarrow> 'f \<times> 's) \<Rightarrow> 'g list \<Rightarrow> nat \<Rightarrow> 's \<Rightarrow> (bool \<times> 's) res"
where
  "ensure_degree smul rnd evaluations degree s =
     (let num = length evaluations
      in if num < degree then Inr (False, s)
         else res_bind (poly_random rnd (size_sub (size_sub num degree) 2) s) (\<lambda>(poly, s).
           res_bind (ensure_sum smul poly evaluations [1..<Suc num] 0) (\<lambda>v. Inr (v = 0, s))))"

section \<open>Evaluation\<close>

lemma fr_of_long_eq: "n < 2 ^ 63 \<Longrightarrow> fr_of_long n = of_nat n"
proof -
  assume n: "n < 2 ^ 63"
  then have "sint (word_of_nat n :: u64) = int n"
    by (simp add: sint_uint unsigned_of_nat take_bit_nat_eq_self signed_take_bit_eq_if_positive
        bit_iff_odd take_bit_int_eq_self)
  then show ?thesis
    by (simp add: fr_of_long_def)
qed

lemma evaluate_sum:
  "evaluate p x = (\<Sum>i<length (coeffs p). coeffs p ! i * x ^ i)"
proof -
  let ?cs = "coeffs p" and ?n = "length (coeffs p)"
  have "k \<le> ?n \<Longrightarrow> foldl (\<lambda>result i. result * x + ?cs ! (?n - i)) 0 [1..<Suc k] =
      (\<Sum>i<k. ?cs ! (?n - k + i) * x ^ i)" for k
  proof (induction k)
    case 0
    then show ?case by simp
  next
    case (Suc k)
    have "(\<Sum>i<Suc k. ?cs ! (?n - Suc k + i) * x ^ i) =
        ?cs ! (?n - Suc k) + (\<Sum>i<k. ?cs ! (?n - k + i) * x ^ i) * x"
      using Suc.prems unfolding sum.lessThan_Suc_shift
      by (simp add: sum_distrib_left ac_simps Suc_diff_Suc flip: add_Suc_right)
    with Suc show ?case by simp
  qed
  from this [of ?n] show ?thesis
    by (simp add: evaluate_def Let_def)
qed

text \<open>Horner's rule computes the value of the polynomial whose coefficients are stored from
  the constant term upwards.\<close>

theorem evaluate_horner:
  "evaluate p x = (\<Sum>i<length (coeffs p). coeffs p ! i * x ^ i)"
  by (rule evaluate_sum)

lemma evaluate_polyfn:
  assumes "length (coeffs p) = Suc d"
  shows "polyfn d (coeffs p ! d) (evaluate p)"
  unfolding polyfn_def evaluate_sum assms lessThan_Suc_atMost
  by (intro exI [of _ "\<lambda>i. coeffs p ! i"]) simp

lemma evaluate_zero: "coeffs p \<noteq> [] \<Longrightarrow> evaluate p 0 = coeffs p ! 0"
  unfolding evaluate_sum by (cases "length (coeffs p)") (simp_all add: sum.lessThan_Suc_shift)

lemma length_random_elements [simp]: "length (fst (random_elements rnd k s)) = k"
  by (induction k arbitrary: s) (simp_all add: case_prod_unfold Let_def)

lemma poly_random_ok:
  "k < fr_max_size \<Longrightarrow> poly_random rnd k s =
    Inr (\<lparr>coeffs = fst (random_elements rnd (Suc k) s)\<rparr>, snd (random_elements rnd (Suc k) s))"
  by (simp add: poly_random_def fr_max_size_def case_prod_unfold Let_def del: random_elements.simps)

section \<open>Interpolation\<close>

lemma lagrange_prod_at_ok:
  assumes "distinct ms" and "\<And>m. m \<in> set ms \<Longrightarrow> m < length points"
    and "\<And>m. m \<in> set ms \<Longrightarrow> m \<noteq> j \<Longrightarrow> points ! m \<noteq> xj"
  shows "lagrange_prod_at points j xj ms p =
    Inr ((\<Prod>m\<in>set ms - {j}. points ! m * inverse (points ! m - xj)) * p)"
  using assms
proof (induction ms arbitrary: p)
  case Nil
  then show ?case by simp
next
  case (Cons m ms)
  show ?case
  proof (cases "m = j")
    case True
    with Cons show ?thesis by simp
  next
    case False
    let ?f = "\<lambda>m. points ! m * inverse (points ! m - xj)"
    have "set (m # ms) - {j} = insert m (set ms - {j})" "m \<notin> set ms - {j}"
      using False Cons.prems(1) by auto
    then have "(\<Prod>m\<in>set (m # ms) - {j}. ?f m) = ?f m * (\<Prod>m\<in>set ms - {j}. ?f m)"
      by simp
    moreover have "fr_inverse (points ! m - xj) = Inr (inverse (points ! m - xj))"
      using False Cons.prems(3) [of m] by (simp add: fr_inverse_def)
    ultimately show ?thesis
      using False Cons by (simp add: ac_simps)
  qed
qed

lemma lagrange_sum_at_ok:
  assumes "distinct js" and "\<And>j. j \<in> set js \<Longrightarrow> j \<le> d"
    and "d < length points" and "d < length evals" and "inj_on ((!) points) {..d}"
  shows "lagrange_sum_at smul d evals points js sm =
    Inr (sm + (\<Sum>j\<in>set js. smul (\<Prod>m\<in>{..d} - {j}.
      points ! m * inverse (points ! m - points ! j)) (evals ! j)))"
  using assms(1,2)
proof (induction js arbitrary: sm)
  case Nil
  then show ?case by simp
next
  case (Cons j js)
  have "set [0..<Suc d] = {..d}"
    by auto
  then have "lagrange_prod_at points j (points ! j) [0..<Suc d] 1 =
      Inr (\<Prod>m\<in>{..d} - {j}. points ! m * inverse (points ! m - points ! j))"
    using Cons.prems assms(3) inj_onD [OF assms(5)]
    by (subst lagrange_prod_at_ok) (auto simp del: upt_Suc)
  moreover have "j < length points" "j < length evals"
    using Cons.prems(2) [of j] assms(3,4) by auto
  ultimately show ?case
    using Cons by (simp add: add.assoc del: upt_Suc)
qed

lemma lagrange_at_ok:
  assumes "module smul" and "polyfn d l f" and "d < SIZE_MAX"
    and "d < length points" and "d < length evals" and "inj_on ((!) points) {..d}"
    and "\<And>j. j \<le> d \<Longrightarrow> evals ! j = smul (f (points ! j)) g"
  shows "lagrange_interpolation_at smul d evals points = Inr (smul (f 0) g)"
proof -
  let ?c = "\<lambda>j. \<Prod>m\<in>{..d} - {j}. points ! m * inverse (points ! m - points ! j)"
  have d: "size_wrap (d + 1) = d + 1"
    using assms(3) by (intro mod_less) simp
  have "lagrange_sum_at smul d evals points [0..<Suc d] 0 =
      Inr (0 + (\<Sum>j\<in>set [0..<Suc d]. smul (?c j) (evals ! j)))"
    using assms(4-6) by (intro lagrange_sum_at_ok) auto
  also have "(\<Sum>j\<in>set [0..<Suc d]. smul (?c j) (evals ! j)) =
      (\<Sum>j\<in>{..d}. smul (?c j * f (points ! j)) g)"
    using module.scale_scale [OF assms(1)] assms(7) by (intro sum.cong) auto
  also have "\<dots> = smul (\<Sum>j\<in>{..d}. ?c j * f (points ! j)) g"
    by (rule module.scale_sum_left [OF assms(1), symmetric])
  also have "(\<Sum>j\<in>{..d}. ?c j * f (points ! j)) = f 0"
    using assms(2,6) by (intro lagrange_at_zero) auto
  finally show ?thesis
    using assms(3,5) d by (simp add: lagrange_interpolation_at_def del: upt_Suc)
qed

text \<open>C12: the interpolation of the shares \<open>f(x) g\<close> at any \<open>d + 1\<close> different points
  returns \<open>f(0) g\<close> for every polynomial \<open>f\<close> with at most \<open>d + 1\<close> coefficients; with
  fewer shares it throws.\<close>

theorem lagrange_at_correct:
  assumes "module smul" and "length (coeffs p) = Suc d" and "d < SIZE_MAX"
    and "d < length points" and "inj_on ((!) points) {..d}"
    and "\<And>j. j < length evals \<Longrightarrow> evals ! j = smul (evaluate p (points ! j)) g"
  shows "lagrange_interpolation_at smul d evals points =
    (if d < length evals then Inr (smul (coeffs p ! 0) g)
     else Inl (Runtime_Error ''insufficient evaluations''))"
proof (cases "d < length evals")
  case True
  then have "lagrange_interpolation_at smul d evals points = Inr (smul (evaluate p 0) g)"
    using assms by (intro lagrange_at_ok [OF assms(1) evaluate_polyfn [OF assms(2)]]) auto
  moreover have "coeffs p \<noteq> []"
    using assms(2) by auto
  ultimately show ?thesis
    using True by (simp add: evaluate_zero)
next
  case False
  moreover have "size_wrap (d + 1) = d + 1"
    using assms(3) by (intro mod_less) simp
  ultimately show ?thesis
    by (simp add: lagrange_interpolation_at_def)
qed

lemma module_times: "module ((*) :: 'a :: field \<Rightarrow> 'a \<Rightarrow> 'a)"
  by unfold_locales (simp_all add: algebra_simps)

theorem lagrange_at_correct_witness:
  "lagrange_interpolation_at (*) 1 [2 * 1 + 3, 2 * 3 + 3] [1, 3 :: rat] = Inr (3 * 1)"
proof -
  have "inj_on ((!) [1, 3 :: rat]) {..1}"
    by (auto simp: inj_on_def le_Suc_eq)
  moreover have "[2 * 1 + 3, 2 * 3 + 3 :: rat] ! j =
      evaluate \<lparr>coeffs = [3, 2]\<rparr> ([1, 3] ! j) * 1" if "j < 2" for j
    using that by (auto simp: less_2_cases_iff evaluate_def)
  ultimately show ?thesis
    using lagrange_at_correct [OF module_times, of "\<lparr>coeffs = [3, 2 :: rat]\<rparr>" 1 "[1, 3]"
        "[2 * 1 + 3, 2 * 3 + 3]" 1]
    by simp
qed

text \<open>The overload without points is the other one at the points \<open>1, 2, \<dots>\<close>.\<close>

definition share_points :: "nat \<Rightarrow> 'f :: field list" where
  "share_points n = map (\<lambda>j. fr_of_long (j + 1)) [0..<n]"

lemma share_points_nth [simp]: "j < n \<Longrightarrow> share_points n ! j = fr_of_long (j + 1)"
  by (simp add: share_points_def)

lemma length_share_points [simp]: "length (share_points n) = n"
  by (simp add: share_points_def)

lemma lagrange_prod_eq:
  "(\<And>m. m \<in> set ms \<Longrightarrow> m < n) \<Longrightarrow>
    lagrange_prod j ms (p :: 'f :: field) =
    lagrange_prod_at (share_points n) j (fr_of_long (j + 1)) ms p"
proof (induction ms arbitrary: p)
  case Nil
  then show ?case by simp
next
  case (Cons m ms)
  have "lagrange_prod j ms q = lagrange_prod_at (share_points n) j (fr_of_long (j + 1)) ms q"
    for q :: 'f
    using Cons by simp
  with Cons.prems show ?case
    by (simp add: Let_def)
qed

lemma lagrange_sum_eq:
  fixes smul :: "'f :: field \<Rightarrow> 'g :: ab_group_add \<Rightarrow> 'g"
  shows "(\<And>j. j \<in> set js \<Longrightarrow> j \<le> d) \<Longrightarrow>
    lagrange_sum smul d evals js sm = lagrange_sum_at smul d evals (share_points (Suc d)) js sm"
proof (induction js arbitrary: sm)
  case Nil
  then show ?case by simp
next
  case (Cons j js)
  then have "lagrange_sum smul d evals js s = lagrange_sum_at smul d evals (share_points (Suc d)) js s"
    for s
    by simp
  moreover have "lagrange_prod j [0..<Suc d] (1 :: 'f) =
      lagrange_prod_at (share_points (Suc d)) j (fr_of_long (j + 1)) [0..<Suc d] 1"
    by (rule lagrange_prod_eq) auto
  ultimately show ?case
    using Cons.prems [of j] by (simp del: upt_Suc)
qed

lemma lagrange_overloads:
  "d < SIZE_MAX \<Longrightarrow> lagrange_interpolation smul d evals =
    lagrange_interpolation_at smul d evals (share_points (Suc d))"
  using lagrange_sum_eq [of "[0..<Suc d]" d smul evals 0]
  by (simp add: lagrange_interpolation_def lagrange_interpolation_at_def del: upt_Suc)

text \<open>The points of \<open>n\<close> replicas are different when the field has more than \<open>n\<close> elements.\<close>

definition field_fits :: "'f :: field itself \<Rightarrow> nat \<Rightarrow> bool" where
  "field_fits f n \<longleftrightarrow> n < fr_max_size \<and> inj_on (of_nat :: nat \<Rightarrow> 'f) {..n}"

lemma field_fits_point:
  assumes "field_fits TYPE('f :: field) n" and "i \<le> n"
  shows "fr_of_long i = (of_nat i :: 'f)"
  using assms by (intro fr_of_long_eq) (simp add: field_fits_def fr_max_size_def)

lemma field_fits_inj:
  assumes "field_fits TYPE('f :: field) n"
  shows "inj_on (fr_of_long :: nat \<Rightarrow> 'f) {..n}"
  using assms field_fits_point [OF assms] by (auto simp: field_fits_def inj_on_def)

lemma lagrange_ok:
  fixes smul :: "'f :: field \<Rightarrow> 'g :: ab_group_add \<Rightarrow> 'g"
  assumes "module smul" and "polyfn d l f" and "d < length evals"
    and "field_fits TYPE('f) (length evals)"
    and "\<And>j. j \<le> d \<Longrightarrow> evals ! j = smul (f (fr_of_long (j + 1))) g"
  shows "lagrange_interpolation smul d evals = Inr (smul (f 0) g)"
proof -
  have "inj_on ((!) (share_points (Suc d) :: 'f list)) {..d}"
    using assms(3) inj_onD [OF field_fits_inj [OF assms(4)]] by (fastforce simp: inj_on_def)
  moreover have "d < SIZE_MAX"
    using assms(3,4) by (simp add: field_fits_def fr_max_size_def)
  ultimately show ?thesis
    using assms by (simp only: lagrange_overloads) (intro lagrange_at_ok; simp)
qed

section \<open>The degree check\<close>

lemma cperp_loop_ok:
  fixes c :: "'f :: field"
  assumes "distinct js" and "\<And>j. j \<in> set js \<Longrightarrow> j \<noteq> i \<Longrightarrow> (fr_of_long j :: 'f) \<noteq> fr_of_long i"
  shows "cperp_loop i js c =
    Inr (c * (\<Prod>j\<in>set js - {i}. inverse (fr_of_long i - fr_of_long j)))"
  using assms
proof (induction js arbitrary: c)
  case Nil
  then show ?case by simp
next
  case (Cons j js)
  show ?case
  proof (cases "i = j")
    case True
    with Cons show ?thesis by simp
  next
    case False
    let ?f = "\<lambda>j. inverse (fr_of_long i - fr_of_long j) :: 'f"
    have "set (j # js) - {i} = insert j (set js - {i})" "j \<notin> set js - {i}"
      using False Cons.prems(1) by auto
    then have "(\<Prod>j\<in>set (j # js) - {i}. ?f j) = ?f j * (\<Prod>j\<in>set js - {i}. ?f j)"
      by simp
    moreover have "fr_inverse (fr_of_long i - fr_of_long j :: 'f) = Inr (?f j)"
      using False Cons.prems(2) [of j] by (simp add: fr_inverse_def)
    ultimately show ?thesis
      using False Cons by (simp add: Let_def ac_simps)
  qed
qed

lemma ensure_sum_ok:
  fixes smul :: "'f :: field \<Rightarrow> 'g :: ab_group_add \<Rightarrow> 'g"
  assumes "distinct is" and "\<And>i. i \<in> set is \<Longrightarrow> 1 \<le> i \<and> i \<le> length es"
    and "inj_on (fr_of_long :: nat \<Rightarrow> 'f) {..length es}"
  shows "ensure_sum smul poly es is v = Inr (v + (\<Sum>i\<in>set is. smul (evaluate poly (fr_of_long i) *
    (\<Prod>j\<in>{1..length es} - {i}. inverse (fr_of_long i - fr_of_long j))) (es ! (i - 1))))"
  using assms(1,2)
proof (induction "is" arbitrary: v)
  case Nil
  then show ?case by simp
next
  case (Cons i "is")
  have i: "1 \<le> i" "i \<le> length es"
    using Cons.prems(2) [of i] by auto
  have ne: "(fr_of_long j :: 'f) \<noteq> fr_of_long i" if "j \<in> set [1..<Suc (length es)]" "j \<noteq> i" for j
    using inj_onD [OF assms(3), of j i] that i by auto
  have "set [1..<Suc (length es)] = {1..length es}"
    by auto
  moreover have "cperp_loop i [1..<Suc (length es)] c = Inr (c *
      (\<Prod>j\<in>set [1..<Suc (length es)] - {i}. inverse (fr_of_long i - fr_of_long j)))" for c :: 'f
    by (rule cperp_loop_ok [OF distinct_upt]) (rule ne)
  ultimately have "cperp_loop i [1..<Suc (length es)] (evaluate poly (fr_of_long i)) =
      Inr (evaluate poly (fr_of_long i) *
        (\<Prod>j\<in>{1..length es} - {i}. inverse (fr_of_long i - fr_of_long j)))"
    by (simp only:)
  moreover have "i - 1 < length es"
    using i by auto
  ultimately show ?case
    using Cons by (simp add: add.assoc del: upt_Suc)
qed

lemma ensure_degree_ok:
  fixes smul :: "'f :: field \<Rightarrow> 'g :: ab_group_add \<Rightarrow> 'g"
  assumes "module smul" and "polyfn d l f" and "d + 2 \<le> length es"
    and "field_fits TYPE('f) (length es)"
    and "\<And>i. i < length es \<Longrightarrow> es ! i = smul (f (fr_of_long (i + 1))) g"
  shows "ensure_degree smul rnd es d s =
    Inr (True, snd (random_elements rnd (length es - d - 1) s))"
proof -
  let ?n = "length es"
  let ?pt = "fr_of_long :: nat \<Rightarrow> 'f"
  let ?p = "\<lparr>coeffs = fst (random_elements rnd (?n - d - 1) s)\<rparr>"
  let ?k = "\<lambda>i. \<Prod>j\<in>{1..?n} - {i}. inverse (?pt i - ?pt j)"
  have n: "?n < fr_max_size"
    using assms(4) by (simp add: field_fits_def)
  have inj: "inj_on ?pt {..?n}"
    by (rule field_fits_inj [OF assms(4)])
  have size: "size_sub (size_sub ?n d) 2 = ?n - d - 2"
    using assms(3) n by (simp add: size_sub_le fr_max_size_def)
  have r: "poly_random rnd (?n - d - 2) s = Inr (?p, snd (random_elements rnd (?n - d - 1) s))"
    using poly_random_ok [of "?n - d - 2" rnd s] n assms(3)
    by (simp add: Suc_diff_Suc numeral_2_eq_2 del: random_elements.simps)
  have "length (coeffs ?p) = Suc (?n - d - 2)"
    using assms(3) by simp
  from polyfn_mult [OF evaluate_polyfn [OF this] assms(2)]
  have "polyfn (?n - d - 2 + d + 1) 0 (\<lambda>x. evaluate ?p x * f x)"
    by (rule polyfn_raise) simp
  moreover have "?n - d - 2 + d + 1 = ?n - 1"
    using assms(3) by simp
  ultimately have q: "polyfn (?n - 1) 0 (\<lambda>x. evaluate ?p x * f x)"
    by (simp only:)
  have "(\<Sum>i\<in>{1..?n}. smul (evaluate ?p (?pt i) * ?k i) (es ! (i - 1))) =
      (\<Sum>i\<in>{1..?n}. smul (evaluate ?p (?pt i) * f (?pt i) * ?k i) g)"
    using assms(5) module.scale_scale [OF assms(1)] by (intro sum.cong) (auto simp: ac_simps)
  also have "\<dots> = smul (\<Sum>i\<in>{1..?n}. evaluate ?p (?pt i) * f (?pt i) * ?k i) g"
    by (rule module.scale_sum_left [OF assms(1), symmetric])
  also have "(\<Sum>i\<in>{1..?n}. evaluate ?p (?pt i) * f (?pt i) * ?k i) = 0"
    using assms(3) by (intro lagrange_identity(1) [OF q] inj_on_subset [OF inj]) auto
  finally have "(\<Sum>i\<in>{1..?n}. smul (evaluate ?p (?pt i) * ?k i) (es ! (i - 1))) = 0"
    by (simp add: module.scale_zero_left [OF assms(1)])
  moreover have "set [1..<Suc ?n] = {1..?n}"
    by auto
  ultimately have "ensure_sum smul ?p es [1..<Suc ?n] 0 = Inr 0"
    by (subst ensure_sum_ok [OF _ _ inj]) (simp_all del: upt_Suc)
  then show ?thesis
    unfolding ensure_degree_def Let_def size r using assms(3) by (simp del: upt_Suc)
qed

text \<open>The degree check accepts commitments to a polynomial with \<open>degree + 1\<close>
  coefficients, whatever random polynomial it draws, when there are at least
  \<open>degree + 2\<close> of them.\<close>

theorem ensure_degree_accepts:
  fixes smul :: "'f :: field \<Rightarrow> 'g :: ab_group_add \<Rightarrow> 'g"
  assumes "module smul" and "length (coeffs p) = Suc degree" and "degree + 2 \<le> num"
    and "field_fits TYPE('f) num"
  shows "\<exists>s'. ensure_degree smul rnd
    (map (\<lambda>i. smul (evaluate p (fr_of_long (i + 1))) g) [0..<num]) degree s = Inr (True, s')"
  using ensure_degree_ok [OF assms(1) evaluate_polyfn [OF assms(2)],
      of "map (\<lambda>i. smul (evaluate p (fr_of_long (i + 1))) g) [0..<num]" g rnd s] assms(3,4)
  by simp

lemma field_fits_rat: "n < fr_max_size \<Longrightarrow> field_fits TYPE(rat) n"
  by (simp add: field_fits_def inj_on_def)

theorem ensure_degree_accepts_witness:
  "\<exists>s'. ensure_degree (*) (\<lambda>s. (s, s + 1)) (map (\<lambda>i. evaluate \<lparr>coeffs = [3, 2]\<rparr>
    (fr_of_long (i + 1)) * 1) [0..<5]) 1 (7 :: rat) = Inr (True, s')"
  by (rule ensure_degree_accepts [OF module_times])
    (simp_all add: field_fits_rat fr_max_size_def)

text \<open>C26: with \<open>degree\<close> or \<open>degree + 1\<close> evaluations the check throws instead of deciding: the degree of
  the random polynomial is \<open>num - degree - 2\<close>, which wraps around. With \<open>degree\<close> evaluations
  the memory for its coefficients cannot be reserved; with \<open>degree + 1\<close>, as for one replica and no
  fault, it draws coefficients until their vector cannot grow. With fewer evaluations than
  \<open>degree\<close> it rejects.\<close>

theorem ensure_degree_undersized:
  assumes "length es < degree + 2" and "length es < 2 ^ 60"
  shows "ensure_degree smul rnd es degree s =
    (if degree \<le> length es then Inl Length_Error else Inr (False, s))"
proof -
  have "length es = degree \<or> length es = degree + 1 \<or> length es < degree"
    using assms(1) by linarith
  moreover have "length es = degree \<Longrightarrow> size_sub (size_sub (length es) degree) 2 = SIZE_MAX - 1"
    "length es = degree + 1 \<Longrightarrow> size_sub (size_sub (length es) degree) 2 = SIZE_MAX"
    using assms(2) by (simp_all add: size_sub_le size_sub_gt)
  ultimately show ?thesis
    by (auto simp: ensure_degree_def Let_def poly_random_def fr_max_size_def)
qed

theorem ensure_degree_undersized_witness:
  "ensure_degree (*) (\<lambda>s. (s, s + 1)) [5] (num_faults (FromNumReplicas 1)) (7 :: rat) =
     Inl Length_Error"
  using ensure_degree_undersized [of "[5 :: rat]" 0 "(*)" "\<lambda>s. (s, s + 1)" 7] by simp

end
