(* ===== verification/Pvss_Dleq.thy ===== *)
theory Pvss_Dleq
  imports Pvss_Poly Picosha
begin

text \<open>
  The proofs of knowledge of \<open>include/pvss/Dleq.hpp\<close> and \<open>include/pvss/DecompProof.hpp\<close>.
  A group comes with its scalar multiplication \<open>smul\<close> and its output operator \<open>show\<close>;
  \<open>of_hex\<close> stands for the conversion of a hexadecimal number to a field element by GMP and
  libff. The transcript that is hashed is the text the code writes into its stream.
\<close>

section \<open>Hashing to the field\<close>

definition hash_hex :: "bytes \<Rightarrow> string" where
  "hash_hex bs = butlast (hash256_hex_string bs)"

definition hashToField :: "(string \<Rightarrow> 'f) \<Rightarrow> string \<Rightarrow> 'f" where
  "hashToField of_hex message = of_hex (hash_hex (string_bytes message))"

text \<open>The number a string of hexadecimal digits stands for, and the number of a big-endian
  byte string.\<close>

definition hex_digit_value :: "char \<Rightarrow> nat" where
  "hex_digit_value c =
     (let n = of_char c :: nat in if n < 58 then n - 48 else n - 87)"

definition hex_value :: "string \<Rightarrow> nat" where
  "hex_value s = foldl (\<lambda>v c. 16 * v + hex_digit_value c) 0 s"

definition bytes_value :: "bytes \<Rightarrow> nat" where
  "bytes_value bs = foldl (\<lambda>v b. 256 * v + unat b) 0 bs"

lemma hex_digit_value [simp]: "n < 16 \<Longrightarrow> hex_digit_value (hex_digit n) = n"
  by (simp add: less_Suc_eq numeral_eq_Suc) (elim disjE; simp add: hex_digit_value_def hex_digit_def)

lemma hex_value_snoc: "hex_value (s @ [c]) = 16 * hex_value s + hex_digit_value c"
  by (simp add: hex_value_def)

lemma hex_value_output_hex: "hex_value (output_hex bs) = bytes_value bs"
proof (induction bs rule: rev_induct)
  case Nil
  then show ?case by (simp add: hex_value_def output_hex_def bytes_value_def)
next
  case (snoc b bs)
  have "output_hex (bs @ [b]) =
      (output_hex bs @ [hex_digit (unat b div 16)]) @ [hex_digit (unat b mod 16)]"
    by (simp add: output_hex_def)
  moreover have "unat b div 16 < 16"
    using unat_u8_less [of b] by (simp add: less_mult_imp_div_less)
  ultimately have "hex_value (output_hex (bs @ [b])) = 256 * bytes_value bs + unat b"
    using snoc by (simp only: hex_value_snoc hex_digit_value mod_less_divisor) simp
  then show ?case by (simp add: bytes_value_def)
qed

lemma bytes_value_less: "bytes_value bs < 256 ^ length bs"
proof (induction bs rule: rev_induct)
  case Nil
  then show ?case by (simp add: bytes_value_def)
next
  case (snoc b bs)
  have "256 * bytes_value bs + 256 \<le> 256 * 256 ^ length bs"
    using snoc by (metis Suc_leI add.commute mult_Suc_right mult_le_mono2)
  then have "256 * bytes_value bs + unat b < 256 * 256 ^ length bs"
    using unat_u8_less [of b] by linarith
  then show ?case by (simp add: bytes_value_def)
qed

text \<open>C28: the challenge is read from 63 hexadecimal digits: the SHA-256 digest as a big-endian
  number without its last four bits, a number below \<open>2 ^ 252\<close>, which fits the scalar field
  of the curve.\<close>

theorem hash_hex_value:
  assumes "length bs < 2 ^ 60"
  shows "length (hash_hex bs) = 63 \<and> hex_value (hash_hex bs) = bytes_value (sha256 bs) div 16 \<and>
    hex_value (hash_hex bs) < 2 ^ 252"
proof -
  let ?s = "hash256_hex_string bs"
  have len: "length ?s = 64"
    by (rule length_hex_string [OF assms])
  then have s: "?s = hash_hex bs @ [last ?s]"
    by (metis append_butlast_last_id hash_hex_def list.size(3) zero_neq_numeral)
  have val: "hex_value ?s = bytes_value (sha256 bs)"
    using hash256_impl_eq [OF assms]
    by (simp add: hash256_hex_string_def k_digest_size_def hex_value_output_hex)
  have "last ?s \<in> set ?s"
    using len by (intro last_in_set) auto
  then have "hex_digit_value (last ?s) < 16"
    by (auto simp: hash256_hex_string_def output_hex_def less_mult_imp_div_less)
  then have eq: "hex_value (hash_hex bs) = bytes_value (sha256 bs) div 16"
    using hex_value_snoc [of "hash_hex bs" "last ?s"] val s by simp
  have "bytes_value (sha256 bs) < 2 ^ 252 * 16"
    using bytes_value_less [of "sha256 bs"] by (simp add: length_sha256)
  then have "bytes_value (sha256 bs) div 16 < 2 ^ 252"
    by (rule less_mult_imp_div_less)
  with len eq show ?thesis
    by (simp add: hash_hex_def)
qed

theorem hash_hex_value_witness:
  "length (hash_hex [97, 98, 99]) = 63 \<and>
   hex_value (hash_hex [97, 98, 99]) = bytes_value (sha256 [97, 98, 99]) div 16 \<and>
   hex_value (hash_hex [97, 98, 99]) < 2 ^ 252"
  by (rule hash_hex_value) simp

section \<open>Proof of knowledge of a discrete logarithm\<close>

record ('g, 'f) dleq =
  dleq_gr :: 'g
  dleq_pi :: 'f

definition dleq_challenge :: "(string \<Rightarrow> 'f) \<Rightarrow> ('g \<Rightarrow> string) \<Rightarrow> 'g \<Rightarrow> 'g \<Rightarrow> 'g \<Rightarrow> 'f" where
  "dleq_challenge of_hex show g gx gr =
     hashToField of_hex (show g @ newline @ show gx @ newline @ show gr @ newline)"

definition dleq_prove ::
  "('f :: field \<Rightarrow> 'g \<Rightarrow> 'g) \<Rightarrow> ('g \<Rightarrow> string) \<Rightarrow> (string \<Rightarrow> 'f) \<Rightarrow> ('s \<Rightarrow> 'f \<times> 's) \<Rightarrow>
   'g \<Rightarrow> 'g \<Rightarrow> 'f \<Rightarrow> 's \<Rightarrow> ('g, 'f) dleq \<times> 's" where
  "dleq_prove smul show of_hex rnd g gx x s =
     (let (r, s) = rnd s;
          gr = smul r g;
          c = dleq_challenge of_hex show g gx gr
      in (\<lparr>dleq_gr = gr, dleq_pi = r + x * c\<rparr>, s))"

definition dleq_verify ::
  "('f \<Rightarrow> 'g :: ab_group_add \<Rightarrow> 'g) \<Rightarrow> ('g \<Rightarrow> string) \<Rightarrow> (string \<Rightarrow> 'f) \<Rightarrow> ('g, 'f) dleq \<Rightarrow>
   'g \<Rightarrow> 'g \<Rightarrow> bool" where
  "dleq_verify smul show of_hex d g gx =
     (let c = dleq_challenge of_hex show g gx (dleq_gr d);
          lhs = smul (dleq_pi d) g;
          rhs = dleq_gr d + smul c gx
      in lhs = rhs)"

lemma dleq_complete:
  assumes "module smul"
  shows "dleq_verify smul show of_hex (fst (dleq_prove smul show of_hex rnd g (smul x g) x s)) g (smul x g)"
  using module.scale_left_distrib [OF assms] module.scale_scale [OF assms]
  by (simp add: dleq_verify_def dleq_prove_def Let_def case_prod_unfold mult.commute)

section \<open>Equality of two discrete logarithms\<close>

record ('ga, 'gb, 'f) dleq_dual =
  dual_gra :: 'ga
  dual_grb :: 'gb
  dual_pi :: 'f

definition dual_challenge ::
  "(string \<Rightarrow> 'f) \<Rightarrow> ('ga \<Rightarrow> string) \<Rightarrow> ('gb \<Rightarrow> string) \<Rightarrow> 'ga \<Rightarrow> 'ga \<Rightarrow> 'gb \<Rightarrow> 'gb \<Rightarrow> 'ga \<Rightarrow> 'gb \<Rightarrow> 'f" where
  "dual_challenge of_hex showa showb g gx h hx gra grb =
     hashToField of_hex (showa g @ newline @ showa gx @ newline @ showb h @ newline @
       showb hx @ newline @ showa gra @ newline @ showb grb @ newline)"

definition dual_prove ::
  "('f :: field \<Rightarrow> 'ga \<Rightarrow> 'ga) \<Rightarrow> ('f \<Rightarrow> 'gb \<Rightarrow> 'gb) \<Rightarrow> ('ga \<Rightarrow> string) \<Rightarrow> ('gb \<Rightarrow> string) \<Rightarrow>
   (string \<Rightarrow> 'f) \<Rightarrow> ('s \<Rightarrow> 'f \<times> 's) \<Rightarrow> 'ga \<Rightarrow> 'ga \<Rightarrow> 'gb \<Rightarrow> 'gb \<Rightarrow> 'f \<Rightarrow> 's \<Rightarrow>
   ('ga, 'gb, 'f) dleq_dual \<times> 's" where
  "dual_prove smula smulb showa showb of_hex rnd g gx h hx x s =
     (let (r, s) = rnd s;
          gra = smula r g;
          grb = smulb r h;
          c = dual_challenge of_hex showa showb g gx h hx gra grb
      in (\<lparr>dual_gra = gra, dual_grb = grb, dual_pi = r + x * c\<rparr>, s))"

definition dual_verify ::
  "('f \<Rightarrow> 'ga :: ab_group_add \<Rightarrow> 'ga) \<Rightarrow> ('f \<Rightarrow> 'gb :: ab_group_add \<Rightarrow> 'gb) \<Rightarrow> ('ga \<Rightarrow> string) \<Rightarrow>
   ('gb \<Rightarrow> string) \<Rightarrow> (string \<Rightarrow> 'f) \<Rightarrow> ('ga, 'gb, 'f) dleq_dual \<Rightarrow> 'ga \<Rightarrow> 'ga \<Rightarrow> 'gb \<Rightarrow> 'gb \<Rightarrow> bool"
where
  "dual_verify smula smulb showa showb of_hex d g gx h hx =
     (let c = dual_challenge of_hex showa showb g gx h hx (dual_gra d) (dual_grb d);
          lhs1 = smula (dual_pi d) g;
          rhs1 = dual_gra d + smula c gx
      in if lhs1 \<noteq> rhs1 then False
         else smulb (dual_pi d) h = dual_grb d + smulb c hx)"

lemma dual_complete:
  assumes "module smula" and "module smulb"
  shows "dual_verify smula smulb showa showb of_hex
    (fst (dual_prove smula smulb showa showb of_hex rnd g (smula x g) h (smulb x h) x s))
    g (smula x g) h (smulb x h)"
  using module.scale_left_distrib [OF assms(1)] module.scale_scale [OF assms(1)]
    module.scale_left_distrib [OF assms(2)] module.scale_scale [OF assms(2)]
  by (simp add: dual_verify_def dual_prove_def Let_def case_prod_unfold mult.commute)

text \<open>The honest proof of a discrete logarithm, and that of the equality of two, are
  accepted, whatever number the prover draws.\<close>

theorem dleq_proofs_complete:
  assumes "module smula" and "module smulb"
  shows "dleq_verify smula showa of_hex
      (fst (dleq_prove smula showa of_hex rnd g (smula x g) x s)) g (smula x g) \<and>
    dual_verify smula smulb showa showb of_hex
      (fst (dual_prove smula smulb showa showb of_hex rnd g (smula x g) h (smulb x h) x s))
      g (smula x g) h (smulb x h)"
  by (intro conjI dleq_complete dual_complete assms)

theorem dleq_proofs_complete_witness:
  "dleq_verify (*) (\<lambda>x. ''g'') (\<lambda>h. 7)
      (fst (dleq_prove (*) (\<lambda>x. ''g'') (\<lambda>h. 7) (\<lambda>s. (s, s + 1)) 2 (5 * 2) 5 (3 :: rat))) 2 (5 * 2) \<and>
    dual_verify (*) (*) (\<lambda>x. ''g'') (\<lambda>x. ''h'') (\<lambda>h. 7)
      (fst (dual_prove (*) (*) (\<lambda>x. ''g'') (\<lambda>x. ''h'') (\<lambda>h. 7) (\<lambda>s. (s, s + 1)) 2 (5 * 2) 4 (5 * 4) 5 (3 :: rat)))
      2 (5 * 2) 4 (5 * 4)"
  by (rule dleq_proofs_complete [OF module_times module_times])

text \<open>The discrete logarithm that two accepted responses to different challenges give away.\<close>

definition extracted :: "'f :: field \<Rightarrow> 'f \<Rightarrow> 'f \<Rightarrow> 'f \<Rightarrow> 'f" where
  "extracted p1 p2 c1 c2 = (p1 - p2) * inverse (c1 - c2)"

lemma extract_log:
  assumes "module smul" and "smul p1 g = r + smul c1 y" and "smul p2 g = r + smul c2 y"
    and "c1 \<noteq> c2"
  shows "y = smul (extracted p1 p2 c1 c2) g"
proof -
  have "smul (p1 - p2) g = smul (c1 - c2) y"
    using assms(2,3) module.scale_left_diff_distrib [OF assms(1)] by simp
  then have "smul (inverse (c1 - c2)) (smul (p1 - p2) g) =
      smul (inverse (c1 - c2)) (smul (c1 - c2) y)"
    by simp
  moreover have "inverse (c1 - c2) * (c1 - c2) = 1"
    using assms(4) by simp
  ultimately show ?thesis
    using module.scale_scale [OF assms(1)] module.scale_one [OF assms(1)]
    by (simp add: extracted_def mult.commute)
qed

text \<open>C21: special soundness. Two accepted proofs with the same commitments under two hash
  functions whose challenges differ determine one number that is the discrete logarithm of
  both statements; in particular the two logarithms are equal.\<close>

theorem dual_special_soundness:
  assumes "module smula" and "module smulb"
    and "dual_verify smula smulb showa showb H1 \<lparr>dual_gra = a, dual_grb = b, dual_pi = p1\<rparr> g gx h hx"
    and "dual_verify smula smulb showa showb H2 \<lparr>dual_gra = a, dual_grb = b, dual_pi = p2\<rparr> g gx h hx"
    and "dual_challenge H1 showa showb g gx h hx a b \<noteq> dual_challenge H2 showa showb g gx h hx a b"
  shows "gx = smula (extracted p1 p2 (dual_challenge H1 showa showb g gx h hx a b)
      (dual_challenge H2 showa showb g gx h hx a b)) g \<and>
    hx = smulb (extracted p1 p2 (dual_challenge H1 showa showb g gx h hx a b)
      (dual_challenge H2 showa showb g gx h hx a b)) h"
  using extract_log [OF assms(1) _ _ assms(5)] extract_log [OF assms(2) _ _ assms(5)] assms(3,4)
  by (auto simp: dual_verify_def Let_def split: if_splits)

theorem dual_special_soundness_witness:
  "(10 :: rat) = extracted 38 33 7 6 * 2 \<and> (20 :: rat) = extracted 38 33 7 6 * 4"
  using dual_special_soundness [OF module_times module_times,
      of "\<lambda>x. ''g''" "\<lambda>x. ''h''" "\<lambda>h. 7" 6 12 38 2 10 4 20 "\<lambda>h. 6 :: rat" 33]
  by (simp add: dual_verify_def dual_challenge_def hashToField_def)

section \<open>The decomposition proof\<close>

record ('g, 'f) decomp_proof =
  decomp_dleq :: "('g, 'f) dleq"
  decomp_gs :: 'g

definition decomp_generate ::
  "('f :: field \<Rightarrow> 'g \<Rightarrow> 'g) \<Rightarrow> ('g \<Rightarrow> string) \<Rightarrow> (string \<Rightarrow> 'f) \<Rightarrow> ('s \<Rightarrow> 'f \<times> 's) \<Rightarrow>
   'g \<Rightarrow> 'f polynomial \<Rightarrow> 's \<Rightarrow> (('g, 'f) decomp_proof \<times> 's) res" where
  "decomp_generate smul show of_hex rnd generator poly s =
     res_bind (get_secret poly) (\<lambda>secret.
       let gs = smul secret generator;
           (pi, s) = dleq_prove smul show of_hex rnd generator gs secret s
       in Inr (\<lparr>decomp_dleq = pi, decomp_gs = gs\<rparr>, s))"

end
