(* ===== verification/Pvss.thy ===== *)
theory Pvss
  imports Pvss_Dleq
begin

text \<open>
  The publicly verifiable secret sharing of \<open>include/pvss\<close>: \<open>Context\<close> of \<open>pvss.hpp\<close>
  with the data it works on (\<open>PVSS_Sharing.hpp\<close>, \<open>Aggregation.hpp\<close>, \<open>Decryption.hpp\<close>,
  \<open>Beacon.hpp\<close>) and the \<open>Factory\<close>. The groups, pairings and random generators of libff are
  the fields of the record \<open>pairing_lib\<close>; \<open>lib_laws\<close> says what the code relies on: both
  groups are modules over the scalar field, and a scalar moves from one side of the pairing to
  the other. An operation that draws random numbers takes and returns the state of the generator.
\<close>

section \<open>The library\<close>

record ('f, 'g1, 'g2, 'gt, 's) pairing_lib =
  smul1 :: "'f \<Rightarrow> 'g1 \<Rightarrow> 'g1"
  smul2 :: "'f \<Rightarrow> 'g2 \<Rightarrow> 'g2"
  show1 :: "'g1 \<Rightarrow> string"
  show2 :: "'g2 \<Rightarrow> string"
  of_hex :: "string \<Rightarrow> 'f"
  random_fr :: "'s \<Rightarrow> 'f \<times> 's"
  random_g1 :: "'s \<Rightarrow> 'g1 \<times> 's"
  random_g2 :: "'s \<Rightarrow> 'g2 \<times> 's"
  pairing :: "'g1 \<Rightarrow> 'g2 \<Rightarrow> 'gt"
  reduced_pairing :: "'g1 \<Rightarrow> 'g2 \<Rightarrow> 'gt"

definition lib_laws ::
  "('f :: field, 'g1 :: ab_group_add, 'g2 :: ab_group_add, 'gt, 's) pairing_lib \<Rightarrow> bool" where
  "lib_laws L \<longleftrightarrow> module (smul1 L) \<and> module (smul2 L) \<and>
     (\<forall>a x y. reduced_pairing L (smul1 L a x) y = reduced_pairing L x (smul2 L a y))"

section \<open>Data\<close>

record ('f, 'g1, 'g2) pvss_context =
  pk_map :: "'g1 list"
  config :: SyncSystemConfig
  ctx_g1 :: 'g1
  ctx_g2 :: 'g1
  ctx_h1 :: 'g2
  ctx_h2 :: 'g2
  secret_key :: 'f
  my_id :: nat

record ('f, 'g1, 'g2) pvss_sharing =
  encryptions :: "'g1 list"
  commitments :: "'g2 list"
  dleq_proofs :: "('g1, 'g2, 'f) dleq_dual list"
  decomp_pi :: "('g2, 'f) decomp_proof"
  secret :: 'f

record ('f, 'g1, 'g2) pvss_aggregate =
  agg_encryptions :: "'g1 list"
  agg_commitments :: "'g2 list"
  decomposition :: "('g2, 'f) decomp_proof list"
  id_vec :: "nat list"

record ('f, 'g1) decryption =
  dec :: 'g1
  dec_pi :: "('g1, 'f) dleq"
  origin :: nat

record ('g1, 'gt) beacon =
  recon :: 'g1
  beacon_value :: 'gt

section \<open>Sharing\<close>

fun prove_shares ::
  "('f :: field, 'g1, 'g2, 'gt, 's) pairing_lib \<Rightarrow> ('f, 'g1, 'g2) pvss_context \<Rightarrow> 'f list \<Rightarrow>
   'g1 list \<Rightarrow> 'g2 list \<Rightarrow> nat list \<Rightarrow> 's \<Rightarrow> (('g1, 'g2, 'f) dleq_dual list \<times> 's) res" where
  "prove_shares L ctx evals encs comms [] s = Inr ([], s)"
| "prove_shares L ctx evals encs comms (i # is) s =
     res_bind (vec_at (pk_map ctx) i) (\<lambda>pk.
       res_bind (vec_at encs i) (\<lambda>enc.
         res_bind (vec_at comms i) (\<lambda>com.
           res_bind (vec_at evals i) (\<lambda>x.
             let (p, s) = dual_prove (smul1 L) (smul2 L) (show1 L) (show2 L) (of_hex L) (random_fr L)
                   pk enc (ctx_h1 ctx) com x s
             in res_bind (prove_shares L ctx evals encs comms is s) (\<lambda>(ps, s).
               Inr (p # ps, s))))))"

definition create_sharing ::
  "('f :: field, 'g1 :: ab_group_add, 'g2 :: ab_group_add, 'gt, 's) pairing_lib \<Rightarrow>
   ('f, 'g1, 'g2) pvss_context \<Rightarrow> 's \<Rightarrow> (('f, 'g1, 'g2) pvss_sharing \<times> 's) res" where
  "create_sharing L ctx s =
     res_bind (poly_random (random_fr L) (num_faults (config ctx)) s) (\<lambda>(poly, s).
       let n = num_replicas (config ctx);
           evals = map (\<lambda>i. evaluate poly (fr_of_long (i + 1))) [0..<n]
       in res_bind (res_map (\<lambda>i. res_bind (vec_at evals i) (\<lambda>x. Inr (smul2 L x (ctx_h1 ctx)))) [0..<n]) (\<lambda>comms.
          res_bind (res_map (\<lambda>i. res_bind (vec_at evals i) (\<lambda>x.
              res_bind (vec_at (pk_map ctx) i) (\<lambda>pk. Inr (smul1 L x pk)))) [0..<n]) (\<lambda>encs.
          res_bind (prove_shares L ctx evals encs comms [0..<n] s) (\<lambda>(proofs, s).
          res_bind (decomp_generate (smul2 L) (show2 L) (of_hex L) (random_fr L) (ctx_h1 ctx) poly s) (\<lambda>(decomp, s).
          res_bind (vec_at (coeffs poly) 0) (\<lambda>c0.
            Inr (\<lparr>encryptions = encs, commitments = comms, dleq_proofs = proofs,
                  decomp_pi = decomp, secret = c0\<rparr>, s)))))))"

fun verify_shares ::
  "('f :: field, 'g1 :: ab_group_add, 'g2 :: ab_group_add, 'gt, 's) pairing_lib \<Rightarrow>
   ('f, 'g1, 'g2) pvss_context \<Rightarrow> ('f, 'g1, 'g2) pvss_sharing \<Rightarrow> nat list \<Rightarrow> bool res" where
  "verify_shares L ctx sh [] = Inr True"
| "verify_shares L ctx sh (i # is) =
     res_bind (vec_at (dleq_proofs sh) i) (\<lambda>p.
       res_bind (vec_at (pk_map ctx) i) (\<lambda>pk.
         res_bind (vec_at (encryptions sh) i) (\<lambda>enc.
           res_bind (vec_at (commitments sh) i) (\<lambda>com.
             if \<not> dual_verify (smul1 L) (smul2 L) (show1 L) (show2 L) (of_hex L) p pk enc (ctx_h1 ctx) com
             then Inr False
             else verify_shares L ctx sh is))))"

definition verify_sharing ::
  "('f :: field, 'g1 :: ab_group_add, 'g2 :: ab_group_add, 'gt, 's) pairing_lib \<Rightarrow>
   ('f, 'g1, 'g2) pvss_context \<Rightarrow> ('f, 'g1, 'g2) pvss_sharing \<Rightarrow> 's \<Rightarrow> (bool \<times> 's) res" where
  "verify_sharing L ctx sh s =
     (let n = num_replicas (config ctx); f = num_faults (config ctx)
      in if length (encryptions sh) \<noteq> n \<or> length (commitments sh) \<noteq> n \<or> length (dleq_proofs sh) \<noteq> n
         then Inr (False, s)
         else res_bind (ensure_degree (smul2 L) (random_fr L) (commitments sh) f s) (\<lambda>(ok, s).
           if \<not> ok then Inr (False, s)
           else res_bind (verify_shares L ctx sh [0..<n]) (\<lambda>ok.
             if \<not> ok then Inr (False, s)
             else res_bind (lagrange_interpolation (smul2 L) f (commitments sh)) (\<lambda>point.
               if point \<noteq> decomp_gs (decomp_pi sh) then Inr (False, s)
               else Inr (dleq_verify (smul2 L) (show2 L) (of_hex L) (decomp_dleq (decomp_pi sh))
                      (ctx_h1 ctx) point, s)))))"

section \<open>Aggregation\<close>

fun aggregate_loop ::
  "nat \<Rightarrow> ('f, 'g1 :: ab_group_add, 'g2 :: ab_group_add) pvss_sharing list \<Rightarrow>
   'g1 list \<Rightarrow> 'g2 list \<Rightarrow> ('g2, 'f) decomp_proof list \<Rightarrow>
   ('g1 list \<times> 'g2 list \<times> ('g2, 'f) decomp_proof list) res" where
  "aggregate_loop n [] encs comms decomps = Inr (encs, comms, decomps)"
| "aggregate_loop n (pvss # ps) encs comms decomps =
     (if \<not> (length (commitments pvss) = n \<and> length (encryptions pvss) = n \<and> length (dleq_proofs pvss) = n)
      then Inl Assertion_Failed
      else aggregate_loop n ps (map2 (+) encs (encryptions pvss)) (map2 (+) comms (commitments pvss))
             (decomps @ [decomp_pi pvss]))"

definition aggregate ::
  "('f, 'g1 :: ab_group_add, 'g2 :: ab_group_add) pvss_sharing list \<Rightarrow> nat list \<Rightarrow>
   ('f, 'g1, 'g2) pvss_aggregate res" where
  "aggregate pvec ids =
     (if pvec = [] \<or> \<not> length pvec \<le> length ids then Inl Assertion_Failed
      else let n = length (encryptions (hd pvec))
        in res_bind (aggregate_loop n pvec (replicate n 0) (replicate n 0) []) (\<lambda>(encs, comms, decomps).
             Inr \<lparr>agg_encryptions = encs, agg_commitments = comms, decomposition = decomps, id_vec = ids\<rparr>))"

fun pairing_checks ::
  "('f :: field, 'g1 :: ab_group_add, 'g2 :: ab_group_add, 'gt, 's) pairing_lib \<Rightarrow>
   ('f, 'g1, 'g2) pvss_context \<Rightarrow> ('f, 'g1, 'g2) pvss_aggregate \<Rightarrow> nat list \<Rightarrow> bool res" where
  "pairing_checks L ctx agg [] = Inr True"
| "pairing_checks L ctx agg (i # is) =
     res_bind (vec_at (pk_map ctx) i) (\<lambda>pk.
       res_bind (vec_at (agg_commitments agg) i) (\<lambda>com.
         res_bind (vec_at (agg_encryptions agg) i) (\<lambda>enc.
           if reduced_pairing L pk com \<noteq> reduced_pairing L enc (ctx_h1 ctx) then Inr False
           else pairing_checks L ctx agg is)))"

fun decomposition_sum ::
  "('f :: field, 'g1, 'g2 :: ab_group_add, 'gt, 's) pairing_lib \<Rightarrow> 'g2 \<Rightarrow>
   ('g2, 'f) decomp_proof list \<Rightarrow> 'g2 \<Rightarrow> 'g2 option" where
  "decomposition_sum L h [] gs_prod = Some gs_prod"
| "decomposition_sum L h (d # ds) gs_prod =
     (if \<not> dleq_verify (smul2 L) (show2 L) (of_hex L) (decomp_dleq d) h (decomp_gs d) then None
      else decomposition_sum L h ds (gs_prod + decomp_gs d))"

definition verify_aggregation ::
  "('f :: field, 'g1 :: ab_group_add, 'g2 :: ab_group_add, 'gt, 's) pairing_lib \<Rightarrow>
   ('f, 'g1, 'g2) pvss_context \<Rightarrow> ('f, 'g1, 'g2) pvss_aggregate \<Rightarrow> 's \<Rightarrow> (bool \<times> 's) res" where
  "verify_aggregation L ctx agg s =
     (let n = num_replicas (config ctx); f = num_faults (config ctx)
      in if length (agg_encryptions agg) \<noteq> n \<or> length (agg_commitments agg) \<noteq> n \<or>
            length (decomposition agg) \<noteq> length (id_vec agg) \<or> length (id_vec agg) < f
         then Inr (False, s)
         else res_bind (ensure_degree (smul2 L) (random_fr L) (agg_commitments agg) f s) (\<lambda>(ok, s).
           if \<not> ok then Inr (False, s)
           else res_bind (pairing_checks L ctx agg [0..<n]) (\<lambda>ok.
             if \<not> ok then Inr (False, s)
             else res_bind (lagrange_interpolation (smul2 L) f (agg_commitments agg)) (\<lambda>point.
               case decomposition_sum L (ctx_h1 ctx) (decomposition agg) 0 of
                 None \<Rightarrow> Inr (False, s)
               | Some gs_prod \<Rightarrow> Inr (gs_prod = point, s)))))"

section \<open>Decryption and the beacon\<close>

definition decryption_generate ::
  "('f :: field, 'g1 :: ab_group_add, 'g2, 'gt, 's) pairing_lib \<Rightarrow> 'g1 \<Rightarrow> 'f \<Rightarrow> nat \<Rightarrow> 's \<Rightarrow>
   (('f, 'g1) decryption \<times> 's) res" where
  "decryption_generate L enc sk i s =
     res_bind (fr_inverse sk) (\<lambda>v.
       let d = smul1 L v enc;
           (p, s) = dleq_prove (smul1 L) (show1 L) (of_hex L) (random_fr L) d enc sk s
       in Inr (\<lparr>dec = d, dec_pi = p, origin = i\<rparr>, s))"

definition decryption_verify ::
  "('f :: field, 'g1 :: ab_group_add, 'g2, 'gt, 's) pairing_lib \<Rightarrow> ('f, 'g1) decryption \<Rightarrow> 'g1 \<Rightarrow> bool"
where
  "decryption_verify L d enc = dleq_verify (smul1 L) (show1 L) (of_hex L) (dec_pi d) (dec d) enc"

definition decrypt ::
  "('f :: field, 'g1 :: ab_group_add, 'g2, 'gt, 's) pairing_lib \<Rightarrow> ('f, 'g1, 'g2) pvss_context \<Rightarrow>
   ('f, 'g1, 'g2) pvss_aggregate \<Rightarrow> 's \<Rightarrow> (('f, 'g1) decryption \<times> 's) res" where
  "decrypt L ctx agg s =
     res_bind (vec_at (agg_encryptions agg) (my_id ctx)) (\<lambda>enc.
       decryption_generate L enc (secret_key ctx) (my_id ctx) s)"

definition verify_decryption ::
  "('f :: field, 'g1 :: ab_group_add, 'g2, 'gt, 's) pairing_lib \<Rightarrow>
   ('f, 'g1, 'g2) pvss_aggregate \<Rightarrow> ('f, 'g1) decryption \<Rightarrow> bool res" where
  "verify_decryption L agg d =
     res_bind (vec_at (agg_encryptions agg) (origin d)) (\<lambda>enc. Inr (decryption_verify L d enc))"

definition reconstruct ::
  "('f :: field, 'g1 :: ab_group_add, 'g2, 'gt, 's) pairing_lib \<Rightarrow> ('f, 'g1, 'g2) pvss_context \<Rightarrow>
   ('f, 'g1) decryption list \<Rightarrow> ('g1, 'gt) beacon res" where
  "reconstruct L ctx recons =
     (if \<not> num_faults (config ctx) < length recons then Inl Assertion_Failed
      else let points = map (\<lambda>d. fr_of_long (origin d + 1)) recons;
               evals = map dec recons
        in res_bind (lagrange_interpolation_at (smul1 L) (num_faults (config ctx)) evals points) (\<lambda>point.
             Inr \<lparr>recon = point, beacon_value = pairing L point (ctx_h2 ctx)\<rparr>))"

definition verify_beacon ::
  "('f :: field, 'g1, 'g2 :: ab_group_add, 'gt, 's) pairing_lib \<Rightarrow> ('f, 'g1, 'g2) pvss_context \<Rightarrow>
   ('f, 'g1, 'g2) pvss_aggregate \<Rightarrow> ('g1, 'gt) beacon \<Rightarrow> bool" where
  "verify_beacon L ctx agg b =
     (let gs = foldl (\<lambda>gs d. gs + decomp_gs d) 0 (decomposition agg);
          lhs = reduced_pairing L (ctx_g1 ctx) gs
      in if lhs \<noteq> reduced_pairing L (recon b) (ctx_h1 ctx) then False
         else pairing L (recon b) (ctx_h2 ctx) = beacon_value b)"

section \<open>The factory\<close>

fun draw_keys ::
  "('f :: field, 'g1, 'g2, 'gt, 's) pairing_lib \<Rightarrow> 'g1 \<Rightarrow> nat \<Rightarrow> 's \<Rightarrow> ('f list \<times> 'g1 list) \<times> 's" where
  "draw_keys L g 0 s = (([], []), s)"
| "draw_keys L g (Suc k) s =
     (let (sk, s) = random_fr L s;
          ((sks, pks), s) = draw_keys L g k s
      in ((sk # sks, smul1 L sk g # pks), s))"

definition getContext ::
  "('f :: field, 'g1, 'g2, 'gt, 's) pairing_lib \<Rightarrow> SyncSystemConfig \<Rightarrow> 's \<Rightarrow>
   (('f, 'g1, 'g2) pvss_context list \<times> 's) res" where
  "getContext L cfg s =
     (let (g1, s) = random_g1 L s;
          (g2, s) = random_g1 L s;
          (h1, s) = random_g2 L s;
          (h2, s) = random_g2 L s;
          ((sks, pks), s) = draw_keys L g1 (num_replicas cfg) s
      in res_bind (res_map (\<lambda>i. res_bind (vec_at sks i) (\<lambda>sk.
             Inr \<lparr>pk_map = pks, config = cfg, ctx_g1 = g1, ctx_g2 = g2, ctx_h1 = h1, ctx_h2 = h2,
                  secret_key = sk, my_id = i\<rparr>)) [0..<num_replicas cfg])
           (\<lambda>ctxs. Inr (ctxs, s)))"

end
