(* ===== verification/Pvss_Correct.thy ===== *)
theory Pvss_Correct
  imports Pvss
begin

text \<open>
  What the operations of \<open>Pvss\<close> guarantee: contexts made by the factory fit together; an
  honest sharing is accepted by every replica; the aggregate of honest sharings is accepted; an
  honest decryption is accepted; any \<open>f + 1\<close> decryptions reconstruct the same beacon, which
  is accepted; an accepted beacon is determined by the aggregate.
\<close>

section \<open>The setup\<close>

definition sizes_ok :: "'f :: field itself \<Rightarrow> SyncSystemConfig \<Rightarrow> bool" where
  "sizes_ok f cfg \<longleftrightarrow> num_faults cfg + 2 \<le> num_replicas cfg \<and> field_fits f (num_replicas cfg)"

text \<open>The contexts of one run of the factory: the keys \<open>sks\<close> and four generators.\<close>

definition factory_context ::
  "('f :: field, 'g1, 'g2, 'gt, 's) pairing_lib \<Rightarrow> SyncSystemConfig \<Rightarrow> 'g1 \<Rightarrow> 'g1 \<Rightarrow> 'g2 \<Rightarrow> 'g2 \<Rightarrow>
   'f list \<Rightarrow> nat \<Rightarrow> ('f, 'g1, 'g2) pvss_context" where
  "factory_context L cfg g1 g2 h1 h2 sks i =
     \<lparr>pk_map = map (\<lambda>sk. smul1 L sk g1) sks, config = cfg, ctx_g1 = g1, ctx_g2 = g2,
      ctx_h1 = h1, ctx_h2 = h2, secret_key = sks ! i, my_id = i\<rparr>"

lemma draw_keys_eq:
  "draw_keys L g k s = ((fst (random_elements (random_fr L) k s),
     map (\<lambda>sk. smul1 L sk g) (fst (random_elements (random_fr L) k s))),
     snd (random_elements (random_fr L) k s))"
  by (induction k arbitrary: s) (simp_all add: case_prod_unfold Let_def)

text \<open>The factory hands out one context per replica: all of them with the same
  configuration, generators and public keys, the \<open>i\<close>-th with its own index and the secret key
  of the \<open>i\<close>-th public key.\<close>

theorem getContext_setup:
  "\<exists>g1 g2 h1 h2 sks ctxs s'. getContext L cfg s = Inr (ctxs, s') \<and>
     length sks = num_replicas cfg \<and>
     ctxs = map (factory_context L cfg g1 g2 h1 h2 sks) [0..<num_replicas cfg]"
proof -
  let ?n = "num_replicas cfg"
  obtain g1 s1 g2 s2 where g: "random_g1 L s = (g1, s1)" "random_g1 L s1 = (g2, s2)"
    by (metis prod.collapse)
  obtain h1 s3 h2 s4 where h: "random_g2 L s2 = (h1, s3)" "random_g2 L s3 = (h2, s4)"
    by (metis prod.collapse)
  obtain sks s5 where sks: "random_elements (random_fr L) ?n s4 = (sks, s5)"
    by (metis prod.collapse)
  have len: "length sks = ?n"
    using length_random_elements [of "random_fr L" ?n s4] sks by simp
  then have "res_map (\<lambda>i. res_bind (vec_at sks i) (\<lambda>sk. Inr \<lparr>pk_map = map (\<lambda>sk. smul1 L sk g1) sks,
        config = cfg, ctx_g1 = g1, ctx_g2 = g2, ctx_h1 = h1, ctx_h2 = h2, secret_key = sk, my_id = i\<rparr>))
      [0..<?n] = Inr (map (factory_context L cfg g1 g2 h1 h2 sks) [0..<?n])"
    by (intro res_map_ok) (simp add: factory_context_def)
  then have "getContext L cfg s = Inr (map (factory_context L cfg g1 g2 h1 h2 sks) [0..<?n], s5)"
    by (simp only: getContext_def Let_def g h sks draw_keys_eq prod.case fst_conv snd_conv res_bind.simps)
  with len show ?thesis by blast
qed

section \<open>Honest sharings\<close>

text \<open>\<open>sharing_of L ctx p sh\<close>: \<open>sh\<close> shares the polynomial \<open>p\<close> and carries valid proofs.\<close>

definition sharing_of ::
  "('f :: field, 'g1 :: ab_group_add, 'g2 :: ab_group_add, 'gt, 's) pairing_lib \<Rightarrow>
   ('f, 'g1, 'g2) pvss_context \<Rightarrow> 'f polynomial \<Rightarrow> ('f, 'g1, 'g2) pvss_sharing \<Rightarrow> bool" where
  "sharing_of L ctx p sh \<longleftrightarrow>
     (let n = num_replicas (config ctx); x = \<lambda>i. evaluate p (fr_of_long (i + 1))
      in length (coeffs p) = num_faults (config ctx) + 1 \<and>
         encryptions sh = map (\<lambda>i. smul1 L (x i) (pk_map ctx ! i)) [0..<n] \<and>
         commitments sh = map (\<lambda>i. smul2 L (x i) (ctx_h1 ctx)) [0..<n] \<and>
         length (dleq_proofs sh) = n \<and>
         (\<forall>i<n. dual_verify (smul1 L) (smul2 L) (show1 L) (show2 L) (of_hex L) (dleq_proofs sh ! i)
            (pk_map ctx ! i) (smul1 L (x i) (pk_map ctx ! i)) (ctx_h1 ctx) (smul2 L (x i) (ctx_h1 ctx))) \<and>
         decomp_gs (decomp_pi sh) = smul2 L (coeffs p ! 0) (ctx_h1 ctx) \<and>
         dleq_verify (smul2 L) (show2 L) (of_hex L) (decomp_dleq (decomp_pi sh)) (ctx_h1 ctx)
           (smul2 L (coeffs p ! 0) (ctx_h1 ctx)))"

lemma prove_shares_ok:
  assumes "lib_laws L" and "n \<le> length (pk_map ctx)" and "length evals = n"
  shows "set is \<subseteq> {..<n} \<Longrightarrow> \<exists>ps s'. prove_shares L ctx evals
      (map (\<lambda>i. smul1 L (evals ! i) (pk_map ctx ! i)) [0..<n])
      (map (\<lambda>i. smul2 L (evals ! i) (ctx_h1 ctx)) [0..<n]) is s = Inr (ps, s') \<and>
    length ps = length is \<and>
    (\<forall>k<length is. dual_verify (smul1 L) (smul2 L) (show1 L) (show2 L) (of_hex L) (ps ! k)
      (pk_map ctx ! (is ! k)) (smul1 L (evals ! (is ! k)) (pk_map ctx ! (is ! k)))
      (ctx_h1 ctx) (smul2 L (evals ! (is ! k)) (ctx_h1 ctx)))"
proof (induction "is" arbitrary: s)
  case Nil
  then show ?case by simp
next
  case (Cons i "is")
  let ?x = "evals ! i" and ?pk = "pk_map ctx ! i"
  let ?p = "dual_prove (smul1 L) (smul2 L) (show1 L) (show2 L) (of_hex L) (random_fr L)
      ?pk (smul1 L ?x ?pk) (ctx_h1 ctx) (smul2 L ?x (ctx_h1 ctx)) ?x s"
  have v: "dual_verify (smul1 L) (smul2 L) (show1 L) (show2 L) (of_hex L) (fst ?p)
      ?pk (smul1 L ?x ?pk) (ctx_h1 ctx) (smul2 L ?x (ctx_h1 ctx))"
    using assms(1) by (intro dual_complete) (simp_all add: lib_laws_def)
  from Cons.prems have "set is \<subseteq> {..<n}" and i: "i < n"
    by auto
  from Cons.IH [OF this(1), of "snd ?p"] obtain ps s' where
    ps: "prove_shares L ctx evals (map (\<lambda>i. smul1 L (evals ! i) (pk_map ctx ! i)) [0..<n])
        (map (\<lambda>i. smul2 L (evals ! i) (ctx_h1 ctx)) [0..<n]) is (snd ?p) = Inr (ps, s')"
      "length ps = length is"
      "\<forall>k<length is. dual_verify (smul1 L) (smul2 L) (show1 L) (show2 L) (of_hex L) (ps ! k)
      (pk_map ctx ! (is ! k)) (smul1 L (evals ! (is ! k)) (pk_map ctx ! (is ! k)))
      (ctx_h1 ctx) (smul2 L (evals ! (is ! k)) (ctx_h1 ctx))"
    by blast
  show ?case
    using i ps v assms(2,3)
    by (intro exI [of _ "fst ?p # ps"] exI [of _ s'])
      (auto simp: case_prod_unfold Let_def nth_Cons split: nat.splits)
qed

lemma create_sharing_ok:
  assumes "lib_laws L" and "num_replicas (config ctx) \<le> length (pk_map ctx)"
    and "sizes_ok TYPE('f :: field) (config ctx)"
  shows "\<exists>p sh s'. create_sharing L ctx s = Inr (sh, s') \<and>
    sharing_of (L :: ('f, 'g1 :: ab_group_add, 'g2 :: ab_group_add, 'gt, 's) pairing_lib) ctx p sh \<and>
    secret sh = coeffs p ! 0"
proof -
  let ?n = "num_replicas (config ctx)" and ?f = "num_faults (config ctx)" and ?h = "ctx_h1 ctx"
  define p where "p = \<lparr>coeffs = fst (random_elements (random_fr L) (Suc ?f) s)\<rparr>"
  define s1 where "s1 = snd (random_elements (random_fr L) (Suc ?f) s)"
  have "?f < fr_max_size"
    using assms(3) by (simp add: sizes_ok_def field_fits_def)
  then have r: "poly_random (random_fr L) ?f s = Inr (p, s1)"
    unfolding p_def s1_def by (rule poly_random_ok)
  have p: "length (coeffs p) = ?f + 1"
    by (simp add: p_def del: random_elements.simps)
  then have c0: "vec_at (coeffs p) 0 = Inr (coeffs p ! 0)"
    by simp
  let ?evals = "map (\<lambda>i. evaluate p (fr_of_long (i + 1))) [0..<?n]"
  let ?comms = "map (\<lambda>i. smul2 L (?evals ! i) ?h) [0..<?n]"
  let ?encs = "map (\<lambda>i. smul1 L (?evals ! i) (pk_map ctx ! i)) [0..<?n]"
  have comms: "res_map (\<lambda>i. res_bind (vec_at ?evals i) (\<lambda>x. Inr (smul2 L x ?h))) [0..<?n] = Inr ?comms"
    by (rule res_map_ok) simp
  have encs: "res_map (\<lambda>i. res_bind (vec_at ?evals i) (\<lambda>x. res_bind (vec_at (pk_map ctx) i)
      (\<lambda>pk. Inr (smul1 L x pk)))) [0..<?n] = Inr ?encs"
    using assms(2) by (intro res_map_ok) simp
  have "set [0..<?n] \<subseteq> {..<?n}"
    by auto
  from prove_shares_ok [OF assms(1,2) _ this, of ?evals s1] obtain ps s2 where
    ps: "prove_shares L ctx ?evals ?encs ?comms [0..<?n] s1 = Inr (ps, s2)" "length ps = ?n"
      "\<forall>k<?n. dual_verify (smul1 L) (smul2 L) (show1 L) (show2 L) (of_hex L) (ps ! k) (pk_map ctx ! k)
        (smul1 L (?evals ! k) (pk_map ctx ! k)) ?h (smul2 L (?evals ! k) ?h)"
    by auto
  let ?gs = "smul2 L (coeffs p ! 0) ?h"
  let ?d = "dleq_prove (smul2 L) (show2 L) (of_hex L) (random_fr L) ?h ?gs (coeffs p ! 0) s2"
  have d: "dleq_verify (smul2 L) (show2 L) (of_hex L) (fst ?d) ?h ?gs"
    using assms(1) by (intro dleq_complete) (simp add: lib_laws_def)
  have gen: "decomp_generate (smul2 L) (show2 L) (of_hex L) (random_fr L) ?h p s2 =
      Inr (\<lparr>decomp_dleq = fst ?d, decomp_gs = ?gs\<rparr>, snd ?d)"
    by (simp add: decomp_generate_def get_secret_def c0 Let_def case_prod_unfold)
  let ?sh = "\<lparr>encryptions = ?encs, commitments = ?comms, dleq_proofs = ps,
      decomp_pi = \<lparr>decomp_dleq = fst ?d, decomp_gs = ?gs\<rparr>, secret = coeffs p ! 0\<rparr>"
  have "create_sharing L ctx s = Inr (?sh, snd ?d)"
    by (simp only: create_sharing_def r res_bind.simps prod.case Let_def comms encs ps(1) gen c0)
  moreover have "sharing_of L ctx p ?sh"
    using p ps(2,3) d by (simp add: sharing_of_def)
  ultimately show ?thesis
    by (intro exI [of _ p] exI [of _ ?sh] exI [of _ "snd ?d"]) simp
qed

lemma verify_shares_ok:
  assumes "sharing_of L ctx p sh" and "num_replicas (config ctx) \<le> length (pk_map ctx)"
  shows "set is \<subseteq> {..<num_replicas (config ctx)} \<Longrightarrow> verify_shares L ctx sh is = Inr True"
  using assms by (induction "is") (auto simp: sharing_of_def Let_def)

lemma verify_sharing_ok:
  fixes L :: "('f :: field, 'g1 :: ab_group_add, 'g2 :: ab_group_add, 'gt, 's) pairing_lib"
  assumes "lib_laws L" and "sharing_of L ctx p sh"
    and "num_replicas (config ctx) \<le> length (pk_map ctx)" and "sizes_ok TYPE('f) (config ctx)"
  shows "\<exists>s'. verify_sharing L ctx sh s = Inr (True, s')"
proof -
  let ?n = "num_replicas (config ctx)" and ?f = "num_faults (config ctx)" and ?h = "ctx_h1 ctx"
  note sh = assms(2) [unfolded sharing_of_def Let_def]
  have poly: "polyfn ?f (coeffs p ! ?f) (evaluate p)"
    using sh by (intro evaluate_polyfn) simp
  have m: "module (smul2 L)"
    using assms(1) by (simp add: lib_laws_def)
  have sizes: "?f + 2 \<le> ?n" "field_fits TYPE('f) ?n"
    using assms(4) by (simp_all add: sizes_ok_def)
  obtain s' where s': "ensure_degree (smul2 L) (random_fr L) (commitments sh) ?f s = Inr (True, s')"
    using ensure_degree_ok [OF m poly, of "commitments sh" ?h "random_fr L" s] sh sizes by auto
  have "coeffs p \<noteq> []"
    using sh by auto
  then have "lagrange_interpolation (smul2 L) ?f (commitments sh) = Inr (smul2 L (coeffs p ! 0) ?h)"
    using lagrange_ok [OF m poly, of "commitments sh" ?h] sh sizes by (simp add: evaluate_zero)
  moreover have "verify_shares L ctx sh [0..<?n] = Inr True"
    by (rule verify_shares_ok [OF assms(2,3)]) auto
  ultimately show ?thesis
    using sh s' by (simp add: verify_sharing_def Let_def)
qed

text \<open>C2: a sharing made by any replica of a setup is accepted by every replica of it.\<close>

theorem create_sharing_verifies:
  fixes L :: "('f :: field, 'g1 :: ab_group_add, 'g2 :: ab_group_add, 'gt, 's) pairing_lib"
  assumes "lib_laws L" and "sizes_ok TYPE('f) cfg" and "length sks = num_replicas cfg"
  shows "\<exists>sh s'. create_sharing L (factory_context L cfg g1 g2 h1 h2 sks i) s = Inr (sh, s') \<and>
    (\<exists>s2. verify_sharing L (factory_context L cfg g1 g2 h1 h2 sks j) sh s1 = Inr (True, s2))"
proof -
  let ?ctx = "factory_context L cfg g1 g2 h1 h2 sks"
  have fit: "config (?ctx i) = cfg" "length (pk_map (?ctx i)) = num_replicas cfg" for i
    using assms(3) by (simp_all add: factory_context_def)
  obtain p sh s' where sh: "create_sharing L (?ctx i) s = Inr (sh, s')" "sharing_of L (?ctx i) p sh"
    using create_sharing_ok [OF assms(1), of "?ctx i" s] assms(2) fit by auto
  have "sharing_of L (?ctx j) p sh"
    using sh(2) by (simp add: sharing_of_def factory_context_def)
  with sh(1) show ?thesis
    using verify_sharing_ok [OF assms(1), of "?ctx j" p sh s1] assms(2) fit by auto
qed

text \<open>A concrete library for the witnesses: the rationals as field and as groups, with the
  product as pairing.\<close>

definition rat_lib :: "(rat, rat, rat, rat, rat) pairing_lib" where
  "rat_lib = \<lparr>smul1 = (*), smul2 = (*), show1 = (\<lambda>x. ''a''), show2 = (\<lambda>x. ''b''),
     of_hex = (\<lambda>h. 7), random_fr = (\<lambda>s. (s, s + 1)), random_g1 = (\<lambda>s. (s, s + 1)),
     random_g2 = (\<lambda>s. (s, s + 1)), pairing = (*), reduced_pairing = (*)\<rparr>"

lemma rat_lib_ops:
  "smul1 rat_lib = (*)" "smul2 rat_lib = (*)" "pairing rat_lib = (*)" "reduced_pairing rat_lib = (*)"
  by (simp_all add: rat_lib_def)

lemma rat_lib_laws: "lib_laws rat_lib"
  using module_times by (simp add: lib_laws_def rat_lib_def)

lemma rat_sizes_ok: "sizes_ok TYPE(rat) (FromNumReplicas 4)"
  by (simp add: sizes_ok_def field_fits_rat fr_max_size_def)

theorem create_sharing_verifies_witness:
  "\<exists>sh s'. create_sharing rat_lib (factory_context rat_lib (FromNumReplicas 4) 2 3 5 7 [1, 2, 3, 4] 0) 9 =
      Inr (sh, s') \<and>
    (\<exists>s2. verify_sharing rat_lib (factory_context rat_lib (FromNumReplicas 4) 2 3 5 7 [1, 2, 3, 4] 2) sh 8 =
      Inr (True, s2))"
  by (rule create_sharing_verifies [OF rat_lib_laws rat_sizes_ok]) simp

section \<open>Aggregates\<close>

text \<open>\<open>aggregate_of L ctx F agg\<close>: \<open>agg\<close> shares the values of the polynomial function
  \<open>F\<close>, and its decomposition proofs are valid and add up to \<open>F 0\<close>.\<close>

definition aggregate_of ::
  "('f :: field, 'g1 :: ab_group_add, 'g2 :: ab_group_add, 'gt, 's) pairing_lib \<Rightarrow>
   ('f, 'g1, 'g2) pvss_context \<Rightarrow> ('f \<Rightarrow> 'f) \<Rightarrow> ('f, 'g1, 'g2) pvss_aggregate \<Rightarrow> bool" where
  "aggregate_of L ctx F agg \<longleftrightarrow>
     (let n = num_replicas (config ctx); x = \<lambda>i. F (fr_of_long (i + 1))
      in (\<exists>l. polyfn (num_faults (config ctx)) l F) \<and>
         agg_encryptions agg = map (\<lambda>i. smul1 L (x i) (pk_map ctx ! i)) [0..<n] \<and>
         agg_commitments agg = map (\<lambda>i. smul2 L (x i) (ctx_h1 ctx)) [0..<n] \<and>
         decomposition_sum L (ctx_h1 ctx) (decomposition agg) 0 = Some (smul2 L (F 0) (ctx_h1 ctx)))"

definition sum_poly :: "'f :: field polynomial list \<Rightarrow> 'f \<Rightarrow> 'f" where
  "sum_poly ps x = (\<Sum>p\<leftarrow>ps. evaluate p x)"

lemma sum_poly_simps [simp]: "sum_poly [] x = 0" "sum_poly (p # ps) x = evaluate p x + sum_poly ps x"
  by (simp_all add: sum_poly_def)

lemma polyfn_sum_poly:
  "(\<And>p. p \<in> set ps \<Longrightarrow> length (coeffs p) = Suc d) \<Longrightarrow> \<exists>l. polyfn d l (sum_poly ps)"
proof (induction ps)
  case Nil
  show ?case
    unfolding polyfn_def by (intro exI [of _ 0] exI [of _ "\<lambda>i. 0"]) simp
next
  case (Cons p ps)
  then obtain l where "polyfn d l (sum_poly ps)"
    by auto
  moreover have "polyfn d (coeffs p ! d) (evaluate p)"
    using Cons.prems by (intro evaluate_polyfn) simp
  ultimately have "polyfn d (coeffs p ! d + l) (\<lambda>x. evaluate p x + sum_poly ps x)"
    by (intro polyfn_add)
  moreover have "sum_poly (p # ps) = (\<lambda>x. evaluate p x + sum_poly ps x)"
    by (intro ext) simp
  ultimately show ?case by auto
qed

lemma map2_map_upt: "map2 g (map a [0..<n]) (map b [0..<n]) = map (\<lambda>i. g (a i) (b i)) [0..<n]"
  by (rule nth_equalityI) auto

lemma aggregate_loop_ok:
  assumes "lib_laws L"
  shows "list_all2 (sharing_of L ctx) ps pvec \<Longrightarrow>
    aggregate_loop (num_replicas (config ctx)) pvec
      (map (\<lambda>i. smul1 L (a i) (pk_map ctx ! i)) [0..<num_replicas (config ctx)])
      (map (\<lambda>i. smul2 L (a i) (ctx_h1 ctx)) [0..<num_replicas (config ctx)]) ds =
    Inr (map (\<lambda>i. smul1 L (a i + sum_poly ps (fr_of_long (i + 1))) (pk_map ctx ! i))
        [0..<num_replicas (config ctx)],
      map (\<lambda>i. smul2 L (a i + sum_poly ps (fr_of_long (i + 1))) (ctx_h1 ctx))
        [0..<num_replicas (config ctx)],
      ds @ map decomp_pi pvec)"
proof (induction ps pvec arbitrary: a ds rule: list_all2_induct)
  case Nil
  then show ?case by simp
next
  case (Cons p ps sh pvec)
  note m = lib_laws_def [of L, THEN iffD1, OF assms]
  have step: "map2 (+) (map (\<lambda>i. smul1 L (a i) (pk_map ctx ! i)) [0..<num_replicas (config ctx)]) (encryptions sh) =
      map (\<lambda>i. smul1 L (a i + evaluate p (fr_of_long (i + 1))) (pk_map ctx ! i)) [0..<num_replicas (config ctx)]"
    "map2 (+) (map (\<lambda>i. smul2 L (a i) (ctx_h1 ctx)) [0..<num_replicas (config ctx)]) (commitments sh) =
      map (\<lambda>i. smul2 L (a i + evaluate p (fr_of_long (i + 1))) (ctx_h1 ctx)) [0..<num_replicas (config ctx)]"
    using Cons.hyps(1) m
    by (simp_all add: sharing_of_def Let_def map2_map_upt module.scale_left_distrib)
  from Cons.hyps(1) show ?case
    by (simp only: aggregate_loop.simps step Cons.IH)
      (simp add: sharing_of_def Let_def add.assoc)
qed

lemma decomposition_sum_ok:
  assumes "lib_laws L"
  shows "list_all2 (sharing_of L ctx) ps pvec \<Longrightarrow>
    decomposition_sum L (ctx_h1 ctx) (map decomp_pi pvec) (smul2 L a (ctx_h1 ctx)) =
    Some (smul2 L (a + sum_poly ps 0) (ctx_h1 ctx))"
proof (induction ps pvec arbitrary: a rule: list_all2_induct)
  case Nil
  then show ?case by simp
next
  case (Cons p ps sh pvec)
  note m = lib_laws_def [of L, THEN iffD1, OF assms]
  have "coeffs p \<noteq> []"
    using Cons.hyps(1) by (auto simp: sharing_of_def Let_def)
  with Cons.hyps(1) m Cons.IH [of "a + coeffs p ! 0"] show ?case
    by (simp add: sharing_of_def Let_def evaluate_zero module.scale_left_distrib add.assoc)
qed

lemma aggregate_ok:
  assumes "lib_laws L" and "list_all2 (sharing_of L ctx) ps pvec" and "pvec \<noteq> []"
    and "length pvec \<le> length ids"
  shows "\<exists>agg. aggregate pvec ids = Inr agg \<and> aggregate_of L ctx (sum_poly ps) agg \<and>
    length (decomposition agg) = length pvec \<and> id_vec agg = ids"
proof -
  let ?n = "num_replicas (config ctx)"
  note m = lib_laws_def [of L, THEN iffD1, OF assms(1)]
  obtain sh rest where sh: "pvec = sh # rest"
    using assms(3) by (cases pvec) auto
  with assms(2) have n: "length (encryptions (hd pvec)) = ?n"
    by (auto simp: sharing_of_def Let_def list_all2_Cons2)
  have zeros: "replicate ?n (0 :: 'b) = map (\<lambda>i. smul1 L 0 (pk_map ctx ! i)) [0..<?n]"
    "replicate ?n (0 :: 'c) = map (\<lambda>i. smul2 L 0 (ctx_h1 ctx)) [0..<?n]"
    using m by (simp_all add: map_replicate_const module.scale_zero_left)
  have "length (coeffs p) = Suc (num_faults (config ctx))" if "p \<in> set ps" for p
    using assms(2) that by (auto simp: list_all2_conv_all_nth in_set_conv_nth sharing_of_def Let_def)
  then have poly: "\<exists>l. polyfn (num_faults (config ctx)) l (sum_poly ps)"
    by (rule polyfn_sum_poly)
  have "decomposition_sum L (ctx_h1 ctx) (map decomp_pi pvec) 0 =
      Some (smul2 L (sum_poly ps 0) (ctx_h1 ctx))"
    using decomposition_sum_ok [OF assms(1,2), of 0] m by (simp add: module.scale_zero_left)
  with assms(3,4) n poly aggregate_loop_ok [OF assms(1,2), of "\<lambda>i. 0" "[]"] show ?thesis
    by (simp add: aggregate_def Let_def zeros aggregate_of_def)
qed

lemma pairing_checks_ok:
  assumes "lib_laws L" and "aggregate_of L ctx F agg" and "num_replicas (config ctx) \<le> length (pk_map ctx)"
  shows "set is \<subseteq> {..<num_replicas (config ctx)} \<Longrightarrow> pairing_checks L ctx agg is = Inr True"
  using assms by (induction "is") (auto simp: aggregate_of_def Let_def lib_laws_def)

lemma verify_aggregation_ok:
  fixes L :: "('f :: field, 'g1 :: ab_group_add, 'g2 :: ab_group_add, 'gt, 's) pairing_lib"
  assumes "lib_laws L" and "aggregate_of L ctx F agg"
    and "num_replicas (config ctx) \<le> length (pk_map ctx)" and "sizes_ok TYPE('f) (config ctx)"
    and "length (decomposition agg) = length (id_vec agg)"
    and "num_faults (config ctx) \<le> length (id_vec agg)"
  shows "\<exists>s'. verify_aggregation L ctx agg s = Inr (True, s')"
proof -
  let ?n = "num_replicas (config ctx)" and ?f = "num_faults (config ctx)" and ?h = "ctx_h1 ctx"
  note agg = assms(2) [unfolded aggregate_of_def Let_def]
  obtain l where poly: "polyfn ?f l F"
    using agg by blast
  have m: "module (smul2 L)"
    using assms(1) by (simp add: lib_laws_def)
  have sizes: "?f + 2 \<le> ?n" "field_fits TYPE('f) ?n"
    using assms(4) by (simp_all add: sizes_ok_def)
  obtain s' where "ensure_degree (smul2 L) (random_fr L) (agg_commitments agg) ?f s = Inr (True, s')"
    using ensure_degree_ok [OF m poly, of "agg_commitments agg" ?h "random_fr L" s] agg sizes by auto
  moreover have "lagrange_interpolation (smul2 L) ?f (agg_commitments agg) = Inr (smul2 L (F 0) ?h)"
    using lagrange_ok [OF m poly, of "agg_commitments agg" ?h] agg sizes by simp
  moreover have "pairing_checks L ctx agg [0..<?n] = Inr True"
    by (rule pairing_checks_ok [OF assms(1,2,3)]) auto
  ultimately show ?thesis
    using agg assms(5,6) by (simp add: verify_aggregation_def Let_def)
qed

text \<open>C8: the aggregate of honest sharings, at least as many as the system has faults, is accepted
  by every replica of the setup; it shares the sum of the polynomials.\<close>

theorem aggregate_verifies:
  fixes L :: "('f :: field, 'g1 :: ab_group_add, 'g2 :: ab_group_add, 'gt, 's) pairing_lib"
  assumes "lib_laws L" and "sizes_ok TYPE('f) cfg" and "length sks = num_replicas cfg"
    and "list_all2 (sharing_of L (factory_context L cfg g1 g2 h1 h2 sks i)) ps pvec" and "pvec \<noteq> []"
    and "num_faults cfg \<le> length pvec" and "length ids = length pvec"
  shows "\<exists>agg s'. aggregate pvec ids = Inr agg \<and>
    aggregate_of L (factory_context L cfg g1 g2 h1 h2 sks j) (sum_poly ps) agg \<and>
    verify_aggregation L (factory_context L cfg g1 g2 h1 h2 sks j) agg s = Inr (True, s')"
proof -
  let ?ctx = "factory_context L cfg g1 g2 h1 h2 sks"
  have fit: "config (?ctx i) = cfg" "length (pk_map (?ctx i)) = num_replicas cfg" for i
    using assms(3) by (simp_all add: factory_context_def)
  have "sharing_of L (?ctx i) = sharing_of L (?ctx j)"
    by (intro ext) (simp add: sharing_of_def factory_context_def)
  then have "list_all2 (sharing_of L (?ctx j)) ps pvec"
    using assms(4) by simp
  then obtain agg where "aggregate pvec ids = Inr agg" "aggregate_of L (?ctx j) (sum_poly ps) agg"
      "length (decomposition agg) = length pvec" "id_vec agg = ids"
    using aggregate_ok [OF assms(1), of "?ctx j" ps pvec ids] assms(5,7) by auto
  moreover from this obtain s' where "verify_aggregation L (?ctx j) agg s = Inr (True, s')"
    using verify_aggregation_ok [OF assms(1), of "?ctx j" "sum_poly ps" agg s] assms(2,6,7) fit by auto
  ultimately show ?thesis
    by blast
qed

abbreviation rat_context :: "nat \<Rightarrow> (rat, rat, rat) pvss_context" where
  "rat_context \<equiv> factory_context rat_lib (FromNumReplicas 4) 2 3 5 7 [1, 2, 3, 4]"

lemma rat_sharing: "\<exists>p sh. sharing_of rat_lib (rat_context i) p sh"
proof -
  have "sizes_ok TYPE(rat) (config (rat_context i))"
      "num_replicas (config (rat_context i)) \<le> length (pk_map (rat_context i))"
    using rat_sizes_ok by (simp_all add: factory_context_def)
  then show ?thesis
    using create_sharing_ok [OF rat_lib_laws] by blast
qed

theorem aggregate_verifies_witness:
  "\<exists>ps pvec agg s'. list_all2 (sharing_of rat_lib (rat_context 0)) ps pvec \<and> length pvec = 2 \<and>
     aggregate pvec [0, 1] = Inr agg \<and>
     aggregate_of rat_lib (rat_context 3) (sum_poly ps) agg \<and>
     verify_aggregation rat_lib (rat_context 3) agg 9 = Inr (True, s')"
proof -
  obtain p sh where sh: "sharing_of rat_lib (rat_context 0) p sh"
    using rat_sharing by blast
  then have "list_all2 (sharing_of rat_lib (rat_context 0)) [p, p] [sh, sh]"
    by simp
  with aggregate_verifies [OF rat_lib_laws rat_sizes_ok, where sks = "[1, 2, 3, 4]" and
      ps = "[p, p]" and pvec = "[sh, sh]" and ids = "[0, 1]" and i = 0 and j = 3 and s = 9]
  show ?thesis
    by (intro exI [of _ "[p, p]"] exI [of _ "[sh, sh]"]) simp
qed

lemma pairing_checks_all:
  "pairing_checks L ctx agg is = Inr True \<Longrightarrow> i \<in> set is \<Longrightarrow>
    reduced_pairing L (pk_map ctx ! i) (agg_commitments agg ! i) =
    reduced_pairing L (agg_encryptions agg ! i) (ctx_h1 ctx)"
  by (induction "is") (auto simp: res_bind_Inr_iff vec_at_def split: if_splits)

lemma accepted_encryption:
  fixes L :: "('f :: field, 'g1 :: ab_group_add, 'g2 :: ab_group_add, 'gt, 's) pairing_lib"
  assumes "lib_laws L" and "verify_aggregation L ctx agg s = Inr (True, s')"
    and "inj (\<lambda>x. reduced_pairing L x (ctx_h1 ctx))"
    and "i < num_replicas (config ctx)" and "agg_commitments agg ! i = smul2 L a (ctx_h1 ctx)"
  shows "agg_encryptions agg ! i = smul1 L a (pk_map ctx ! i)"
proof -
  have "pairing_checks L ctx agg [0..<num_replicas (config ctx)] = Inr True"
    using assms(2) by (auto simp: verify_aggregation_def Let_def res_bind_Inr_iff split: if_splits prod.splits)
  then have "reduced_pairing L (pk_map ctx ! i) (smul2 L a (ctx_h1 ctx)) =
      reduced_pairing L (agg_encryptions agg ! i) (ctx_h1 ctx)"
    using pairing_checks_all [of L ctx agg _ i] assms(4,5) by fastforce
  then have "reduced_pairing L (smul1 L a (pk_map ctx ! i)) (ctx_h1 ctx) =
      reduced_pairing L (agg_encryptions agg ! i) (ctx_h1 ctx)"
    using assms(1) by (simp add: lib_laws_def)
  with injD [OF assms(3)] show ?thesis by metis
qed

text \<open>C22: an accepted aggregate is consistent. If the pairing with \<open>h1\<close> is injective, the
  encryption of replica \<open>i\<close> hides the same exponent as its commitment: whoever holds the
  secret key gets the share that is committed to.\<close>

theorem accepted_aggregate_consistent:
  fixes L :: "('f :: field, 'g1 :: ab_group_add, 'g2 :: ab_group_add, 'gt, 's) pairing_lib"
  assumes "lib_laws L" and "verify_aggregation L ctx agg s = Inr (True, s')"
    and "inj (\<lambda>x. reduced_pairing L x (ctx_h1 ctx))"
    and "i < num_replicas (config ctx)" and "agg_commitments agg ! i = smul2 L a (ctx_h1 ctx)"
  shows "agg_encryptions agg ! i = smul1 L a (pk_map ctx ! i)"
  by (rule accepted_encryption [OF assms])

section \<open>Decryption\<close>

lemma decryption_generate_ok:
  fixes L :: "('f :: field, 'g1 :: ab_group_add, 'g2 :: ab_group_add, 'gt, 's) pairing_lib"
  assumes "lib_laws L" and "x \<noteq> 0"
  shows "\<exists>d s'. decryption_generate L enc x k s = Inr (d, s') \<and> dec d = smul1 L (inverse x) enc \<and>
    origin d = k \<and> decryption_verify L d enc"
proof -
  have m: "module (smul1 L)"
    using assms(1) by (simp add: lib_laws_def)
  let ?d = "smul1 L (inverse x) enc"
  have "smul1 L x ?d = enc"
    using module.scale_scale [OF m] module.scale_one [OF m] assms(2) by simp
  with dleq_complete [OF m, of "show1 L" "of_hex L" "random_fr L" ?d x s] assms(2) show ?thesis
    by (auto simp: decryption_generate_def fr_inverse_def Let_def case_prod_unfold decryption_verify_def)
qed

lemma decrypt_ok:
  fixes L :: "('f :: field, 'g1 :: ab_group_add, 'g2 :: ab_group_add, 'gt, 's) pairing_lib"
  assumes "lib_laws L" and "aggregate_of L (factory_context L cfg g1 g2 h1 h2 sks i) F agg"
    and "length sks = num_replicas cfg" and "i < num_replicas cfg" and "sks ! i \<noteq> 0"
  shows "\<exists>d s'. decrypt L (factory_context L cfg g1 g2 h1 h2 sks i) agg s = Inr (d, s') \<and>
    dec d = smul1 L (F (fr_of_long (i + 1))) g1 \<and> origin d = i \<and>
    verify_decryption L agg d = Inr True"
proof -
  have m: "module (smul1 L)"
    using assms(1) by (simp add: lib_laws_def)
  let ?x = "F (fr_of_long (i + 1))"
  have enc: "vec_at (agg_encryptions agg) i = Inr (smul1 L ?x (smul1 L (sks ! i) g1))"
    using assms(2-4) by (simp add: aggregate_of_def Let_def factory_context_def)
  have "inverse (sks ! i) * (?x * sks ! i) = ?x"
    using assms(5) by (simp add: field_simps)
  then have "smul1 L (inverse (sks ! i)) (smul1 L ?x (smul1 L (sks ! i) g1)) = smul1 L ?x g1"
    by (simp only: module.scale_scale [OF m])
  with decryption_generate_ok [OF assms(1,5), of "smul1 L ?x (smul1 L (sks ! i) g1)" i s] enc
  show ?thesis
    by (auto simp: decrypt_def verify_decryption_def factory_context_def)
qed

text \<open>C23: decrypting an aggregate with the replica's secret key gives its share in the first
  group, and every replica accepts the decryption.\<close>

theorem decrypt_verifies:
  fixes L :: "('f :: field, 'g1 :: ab_group_add, 'g2 :: ab_group_add, 'gt, 's) pairing_lib"
  assumes "lib_laws L" and "aggregate_of L (factory_context L cfg g1 g2 h1 h2 sks i) F agg"
    and "length sks = num_replicas cfg" and "i < num_replicas cfg" and "sks ! i \<noteq> 0"
  shows "\<exists>d s'. decrypt L (factory_context L cfg g1 g2 h1 h2 sks i) agg s = Inr (d, s') \<and>
    dec d = smul1 L (F (fr_of_long (i + 1))) g1 \<and> origin d = i \<and>
    verify_decryption L agg d = Inr True"
  using assms by (rule decrypt_ok)

lemma rat_aggregate: "\<exists>F agg. \<forall>i. aggregate_of rat_lib (rat_context i) F agg"
proof -
  obtain p sh where "sharing_of rat_lib (rat_context 0) p sh"
    using rat_sharing by blast
  then have "list_all2 (sharing_of rat_lib (rat_context 0)) [p] [sh]"
    by simp
  from aggregate_ok [OF rat_lib_laws this, of "[0]"] obtain agg where
    "aggregate_of rat_lib (rat_context 0) (sum_poly [p]) agg"
    by auto
  then have "aggregate_of rat_lib (rat_context i) (sum_poly [p]) agg" for i
    by (simp add: aggregate_of_def factory_context_def)
  then show ?thesis by blast
qed

theorem decrypt_verifies_witness:
  "\<exists>F agg d s'. aggregate_of rat_lib (rat_context 1) F agg \<and>
     decrypt rat_lib (rat_context 1) agg 9 = Inr (d, s') \<and>
     dec d = F 2 * 2 \<and> origin d = 1 \<and> verify_decryption rat_lib agg d = Inr True"
proof -
  obtain F agg where agg: "aggregate_of rat_lib (rat_context 1) F agg"
    using rat_aggregate by blast
  have "fr_of_long 2 = (2 :: rat)"
    by (simp add: fr_of_long_eq)
  with decrypt_verifies [OF rat_lib_laws agg, of 9] show ?thesis
    using agg by (auto simp: rat_lib_def numeral_2_eq_2)
qed

text \<open>C27: the check of a decryption does not involve the public key of its origin: a share made
  with any number \<open>x\<close> different from zero in place of the secret key is accepted, although
  it is the right one only for the secret key.\<close>

theorem verify_decryption_any_key:
  fixes L :: "('f :: field, 'g1 :: ab_group_add, 'g2 :: ab_group_add, 'gt, 's) pairing_lib"
  assumes "lib_laws L" and "x \<noteq> 0" and "k < length (agg_encryptions agg)"
  shows "\<exists>d s'. decryption_generate L (agg_encryptions agg ! k) x k s = Inr (d, s') \<and>
    dec d = smul1 L (inverse x) (agg_encryptions agg ! k) \<and> verify_decryption L agg d = Inr True"
  using decryption_generate_ok [OF assms(1,2), of "agg_encryptions agg ! k" k s] assms(3)
  by (auto simp: verify_decryption_def)

theorem verify_decryption_any_key_witness:
  "\<exists>d s'. decryption_generate rat_lib 6 5 0 9 = Inr (d, s') \<and> dec d = 6 / 5 \<and>
     verify_decryption rat_lib \<lparr>agg_encryptions = [6], agg_commitments = [], decomposition = [],
       id_vec = []\<rparr> d = Inr True"
  using verify_decryption_any_key [OF rat_lib_laws, of 5 0 "\<lparr>agg_encryptions = [6], agg_commitments = [],
      decomposition = [], id_vec = []\<rparr>" 9]
  by (simp add: rat_lib_def)

lemma rat_accepted:
  "\<exists>F agg s'. aggregate_of rat_lib (rat_context i) F agg \<and>
    verify_aggregation rat_lib (rat_context i) agg s = Inr (True, s')"
proof -
  obtain p sh where "sharing_of rat_lib (rat_context i) p sh"
    using rat_sharing by blast
  then have "list_all2 (sharing_of rat_lib (rat_context i)) [p] [sh]"
    by simp
  from aggregate_ok [OF rat_lib_laws this, of "[0]"] obtain agg where
    agg: "aggregate_of rat_lib (rat_context i) (sum_poly [p]) agg"
      "length (decomposition agg) = 1" "id_vec agg = [0]"
    by auto
  have "config (rat_context i) = FromNumReplicas 4" "length (pk_map (rat_context i)) = 4"
    by (simp_all add: factory_context_def)
  with verify_aggregation_ok [OF rat_lib_laws agg(1), of s] agg rat_sizes_ok show ?thesis
    by fastforce
qed

theorem accepted_aggregate_consistent_witness:
  "\<exists>agg a s'. verify_aggregation rat_lib (rat_context 0) agg 9 = Inr (True, s') \<and>
     agg_commitments agg ! 1 = a * 5 \<and> agg_encryptions agg ! 1 = a * 4"
proof -
  obtain F agg s' where agg: "aggregate_of rat_lib (rat_context 0) F agg"
    "verify_aggregation rat_lib (rat_context 0) agg 9 = Inr (True, s')"
    using rat_accepted by blast
  have "inj (\<lambda>x. reduced_pairing rat_lib x (ctx_h1 (rat_context 0)))"
    by (simp add: inj_def rat_lib_def factory_context_def)
  moreover have "fr_of_long 2 = (2 :: rat)"
    by (simp add: fr_of_long_eq)
  then have com: "agg_commitments agg ! 1 = F 2 * 5"
    using agg(1)
    by (simp add: aggregate_of_def Let_def factory_context_def rat_lib_def numeral_2_eq_2)
  ultimately have "agg_encryptions agg ! 1 = F 2 * 4"
    using accepted_aggregate_consistent [OF rat_lib_laws agg(2), of 1 "F 2"]
    by (simp add: rat_lib_def factory_context_def)
  with agg(2) com show ?thesis by blast
qed

end
