(* ===== verification/Pvss_Beacon.thy ===== *)
theory Pvss_Beacon
  imports Pvss_Correct
begin

text \<open>
  The beacon: any \<open>f + 1\<close> decryptions of an aggregate reconstruct the value the aggregate
  shares; the reconstructed beacon is accepted; for an accepted aggregate, whoever made it, no other beacon is.
\<close>

lemma reconstruct_ok:
  fixes L :: "('f :: field, 'g1 :: ab_group_add, 'g2 :: ab_group_add, 'gt, 's) pairing_lib"
  assumes "lib_laws L" and "polyfn (num_faults (config ctx)) l F"
    and "sizes_ok TYPE('f) (config ctx)" and "num_faults (config ctx) < length ds"
    and "distinct (map origin ds)"
    and "\<And>d. d \<in> set ds \<Longrightarrow> origin d < num_replicas (config ctx) \<and>
      dec d = smul1 L (F (fr_of_long (origin d + 1))) g"
  shows "reconstruct L ctx ds =
    Inr \<lparr>recon = smul1 L (F 0) g, beacon_value = pairing L (smul1 L (F 0) g) (ctx_h2 ctx)\<rparr>"
proof -
  let ?f = "num_faults (config ctx)" and ?n = "num_replicas (config ctx)"
  let ?points = "map (\<lambda>d. fr_of_long (origin d + 1)) ds :: 'f list"
  have fits: "field_fits TYPE('f) ?n"
    using assms(3) by (simp add: sizes_ok_def)
  have "?f < SIZE_MAX"
    using assms(3) by (simp add: sizes_ok_def field_fits_def fr_max_size_def)
  moreover have "inj_on ((!) ?points) {..?f}"
  proof (rule inj_onI)
    fix i j
    assume ij: "i \<in> {..?f}" "j \<in> {..?f}" and eq: "?points ! i = ?points ! j"
    then have len: "i < length ds" "j < length ds"
      using assms(4) by auto
    then have "origin (ds ! i) + 1 \<le> ?n" "origin (ds ! j) + 1 \<le> ?n"
      using assms(6) [of "ds ! i"] assms(6) [of "ds ! j"] by simp_all
    then have "origin (ds ! i) + 1 = origin (ds ! j) + 1"
      using eq len by (intro inj_onD [OF field_fits_inj [OF fits]]) simp_all
    then have "map origin ds ! i = map origin ds ! j"
      using len by simp
    then show "i = j"
      using len nth_eq_iff_index_eq [OF assms(5)] by simp
  qed
  ultimately have "lagrange_interpolation_at (smul1 L) ?f (map dec ds) ?points = Inr (smul1 L (F 0) g)"
    using assms(1,2,4,6) by (intro lagrange_at_ok) (auto simp: lib_laws_def)
  with assms(4) show ?thesis
    by (simp add: reconstruct_def Let_def)
qed

lemma decomposition_sum_foldl:
  "decomposition_sum L h ds a = Some b \<Longrightarrow> foldl (\<lambda>gs d. gs + decomp_gs d) a ds = b"
  by (induction ds arbitrary: a) (auto split: if_splits)

lemma verify_beacon_ok:
  assumes "lib_laws L" and "aggregate_of L ctx F agg"
  shows "verify_beacon L ctx agg \<lparr>recon = smul1 L (F 0) (ctx_g1 ctx),
    beacon_value = pairing L (smul1 L (F 0) (ctx_g1 ctx)) (ctx_h2 ctx)\<rparr>"
proof -
  have "foldl (\<lambda>gs d. gs + decomp_gs d) 0 (decomposition agg) = smul2 L (F 0) (ctx_h1 ctx)"
    using assms(2) by (intro decomposition_sum_foldl [of L "ctx_h1 ctx"]) (simp add: aggregate_of_def Let_def)
  with assms(1) show ?thesis
    by (simp add: verify_beacon_def Let_def lib_laws_def)
qed

lemma decrypt_cases:
  assumes "decrypt L ctx agg s = Inr (d, s')" and "lib_laws L"
    and "aggregate_of L (factory_context L cfg g1 g2 h1 h2 sks i) F agg"
    and "ctx = factory_context L cfg g1 g2 h1 h2 sks i"
    and "length sks = num_replicas cfg" and "i < num_replicas cfg" and "sks ! i \<noteq> 0"
  shows "dec d = smul1 L (F (fr_of_long (i + 1))) g1" and "origin d = i"
proof -
  obtain d' s2 where "decrypt L ctx agg s = Inr (d', s2)" "dec d' = smul1 L (F (fr_of_long (i + 1))) g1"
      "origin d' = i"
    using decrypt_ok [OF assms(2,3,5-7), of s] assms(4) by blast
  with assms(1) show "dec d = smul1 L (F (fr_of_long (i + 1))) g1" "origin d = i"
    by simp_all
qed

text \<open>C1: agreement. Whichever replicas decrypt the aggregate, more than \<open>f\<close> of them and each
  one once, every replica reconstructs the same beacon from their shares: the generator times
  the value the aggregate shares at zero, and its pairing with \<open>h2\<close>; and every replica accepts
  this beacon.\<close>

theorem beacon_agreement:
  fixes L :: "('f :: field, 'g1 :: ab_group_add, 'g2 :: ab_group_add, 'gt, 's) pairing_lib"
  assumes "lib_laws L" and "sizes_ok TYPE('f) cfg" and "length sks = num_replicas cfg"
    and "\<And>i. aggregate_of L (factory_context L cfg g1 g2 h1 h2 sks i) F agg"
    and "distinct is" and "set is \<subseteq> {..<num_replicas cfg}" and "num_faults cfg < length is"
    and "\<And>i. i \<in> set is \<Longrightarrow> sks ! i \<noteq> 0"
    and "list_all2 (\<lambda>i d. \<exists>s s'. decrypt L (factory_context L cfg g1 g2 h1 h2 sks i) agg s = Inr (d, s')) is ds"
  shows "reconstruct L (factory_context L cfg g1 g2 h1 h2 sks j) ds =
      Inr \<lparr>recon = smul1 L (F 0) g1, beacon_value = pairing L (smul1 L (F 0) g1) h2\<rparr> \<and>
    verify_beacon L (factory_context L cfg g1 g2 h1 h2 sks j) agg
      \<lparr>recon = smul1 L (F 0) g1, beacon_value = pairing L (smul1 L (F 0) g1) h2\<rparr>"
proof -
  let ?ctx = "factory_context L cfg g1 g2 h1 h2 sks"
  have ctx: "config (?ctx j) = cfg" "ctx_g1 (?ctx j) = g1" "ctx_h2 (?ctx j) = h2"
    by (simp_all add: factory_context_def)
  obtain l where poly: "polyfn (num_faults (config (?ctx j))) l F"
    using assms(4) [of j] by (auto simp: aggregate_of_def Let_def)
  have len: "length ds = length is"
    using assms(9) by (simp add: list_all2_lengthD)
  have dec: "dec (ds ! k) = smul1 L (F (fr_of_long (is ! k + 1))) g1" "origin (ds ! k) = is ! k"
    if len: "k < length is" for k
  proof -
    have k: "is ! k < num_replicas cfg" "sks ! (is ! k) \<noteq> 0"
      using assms(6,8) len nth_mem by blast+
    obtain s s' where "decrypt L (?ctx (is ! k)) agg s = Inr (ds ! k, s')"
      using list_all2_nthD [OF assms(9) len] by blast
    from decrypt_cases [OF this assms(1,4) refl assms(3) k]
    show "dec (ds ! k) = smul1 L (F (fr_of_long (is ! k + 1))) g1" "origin (ds ! k) = is ! k" .
  qed
  have origins: "map origin ds = is"
    using len dec(2) by (intro nth_equalityI) auto
  have "reconstruct L (?ctx j) ds =
      Inr \<lparr>recon = smul1 L (F 0) g1, beacon_value = pairing L (smul1 L (F 0) g1) (ctx_h2 (?ctx j))\<rparr>"
  proof (rule reconstruct_ok [OF assms(1) poly])
    show "origin d < num_replicas (config (?ctx j)) \<and> dec d = smul1 L (F (fr_of_long (origin d + 1))) g1"
      if d: "d \<in> set ds" for d
    proof -
      obtain k where k: "k < length is" "d = ds ! k"
        using d len by (auto simp: in_set_conv_nth)
      then have "is ! k < num_replicas cfg"
        using assms(6) nth_mem by blast
      with dec [OF k(1)] show ?thesis
        unfolding ctx k(2) by simp
    qed
  qed (use assms(2,5,7) len origins ctx in simp_all)
  with verify_beacon_ok [OF assms(1,4), of j] show ?thesis
    unfolding ctx by blast
qed

theorem beacon_agreement_witness:
  "\<exists>F agg d1 d2. aggregate_of rat_lib (rat_context 0) F agg \<and>
     reconstruct rat_lib (rat_context 2) [d1, d2] =
       Inr \<lparr>recon = F 0 * 2, beacon_value = F 0 * 2 * 7\<rparr> \<and>
     verify_beacon rat_lib (rat_context 2) agg \<lparr>recon = F 0 * 2, beacon_value = F 0 * 2 * 7\<rparr>"
proof -
  obtain F agg where agg: "\<And>i. aggregate_of rat_lib (rat_context i) F agg"
    using rat_aggregate by blast
  obtain d1 s1 where d1: "decrypt rat_lib (rat_context 3) agg 9 = Inr (d1, s1)"
    using decrypt_ok [OF rat_lib_laws agg, of 3 9] by auto
  obtain d2 s2 where d2: "decrypt rat_lib (rat_context 1) agg 9 = Inr (d2, s2)"
    using decrypt_ok [OF rat_lib_laws agg, of 1 9] by auto
  have "list_all2 (\<lambda>i d. \<exists>s s'. decrypt rat_lib (rat_context i) agg s = Inr (d, s')) [3, 1] [d1, d2]"
    using d1 d2 by auto
  moreover have "[1, 2, 3, 4] ! i \<noteq> (0 :: rat)" if "i \<in> set [3, 1]" for i
    using that by auto
  ultimately have "reconstruct rat_lib (rat_context 2) [d1, d2] =
       Inr \<lparr>recon = F 0 * 2, beacon_value = F 0 * 2 * 7\<rparr> \<and>
     verify_beacon rat_lib (rat_context 2) agg \<lparr>recon = F 0 * 2, beacon_value = F 0 * 2 * 7\<rparr>"
    using beacon_agreement [OF rat_lib_laws rat_sizes_ok _ agg, of "[3, 1]" "[d1, d2]" 2]
    by (simp add: rat_lib_ops)
  with agg show ?thesis by blast
qed

section \<open>Aggregates of others\<close>

lemma verify_beacon_unique:
  assumes "verify_beacon L ctx agg b1" and "verify_beacon L ctx agg b2"
    and "inj (\<lambda>x. reduced_pairing L x (ctx_h1 ctx))"
  shows "b1 = b2"
proof -
  have "reduced_pairing L (recon b1) (ctx_h1 ctx) = reduced_pairing L (recon b2) (ctx_h1 ctx)"
    using assms(1,2) by (auto simp: verify_beacon_def Let_def split: if_splits)
  then have "recon b1 = recon b2"
    using injD [OF assms(3)] by metis
  moreover from this have "beacon_value b1 = beacon_value b2"
    using assms(1,2) by (auto simp: verify_beacon_def Let_def split: if_splits)
  ultimately show ?thesis by simp
qed

text \<open>What an accepted aggregate shares, when its commitments are those of a polynomial \<open>F\<close>.\<close>

lemma accepted_aggregate_beacon:
  fixes L :: "('f :: field, 'g1 :: ab_group_add, 'g2 :: ab_group_add, 'gt, 's) pairing_lib"
  assumes "lib_laws L" and "sizes_ok TYPE('f) (config ctx)"
    and "verify_aggregation L ctx agg s = Inr (True, s')" and "polyfn (num_faults (config ctx)) l F"
    and "\<And>i. i < num_replicas (config ctx) \<Longrightarrow>
      agg_commitments agg ! i = smul2 L (F (fr_of_long (i + 1))) (ctx_h1 ctx)"
  shows "verify_beacon L ctx agg \<lparr>recon = smul1 L (F 0) (ctx_g1 ctx),
    beacon_value = pairing L (smul1 L (F 0) (ctx_g1 ctx)) (ctx_h2 ctx)\<rparr>"
proof -
  let ?f = "num_faults (config ctx)" and ?n = "num_replicas (config ctx)"
  have len: "length (agg_commitments agg) = ?n"
    and sum: "res_bind (lagrange_interpolation (smul2 L) ?f (agg_commitments agg)) (\<lambda>point.
      case decomposition_sum L (ctx_h1 ctx) (decomposition agg) 0 of None \<Rightarrow> Inr (False, s')
      | Some gs_prod \<Rightarrow> Inr (gs_prod = point, s')) = Inr (True, s')"
    using assms(3) by (auto simp: verify_aggregation_def Let_def res_bind_Inr_iff split: if_splits option.splits)
  have fits: "?f + 2 \<le> ?n" "field_fits TYPE('f) ?n"
    using assms(2) by (simp_all add: sizes_ok_def)
  have "lagrange_interpolation (smul2 L) ?f (agg_commitments agg) = Inr (smul2 L (F 0) (ctx_h1 ctx))"
    using assms(1,4,5) fits len by (intro lagrange_ok) (auto simp: lib_laws_def)
  with sum have "decomposition_sum L (ctx_h1 ctx) (decomposition agg) 0 = Some (smul2 L (F 0) (ctx_h1 ctx))"
    by (auto split: option.splits)
  from decomposition_sum_foldl [OF this] assms(1) show ?thesis
    by (simp add: verify_beacon_def Let_def lib_laws_def)
qed

lemma decrypt_accepted:
  fixes L :: "('f :: field, 'g1 :: ab_group_add, 'g2 :: ab_group_add, 'gt, 's) pairing_lib"
  assumes "decrypt L (factory_context L cfg g1 g2 h1 h2 sks i) agg s = Inr (d, s')" and "lib_laws L"
    and "agg_encryptions agg ! i = smul1 L x (smul1 L (sks ! i) g1)" and "sks ! i \<noteq> 0"
  shows "dec d = smul1 L x g1" and "origin d = i"
proof -
  have "module (smul1 L)"
    using assms(2) by (simp add: lib_laws_def)
  moreover have "inverse (sks ! i) * (x * sks ! i) = x"
    using assms(4) by (simp add: field_simps)
  ultimately have "smul1 L (inverse (sks ! i)) (smul1 L x (smul1 L (sks ! i) g1)) = smul1 L x g1"
    by (simp only: module.scale_scale)
  then show "dec d = smul1 L x g1" "origin d = i"
    using assms(1,3,4) by (auto simp: decrypt_def decryption_generate_def factory_context_def fr_inverse_def
        vec_at_def Let_def case_prod_unfold split: if_splits)
qed

text \<open>C11: a replica that has accepted an aggregate, whoever made it, accepts exactly one beacon for it:
  the one that more than \<open>f\<close> replicas reconstruct from their decryptions, whichever they are. It rejects
  a beacon with another group element or another pairing. The hypotheses are that the commitments of
  the aggregate are those of a polynomial with \<open>f + 1\<close> coefficients, which the degree check tests with a random
  polynomial, and that the pairing with \<open>h1\<close> is injective.\<close>

theorem accepted_beacon_reconstructed:
  fixes L :: "('f :: field, 'g1 :: ab_group_add, 'g2 :: ab_group_add, 'gt, 's) pairing_lib"
  assumes "lib_laws L" and "sizes_ok TYPE('f) cfg" and "length sks = num_replicas cfg"
    and "verify_aggregation L (factory_context L cfg g1 g2 h1 h2 sks j) agg s = Inr (True, s')"
    and "length (coeffs p) = Suc (num_faults cfg)"
    and "\<And>i. i < num_replicas cfg \<Longrightarrow> agg_commitments agg ! i = smul2 L (evaluate p (fr_of_long (i + 1))) h1"
    and "inj (\<lambda>x. reduced_pairing L x h1)"
    and "distinct is" and "set is \<subseteq> {..<num_replicas cfg}" and "num_faults cfg < length is"
    and "\<And>i. i \<in> set is \<Longrightarrow> sks ! i \<noteq> 0"
    and "list_all2 (\<lambda>i d. \<exists>s s'. decrypt L (factory_context L cfg g1 g2 h1 h2 sks i) agg s = Inr (d, s')) is ds"
  shows "verify_beacon L (factory_context L cfg g1 g2 h1 h2 sks j) agg b \<longleftrightarrow>
    reconstruct L (factory_context L cfg g1 g2 h1 h2 sks j) ds = Inr b"
proof -
  let ?ctx = "factory_context L cfg g1 g2 h1 h2 sks"
  let ?b = "\<lparr>recon = smul1 L (evaluate p 0) g1, beacon_value = pairing L (smul1 L (evaluate p 0) g1) h2\<rparr>"
  have ctx: "config (?ctx j) = cfg" "ctx_g1 (?ctx j) = g1" "ctx_h1 (?ctx j) = h1" "ctx_h2 (?ctx j) = h2"
      "\<And>i. i < num_replicas cfg \<Longrightarrow> pk_map (?ctx j) ! i = smul1 L (sks ! i) g1"
    using assms(3) by (simp_all add: factory_context_def)
  have poly: "polyfn (num_faults (config (?ctx j))) (coeffs p ! num_faults cfg) (evaluate p)"
    using evaluate_polyfn [OF assms(5)] unfolding ctx .
  have ok: "verify_beacon L (?ctx j) agg ?b"
    using accepted_aggregate_beacon [OF assms(1) _ assms(4) poly] assms(2,6) unfolding ctx by blast
  have dec: "origin (ds ! k) = is ! k" "dec (ds ! k) = smul1 L (evaluate p (fr_of_long (is ! k + 1))) g1"
    if len: "k < length is" for k
  proof -
    have k: "is ! k < num_replicas cfg" "sks ! (is ! k) \<noteq> 0"
      using assms(9,11) len nth_mem by blast+
    then have "agg_encryptions agg ! (is ! k) = smul1 L (evaluate p (fr_of_long (is ! k + 1))) (smul1 L (sks ! (is ! k)) g1)"
      using accepted_encryption [OF assms(1,4), of "is ! k"] assms(6,7) ctx by simp
    moreover obtain s s' where "decrypt L (?ctx (is ! k)) agg s = Inr (ds ! k, s')"
      using list_all2_nthD [OF assms(12) len] by blast
    ultimately show "origin (ds ! k) = is ! k" "dec (ds ! k) = smul1 L (evaluate p (fr_of_long (is ! k + 1))) g1"
      using decrypt_accepted [OF _ assms(1) _ k(2)] by blast+
  qed
  have len: "length ds = length is"
    using assms(12) by (simp add: list_all2_lengthD)
  then have "map origin ds = is"
    using dec(1) by (intro nth_equalityI) auto
  moreover have "origin d < num_replicas cfg \<and> dec d = smul1 L (evaluate p (fr_of_long (origin d + 1))) g1"
    if "d \<in> set ds" for d
    using that dec len assms(9) nth_mem by (fastforce simp: in_set_conv_nth)
  ultimately have "reconstruct L (?ctx j) ds = Inr ?b"
    using reconstruct_ok [OF assms(1) poly, of ds g1] assms(2,8,10) len unfolding ctx by simp
  moreover have "verify_beacon L (?ctx j) agg b \<Longrightarrow> b = ?b"
    using verify_beacon_unique [OF _ ok] assms(7) unfolding ctx by blast
  ultimately show ?thesis
    using ok by auto
qed

lemma rat_accepted_poly:
  "\<exists>p agg s'. length (coeffs p) = Suc (num_faults (FromNumReplicas 4)) \<and>
    (\<forall>i. aggregate_of rat_lib (rat_context i) (evaluate p) agg) \<and>
    verify_aggregation rat_lib (rat_context 0) agg s = Inr (True, s')"
proof -
  obtain p sh where p: "sharing_of rat_lib (rat_context 0) p sh"
    using rat_sharing by blast
  then have "list_all2 (sharing_of rat_lib (rat_context 0)) [p] [sh]"
    by simp
  moreover have "sum_poly [p] = evaluate p"
    by (intro ext) simp
  ultimately obtain agg where agg: "aggregate_of rat_lib (rat_context 0) (evaluate p) agg"
      "length (decomposition agg) = 1" "id_vec agg = [0]"
    using aggregate_ok [OF rat_lib_laws, of "rat_context 0" "[p]" "[sh]" "[0]"] by auto
  have c: "config (rat_context 0) = FromNumReplicas 4" "length (pk_map (rat_context 0)) = 4"
    by (simp_all add: factory_context_def)
  then have "\<exists>s'. verify_aggregation rat_lib (rat_context 0) agg s = Inr (True, s')"
    using verify_aggregation_ok [OF rat_lib_laws agg(1), of s] agg rat_sizes_ok by fastforce
  moreover have "aggregate_of rat_lib (rat_context i) (evaluate p) agg" for i
    using agg(1) by (simp add: aggregate_of_def factory_context_def)
  moreover have "length (coeffs p) = Suc (num_faults (FromNumReplicas 4))"
    using p unfolding sharing_of_def Let_def c(1) by simp
  ultimately show ?thesis by blast
qed

theorem accepted_beacon_reconstructed_witness:
  "\<exists>x agg s d1 s1 d2 s2. verify_aggregation rat_lib (rat_context 0) agg 9 = Inr (True, s) \<and>
     decrypt rat_lib (rat_context 3) agg 9 = Inr (d1, s1) \<and> decrypt rat_lib (rat_context 1) agg 9 = Inr (d2, s2) \<and>
     reconstruct rat_lib (rat_context 0) [d1, d2] = Inr \<lparr>recon = x * 2, beacon_value = x * 2 * 7\<rparr> \<and>
     verify_beacon rat_lib (rat_context 0) agg \<lparr>recon = x * 2, beacon_value = x * 2 * 7\<rparr> \<and>
     \<not> verify_beacon rat_lib (rat_context 0) agg \<lparr>recon = x * 2 + 1, beacon_value = (x * 2 + 1) * 7\<rparr> \<and>
     \<not> verify_beacon rat_lib (rat_context 0) agg \<lparr>recon = x * 2, beacon_value = x * 2 * 7 + 1\<rparr>"
proof -
  obtain p agg s where p: "length (coeffs p) = Suc (num_faults (FromNumReplicas 4))"
    and agg: "\<And>i. aggregate_of rat_lib (rat_context i) (evaluate p) agg"
    and ok: "verify_aggregation rat_lib (rat_context 0) agg 9 = Inr (True, s)"
    using rat_accepted_poly by blast
  obtain d1 s1 where d1: "decrypt rat_lib (rat_context 3) agg 9 = Inr (d1, s1)"
    using decrypt_ok [OF rat_lib_laws agg, of 3 9] by auto
  obtain d2 s2 where d2: "decrypt rat_lib (rat_context 1) agg 9 = Inr (d2, s2)"
    using decrypt_ok [OF rat_lib_laws agg, of 1 9] by auto
  have coms: "agg_commitments agg ! i = smul2 rat_lib (evaluate p (fr_of_long (i + 1))) 5"
    if "i < num_replicas (FromNumReplicas 4)" for i
    using agg [of 0] that by (simp add: aggregate_of_def Let_def factory_context_def)
  have inj: "inj (\<lambda>x. reduced_pairing rat_lib x (5 :: rat))"
    by (simp add: inj_def rat_lib_def)
  have ds: "list_all2 (\<lambda>i d. \<exists>s s'. decrypt rat_lib (rat_context i) agg s = Inr (d, s')) [3, 1] [d1, d2]"
    using d1 d2 by auto
  have sks: "[1, 2, 3, 4] ! i \<noteq> (0 :: rat)" if "i \<in> set [3, 1]" for i
    using that by auto
  have "verify_beacon rat_lib (rat_context 0) agg b \<longleftrightarrow> reconstruct rat_lib (rat_context 0) [d1, d2] = Inr b" for b
    by (rule accepted_beacon_reconstructed [OF rat_lib_laws rat_sizes_ok _ ok p coms inj _ _ _ sks ds]) simp_all
  moreover have "verify_beacon rat_lib (rat_context 0) agg
      \<lparr>recon = evaluate p 0 * 2, beacon_value = evaluate p 0 * 2 * 7\<rparr>"
    using verify_beacon_ok [OF rat_lib_laws agg, of 0] by (simp add: rat_lib_def factory_context_def)
  ultimately show ?thesis
    using ok d1 d2 by (intro exI [of _ "evaluate p 0"] exI) auto
qed

section \<open>Faults\<close>

lemma lagrange_prod_at_zero:
  "(\<And>m. m \<in> set ms \<Longrightarrow> m < length points) \<Longrightarrow> m \<in> set ms \<Longrightarrow> m \<noteq> j \<Longrightarrow> points ! m = xj \<Longrightarrow>
    lagrange_prod_at points j xj ms p = Inl Division_By_Zero"
  by (induction ms arbitrary: p) (auto simp: fr_inverse_def)

lemma lagrange_sum_at_zero:
  assumes "d < length points" and "d < length evals"
  shows "(\<And>j. j \<in> set js \<Longrightarrow> j \<le> d) \<Longrightarrow> j \<in> set js \<Longrightarrow> m \<le> d \<Longrightarrow> m \<noteq> j \<Longrightarrow>
    points ! m = points ! j \<Longrightarrow> lagrange_sum_at smul d evals points js sm = Inl Division_By_Zero"
proof (induction js arbitrary: sm)
  case Nil
  then show ?case by simp
next
  case (Cons i js)
  have len: "i < length points" "i < length evals"
    using Cons.prems(1) [of i] assms by auto
  have ms: "k < length points" if "k \<in> set [0..<Suc d]" for k
    using that assms(1) by auto
  show ?case
  proof (cases "\<exists>k\<in>set [0..<Suc d]. k \<noteq> i \<and> points ! k = points ! i")
    case True
    then have "lagrange_prod_at points i (points ! i) [0..<Suc d] 1 = Inl Division_By_Zero"
      using lagrange_prod_at_zero [OF ms] by blast
    with len show ?thesis by (simp del: upt_Suc)
  next
    case False
    then have "lagrange_prod_at points i (points ! i) [0..<Suc d] 1 =
        Inr ((\<Prod>k\<in>set [0..<Suc d] - {i}. points ! k * inverse (points ! k - points ! i)) * 1)"
      using ms by (intro lagrange_prod_at_ok [OF distinct_upt]) blast+
    moreover have "j \<in> set js"
      using False Cons.prems(2-5) by fastforce
    ultimately show ?thesis
      using Cons len by (simp del: upt_Suc)
  qed
qed

text \<open>Reconstruction needs more than \<open>f\<close> decryptions: with fewer the assertion fails. It does
  not look at their origins: two decryptions of one replica among the first \<open>f + 1\<close> lead to the
  inverse of zero.\<close>

theorem reconstruct_faults:
  assumes "num_faults (config ctx) < SIZE_MAX"
  shows "(length ds \<le> num_faults (config ctx) \<longrightarrow> reconstruct L ctx ds = Inl Assertion_Failed) \<and>
    (num_faults (config ctx) < length ds \<and>
      \<not> distinct (take (num_faults (config ctx) + 1) (map origin ds)) \<longrightarrow>
      reconstruct L ctx ds = Inl Division_By_Zero)"
proof (intro conjI impI)
  assume "length ds \<le> num_faults (config ctx)"
  then show "reconstruct L ctx ds = Inl Assertion_Failed"
    by (simp add: reconstruct_def)
next
  let ?f = "num_faults (config ctx)"
  let ?points = "map (\<lambda>d. fr_of_long (origin d + 1)) ds"
  assume dup: "?f < length ds \<and> \<not> distinct (take (?f + 1) (map origin ds))"
  then obtain i j where ij: "i < ?f + 1" "j < ?f + 1" "i \<noteq> j" "origin (ds ! i) = origin (ds ! j)"
    by (auto simp: distinct_conv_nth)
  have "lagrange_sum_at (smul1 L) ?f (map dec ds) ?points [0..<Suc ?f] 0 = Inl Division_By_Zero"
    by (rule lagrange_sum_at_zero [where j = i and m = j]) (use dup ij in auto)
  moreover have "size_wrap (?f + 1) = ?f + 1"
    using assms by (intro mod_less) simp
  ultimately show "reconstruct L ctx ds = Inl Division_By_Zero"
    using dup assms by (simp add: reconstruct_def Let_def lagrange_interpolation_at_def del: upt_Suc)
qed

theorem reconstruct_faults_witness:
  "reconstruct rat_lib (rat_context 0) [] = Inl Assertion_Failed \<and>
   reconstruct rat_lib (rat_context 0)
     [\<lparr>dec = 4, dec_pi = \<lparr>dleq_gr = 0, dleq_pi = 0\<rparr>, origin = 2\<rparr>,
      \<lparr>dec = 4, dec_pi = \<lparr>dleq_gr = 0, dleq_pi = 0\<rparr>, origin = 2\<rparr>] = Inl Division_By_Zero"
  using reconstruct_faults [of "rat_context 0" "[]" rat_lib]
    reconstruct_faults [of "rat_context 0" "[\<lparr>dec = 4, dec_pi = \<lparr>dleq_gr = 0, dleq_pi = 0\<rparr>, origin = 2\<rparr>,
      \<lparr>dec = 4, dec_pi = \<lparr>dleq_gr = 0, dleq_pi = 0\<rparr>, origin = 2\<rparr>]" rat_lib]
  by (simp add: factory_context_def)

text \<open>With different points among the first \<open>f + 1\<close> there is a result, whatever was decrypted.\<close>

lemma reconstruct_returns:
  fixes L :: "('f :: field, 'g1 :: ab_group_add, 'g2 :: ab_group_add, 'gt, 's) pairing_lib"
  assumes "field_fits TYPE('f) (num_replicas (config ctx))"
    and "\<forall>d\<in>set ds. origin d < num_replicas (config ctx)" and "num_faults (config ctx) < num_replicas (config ctx)"
    and "num_faults (config ctx) < length ds" and "distinct (take (num_faults (config ctx) + 1) (map origin ds))"
  shows "\<exists>b. reconstruct L ctx ds = Inr b"
proof -
  let ?f = "num_faults (config ctx)" and ?n = "num_replicas (config ctx)"
  let ?points = "map (\<lambda>d. fr_of_long (origin d + 1)) ds :: 'f list"
  have inj: "inj_on ((!) ?points) {..?f}"
  proof (rule inj_onI)
    fix i j
    assume ij: "i \<in> {..?f}" "j \<in> {..?f}" and eq: "?points ! i = ?points ! j"
    then have len: "i < length ds" "j < length ds"
      using assms(4) by auto
    then have "origin (ds ! i) + 1 \<le> ?n" "origin (ds ! j) + 1 \<le> ?n"
      using assms(2) by (simp_all add: Suc_leI)
    then have "origin (ds ! i) = origin (ds ! j)"
      using eq len inj_onD [OF field_fits_inj [OF assms(1)], of "origin (ds ! i) + 1" "origin (ds ! j) + 1"] by simp
    then have "take (?f + 1) (map origin ds) ! i = take (?f + 1) (map origin ds) ! j"
      using ij len by simp
    then show "i = j"
      using ij len nth_eq_iff_index_eq [OF assms(5), of i j] by simp
  qed
  have "lagrange_sum_at (smul1 L) ?f (map dec ds) ?points [0..<Suc ?f] 0 =
      Inr (0 + (\<Sum>j\<in>set [0..<Suc ?f]. smul1 L (\<Prod>m\<in>{..?f} - {j}.
        ?points ! m * inverse (?points ! m - ?points ! j)) (map dec ds ! j)))"
    using assms(4) by (intro lagrange_sum_at_ok inj) auto
  moreover have "?f + 1 < 2 ^ 64"
    using assms(1,3) by (simp add: field_fits_def fr_max_size_def)
  then have "size_wrap (?f + 1) = ?f + 1"
    by (rule mod_less)
  ultimately show ?thesis
    using assms(4) by (simp add: reconstruct_def Let_def lagrange_interpolation_at_def del: upt_Suc)
qed

end
