(* ===== verification/Pvss_Total.thy ===== *)
theory Pvss_Total
  imports Pvss_Correct
begin

text \<open>
  The verifying operations return on every input. A replica runs them on sharings and aggregates
  of others, so nothing is assumed of these: the number of their elements, the elements and the
  proofs are arbitrary.
\<close>

lemma ensure_degree_decides:
  fixes smul :: "'f :: field \<Rightarrow> 'g :: ab_group_add \<Rightarrow> 'g"
  assumes "d + 2 \<le> length es" and "field_fits TYPE('f) (length es)"
  shows "\<exists>b s'. ensure_degree smul rnd es d s = Inr (b, s')"
proof -
  let ?n = "length es"
  have "?n < fr_max_size"
    using assms(2) by (simp add: field_fits_def)
  then have "size_sub (size_sub ?n d) 2 = ?n - d - 2" and "?n - d - 2 < fr_max_size"
    using assms(1) by (simp_all add: size_sub_le fr_max_size_def)
  then obtain p s' where "poly_random rnd (size_sub (size_sub ?n d) 2) s = Inr (p, s')"
    using poly_random_ok [of "?n - d - 2" rnd s] by simp
  moreover have "\<exists>v. ensure_sum smul p es [1..<Suc ?n] 0 = Inr v"
    using ensure_sum_ok [OF _ _ field_fits_inj [OF assms(2)], of "[1..<Suc ?n]" smul p 0]
    by (auto simp del: upt_Suc)
  ultimately show ?thesis
    using assms(1) by (auto simp: ensure_degree_def Let_def simp del: upt_Suc)
qed

lemma lagrange_decides:
  fixes smul :: "'f :: field \<Rightarrow> 'g :: ab_group_add \<Rightarrow> 'g"
  assumes "d < length es" and "field_fits TYPE('f) (length es)"
  shows "\<exists>v. lagrange_interpolation smul d es = Inr v"
proof -
  have inj: "inj_on ((!) (share_points (Suc d) :: 'f list)) {..d}"
    using assms(1) inj_onD [OF field_fits_inj [OF assms(2)]] by (fastforce simp: inj_on_def)
  have "d < SIZE_MAX"
    using assms by (simp add: field_fits_def fr_max_size_def)
  moreover from this have "size_wrap (d + 1) = d + 1"
    by (intro mod_less) simp
  moreover have "\<exists>v. lagrange_sum_at smul d es (share_points (Suc d)) [0..<Suc d] 0 = Inr v"
    using lagrange_sum_at_ok [OF _ _ _ assms(1) inj, of "[0..<Suc d]" smul 0]
    by (auto simp del: upt_Suc)
  ultimately show ?thesis
    using assms(1) by (auto simp: lagrange_overloads lagrange_interpolation_at_def simp del: upt_Suc)
qed

lemma verify_shares_decides:
  "(\<And>i. i \<in> set is \<Longrightarrow> i < length (dleq_proofs sh) \<and> i < length (pk_map ctx) \<and>
      i < length (encryptions sh) \<and> i < length (commitments sh)) \<Longrightarrow>
   \<exists>b. verify_shares L ctx sh is = Inr b"
  by (induction "is") auto

lemma pairing_checks_decides:
  "(\<And>i. i \<in> set is \<Longrightarrow> i < length (pk_map ctx) \<and> i < length (agg_commitments agg) \<and>
      i < length (agg_encryptions agg)) \<Longrightarrow>
   \<exists>b. pairing_checks L ctx agg is = Inr b"
  by (induction "is") auto

lemma verify_sharing_decides:
  fixes L :: "('f :: field, 'g1 :: ab_group_add, 'g2 :: ab_group_add, 'gt, 's) pairing_lib"
  assumes n: "num_faults (config ctx) + 2 \<le> num_replicas (config ctx)"
    and pk: "length (pk_map ctx) = num_replicas (config ctx)"
    and fits: "field_fits TYPE('f) (num_replicas (config ctx))"
  shows "\<exists>b s'. verify_sharing L ctx sh s = Inr (b, s')"
proof -
  let ?n = "num_replicas (config ctx)" and ?f = "num_faults (config ctx)"
  consider (sizes) "length (encryptions sh) \<noteq> ?n \<or> length (commitments sh) \<noteq> ?n \<or>
      length (dleq_proofs sh) \<noteq> ?n"
    | (ok) "length (encryptions sh) = ?n" "length (commitments sh) = ?n" "length (dleq_proofs sh) = ?n"
    by blast
  then show ?thesis
  proof cases
    case sizes
    then show ?thesis by (auto simp: verify_sharing_def Let_def)
  next
    case ok
    obtain b s1 where "ensure_degree (smul2 L) (random_fr L) (commitments sh) ?f s = Inr (b, s1)"
      using ensure_degree_decides [of ?f "commitments sh"] n fits ok(2) by fastforce
    moreover obtain b' where "verify_shares L ctx sh [0..<?n] = Inr b'"
      using verify_shares_decides [of "[0..<?n]" sh ctx L] pk ok by fastforce
    moreover obtain v where "lagrange_interpolation (smul2 L) ?f (commitments sh) = Inr v"
      using lagrange_decides [of ?f "commitments sh"] n fits ok(2) by fastforce
    ultimately show ?thesis
      using ok by (auto simp: verify_sharing_def Let_def)
  qed
qed

lemma verify_aggregation_decides:
  fixes L :: "('f :: field, 'g1 :: ab_group_add, 'g2 :: ab_group_add, 'gt, 's) pairing_lib"
  assumes n: "num_faults (config ctx) + 2 \<le> num_replicas (config ctx)"
    and pk: "length (pk_map ctx) = num_replicas (config ctx)"
    and fits: "field_fits TYPE('f) (num_replicas (config ctx))"
  shows "\<exists>b s'. verify_aggregation L ctx agg s = Inr (b, s')"
proof -
  let ?n = "num_replicas (config ctx)" and ?f = "num_faults (config ctx)"
  consider (sizes) "length (agg_encryptions agg) \<noteq> ?n \<or> length (agg_commitments agg) \<noteq> ?n \<or>
      length (decomposition agg) \<noteq> length (id_vec agg) \<or> length (id_vec agg) < ?f"
    | (ok) "length (agg_encryptions agg) = ?n" "length (agg_commitments agg) = ?n"
      "length (decomposition agg) = length (id_vec agg)" "?f \<le> length (id_vec agg)"
    by linarith
  then show ?thesis
  proof cases
    case sizes
    then show ?thesis by (auto simp: verify_aggregation_def Let_def)
  next
    case ok
    obtain b s1 where "ensure_degree (smul2 L) (random_fr L) (agg_commitments agg) ?f s = Inr (b, s1)"
      using ensure_degree_decides [of ?f "agg_commitments agg"] n fits ok(2) by fastforce
    moreover obtain b' where "pairing_checks L ctx agg [0..<?n] = Inr b'"
      using pairing_checks_decides [of "[0..<?n]" ctx agg L] pk ok by fastforce
    moreover obtain v where "lagrange_interpolation (smul2 L) ?f (agg_commitments agg) = Inr v"
      using lagrange_decides [of ?f "agg_commitments agg"] n fits ok(2) by fastforce
    ultimately show ?thesis
      using ok by (auto simp: verify_aggregation_def Let_def split: option.splits)
  qed
qed

text \<open>C20: verification returns a decision on every sharing and every aggregate, whatever is drawn:
  it neither throws nor loops, as long as there are at least two replicas more than faults, a
  public key for each replica and enough elements in the field. Both conditions on the replica's
  own context hold for contexts of the factory from two replicas on. A decryption is decided
  on exactly when its origin is the index of an encryption; otherwise \<open>at\<close> throws.\<close>

theorem verification_decides:
  fixes L :: "('f :: field, 'g1 :: ab_group_add, 'g2 :: ab_group_add, 'gt, 's) pairing_lib"
  assumes "sizes_ok TYPE('f) (config ctx)"
    and "length (pk_map ctx) = num_replicas (config ctx)"
  shows "(\<exists>b s'. verify_sharing L ctx sh s = Inr (b, s')) \<and>
    (\<exists>b s'. verify_aggregation L ctx agg s = Inr (b, s')) \<and>
    verify_decryption L agg d =
      (if origin d < length (agg_encryptions agg)
       then Inr (decryption_verify L d (agg_encryptions agg ! origin d)) else Inl Out_Of_Range)"
  using verify_sharing_decides [OF _ assms(2)] verify_aggregation_decides [OF _ assms(2)] assms(1)
  by (auto simp: verify_decryption_def not_less sizes_ok_def)

theorem verification_decides_witness:
  "(\<exists>b s'. verify_sharing rat_lib (factory_context rat_lib (FromNumReplicas 4) 2 3 5 7 [1, 2, 3, 4] 0)
      \<lparr>encryptions = [1, 1, 1, 1], commitments = [9, 2, 3, 4], dleq_proofs = [],
       decomp_pi = \<lparr>decomp_dleq = \<lparr>dleq_gr = 2, dleq_pi = 2\<rparr>, decomp_gs = 3\<rparr>, secret = 0\<rparr> 8 = Inr (b, s')) \<and>
   (\<exists>b s'. verify_aggregation rat_lib (factory_context rat_lib (FromNumReplicas 4) 2 3 5 7 [1, 2, 3, 4] 0)
      \<lparr>agg_encryptions = [1, 1, 1, 1], agg_commitments = [9, 2, 3, 4],
       decomposition = [\<lparr>decomp_dleq = \<lparr>dleq_gr = 2, dleq_pi = 2\<rparr>, decomp_gs = 3\<rparr>], id_vec = [0]\<rparr> 8 =
      Inr (b, s')) \<and>
   verify_decryption rat_lib \<lparr>agg_encryptions = [1, 1, 1, 1], agg_commitments = [9, 2, 3, 4],
       decomposition = [\<lparr>decomp_dleq = \<lparr>dleq_gr = 2, dleq_pi = 2\<rparr>, decomp_gs = 3\<rparr>], id_vec = [0]\<rparr>
      \<lparr>dec = 1, dec_pi = \<lparr>dleq_gr = 2, dleq_pi = 2\<rparr>, origin = 4\<rparr> = Inl Out_Of_Range"
proof -
  let ?ctx = "factory_context rat_lib (FromNumReplicas 4) 2 3 5 7 [1, 2, 3, 4] 0"
  have "sizes_ok TYPE(rat) (config ?ctx)" "length (pk_map ?ctx) = num_replicas (config ?ctx)"
    using rat_sizes_ok by (simp_all add: factory_context_def)
  from verification_decides [OF this] show ?thesis
    by fastforce
qed

end
