(* ===== verification/Erasure.thy ===== *)
theory Erasure
  imports Beacon_Prelude
begin

text \<open>
  The erasure code of \<open>include/erasure.h\<close> and the chunks of \<open>src/erasure.cpp\<close>. The
  Reed-Solomon code of jerasure is the record \<open>jerasure\<close>, with its documented guarantee
  \<open>jerasure_laws\<close>: blocks whose size is a multiple of \<open>sizeof(long)\<close> are decoded again if at most \<open>m\<close>
  of the \<open>k + m\<close> blocks, given by their indices, are erased. The streams of salticidae are byte strings; the operations the
  code uses of them are the record \<open>stream_lib\<close>. A \<open>chunk_t\<close> is a pointer that may be
  null. The integers of the block sizes are those of C++: \<open>int\<close> of 32 bits, \<open>size_t\<close> of
  64, and the conversions between them; an \<open>int\<close> expression that leaves its range is the fault
  \<open>Int_Overflow\<close>.
\<close>

section \<open>The libraries\<close>

record 'mat jerasure =
  vandermonde :: "nat \<Rightarrow> nat \<Rightarrow> nat \<Rightarrow> 'mat"
  matrix_encode :: "nat \<Rightarrow> nat \<Rightarrow> nat \<Rightarrow> 'mat \<Rightarrow> bytes list \<Rightarrow> nat \<Rightarrow> bytes list"
  matrix_decode :: "nat \<Rightarrow> nat \<Rightarrow> nat \<Rightarrow> 'mat \<Rightarrow> int list \<Rightarrow> bytes list \<Rightarrow> bytes list \<Rightarrow> nat \<Rightarrow>
    (bytes list \<times> bytes list) option"

text \<open>
  The laws for one \<open>k\<close>, \<open>m\<close> and \<open>w\<close>. jerasure documents its codes for \<open>w\<close> of 8, 16 or 32 and
  \<open>k + m \<le> 2 ^ w\<close>: with the \<open>w = 8\<close> of the callers, for at most 256 replicas. A theorem that
  assumes the laws says nothing about more.
\<close>

definition blocks_ok :: "nat \<Rightarrow> nat \<Rightarrow> bytes list \<Rightarrow> bool" where
  "blocks_ok n bs blocks \<longleftrightarrow> length blocks = n \<and> (\<forall>b\<in>set blocks. length b = bs)"

definition jerasure_laws :: "'mat jerasure \<Rightarrow> nat \<Rightarrow> nat \<Rightarrow> nat \<Rightarrow> bool" where
  "jerasure_laws J k m w \<longleftrightarrow>
     (\<forall>bs data. 8 dvd bs \<and> blocks_ok k bs data \<longrightarrow>
        blocks_ok m bs (matrix_encode J k m w (vandermonde J k m w) data bs) \<and>
        (\<forall>erased blocks. blocks_ok (k + m) bs blocks \<and> distinct erased \<and> length erased \<le> m \<and>
           set erased \<subseteq> {..<k + m} \<and>
           (\<forall>i<k + m. i \<notin> set erased \<longrightarrow>
              blocks ! i = (data @ matrix_encode J k m w (vandermonde J k m w) data bs) ! i) \<longrightarrow>
           matrix_decode J k m w (vandermonde J k m w) (map int erased @ [- 1])
             (take k blocks) (drop k blocks) bs =
           Some (data, matrix_encode J k m w (vandermonde J k m w) data bs)))"

record 'h stream_lib =
  put_char :: "char \<Rightarrow> bytes"
  put_u16 :: "u16 \<Rightarrow> bytes"
  put_u32 :: "u32 \<Rightarrow> bytes"
  put_u256 :: "'h \<Rightarrow> bytes"
  get_u16 :: "bytes \<Rightarrow> (u16 \<times> bytes) res"
  get_u32 :: "bytes \<Rightarrow> (u32 \<times> bytes) res"
  get_u256 :: "bytes \<Rightarrow> ('h \<times> bytes) res"
  get_data_inplace :: "nat \<Rightarrow> bytes \<Rightarrow> (bytes \<times> bytes) res"
  htole :: "u32 \<Rightarrow> u32"
  letoh :: "u32 \<Rightarrow> u32"
  u256_of_bytes :: "bytes \<Rightarrow> 'h"
  u256_bytes :: "'h \<Rightarrow> bytes"

definition stream_laws :: "'h stream_lib \<Rightarrow> bool" where
  "stream_laws S \<longleftrightarrow>
     (\<forall>c. length (put_char S c) = 1) \<and> (\<forall>n. length (put_u32 S n) = 4) \<and>
     (\<forall>n r. get_u16 S (put_u16 S n @ r) = Inr (n, r)) \<and>
     (\<forall>n r. get_u32 S (put_u32 S n @ r) = Inr (n, r)) \<and>
     (\<forall>n r. get_u256 S (put_u256 S n @ r) = Inr (n, r)) \<and>
     (\<forall>b r. get_data_inplace S (length b) (b @ r) = Inr (b, r)) \<and>
     (\<forall>n. letoh S (htole S n) = n) \<and>
     (\<forall>b. length b = 32 \<longrightarrow> u256_bytes S (u256_of_bytes S b) = b)"

section \<open>Chunks\<close>

record chunk =
  chunk_size :: u32
  chunk_data :: bytes

type_synonym chunk_t = "chunk option"

definition chunk_serialize :: "'h stream_lib \<Rightarrow> chunk \<Rightarrow> bytes \<Rightarrow> bytes" where
  "chunk_serialize S c s =
     s @ put_u32 S (htole S (chunk_size c)) @
       put_u32 S (htole S (word_of_nat (length (chunk_data c)))) @ chunk_data c"

definition chunk_unserialize :: "'h stream_lib \<Rightarrow> bytes \<Rightarrow> (chunk \<times> bytes) res" where
  "chunk_unserialize S s =
     res_bind (get_u32 S s) (\<lambda>(n, s).
       let sz = letoh S n
       in res_bind (get_u32 S s) (\<lambda>(n, s).
         let n = letoh S n
         in if n = 0 then Inr (\<lparr>chunk_size = sz, chunk_data = []\<rparr>, s)
            else res_bind (get_data_inplace S (unat n) s) (\<lambda>(base, s).
              Inr (\<lparr>chunk_size = sz, chunk_data = base\<rparr>, s))))"

lemma chunk_roundtrip:
  assumes "stream_laws S" and "length (chunk_data c) < 2 ^ 32"
  shows "chunk_unserialize S (chunk_serialize S c [] @ rest) = Inr (c, rest)"
proof -
  have n: "unat (word_of_nat (length (chunk_data c)) :: u32) = length (chunk_data c)"
    using assms(2) by (simp add: unat_of_nat)
  then have "(word_of_nat (length (chunk_data c)) :: u32) = 0 \<longleftrightarrow> chunk_data c = []"
    by (metis length_0_conv unat_eq_0)
  with assms(1) n show ?thesis
    by (simp add: stream_laws_def chunk_serialize_def chunk_unserialize_def Let_def)
qed

section \<open>Block sizes\<close>

definition to_int32 :: "int \<Rightarrow> int" where
  "to_int32 x = sint (word_of_int x :: u32)"

text \<open>The value of an expression of type \<open>int\<close>.\<close>

definition int_value :: "int \<Rightarrow> int res" where
  "int_value x = (if - (2 ^ 31) \<le> x \<and> x < 2 ^ 31 then Inr x else Inl Int_Overflow)"

text \<open>\<open>x * k * w * (int) sizeof(long)\<close>: no product on the way is larger than the last.\<close>

definition new_size :: "nat \<Rightarrow> nat \<Rightarrow> int \<Rightarrow> int res" where
  "new_size k w x = int_value (x * int k * int w * 8)"

text \<open>
  \<open>int x = (int) size / (k * w * sizeof(long))\<close>, rounded up by the comparison that follows.
  \<open>k * w\<close> is an \<open>int\<close>, the quotient is one of \<open>size_t\<close>, and the comparison is one of the type of
  \<open>size\<close> with its \<open>bits\<close>: \<open>uint32_t\<close> in \<open>encode\<close>, \<open>size_t\<close> in \<open>decode\<close>.
\<close>

definition block_units :: "nat \<Rightarrow> nat \<Rightarrow> nat \<Rightarrow> nat \<Rightarrow> int res" where
  "block_units bits k w sz =
     (if 2 ^ 31 \<le> k * w then Inl Int_Overflow
      else if k * w = 0 then Inl Division_By_Zero
      else let x = to_int32 ((to_int32 (int sz) mod 2 ^ 64) div int (k * w * 8))
        in res_bind (new_size k w x) (\<lambda>n.
             if nat (n mod 2 ^ bits) < sz then int_value (x + 1) else Inr x))"

lemma to_int32_id: "- (2 ^ 31) \<le> x \<Longrightarrow> x < 2 ^ 31 \<Longrightarrow> to_int32 x = x"
  unfolding to_int32_def by (simp add: signed_of_int signed_take_bit_int_eq_self)

lemma to_int32_of_nat: "n < 2 ^ 31 \<Longrightarrow> to_int32 (int n) = int n"
  by (rule to_int32_id) simp_all

lemma int_value_of_nat: "n < 2 ^ 31 \<Longrightarrow> int_value (int n) = Inr (int n)"
  by (simp add: int_value_def)

lemma new_size_eq: "x * (k * w * 8) < 2 ^ 31 \<Longrightarrow> new_size k w (int x) = Inr (int (x * (k * w * 8)))"
  using int_value_of_nat [of "x * (k * w * 8)"] by (simp add: new_size_def ac_simps)

text \<open>The number of units of \<open>u = 8 k w\<close> bytes that hold \<open>sz\<close> bytes.\<close>

definition units :: "nat \<Rightarrow> nat \<Rightarrow> nat" where
  "units u sz = (if sz mod u = 0 then sz div u else sz div u + 1)"

lemma units_bounds:
  assumes "0 < u"
  shows "sz \<le> units u sz * u" and "units u sz * u < sz + u"
proof -
  define q r where "q = sz div u * u" and "r = sz mod u"
  have "sz = q + r" "r < u"
    using assms by (simp_all add: q_def r_def)
  moreover have "units u sz * u = (if r = 0 then q else q + u)"
    by (simp add: units_def q_def r_def)
  ultimately show "sz \<le> units u sz * u" "units u sz * u < sz + u"
    by auto
qed

lemma block_units_ok:
  assumes "0 < k" and "0 < w" and "sz + k * w * 8 < 2 ^ 31"
  shows "32 \<le> bits \<Longrightarrow> block_units bits k w sz = Inr (int (units (k * w * 8) sz))"
    and "new_size k w (int (units (k * w * 8) sz)) = Inr (int (units (k * w * 8) sz * (k * w * 8)))"
proof -
  let ?u = "k * w * 8"
  have u: "0 < ?u" "?u < 2 ^ 31" "sz < 2 ^ 31" "\<not> 2 ^ 31 \<le> k * w" "k * w \<noteq> 0"
    using assms by simp_all
  have q: "sz div ?u \<le> sz" "sz div ?u * ?u \<le> sz"
    by (rule div_le_dividend) (rule div_times_less_eq_dividend)
  have small: "sz div ?u < 2 ^ 31" "sz div ?u + 1 < 2 ^ 31" "sz div ?u * ?u < 2 ^ 31"
    using u assms(3) q by linarith+
  have a: "to_int32 (int sz) = int sz" "to_int32 (int (sz div ?u)) = int (sz div ?u)"
      "int_value (int (sz div ?u) + 1) = Inr (int (sz div ?u) + 1)" "int sz mod 2 ^ 64 = int sz"
    using to_int32_of_nat [OF u(3)] to_int32_of_nat [OF small(1)] int_value_of_nat [OF small(2)] u(3)
    by (simp_all only: of_nat_add of_nat_1) simp
  note b = new_size_eq [OF small(3)]
  have d: "sz div ?u * ?u < sz \<longleftrightarrow> sz mod ?u \<noteq> 0"
    using div_mult_mod_eq [of sz ?u] by linarith
  show "block_units bits k w sz = Inr (int (units ?u sz))" if bits: "32 \<le> bits"
  proof -
    have "(2 :: nat) ^ 31 < 2 ^ bits"
      using bits by (intro power_strict_increasing) simp_all
    then have "sz div ?u * ?u < 2 ^ bits"
      using small(3) by linarith
    then have c: "nat (int (sz div ?u * ?u) mod 2 ^ bits) = sz div ?u * ?u"
      by (metis mod_less nat_int of_nat_numeral of_nat_power zmod_int)
    show ?thesis
      using u(1,4,5) unfolding block_units_def Let_def a zdiv_int [symmetric] b res_bind.simps c d units_def
      by (simp del: of_nat_mult)
  qed
  have "units ?u sz * ?u < 2 ^ 31"
    using units_bounds(2) [OF u(1), of sz] assms(3) by linarith
  then show "new_size k w (int (units ?u sz)) = Inr (int (units ?u sz * ?u))"
    by (rule new_size_eq)
qed

section \<open>Encoding\<close>

text \<open>
  A size of \<open>2 ^ 31\<close> or more is a negative \<open>int\<close>; when the size of the blocks is negative then, the
  pointers to the blocks lie before the buffer.
\<close>

definition encode ::
  "'mat jerasure \<Rightarrow> 'h stream_lib \<Rightarrow> nat \<Rightarrow> nat \<Rightarrow> nat \<Rightarrow> bytes \<Rightarrow> chunk_t list res" where
  "encode J S k m w s =
     (let sz = length s mod 2 ^ 32
      in res_bind (block_units 32 k w sz) (\<lambda>x.
        res_bind (new_size k w x) (\<lambda>newsize.
        let blocksize = nat (newsize div int k);
            extra = to_int32 (newsize - int sz);
            s = s @ concat (replicate (nat extra) (put_char S CHR ''0''))
        in if newsize < 0 \<or> length s < k * blocksize then Inl Undefined_Read
           else let data = map (\<lambda>i. take blocksize (drop (i * blocksize) s)) [0..<k];
                    coding = matrix_encode J k m w (vandermonde J k m w) data blocksize
             in Inr (map (\<lambda>b. Some \<lparr>chunk_size = word_of_nat sz, chunk_data = b\<rparr>) (data @ coding)))))"

section \<open>Decoding\<close>

text \<open>\<open>chunks[i]->get_data()\<close>: the index and the pointer are not checked.\<close>

definition chunk_at :: "chunk_t list \<Rightarrow> nat \<Rightarrow> chunk res" where
  "chunk_at chunks i = res_bind (vec_get chunks i) (\<lambda>c.
     case c of None \<Rightarrow> Inl Undefined_Read | Some c \<Rightarrow> Inr c)"

text \<open>The loop over the data blocks that stops before the one that ends behind \<open>sz\<close>.\<close>

fun decode_loop :: "bytes list \<Rightarrow> nat \<Rightarrow> nat \<Rightarrow> nat \<Rightarrow> bytes \<Rightarrow> bytes \<times> nat \<times> bytes list" where
  "decode_loop [] bs sz j s = (s, j, [])"
| "decode_loop (b # data) bs sz j s =
     (let j = j + bs in if sz < j then (s, j, b # data) else decode_loop data bs sz j (s @ b))"

definition decode ::
  "'mat jerasure \<Rightarrow> nat \<Rightarrow> nat \<Rightarrow> nat \<Rightarrow> chunk_t list \<Rightarrow> int list \<Rightarrow> bytes \<Rightarrow> (bool \<times> bytes) res" where
  "decode J k m w chunks erasures s =
     res_bind (chunk_at chunks 0) (\<lambda>c0.
       let sz = unat (chunk_size c0)
       in res_bind (block_units 64 k w sz) (\<lambda>x.
         res_bind (new_size k w x) (\<lambda>newsize.
         let blocksize = nat (newsize div int k)
         in res_bind (res_map (chunk_at chunks) [0..<k]) (\<lambda>data.
           res_bind (res_map (chunk_at chunks) [k..<k + m]) (\<lambda>coding.
             let data = map chunk_data data; coding = map chunk_data coding
             in if newsize < 0 \<or> (\<exists>b\<in>set (data @ coding). length b < blocksize) then Inl Undefined_Read
                else case matrix_decode J k m w (vandermonde J k m w) erasures
                       (map (take blocksize) data) (map (take blocksize) coding) blocksize of
                    None \<Rightarrow> Inr (False, s)
                  | Some (data, coding) \<Rightarrow>
                      (let (s, j, rest) = decode_loop data blocksize sz 0 s;
                           extra = to_int32 (int j - int sz)
                       in if extra \<le> 0 then Inr (True, s)
                          else res_bind (vec_get rest 0) (\<lambda>b.
                            Inr (True, s @ take (nat (int blocksize - extra)) b))))))))"

lemma decode_loop_eq:
  assumes "0 < bs"
  shows "(\<forall>b\<in>set data. length b = bs) \<Longrightarrow> sz - j \<le> length data * bs \<Longrightarrow> j \<le> sz \<Longrightarrow>
    decode_loop data bs sz j s =
      (s @ concat (take ((sz - j) div bs) data),
       if (sz - j) div bs < length data then j + ((sz - j) div bs + 1) * bs else j + length data * bs,
       drop ((sz - j) div bs) data)"
proof (induction data arbitrary: j s)
  case Nil
  then show ?case by simp
next
  case (Cons b data)
  show ?case
  proof (cases "sz < j + bs")
    case True
    then have "(sz - j) div bs = 0"
      using assms by (intro div_less) linarith
    with True show ?thesis by simp
  next
    case False
    then have q: "(sz - j) div bs = Suc ((sz - (j + bs)) div bs)"
      using assms by (simp add: le_div_geq)
    from False Cons.prems have "decode_loop data bs sz (j + bs) (s @ b) =
      ((s @ b) @ concat (take ((sz - (j + bs)) div bs) data),
       if (sz - (j + bs)) div bs < length data then j + bs + ((sz - (j + bs)) div bs + 1) * bs
       else j + bs + length data * bs,
       drop ((sz - (j + bs)) div bs) data)"
      by (intro Cons.IH) auto
    with False q show ?thesis
      by (auto simp: Let_def)
  qed
qed

text \<open>The blocks of a byte string, and the string back from them.\<close>

lemma concat_blocks:
  "n * bs \<le> length s \<Longrightarrow> concat (map (\<lambda>i. take bs (drop (i * bs) s)) [0..<n]) = take (n * bs) s"
proof (induction n)
  case 0
  then show ?case by simp
next
  case (Suc n)
  then show ?case
    by (simp add: take_add [symmetric] add.commute [of bs])
qed

lemma blocks_length:
  assumes "length s = k * bs" and "b \<in> set (map (\<lambda>i. take bs (drop (i * bs) s)) [0..<k])"
  shows "length b = bs"
proof -
  obtain i where i: "i < k" "b = take bs (drop (i * bs) s)"
    using assms(2) by auto
  then have "Suc i * bs \<le> k * bs"
    by (intro mult_le_mono1) simp
  then have "bs \<le> length s - i * bs"
    unfolding assms(1) by simp
  with i(2) show ?thesis by simp
qed

lemma blocks_prefix:
  assumes "k * bs \<le> length s" and "0 < bs" and "sz \<le> k * bs"
  defines "data \<equiv> map (\<lambda>i. take bs (drop (i * bs) s)) [0..<k]"
  shows "concat (take (sz div bs) data) = take (sz div bs * bs) s"
    and "sz div bs < k \<Longrightarrow> concat (take (sz div bs) data) @ take (sz mod bs) (data ! (sz div bs)) = take sz s"
    and "\<not> sz div bs < k \<Longrightarrow> sz = k * bs"
proof -
  have q: "sz div bs \<le> k"
    using assms(2,3) by (metis div_le_mono nonzero_mult_div_cancel_right not_less_zero)
  then have "take (sz div bs) data = map (\<lambda>i. take bs (drop (i * bs) s)) [0..<sz div bs]"
    by (simp add: data_def take_map)
  moreover have "sz div bs * bs \<le> length s"
    using assms(1,3) div_times_less_eq_dividend [of sz bs] by linarith
  ultimately show pre: "concat (take (sz div bs) data) = take (sz div bs * bs) s"
    by (simp add: concat_blocks)
  show "concat (take (sz div bs) data) @ take (sz mod bs) (data ! (sz div bs)) = take sz s"
    if "sz div bs < k"
  proof -
    have "take (sz mod bs) (data ! (sz div bs)) = take (sz mod bs) (drop (sz div bs * bs) s)"
      using that mod_less_divisor [OF assms(2), of sz] by (simp add: data_def min_def)
    then show ?thesis
      unfolding pre by (metis div_mult_mod_eq take_add)
  qed
  show "sz = k * bs" if "\<not> sz div bs < k"
  proof -
    have "k * bs \<le> sz div bs * bs"
      using that by (intro mult_le_mono1) simp
    with assms(3) div_times_less_eq_dividend [of sz bs] show ?thesis by linarith
  qed
qed

lemma encode_ok:
  assumes "stream_laws S" and "0 < k" and "0 < w" and "length s + k * w * 8 < 2 ^ 31"
  obtains bs pad where
    "bs = units (k * w * 8) (length s) * (w * 8)" and "length (s @ pad) = k * bs" and
    "encode J S k m w s = Inr (map (\<lambda>b. Some \<lparr>chunk_size = word_of_nat (length s), chunk_data = b\<rparr>)
      (map (\<lambda>i. take bs (drop (i * bs) (s @ pad))) [0..<k] @
       matrix_encode J k m w (vandermonde J k m w)
         (map (\<lambda>i. take bs (drop (i * bs) (s @ pad))) [0..<k]) bs))"
proof -
  let ?u = "k * w * 8" and ?n = "length s"
  let ?bs = "units ?u ?n * (w * 8)"
  let ?pad = "concat (replicate (k * ?bs - ?n) (put_char S CHR ''0''))"
  have small: "?n < 2 ^ 31"
    using assms(4) by linarith
  then have sz: "?n mod 2 ^ 32 = ?n"
    by (intro mod_less) simp
  have total: "units ?u ?n * ?u = k * ?bs"
    by simp
  have u: "0 < ?u"
    using assms(2,3) by simp
  note bounds = units_bounds(1) [OF u, of ?n, unfolded total]
    order_less_trans [OF units_bounds(2) [OF u, of ?n] assms(4), unfolded total]
  have block: "nat (int (k * ?bs) div int k) = ?bs"
    using assms(2) by (simp add: zdiv_int [symmetric] del: of_nat_mult)
  have "int (k * ?bs) - int ?n = int (k * ?bs - ?n)"
    using bounds(1) by simp
  moreover have "k * ?bs - ?n < 2 ^ 31"
    using bounds(2) by linarith
  ultimately have extra: "nat (to_int32 (int (k * ?bs) - int ?n)) = k * ?bs - ?n"
    by (simp only: to_int32_of_nat nat_int)
  have "length (concat (replicate n (put_char S c))) = n" for n c
    using assms(1) by (induction n) (simp_all add: stream_laws_def)
  then have len: "length (s @ ?pad) = k * ?bs"
    using bounds(1) by simp
  show ?thesis
  proof (rule that [OF refl len])
    show "encode J S k m w s = Inr (map (\<lambda>b. Some \<lparr>chunk_size = word_of_nat ?n, chunk_data = b\<rparr>)
      (map (\<lambda>i. take ?bs (drop (i * ?bs) (s @ ?pad))) [0..<k] @
       matrix_encode J k m w (vandermonde J k m w)
         (map (\<lambda>i. take ?bs (drop (i * ?bs) (s @ ?pad))) [0..<k]) ?bs))"
      unfolding encode_def Let_def sz block_units_ok(1) [OF assms(2-4) order_refl] res_bind.simps
        block_units_ok(2) [OF assms(2-4)] total block extra len
      by (simp only: less_irrefl of_nat_less_0_iff simp_thms if_False)
  qed
qed

lemma decode_ok:
  assumes "0 < k" and "0 < w" and "length s + k * w * 8 < 2 ^ 31"
    and "bs = units (k * w * 8) (length s) * (w * 8)" and "length s' = k * bs" and "take (length s) s' = s"
    and "data = map (\<lambda>i. take bs (drop (i * bs) s')) [0..<k]"
    and "length received = k + m"
    and "\<And>i. i < k + m \<Longrightarrow> \<exists>c. received ! i = Some c \<and> chunk_size c = word_of_nat (length s) \<and>
      length (chunk_data c) = bs"
    and "matrix_decode J k m w (vandermonde J k m w) erasures
      (take k (map (\<lambda>c. chunk_data (the c)) received)) (drop k (map (\<lambda>c. chunk_data (the c)) received)) bs =
      Some (data, coding)"
  shows "decode J k m w received erasures d = Inr (True, d @ s)"
proof -
  let ?u = "k * w * 8" and ?n = "length s"
  let ?blocks = "map (\<lambda>c. chunk_data (the c)) received"
  have total: "units ?u ?n * ?u = k * bs"
    by (simp add: assms(4))
  have small: "?n < 2 ^ 31"
    using assms(3) by linarith
  have u: "0 < ?u"
    using assms(1,2) by simp
  note bounds = units_bounds(1) [OF u, of ?n, unfolded total]
    order_less_trans [OF units_bounds(2) [OF u, of ?n] assms(3), unfolded total]
  have block: "nat (int (k * bs) div int k) = bs"
    using assms(1) by (simp add: zdiv_int [symmetric] del: of_nat_mult)
  have chunk: "chunk_at received i = Inr (the (received ! i))" if "i < k + m" for i
    using assms(8,9) that by (fastforce simp: chunk_at_def)
  have size0: "unat (chunk_size (the (received ! 0))) = ?n"
    using assms(1) assms(9) [of 0] small by (fastforce simp: unat_of_nat)
  have blocks: "map chunk_data (map (\<lambda>i. the (received ! i)) [0..<k]) = take k ?blocks"
      "map chunk_data (map (\<lambda>i. the (received ! i)) [k..<k + m]) = drop k ?blocks"
    using assms(8) by (auto intro!: nth_equalityI)
  have lens: "length b = bs" if "b \<in> set ?blocks" for b
    using that assms(8,9) by (fastforce simp: in_set_conv_nth)
  then have takes: "map (take bs) (take k ?blocks) = take k ?blocks"
      "map (take bs) (drop k ?blocks) = drop k ?blocks"
    by (auto intro!: map_idI dest!: in_set_takeD in_set_dropD)
  have short: "\<not> (\<exists>b\<in>set (take k ?blocks @ drop k ?blocks). length b < bs)"
    using lens by (simp only: append_take_drop_id) auto
  have bits: "(32 :: nat) \<le> 64"
    by simp
  have dec: "decode J k m w received erasures d =
      (let (s, j, rest) = decode_loop data bs ?n 0 d;
           extra = to_int32 (int j - int ?n)
       in if extra \<le> 0 then Inr (True, s)
          else res_bind (vec_get rest 0) (\<lambda>b. Inr (True, s @ take (nat (int bs - extra)) b)))"
  proof -
    have "res_map (chunk_at received) [0..<k] = Inr (map (\<lambda>i. the (received ! i)) [0..<k])"
      "res_map (chunk_at received) [k..<k + m] = Inr (map (\<lambda>i. the (received ! i)) [k..<k + m])"
      using chunk by (intro res_map_ok; simp)+
    moreover have "chunk_at received 0 = Inr (the (received ! 0))"
      using chunk [of 0] assms(1) by simp
    ultimately show ?thesis
      unfolding decode_def Let_def
      by (simp only: res_bind.simps size0 block_units_ok(1) [OF assms(1-3) bits]
          block_units_ok(2) [OF assms(1-3)] total block blocks takes short of_nat_less_0_iff simp_thms
          if_False assms(10) option.case prod.case)
  qed
  show ?thesis
  proof (cases "bs = 0")
    case True
    then have "?n = 0"
      using bounds(1) by simp
    have "decode_loop xs 0 0 0 d = (d @ concat xs, 0, [])" for xs
      by (induction xs arbitrary: d) simp_all
    moreover have "concat data = []"
      using True by (simp add: assms(7))
    ultimately show ?thesis
      using True \<open>?n = 0\<close> unfolding dec by (simp add: to_int32_of_nat [of 0, simplified])
  next
    case False
    then have bs: "0 < bs"
      by simp
    have datas: "length data = k" "\<forall>b\<in>set data. length b = bs"
      unfolding assms(7) by (simp, intro ballI, rule blocks_length [OF assms(5)])
    note loop = decode_loop_eq [OF bs datas(2), of ?n 0 d, simplified datas(1)]
    note pre = blocks_prefix [of k bs s' ?n, OF _ bs bounds(1), folded assms(7)]
    show ?thesis
    proof (cases "?n div bs < k")
      case True
      let ?j = "(?n div bs + 1) * bs"
      have j: "?n < ?j" "?j \<le> k * bs"
        using mult_le_mono1 [of "?n div bs + 1" k bs] True bs div_mult_mod_eq [of ?n bs]
          mod_less_divisor [OF bs, of ?n] by (simp_all, linarith)
      have "int ?j - int ?n = int (?j - ?n)"
        using j(1) by simp
      moreover have "?j - ?n < 2 ^ 31"
        using j(2) bounds(2) by linarith
      ultimately have extra: "to_int32 (int ?j - int ?n) = int (?j - ?n)"
        by (simp only: to_int32_of_nat)
      define q r where "q = ?n div bs * bs" and "r = ?n mod bs"
      have "?n = q + r" "?j = q + bs" "r < bs"
        using bs by (simp_all add: q_def r_def)
      then have last: "nat (int bs - int (?j - ?n)) = ?n mod bs"
        unfolding r_def [symmetric] by simp
      have "decode_loop data bs ?n 0 d = (d @ concat (take (?n div bs) data), ?j, drop (?n div bs) data)"
        using loop bounds(1) True by simp
      moreover have "vec_get (drop (?n div bs) data) 0 = Inr (data ! (?n div bs))"
        using True datas(1) by simp
      moreover have "\<not> int (?j - ?n) \<le> 0"
        using j(1) unfolding of_nat_le_0_iff by simp
      ultimately have "decode J k m w received erasures d =
          Inr (True, (d @ concat (take (?n div bs) data)) @ take (?n mod bs) (data ! (?n div bs)))"
        unfolding dec Let_def by (simp only: prod.case extra last if_False res_bind.simps)
      then show ?thesis
        using pre(2) True assms(5,6) by simp
    next
      case False
      then have n: "?n = k * bs"
        using pre(3) assms(5) by simp
      have "decode_loop data bs ?n 0 d = (d @ concat (take (?n div bs) data), k * bs, [])"
        using loop bounds(1) False datas(1) by simp
      moreover have "concat (take (?n div bs) data) = s"
        using pre(1) assms(5,6) n bs by simp
      ultimately show ?thesis
        unfolding dec using n by (simp add: to_int32_of_nat [of 0, simplified])
    qed
  qed
qed

text \<open>The blocks of an encoding: all of the same size, which is positive unless there is nothing
  to encode.\<close>

lemma encode_blocks:
  assumes "jerasure_laws J k m w" and "stream_laws S" and "0 < k" and "0 < w"
    and "length s + k * w * 8 < 2 ^ 31"
  obtains bs pad data coding where
    "bs = units (k * w * 8) (length s) * (w * 8)" and "length (s @ pad) = k * bs" and
    "data = map (\<lambda>i. take bs (drop (i * bs) (s @ pad))) [0..<k]" and
    "coding = matrix_encode J k m w (vandermonde J k m w) data bs" and
    "blocks_ok k bs data" and "blocks_ok m bs coding" and
    "encode J S k m w s =
      Inr (map (\<lambda>b. Some \<lparr>chunk_size = word_of_nat (length s), chunk_data = b\<rparr>) (data @ coding))"
proof -
  obtain bs pad where bs: "bs = units (k * w * 8) (length s) * (w * 8)" "length (s @ pad) = k * bs"
    and enc: "encode J S k m w s = Inr (map (\<lambda>b. Some \<lparr>chunk_size = word_of_nat (length s), chunk_data = b\<rparr>)
      (map (\<lambda>i. take bs (drop (i * bs) (s @ pad))) [0..<k] @
       matrix_encode J k m w (vandermonde J k m w)
         (map (\<lambda>i. take bs (drop (i * bs) (s @ pad))) [0..<k]) bs))"
    by (rule encode_ok [OF assms(2-5)]) (rule that)
  let ?data = "map (\<lambda>i. take bs (drop (i * bs) (s @ pad))) [0..<k]"
  have "\<forall>b\<in>set ?data. length b = bs"
    by (intro ballI) (rule blocks_length [OF bs(2)])
  then have data: "blocks_ok k bs ?data"
    by (simp add: blocks_ok_def)
  moreover have "8 dvd bs"
    by (simp add: bs(1))
  ultimately have "blocks_ok m bs (matrix_encode J k m w (vandermonde J k m w) ?data bs)"
    using assms(1) by (simp add: jerasure_laws_def)
  from that [OF bs refl refl data this enc] show thesis .
qed

lemma encode_chunks:
  assumes "jerasure_laws J k m w" and "stream_laws S" and "0 < k" and "0 < w"
    and "length s + k * w * 8 < 2 ^ 31"
  obtains chunks where "encode J S k m w s = Inr chunks" and "length chunks = k + m" and
    "\<And>i. i < k + m \<Longrightarrow> \<exists>c. chunks ! i = Some c \<and> chunk_size c = word_of_nat (length s) \<and>
      length (chunk_data c) = units (k * w * 8) (length s) * (w * 8)"
proof -
  obtain bs pad data coding where b: "bs = units (k * w * 8) (length s) * (w * 8)"
      "blocks_ok k bs data" "blocks_ok m bs coding"
    and enc: "encode J S k m w s =
      Inr (map (\<lambda>b. Some \<lparr>chunk_size = word_of_nat (length s), chunk_data = b\<rparr>) (data @ coding))"
    by (rule encode_blocks [OF assms]) (rule that)
  have "length ((data @ coding) ! i) = bs" if "i < k + m" for i
    using b(2,3) that by (auto simp: blocks_ok_def nth_append)
  with b show thesis
    by (intro that [OF enc]) (auto simp: blocks_ok_def simp del: map_append)
qed

lemma encode_decode:
  assumes "jerasure_laws J k m w" and "stream_laws S" and "0 < k" and "0 < w"
    and "length s + k * w * 8 < 2 ^ 31"
    and "encode J S k m w s = Inr chunks" and "length received = k + m"
    and "distinct erased" and "length erased \<le> m" and "set erased \<subseteq> {..<k + m}"
    and "\<And>i. i < k + m \<Longrightarrow> i \<notin> set erased \<Longrightarrow> received ! i = chunks ! i"
    and "\<And>i. i < k + m \<Longrightarrow> i \<in> set erased \<Longrightarrow> \<exists>c. received ! i = Some c \<and>
      chunk_size c = word_of_nat (length s) \<and>
      length (chunk_data c) = length (chunk_data (the (chunks ! 0)))"
  shows "decode J k m w received (map int erased @ [- 1]) d = Inr (True, d @ s)"
proof -
  obtain bs pad data coding where bs: "bs = units (k * w * 8) (length s) * (w * 8)"
      "length (s @ pad) = k * bs"
    and data_def: "data = map (\<lambda>i. take bs (drop (i * bs) (s @ pad))) [0..<k]"
    and coding_def: "coding = matrix_encode J k m w (vandermonde J k m w) data bs"
    and data: "blocks_ok k bs data" and coding: "blocks_ok m bs coding"
    and enc: "encode J S k m w s =
      Inr (map (\<lambda>b. Some \<lparr>chunk_size = word_of_nat (length s), chunk_data = b\<rparr>) (data @ coding))"
    by (rule encode_blocks [OF assms(1-5)]) (rule that)
  have chunks: "chunks = map (\<lambda>b. Some \<lparr>chunk_size = word_of_nat (length s), chunk_data = b\<rparr>) (data @ coding)"
    using assms(6) enc by simp
  have all: "length (data @ coding) = k + m" "\<And>i. i < k + m \<Longrightarrow> length ((data @ coding) ! i) = bs"
    using data coding by (auto simp: blocks_ok_def nth_append)
  have nth: "chunks ! i = Some \<lparr>chunk_size = word_of_nat (length s), chunk_data = (data @ coding) ! i\<rparr>"
    if "i < k + m" for i
    using that all(1) unfolding chunks by (intro nth_map) simp
  have first: "length (chunk_data (the (chunks ! 0))) = bs"
    using all(2) [of 0] nth [of 0] assms(3) by simp
  have chunk: "\<exists>c. received ! i = Some c \<and> chunk_size c = word_of_nat (length s) \<and>
      length (chunk_data c) = bs" if "i < k + m" for i
  proof (cases "i \<in> set erased")
    case True
    with assms(12) [OF that] first show ?thesis by simp
  next
    case False
    with nth [OF that] assms(11) [OF that False] all(2) [OF that] show ?thesis by simp
  qed
  have dvd: "8 dvd bs"
    by (simp add: bs(1))
  let ?blocks = "map (\<lambda>c. chunk_data (the c)) received"
  have "length b = bs" if b: "b \<in> set ?blocks" for b
  proof -
    obtain i where "i < k + m" "b = chunk_data (the (received ! i))"
      using b assms(7) by (auto simp: in_set_conv_nth)
    with chunk [of i] show ?thesis by auto
  qed
  then have "blocks_ok (k + m) bs ?blocks"
    using assms(7) by (simp add: blocks_ok_def)
  moreover have "?blocks ! i = (data @ coding) ! i" if "i < k + m" "i \<notin> set erased" for i
    using nth [OF that(1)] assms(7) assms(11) [OF that] that by simp
  ultimately have "matrix_decode J k m w (vandermonde J k m w) (map int erased @ [- 1])
      (take k ?blocks) (drop k ?blocks) bs = Some (data, coding)"
    using assms(1,8-10) data dvd unfolding jerasure_laws_def coding_def by blast
  from decode_ok [OF assms(3-5) bs(1) bs(2) _ data_def assms(7) chunk this]
  show ?thesis by simp
qed

text \<open>C29: what has been encoded is decoded. If at most \<open>m\<close> chunks are lost, replaced by any
  chunks of the same sizes and their indices listed as erased, the decoder appends exactly the bytes that were
  encoded to its stream: the padding is cut off, whether the string ends inside a block or at the
  end of one.\<close>

theorem erasure_roundtrip:
  assumes "jerasure_laws J k m w" and "stream_laws S" and "0 < k" and "0 < w"
    and "length s + k * w * 8 < 2 ^ 31"
    and "encode J S k m w s = Inr chunks" and "length received = k + m"
    and "distinct erased" and "length erased \<le> m" and "set erased \<subseteq> {..<k + m}"
    and "\<And>i. i < k + m \<Longrightarrow> i \<notin> set erased \<Longrightarrow> received ! i = chunks ! i"
    and "\<And>i. i < k + m \<Longrightarrow> i \<in> set erased \<Longrightarrow> \<exists>c. received ! i = Some c \<and>
      chunk_size c = word_of_nat (length s) \<and>
      length (chunk_data c) = length (chunk_data (the (chunks ! 0)))"
  shows "decode J k m w received (map int erased @ [- 1]) d = Inr (True, d @ s)"
  using assms by (rule encode_decode)

text \<open>For the witnesses: a code with one data block and one copy of it, and streams in the byte
  order of the machine.\<close>

definition copy_code :: "unit jerasure" where
  "copy_code = \<lparr>vandermonde = (\<lambda>k m w. ()), matrix_encode = (\<lambda>k m w mat data bs. data),
     matrix_decode = (\<lambda>k m w mat erased data coding bs.
       if 0 \<in> set erased then Some (coding, coding) else Some (data, data))\<rparr>"

lemma copy_code_laws: "jerasure_laws copy_code 1 1 w"
proof -
  have enc: "matrix_encode copy_code 1 1 w mat data bs = data" "vandermonde copy_code 1 1 w = ()" for mat data bs
    by (simp_all add: copy_code_def)
  have "matrix_decode copy_code 1 1 w () (map int erased @ [- 1]) (take 1 blocks) (drop 1 blocks) bs =
      Some (data, data)"
    if ok: "blocks_ok 1 bs data" "blocks_ok (1 + 1) bs blocks" and e: "length erased \<le> 1"
      and eq: "\<forall>i<1 + 1. i \<notin> set erased \<longrightarrow> blocks ! i = (data @ data) ! i" for bs data erased blocks
  proof -
    obtain a where a: "data = [a]"
      using ok(1) by (auto simp: blocks_ok_def length_Suc_conv)
    obtain b c where bc: "blocks = [b, c]"
      using ok(2) by (auto simp: blocks_ok_def length_Suc_conv)
    have "0 \<notin> set erased \<Longrightarrow> b = a" "1 \<notin> set erased \<Longrightarrow> c = a"
      using eq by (auto simp: a bc dest: spec [of _ 0] spec [of _ 1])
    moreover have "0 \<in> set erased \<Longrightarrow> 1 \<notin> set erased"
      using e by (cases erased) auto
    moreover have "(0 :: int) \<in> set (map int erased @ [- 1]) \<longleftrightarrow> 0 \<in> set erased"
      by auto
    ultimately show ?thesis
      by (auto simp: copy_code_def a bc)
  qed
  then show ?thesis
    unfolding jerasure_laws_def enc by blast
qed

text \<open>The bytes of a number, least significant first, and a library of streams with them.\<close>

definition le_bytes :: "nat \<Rightarrow> nat \<Rightarrow> bytes" where
  "le_bytes k n = map (\<lambda>i. word_of_nat (n div 256 ^ i)) [0..<k]"

fun le_value :: "bytes \<Rightarrow> nat" where
  "le_value [] = 0"
| "le_value (b # bs) = unat b + 256 * le_value bs"

definition le_read :: "nat \<Rightarrow> bytes \<Rightarrow> (nat \<times> bytes) res" where
  "le_read k s = (if length s < k then Inl Out_Of_Range else Inr (le_value (take k s), drop k s))"

definition le_streams :: "256 word stream_lib" where
  "le_streams = \<lparr>put_char = (\<lambda>c. [word_of_nat (of_char c)]), put_u16 = (\<lambda>n. le_bytes 2 (unat n)),
     put_u32 = (\<lambda>n. le_bytes 4 (unat n)), put_u256 = (\<lambda>n. le_bytes 32 (unat n)),
     get_u16 = (\<lambda>s. res_bind (le_read 2 s) (\<lambda>(n, s). Inr (word_of_nat n, s))),
     get_u32 = (\<lambda>s. res_bind (le_read 4 s) (\<lambda>(n, s). Inr (word_of_nat n, s))),
     get_u256 = (\<lambda>s. res_bind (le_read 32 s) (\<lambda>(n, s). Inr (word_of_nat n, s))),
     get_data_inplace = (\<lambda>n s. if length s < n then Inl Out_Of_Range else Inr (take n s, drop n s)),
     htole = (\<lambda>n. n), letoh = (\<lambda>n. n),
     u256_of_bytes = (\<lambda>b. word_of_nat (le_value b)), u256_bytes = (\<lambda>n. le_bytes 32 (unat n))\<rparr>"

lemma length_le_bytes [simp]: "length (le_bytes k n) = k"
  by (simp add: le_bytes_def)

lemma le_bytes_Suc: "le_bytes (Suc k) n = word_of_nat n # le_bytes k (n div 256)"
  unfolding le_bytes_def by (simp add: upt_conv_Cons map_Suc_upt [symmetric] div_mult2_eq del: upt_Suc)

lemma le_value_bytes: "le_value (le_bytes k n) = n mod 256 ^ k"
proof (induction k arbitrary: n)
  case 0
  then show ?case by (simp add: le_bytes_def)
next
  case (Suc k)
  have "n mod 256 ^ Suc k = n mod 256 + 256 * (n div 256 mod 256 ^ k)"
    using mod_mult2_eq [of n 256 "256 ^ k"] by simp
  with Suc show ?case
    by (simp add: le_bytes_Suc unat_of_nat)
qed

lemma le_value_less: "le_value b < 256 ^ length b"
proof (induction b)
  case Nil
  then show ?case by simp
next
  case (Cons c b)
  then have "256 * le_value b + 256 \<le> 256 * 256 ^ length b"
    by (metis Suc_leI add.commute mult_Suc_right mult_le_mono2)
  with unat_u8_less [of c] have "unat c + 256 * le_value b < 256 * 256 ^ length b"
    by linarith
  then show ?case
    by simp
qed

lemma le_bytes_value: "le_bytes (length b) (le_value b) = b"
proof (induction b)
  case Nil
  then show ?case by (simp add: le_bytes_def)
next
  case (Cons c b)
  have "word_of_nat (unat c + 256 * le_value b) = (c :: u8)"
    by (rule word_unat_eq_iff [THEN iffD2]) (use unat_u8_less [of c] in \<open>simp add: unat_of_nat del: of_nat_add of_nat_mult\<close>)
  moreover have "(unat c + 256 * le_value b) div 256 = le_value b"
    using unat_u8_less [of c] by simp
  ultimately show ?case
    using Cons by (simp add: le_bytes_Suc del: of_nat_add of_nat_mult)
qed

lemma le_read_bytes: "n < 256 ^ k \<Longrightarrow> le_read k (le_bytes k n @ r) = Inr (n, r)"
  by (simp add: le_read_def le_value_bytes)

lemma le_streams_laws: "stream_laws le_streams"
proof -
  have "unat (n :: u16) < 256 ^ 2" "unat (m :: u32) < 256 ^ 4" "unat (h :: 256 word) < 256 ^ 32" for n m h
    using unsigned_less [of n] unsigned_less [of m] unsigned_less [of h] by simp_all
  moreover have "unat (word_of_nat (le_value b) :: 256 word) = le_value b" if "length b = 32" for b
    using le_value_less [of b] that by (simp add: unat_of_nat)
  moreover have "le_bytes 32 (le_value b) = b" if "length b = 32" for b
    using le_bytes_value [of b] that by simp
  ultimately show ?thesis
    by (simp add: stream_laws_def le_streams_def le_read_bytes)
qed

theorem erasure_roundtrip_witness:
  "\<exists>c. decode copy_code 1 1 8 [Some \<lparr>chunk_size = 3, chunk_data = replicate 64 9\<rparr>, c] [0, - 1] [5] =
    Inr (True, [5, 1, 2, 3])"
proof -
  let ?b = "[1, 2, 3] @ replicate 61 48"
  let ?c = "Some \<lparr>chunk_size = 3, chunk_data = ?b\<rparr>"
  have "concat (replicate n [word_of_nat (of_char CHR ''0'')]) = replicate n (48 :: u8)" for n
    by (induction n) simp_all
  moreover have "new_size 1 8 1 = Inr 64" "to_int32 61 = 61"
    using new_size_eq [of 1 1 8] to_int32_of_nat [of 61] by simp_all
  moreover have "block_units 32 1 8 3 = Inr 1"
    using block_units_ok(1) [of 1 8 3] by (simp add: units_def)
  ultimately have enc: "encode copy_code le_streams 1 1 8 [1, 2, 3] = Inr [?c, ?c]"
    by (simp add: encode_def Let_def copy_code_def le_streams_def)
  have "decode copy_code 1 1 8 [Some \<lparr>chunk_size = 3, chunk_data = replicate 64 9\<rparr>, ?c]
      (map int [0] @ [- 1]) [5] = Inr (True, [5] @ [1, 2, 3])"
    by (rule erasure_roundtrip [OF copy_code_laws le_streams_laws _ _ _ enc])
      (auto simp: less_Suc_eq)
  then show ?thesis by auto
qed

end
