(* ===== verification/Hash_Map.thy ===== *)
theory Hash_Map
  imports Beacon_Prelude "HOL-Library.AList"
begin

text \<open>
  \<open>std::unordered_map\<close> as the protocol core uses it: \<open>find\<close>, \<open>size\<close>, \<open>insert\<close>, which keeps
  an entry that is there, and \<open>operator[]\<close>, which inserts a default value for a key that is
  not there. A map is an association list with different keys. The locale is the contract the
  core relies on; what follows from it about the number of entries is proved there once.
\<close>

type_synonym ('k, 'v) umap = "('k \<times> 'v) list"

definition um_ok :: "('k, 'v) umap \<Rightarrow> bool" where
  "um_ok m \<longleftrightarrow> distinct (map fst m)"

definition um_find :: "('k, 'v) umap \<Rightarrow> 'k \<Rightarrow> 'v option" where
  "um_find m k = map_of m k"

definition um_size :: "('k, 'v) umap \<Rightarrow> nat" where
  "um_size m = length m"

definition um_set :: "'k \<Rightarrow> 'v \<Rightarrow> ('k, 'v) umap \<Rightarrow> ('k, 'v) umap" where
  "um_set k v m = AList.update k v m"

definition um_insert :: "'k \<Rightarrow> 'v \<Rightarrow> ('k, 'v) umap \<Rightarrow> ('k, 'v) umap" where
  "um_insert k v m = (case um_find m k of None \<Rightarrow> um_set k v m | Some _ \<Rightarrow> m)"

definition um_index :: "'v \<Rightarrow> 'k \<Rightarrow> ('k, 'v) umap \<Rightarrow> 'v \<times> ('k, 'v) umap" where
  "um_index blank k m =
     (case um_find m k of None \<Rightarrow> (blank, um_set k blank m) | Some v \<Rightarrow> (v, m))"

locale unordered_map =
  fixes invar :: "'m \<Rightarrow> bool"
    and empty :: 'm
    and find :: "'m \<Rightarrow> 'k \<Rightarrow> 'v option"
    and set_at :: "'k \<Rightarrow> 'v \<Rightarrow> 'm \<Rightarrow> 'm"
    and entries :: "'m \<Rightarrow> nat"
  assumes invar_empty: "invar empty"
    and invar_set: "invar m \<Longrightarrow> invar (set_at k v m)"
    and find_empty: "find empty k = None"
    and find_set: "find (set_at k v m) = (find m)(k \<mapsto> v)"
    and entries_dom: "invar m \<Longrightarrow> finite (dom (find m)) \<and> entries m = card (dom (find m))"
begin

lemma entries_set:
  assumes "invar m"
  shows "entries (set_at k v m) = (if find m k = None then Suc (entries m) else entries m)"
proof -
  note d = entries_dom [OF assms] and d' = entries_dom [OF invar_set [OF assms]]
  show ?thesis
    using d d' by (auto simp: find_set card_insert_if insert_absorb domIff)
qed

lemma entries_set_le: "invar m \<Longrightarrow> entries (set_at k v m) \<le> Suc (entries m)"
  by (simp add: entries_set)

lemma entries_empty: "entries empty = 0"
  using entries_dom [OF invar_empty] by (simp add: find_empty dom_def)

lemma entries_bounded:
  assumes "invar m" and "dom (find m) \<subseteq> K" and "finite K"
  shows "entries m \<le> card K"
  using entries_dom [OF assms(1)] card_mono [OF assms(3,2)] by simp

end

interpretation um: unordered_map um_ok "[]" um_find um_set um_size
proof
  show "um_ok []"
    by (simp add: um_ok_def)
  show "um_ok (um_set k v m)" if "um_ok m" for m :: "('k, 'v) umap" and k v
    using that by (simp add: um_ok_def um_set_def distinct_update)
  show "um_find [] k = (None :: 'v option)" for k :: 'k
    by (simp add: um_find_def)
  show "um_find (um_set k v m) = (um_find m)(k \<mapsto> v)" for m :: "('k, 'v) umap" and k v
    by (simp add: fun_eq_iff um_find_def um_set_def update_conv)
  show "finite (dom (um_find m)) \<and> um_size m = card (dom (um_find m))" if "um_ok m"
    for m :: "('k, 'v) umap"
  proof -
    have "dom (um_find m) = set (map fst m)"
      unfolding um_find_def [abs_def] by (simp add: dom_map_of_conv_image_fst)
    with distinct_card [of "map fst m"] that show ?thesis
      by (simp add: um_size_def um_ok_def)
  qed
qed

lemmas um_simps = um.find_empty um.find_set um.invar_empty um.invar_set um.entries_empty

lemma um_insert_find:
  "um_find (um_insert k v m) = (if um_find m k = None then (um_find m)(k \<mapsto> v) else um_find m)"
  by (simp add: um_insert_def um.find_set split: option.split)

lemma um_insert_ok: "um_ok m \<Longrightarrow> um_ok (um_insert k v m)"
  by (simp add: um_insert_def um.invar_set split: option.split)

lemma um_index_found: "um_find m k = Some v \<Longrightarrow> um_index blank k m = (v, m)"
  by (simp add: um_index_def)

end
