(* ===== verification/Replica_Config.thy ===== *)
theory Replica_Config
  imports Hash_Map
begin

text \<open>
  The list of replicas (\<open>include/ReplicaConfig.hpp\<close>): how many there are, how many chunks or
  shares the protocol core waits for, and the address of each. An address is a value of an
  arbitrary type (\<open>salticidae::NetAddr\<close>). \<open>DrgError\<close> of \<open>include/drgerror.hpp\<close> is the
  fault \<open>Drg_Error\<close>, with the format of its text and the replica that is printed into it.
\<close>

type_synonym ReplicaID = u16

record 'a ReplicaInfo =
  info_id :: ReplicaID
  info_addr :: 'a

record 'a ReplicaConfig =
  nreplicas :: nat
  nreconthres :: nat
  replica_map :: "(ReplicaID, 'a ReplicaInfo) umap"

text \<open>The constructor: its second argument is not used.\<close>

definition config_make :: "nat \<Rightarrow> nat \<Rightarrow> 'a ReplicaConfig" where
  "config_make n k = \<lparr>nreplicas = n, nreconthres = 0, replica_map = []\<rparr>"

text \<open>\<open>insert\<close> keeps the entry of a replica that is there; the counter grows all the same.\<close>

definition config_add_replica :: "ReplicaID \<Rightarrow> 'a ReplicaInfo \<Rightarrow> 'a ReplicaConfig \<Rightarrow> 'a ReplicaConfig" where
  "config_add_replica rid info cfg =
     cfg\<lparr>replica_map := um_insert rid info (replica_map cfg),
         nreplicas := size_wrap (nreplicas cfg + 1)\<rparr>"

definition get_info :: "'a ReplicaConfig \<Rightarrow> ReplicaID \<Rightarrow> 'a ReplicaInfo res" where
  "get_info cfg rid =
     (case um_find (replica_map cfg) rid of
       None \<Rightarrow> Inl (Drg_Error ''rid %s not found'' rid)
     | Some info \<Rightarrow> Inr info)"

definition get_addr :: "'a ReplicaConfig \<Rightarrow> ReplicaID \<Rightarrow> 'a res" where
  "get_addr cfg rid = res_bind (get_info cfg rid) (\<lambda>info. Inr (info_addr info))"

text \<open>Replicas added in order, as \<open>DrgBase::start\<close> does: the index becomes a 16-bit identifier.\<close>

fun config_add_all :: "nat \<Rightarrow> 'a list \<Rightarrow> 'a ReplicaConfig \<Rightarrow> 'a ReplicaConfig" where
  "config_add_all i [] cfg = cfg"
| "config_add_all i (a # addrs) cfg =
     config_add_all (i + 1) addrs
       (config_add_replica (word_of_nat i) \<lparr>info_id = word_of_nat i, info_addr = a\<rparr> cfg)"

lemma config_add_all_counts:
  "nreplicas cfg + length addrs < 2 ^ 64 \<Longrightarrow>
   nreplicas (config_add_all i addrs cfg) = nreplicas cfg + length addrs \<and>
   nreconthres (config_add_all i addrs cfg) = nreconthres cfg"
  by (induction addrs arbitrary: i cfg) (simp_all add: config_add_replica_def)

lemma get_addr_add_replica:
  "get_addr (config_add_replica rid info cfg) rid' =
     (if rid' = rid \<and> um_find (replica_map cfg) rid = None then Inr (info_addr info)
      else get_addr cfg rid')"
  by (simp add: get_addr_def get_info_def config_add_replica_def um_insert_find)

lemma word_u16_inj: "i < 2 ^ 16 \<Longrightarrow> j < 2 ^ 16 \<Longrightarrow> (word_of_nat i :: u16) = word_of_nat j \<longleftrightarrow> i = j"
proof -
  assume "i < 2 ^ 16" "j < 2 ^ 16"
  then have "unat (word_of_nat i :: u16) = i" "unat (word_of_nat j :: u16) = j"
    by (simp_all add: unat_of_nat)
  then show ?thesis
    by metis
qed

lemma get_addr_add_all:
  assumes "i + length addrs \<le> 2 ^ 16" and "\<And>j. i \<le> j \<Longrightarrow> j < 2 ^ 16 \<Longrightarrow> um_find (replica_map cfg) (word_of_nat j) = None"
    and "j < 2 ^ 16"
  shows "get_addr (config_add_all i addrs cfg) (word_of_nat j) =
    (if i \<le> j \<and> j < i + length addrs then Inr (addrs ! (j - i))
     else get_addr cfg (word_of_nat j))"
  using assms
proof (induction addrs arbitrary: i cfg)
  case Nil
  then show ?case by auto
next
  case (Cons a addrs)
  let ?info = "\<lparr>info_id = word_of_nat i :: u16, info_addr = a\<rparr>"
  let ?cfg = "config_add_replica (word_of_nat i) ?info cfg"
  have i: "i < 2 ^ 16"
    using Cons.prems(1) by simp
  have free: "um_find (replica_map cfg) (word_of_nat i) = None"
    using Cons.prems(2) i by blast
  have none: "um_find (replica_map ?cfg) (word_of_nat l) = None" if "i + 1 \<le> l" "l < 2 ^ 16" for l
    using Cons.prems(2) [of l] that i by (simp add: config_add_replica_def um_insert_find word_u16_inj)
  have "get_addr (config_add_all (i + 1) addrs ?cfg) (word_of_nat j) =
    (if i + 1 \<le> j \<and> j < i + 1 + length addrs then Inr (addrs ! (j - (i + 1)))
     else get_addr ?cfg (word_of_nat j))"
    by (rule Cons.IH) (use Cons.prems(1,3) none in simp_all)
  moreover have "get_addr ?cfg (word_of_nat j) = (if j = i then Inr a else get_addr cfg (word_of_nat j))"
    using free i Cons.prems(3) by (auto simp: get_addr_add_replica word_u16_inj)
  ultimately show ?case
    by (auto simp: nth_Cons' Suc_diff_le)
qed

text \<open>After adding a list of at most 65536 replicas to an empty configuration there are as
  many replicas as addresses, and the address of each index is the one of the list; the address
  of any other identifier is a \<open>DrgError\<close>.\<close>

theorem get_addr_of_added:
  fixes addrs :: "'a list"
  assumes "length addrs \<le> 2 ^ 16" and "j < 2 ^ 16"
  shows "nreplicas (config_add_all 0 addrs (config_make 0 0)) = length addrs \<and>
    get_addr (config_add_all 0 addrs (config_make 0 0)) (word_of_nat j) =
      (if j < length addrs then Inr (addrs ! j)
       else Inl (Drg_Error ''rid %s not found'' (word_of_nat j)))"
proof
  have "length addrs < 2 ^ 64"
    using assms(1) by (rule order_le_less_trans) simp
  then show "nreplicas (config_add_all 0 addrs (config_make 0 0)) = length addrs"
    using config_add_all_counts [of "config_make 0 0" addrs] by (simp add: config_make_def)
  have none: "um_find (replica_map (config_make 0 0 :: 'a ReplicaConfig)) r = None" for r
    by (simp add: config_make_def um_simps)
  then have "get_addr (config_make 0 0 :: 'a ReplicaConfig) r = Inl (Drg_Error ''rid %s not found'' r)" for r
    by (simp add: get_addr_def get_info_def)
  with assms none show "get_addr (config_add_all 0 addrs (config_make 0 0)) (word_of_nat j) =
      (if j < length addrs then Inr (addrs ! j)
       else Inl (Drg_Error ''rid %s not found'' (word_of_nat j)))"
    using get_addr_add_all [of 0 addrs "config_make 0 0" j] by simp
qed

theorem get_addr_of_added_witness:
  "nreplicas (config_add_all 0 [''a'', ''b''] (config_make 0 0)) = 2 \<and>
   get_addr (config_add_all 0 [''a'', ''b''] (config_make 0 0)) 1 = Inr ''b'' \<and>
   get_addr (config_add_all 0 [''a'', ''b''] (config_make 0 0)) 2 = Inl (Drg_Error ''rid %s not found'' 2)"
  using get_addr_of_added [of "[''a'', ''b'']" 1] get_addr_of_added [of "[''a'', ''b'']" 2] by simp

end
