(* ===== verification/Drg_Messages.thy ===== *)
theory Drg_Messages
  imports Erasure Replica_Config
begin

text \<open>
  The messages of the protocol (\<open>Share\<close> and \<open>ShareChunk\<close> of \<open>include/DrgCore.hpp\<close>) with
  their byte format, and \<open>Start\<close>, which has no content. The locale states the contract of a
  format: what has been written is read back and the rest of the stream is left. It is
  interpreted for chunks and for both messages.
\<close>

section \<open>Formats\<close>

locale stream_codec =
  fixes valid :: "'a \<Rightarrow> bool"
    and put :: "'a \<Rightarrow> bytes"
    and get :: "bytes \<Rightarrow> ('a \<times> bytes) res"
  assumes get_put: "valid x \<Longrightarrow> get (put x @ rest) = Inr (x, rest)"
begin

fun get_many :: "nat \<Rightarrow> bytes \<Rightarrow> ('a list \<times> bytes) res" where
  "get_many 0 s = Inr ([], s)"
| "get_many (Suc k) s = res_bind (get s) (\<lambda>(x, s). res_bind (get_many k s) (\<lambda>(xs, s). Inr (x # xs, s)))"

lemma get_put_all: "valid x \<Longrightarrow> get (put x) = Inr (x, [])"
  using get_put [of x "[]"] by simp

lemma put_inj:
  assumes "valid x" and "valid y" and "put x = put y"
  shows "x = y"
proof -
  have "Inr (x, []) = get (put x)"
    by (rule get_put_all [OF assms(1), symmetric])
  also have "\<dots> = Inr (y, [])"
    unfolding assms(3) by (rule get_put_all [OF assms(2)])
  finally show ?thesis
    by simp
qed

lemma get_many_put: "(\<forall>x\<in>set xs. valid x) \<Longrightarrow>
    get_many (length xs) (concat (map put xs) @ rest) = Inr (xs, rest)"
  by (induction xs) (simp_all add: get_put)

end

section \<open>Share\<close>

record share =
  share_replica :: ReplicaID
  share_bt :: bytes

definition share_serialize :: "'h stream_lib \<Rightarrow> share \<Rightarrow> bytes \<Rightarrow> bytes" where
  "share_serialize S m s =
     s @ put_u16 S (share_replica m) @ put_u32 S (htole S (word_of_nat (length (share_bt m)))) @ share_bt m"

definition share_unserialize :: "'h stream_lib \<Rightarrow> bytes \<Rightarrow> (share \<times> bytes) res" where
  "share_unserialize S s =
     res_bind (get_u16 S s) (\<lambda>(rid, s).
     res_bind (get_u32 S s) (\<lambda>(n, s).
     res_bind (get_data_inplace S (unat (letoh S n)) s) (\<lambda>(base, s).
       Inr (\<lparr>share_replica = rid, share_bt = base\<rparr>, s))))"

section \<open>ShareChunk\<close>

record 'h share_chunk =
  sc_replica :: ReplicaID
  sc_idx :: u32
  sc_round :: u32
  sc_chunk :: chunk_t
  sc_root :: 'h
  sc_proof :: bytes

definition share_chunk_serialize :: "'h stream_lib \<Rightarrow> 'h share_chunk \<Rightarrow> bytes \<Rightarrow> bytes res" where
  "share_chunk_serialize S m s =
     (let s = s @ put_u16 S (sc_replica m) @ put_u32 S (sc_idx m) @ put_u32 S (sc_round m) @
                put_u256 S (sc_root m);
          s = s @ put_u32 S (htole S (word_of_nat (length (sc_proof m)))) @ sc_proof m
      in case sc_chunk m of None \<Rightarrow> Inl Undefined_Read | Some c \<Rightarrow> Inr (chunk_serialize S c s))"

definition share_chunk_unserialize :: "'h stream_lib \<Rightarrow> bytes \<Rightarrow> ('h share_chunk \<times> bytes) res" where
  "share_chunk_unserialize S s =
     res_bind (get_u16 S s) (\<lambda>(rid, s).
     res_bind (get_u32 S s) (\<lambda>(idx, s).
     res_bind (get_u32 S s) (\<lambda>(rnd, s).
     res_bind (get_u256 S s) (\<lambda>(rt, s).
     res_bind (get_u32 S s) (\<lambda>(n, s).
     res_bind (if letoh S n = 0 then Inr ([], s) else get_data_inplace S (unat (letoh S n)) s) (\<lambda>(proof, s).
     res_bind (chunk_unserialize S s) (\<lambda>(c, s).
       Inr (\<lparr>sc_replica = rid, sc_idx = idx, sc_round = rnd, sc_chunk = Some c, sc_root = rt,
             sc_proof = proof\<rparr>, s))))))))"

section \<open>Round trips\<close>

definition chunk_fits :: "chunk \<Rightarrow> bool" where
  "chunk_fits c \<longleftrightarrow> length (chunk_data c) < 2 ^ 32"

definition share_fits :: "share \<Rightarrow> bool" where
  "share_fits m \<longleftrightarrow> length (share_bt m) < 2 ^ 32"

definition share_chunk_fits :: "'h share_chunk \<Rightarrow> bool" where
  "share_chunk_fits m \<longleftrightarrow> length (sc_proof m) < 2 ^ 32 \<and> (\<exists>c. sc_chunk m = Some c \<and> chunk_fits c)"

text \<open>The bytes of a message that has a chunk.\<close>

definition share_chunk_bytes :: "'h stream_lib \<Rightarrow> 'h share_chunk \<Rightarrow> bytes" where
  "share_chunk_bytes S m =
     put_u16 S (sc_replica m) @ put_u32 S (sc_idx m) @ put_u32 S (sc_round m) @ put_u256 S (sc_root m) @
     put_u32 S (htole S (word_of_nat (length (sc_proof m)))) @ sc_proof m @
     chunk_serialize S (the (sc_chunk m)) []"

lemma share_chunk_serialize_eq:
  "sc_chunk m = Some c \<Longrightarrow> share_chunk_serialize S m s = Inr (s @ share_chunk_bytes S m)"
  by (simp add: share_chunk_serialize_def share_chunk_bytes_def chunk_serialize_def)

lemma unat_length_u32: "length b < 2 ^ 32 \<Longrightarrow> unat (word_of_nat (length b) :: u32) = length b"
  by (simp add: unat_of_nat)

lemma length_u32_eq_0: "length b < 2 ^ 32 \<Longrightarrow> (word_of_nat (length b) :: u32) = 0 \<longleftrightarrow> b = []"
  using unat_length_u32 [of b] unat_eq_0 [of "word_of_nat (length b) :: u32"] by auto

interpretation chunk_codec: stream_codec
  "\<lambda>c. stream_laws S \<and> chunk_fits c" "\<lambda>c. chunk_serialize S c []" "chunk_unserialize S" for S
  by unfold_locales (simp add: chunk_fits_def chunk_roundtrip)

interpretation share_codec: stream_codec
  "\<lambda>m. stream_laws S \<and> share_fits m" "\<lambda>m. share_serialize S m []" "share_unserialize S" for S
  by unfold_locales
    (auto simp: stream_laws_def share_fits_def share_serialize_def share_unserialize_def unat_length_u32)

interpretation share_chunk_codec: stream_codec
  "\<lambda>m. stream_laws S \<and> share_chunk_fits m" "share_chunk_bytes S" "share_chunk_unserialize S" for S
proof
  fix m :: "'a share_chunk" and rest
  assume m: "stream_laws S \<and> share_chunk_fits m"
  then obtain c where c: "sc_chunk m = Some c" "chunk_fits c" "length (sc_proof m) < 2 ^ 32"
    by (auto simp: share_chunk_fits_def)
  from m have S: "stream_laws S"
    by simp
  note laws = S [unfolded stream_laws_def] unat_length_u32 [OF c(3)] length_u32_eq_0 [OF c(3)]
    chunk_codec.get_put [of S c] c S
  have "m = \<lparr>sc_replica = sc_replica m, sc_idx = sc_idx m, sc_round = sc_round m, sc_chunk = Some c,
      sc_root = sc_root m, sc_proof = sc_proof m\<rparr>"
    using c(1) by simp
  then show "share_chunk_unserialize S (share_chunk_bytes S m @ rest) = Inr (m, rest)"
    using laws by (simp add: share_chunk_unserialize_def share_chunk_bytes_def)
qed

text \<open>Shares and chunks of shares that have been written to a stream are read back, and
  reading leaves what follows them in the stream. A chunk message without a chunk cannot be
  written. The lengths are written in 32 bits, so that is where they have to fit.\<close>

theorem messages_roundtrip:
  assumes "stream_laws S" and "share_fits m" and "share_chunk_fits sc"
  shows "share_unserialize S (share_serialize S m [] @ rest) = Inr (m, rest) \<and>
    (\<exists>s. share_chunk_serialize S sc [] = Inr s \<and> share_chunk_unserialize S (s @ rest) = Inr (sc, rest)) \<and>
    share_chunk_serialize S (sc\<lparr>sc_chunk := None\<rparr>) s0 = Inl Undefined_Read"
proof -
  obtain c where "sc_chunk sc = Some c"
    using assms(3) by (auto simp: share_chunk_fits_def)
  then show ?thesis
    using assms share_codec.get_put [of S m rest] share_chunk_codec.get_put [of S sc rest]
    by (simp add: share_chunk_serialize_eq) (simp add: share_chunk_serialize_def Let_def)
qed

theorem messages_roundtrip_witness:
  "share_unserialize le_streams (share_serialize le_streams \<lparr>share_replica = 3, share_bt = [1, 2]\<rparr> [] @ [9]) =
     Inr (\<lparr>share_replica = 3, share_bt = [1, 2]\<rparr>, [9])"
  using messages_roundtrip [OF le_streams_laws, of "\<lparr>share_replica = 3, share_bt = [1, 2]\<rparr>"
      "\<lparr>sc_replica = 3, sc_idx = 1, sc_round = 0, sc_chunk = Some \<lparr>chunk_size = 1, chunk_data = [7]\<rparr>,
        sc_root = 5, sc_proof = []\<rparr>" "[9]"]
  by (simp add: share_fits_def share_chunk_fits_def chunk_fits_def)

end
