(* ===== verification/Pvss_Text.thy ===== *)
theory Pvss_Text
  imports Pvss Text_Stream
begin

text \<open>
  The stream operators of the secret sharing's data: \<open>Dleq.hpp\<close>, \<open>DecompProof.hpp\<close>,
  \<open>PVSS_Sharing.hpp\<close>, \<open>Decryption.hpp\<close>, \<open>Beacon.hpp\<close>, the output of a context in
  \<open>pvss.hpp\<close> and \<open>Factory::parseContext\<close>. The operators of libff for the scalar field and
  the groups, \<open>OUTPUT_NEWLINE\<close> and \<open>consume_OUTPUT_NEWLINE\<close> are the fields of the record
  \<open>text_lib\<close>; \<open>text_laws\<close> says that they write and read back values, and that
  \<open>OUTPUT_NEWLINE\<close> is a line break, as it is unless libff's binary output is chosen.
\<close>

section \<open>The library\<close>

record ('f, 'g1, 'g2, 'gt) text_lib =
  show_fr :: "'f \<Rightarrow> string"
  show_gt :: "'gt \<Rightarrow> string"
  read_fr :: "istream \<Rightarrow> 'f \<times> istream"
  read_g1 :: "istream \<Rightarrow> 'g1 \<times> istream"
  read_g2 :: "istream \<Rightarrow> 'g2 \<times> istream"
  read_gt :: "istream \<Rightarrow> 'gt \<times> istream"
  output_newline :: string
  consume :: "istream \<Rightarrow> istream"

definition text_laws ::
  "('f, 'g1, 'g2, 'gt, 's) pairing_lib \<Rightarrow> ('f, 'g1, 'g2, 'gt) text_lib \<Rightarrow> bool" where
  "text_laws L T \<longleftrightarrow> text_codec (\<lambda>x. True) (show_fr T) (read_fr T) \<and>
     text_codec (\<lambda>x. True) (show1 L) (read_g1 T) \<and> text_codec (\<lambda>x. True) (show2 L) (read_g2 T) \<and>
     text_codec (\<lambda>x. True) (show_gt T) (read_gt T) \<and> output_newline T = newline \<and>
     consumes_newline (consume T)"

section \<open>Operators\<close>

definition put_dleq :: "('g \<Rightarrow> string) \<Rightarrow> ('f \<Rightarrow> string) \<Rightarrow> ('g, 'f) dleq \<Rightarrow> string" where
  "put_dleq showg showf d = showg (dleq_gr d) @ newline @ showf (dleq_pi d) @ newline"

definition get_dleq ::
  "(istream \<Rightarrow> 'g \<times> istream) \<Rightarrow> (istream \<Rightarrow> 'f \<times> istream) \<Rightarrow> (istream \<Rightarrow> istream) \<Rightarrow> istream \<Rightarrow>
   ('g, 'f) dleq \<times> istream" where
  "get_dleq readg readf consum st =
     (let (g, st) = readg st; st = consum st; (p, st) = readf st; st = consum st
      in (\<lparr>dleq_gr = g, dleq_pi = p\<rparr>, st))"

definition put_dual ::
  "('ga \<Rightarrow> string) \<Rightarrow> ('gb \<Rightarrow> string) \<Rightarrow> ('f \<Rightarrow> string) \<Rightarrow> ('ga, 'gb, 'f) dleq_dual \<Rightarrow> string" where
  "put_dual showa showb showf d =
     showa (dual_gra d) @ newline @ showb (dual_grb d) @ newline @ showf (dual_pi d) @ newline"

definition get_dual ::
  "(istream \<Rightarrow> 'ga \<times> istream) \<Rightarrow> (istream \<Rightarrow> 'gb \<times> istream) \<Rightarrow> (istream \<Rightarrow> 'f \<times> istream) \<Rightarrow>
   (istream \<Rightarrow> istream) \<Rightarrow> istream \<Rightarrow> ('ga, 'gb, 'f) dleq_dual \<times> istream" where
  "get_dual reada readb readf consum st =
     (let (a, st) = reada st; st = consum st; (b, st) = readb st; st = consum st;
          (p, st) = readf st; st = consum st
      in (\<lparr>dual_gra = a, dual_grb = b, dual_pi = p\<rparr>, st))"

definition put_decomp :: "('g \<Rightarrow> string) \<Rightarrow> ('f \<Rightarrow> string) \<Rightarrow> ('g, 'f) decomp_proof \<Rightarrow> string" where
  "put_decomp showg showf d =
     put_dleq showg showf (decomp_dleq d) @ newline @ showg (decomp_gs d) @ newline"

definition get_decomp ::
  "(istream \<Rightarrow> 'g \<times> istream) \<Rightarrow> (istream \<Rightarrow> 'f \<times> istream) \<Rightarrow> (istream \<Rightarrow> istream) \<Rightarrow> istream \<Rightarrow>
   ('g, 'f) decomp_proof \<times> istream" where
  "get_decomp readg readf consum st =
     (let (p, st) = get_dleq readg readf consum st; st = consum st;
          (g, st) = readg st; st = consum st
      in (\<lparr>decomp_dleq = p, decomp_gs = g\<rparr>, st))"

definition put_decryption ::
  "('f, 'g1, 'g2, 'gt, 's) pairing_lib \<Rightarrow> ('f, 'g1, 'g2, 'gt) text_lib \<Rightarrow> ('f, 'g1) decryption \<Rightarrow> string"
where
  "put_decryption L T d =
     show1 L (dec d) @ newline @ put_dleq (show1 L) (show_fr T) (dec_pi d) @ newline @
     put_size (origin d) @ newline"

definition get_decryption ::
  "('f, 'g1, 'g2, 'gt) text_lib \<Rightarrow> nat \<Rightarrow> istream \<Rightarrow> ('f, 'g1) decryption \<times> istream" where
  "get_decryption T old st =
     (let (d, st) = read_g1 T st; st = consume T st;
          (p, st) = get_dleq (read_g1 T) (read_fr T) (consume T) st; st = consume T st;
          (k, st) = get_size old st; st = consume T st
      in (\<lparr>dec = d, dec_pi = p, origin = k\<rparr>, st))"

definition put_beacon ::
  "('f, 'g1, 'g2, 'gt, 's) pairing_lib \<Rightarrow> ('f, 'g1, 'g2, 'gt) text_lib \<Rightarrow> ('g1, 'gt) beacon \<Rightarrow> string" where
  "put_beacon L T b = show1 L (recon b) @ newline @ show_gt T (beacon_value b) @ newline"

definition get_beacon ::
  "('f, 'g1, 'g2, 'gt) text_lib \<Rightarrow> istream \<Rightarrow> ('g1, 'gt) beacon \<times> istream" where
  "get_beacon T st =
     (let (r, st) = read_g1 T st; st = consume T st; (v, st) = read_gt T st; st = consume T st
      in (\<lparr>recon = r, beacon_value = v\<rparr>, st))"

text \<open>Elements with \<open>OUTPUT_NEWLINE\<close> behind each.\<close>

definition put_elements :: "string \<Rightarrow> ('a \<Rightarrow> string) \<Rightarrow> 'a list \<Rightarrow> string" where
  "put_elements onl put xs = put_size (length xs) @ newline @ concat (map (\<lambda>x. put x @ onl) xs)"

definition put_sharing ::
  "('f, 'g1, 'g2, 'gt, 's) pairing_lib \<Rightarrow> ('f, 'g1, 'g2, 'gt) text_lib \<Rightarrow>
   ('f, 'g1, 'g2) pvss_sharing \<Rightarrow> string" where
  "put_sharing L T sh =
     put_elements (output_newline T) (show1 L) (encryptions sh) @
     put_elements (output_newline T) (show2 L) (commitments sh) @
     put_elements (output_newline T) (put_dual (show1 L) (show2 L) (show_fr T)) (dleq_proofs sh) @
     put_decomp (show2 L) (show_fr T) (decomp_pi sh) @ output_newline T"

text \<open>\<open>in >> s\<close>, \<open>reserve(s)\<close> and the loop that appends to a vector of \<open>self\<close>; \<open>s\<close> keeps its
  value when the stream has failed.\<close>

definition get_elements ::
  "nat \<Rightarrow> (istream \<Rightarrow> 'a \<times> istream) \<Rightarrow> (istream \<Rightarrow> istream) \<Rightarrow> 'a list \<Rightarrow> nat \<Rightarrow> istream \<Rightarrow>
   ('a list \<times> nat \<times> istream) res" where
  "get_elements cap get consum xs s st =
     (let (s, st) = get_size s st; st = consum st
      in if cap < s then Inl Length_Error
         else let (xs, st) = read_loop get consum s xs st in Inr (xs, s, st))"

definition get_sharing ::
  "nat \<Rightarrow> ('f, 'g1, 'g2, 'gt) text_lib \<Rightarrow> ('f, 'g1, 'g2) pvss_sharing \<Rightarrow> istream \<Rightarrow>
   (('f, 'g1, 'g2) pvss_sharing \<times> istream) res" where
  "get_sharing cap T self st =
     (if st = None then Inl Undefined_Read
      else res_bind (get_elements cap (read_g1 T) (consume T) [] 0 st) (\<lambda>(encs, s, st).
        res_bind (get_elements cap (read_g2 T) (consume T) (commitments self) s st) (\<lambda>(comms, s, st).
        res_bind (get_elements cap (get_dual (read_g1 T) (read_g2 T) (read_fr T) (consume T)) (consume T)
            (dleq_proofs self) s st) (\<lambda>(proofs, s, st).
          let (d, st) = get_decomp (read_g2 T) (read_fr T) (consume T) st; st = consume T st
          in Inr (self\<lparr>encryptions := encs, commitments := comms, dleq_proofs := proofs,
                      decomp_pi := d\<rparr>, st)))))"

definition put_context ::
  "('f, 'g1, 'g2, 'gt, 's) pairing_lib \<Rightarrow> ('f, 'g1, 'g2, 'gt) text_lib \<Rightarrow>
   ('f, 'g1, 'g2) pvss_context \<Rightarrow> string" where
  "put_context L T ctx =
     serializeVector (show1 L) (pk_map ctx) @
     show1 L (ctx_g1 ctx) @ output_newline T @ show1 L (ctx_g2 ctx) @ output_newline T @
     show2 L (ctx_h1 ctx) @ output_newline T @ show2 L (ctx_h2 ctx) @ output_newline T @
     show_fr T (secret_key ctx) @ output_newline T @ put_size (my_id ctx) @ output_newline T"

definition parseContext ::
  "nat \<Rightarrow> ('f, 'g1, 'g2, 'gt) text_lib \<Rightarrow> SyncSystemConfig \<Rightarrow> nat \<Rightarrow> istream \<Rightarrow>
   (('f, 'g1, 'g2) pvss_context \<times> istream) res" where
  "parseContext cap T cfg old st =
     res_bind (deserializeVector cap (read_g1 T) (consume T) st) (\<lambda>(pks, st).
       let (g1, st) = read_g1 T st; st = consume T st;
           (g2, st) = read_g1 T st; st = consume T st;
           (h1, st) = read_g2 T st; st = consume T st;
           (h2, st) = read_g2 T st; st = consume T st;
           (sk, st) = read_fr T st; st = consume T st;
           (i, st) = get_size old st; st = consume T st
       in Inr (\<lparr>pk_map = pks, config = cfg, ctx_g1 = g1, ctx_g2 = g2, ctx_h1 = h1, ctx_h2 = h2,
                secret_key = sk, my_id = i\<rparr>, st))"

section \<open>Round trips\<close>

lemma text_laws_read:
  assumes "text_laws L T"
  shows "read_fr T (Some (show_fr T x @ CHR 0x0A # rest)) = (x, Some (CHR 0x0A # rest))"
    and "read_g1 T (Some (show1 L y @ CHR 0x0A # rest)) = (y, Some (CHR 0x0A # rest))"
    and "read_g2 T (Some (show2 L z @ CHR 0x0A # rest)) = (z, Some (CHR 0x0A # rest))"
    and "read_gt T (Some (show_gt T v @ CHR 0x0A # rest)) = (v, Some (CHR 0x0A # rest))"
    and "consume T (Some (CHR 0x0A # rest)) = Some rest"
    and "output_newline T = newline"
  using assms
  by (auto simp: text_laws_def intro: consumes_newlineD text_codec_line)

lemma dleq_codec:
  assumes "text_codec (\<lambda>x. True) showg readg" and "text_codec (\<lambda>x. True) showf readf"
    and "consumes_newline consum"
  shows "text_codec (\<lambda>x. True) (put_dleq showg showf) (get_dleq readg readf consum)"
  by unfold_locales
    (simp add: put_dleq_def get_dleq_def consumes_newlineD [OF assms(3)]
      text_codec_line [OF assms(1)] text_codec_line [OF assms(2)])

lemma dual_codec:
  assumes "text_codec (\<lambda>x. True) showa reada" and "text_codec (\<lambda>x. True) showb readb"
    and "text_codec (\<lambda>x. True) showf readf" and "consumes_newline consum"
  shows "text_codec (\<lambda>x. True) (put_dual showa showb showf) (get_dual reada readb readf consum)"
  by unfold_locales
    (simp add: put_dual_def get_dual_def consumes_newlineD [OF assms(4)]
      text_codec_line [OF assms(1)] text_codec_line [OF assms(2)]
      text_codec_line [OF assms(3)])

lemma decomp_codec:
  assumes "text_codec (\<lambda>x. True) showg readg" and "text_codec (\<lambda>x. True) showf readf"
    and "consumes_newline consum"
  shows "text_codec (\<lambda>x. True) (put_decomp showg showf) (get_decomp readg readf consum)"
  by unfold_locales
    (simp add: put_decomp_def get_decomp_def consumes_newlineD [OF assms(3)]
      text_codec_line [OF assms(1)] text_codec_line [OF dleq_codec [OF assms]])

lemma get_put_elements:
  assumes "text_codec (\<lambda>x. True) put get" and "consumes_newline consum"
    and "length xs \<le> cap" and "length xs < 2 ^ 64"
  shows "get_elements cap get consum ys s (Some (put_elements newline put xs @ rest)) =
    Inr (ys @ xs, length xs, Some rest)"
proof -
  have "put_elements newline put xs @ rest = put_size (length xs) @ newline @ put_lines put xs @ rest"
    by (simp add: put_elements_def put_lines_def)
  then show ?thesis
    using assms(3,4) text_codec.read_loop_lines [OF assms(1,2), of xs ys rest]
    unfolding get_elements_def by (simp only: get_put_size Let_def prod.case)
      (simp add: consumes_newlineD [OF assms(2)])
qed

lemma get_put_sharing:
  assumes "text_laws L T" and "length (encryptions sh) \<le> cap" and "length (commitments sh) \<le> cap"
    and "length (dleq_proofs sh) \<le> cap" and "cap < 2 ^ 64"
  shows "get_sharing cap T self (Some (put_sharing L T sh @ rest)) =
    Inr (sh\<lparr>commitments := commitments self @ commitments sh,
            dleq_proofs := dleq_proofs self @ dleq_proofs sh, secret := secret self\<rparr>, Some rest)"
proof -
  have codecs: "text_codec (\<lambda>x. True) (show1 L) (read_g1 T)" "text_codec (\<lambda>x. True) (show2 L) (read_g2 T)"
      "text_codec (\<lambda>x. True) (show_fr T) (read_fr T)" "consumes_newline (consume T)"
      "output_newline T = newline"
    using assms(1) by (simp_all add: text_laws_def)
  note el = get_put_elements [OF _ codecs(4)]
  note decomp = text_codec_line [OF decomp_codec [OF codecs(2,3,4)]]
  have len: "length (encryptions sh) < 2 ^ 64" "length (commitments sh) < 2 ^ 64"
      "length (dleq_proofs sh) < 2 ^ 64"
    using assms(2-5) by linarith+
  show ?thesis
    unfolding get_sharing_def put_sharing_def append_assoc codecs(5)
    using el [OF codecs(1) assms(2) len(1)] el [OF codecs(2) assms(3) len(2)]
      el [OF dual_codec [OF codecs(1-4)] assms(4) len(3)] decomp
    by (simp add: consumes_newlineD [OF codecs(4)] Let_def)
qed

text \<open>C30: a sharing written to a stream is read back into a fresh object, the rest of the stream
  untouched; only the secret, which is not written, keeps the value it had. Read into an object
  that holds commitments and proofs already, the new ones are appended to them, since only the
  encryptions are cleared.\<close>

theorem sharing_text_roundtrip:
  assumes "text_laws L T" and "length (encryptions sh) \<le> cap" and "length (commitments sh) \<le> cap"
    and "length (dleq_proofs sh) \<le> cap" and "cap < 2 ^ 64"
  shows "get_sharing cap T self (Some (put_sharing L T sh @ rest)) =
    Inr (sh\<lparr>commitments := commitments self @ commitments sh,
            dleq_proofs := dleq_proofs self @ dleq_proofs sh, secret := secret self\<rparr>, Some rest)"
  using assms by (rule get_put_sharing)

text \<open>For the witnesses: values that print as one character.\<close>

definition bit_show :: "bool \<Rightarrow> string" where
  "bit_show b = [if b then CHR ''1'' else CHR ''0'']"

fun bit_read :: "istream \<Rightarrow> bool \<times> istream" where
  "bit_read (Some (c # s)) = (c = CHR ''1'', Some s)"
| "bit_read st = (False, None)"

definition bit_lib :: "(bool, bool, bool, bool, nat) pairing_lib" where
  "bit_lib = \<lparr>smul1 = (\<and>), smul2 = (\<and>), show1 = bit_show, show2 = bit_show, of_hex = (\<lambda>h. True),
     random_fr = (\<lambda>s. (odd s, s div 2)), random_g1 = (\<lambda>s. (odd s, s div 2)),
     random_g2 = (\<lambda>s. (odd s, s div 2)), pairing = (\<and>), reduced_pairing = (\<and>)\<rparr>"

definition bit_text :: "(bool, bool, bool, bool) text_lib" where
  "bit_text = \<lparr>show_fr = bit_show, show_gt = bit_show, read_fr = bit_read, read_g1 = bit_read,
     read_g2 = bit_read, read_gt = bit_read, output_newline = newline, consume = map_option tl\<rparr>"

lemma bit_text_laws: "text_laws bit_lib bit_text"
proof -
  have "text_codec (\<lambda>x. True) bit_show bit_read"
    by unfold_locales (auto simp: bit_show_def)
  then show ?thesis
    by (simp add: text_laws_def bit_lib_def bit_text_def consumes_newline_def)
qed

theorem sharing_text_roundtrip_witness:
  "\<exists>(old :: (bool, bool, bool) pvss_sharing) sh. encryptions sh = [True, False] \<and>
     commitments old = [] \<and> dleq_proofs old = [] \<and> secret old = secret sh \<and>
     get_sharing 9 bit_text old (Some (put_sharing bit_lib bit_text sh @ ''x'')) = Inr (sh, Some ''x'')"
proof -
  let ?d = "\<lparr>decomp_dleq = \<lparr>dleq_gr = True, dleq_pi = False\<rparr>, decomp_gs = True\<rparr>"
  let ?sh = "\<lparr>encryptions = [True, False], commitments = [False, True],
      dleq_proofs = [\<lparr>dual_gra = True, dual_grb = False, dual_pi = True\<rparr>], decomp_pi = ?d, secret = True\<rparr>"
  let ?old = "\<lparr>encryptions = [True], commitments = [], dleq_proofs = [], decomp_pi = ?d, secret = True\<rparr>"
  show ?thesis
    using sharing_text_roundtrip [OF bit_text_laws, of ?sh 9 ?old "''x''"]
    by (intro exI [of _ ?old] exI [of _ ?sh]) simp
qed

lemma get_put_decryption:
  assumes "text_laws L T" and "origin d < 2 ^ 64"
  shows "get_decryption T old (Some (put_decryption L T d @ rest)) = (d, Some rest)"
  using assms(2) size_text.get_put_line [of "origin d" old]
  by (simp add: get_decryption_def put_decryption_def get_dleq_def put_dleq_def
      text_laws_read [OF assms(1)])

lemma get_put_beacon:
  assumes "text_laws L T"
  shows "get_beacon T (Some (put_beacon L T b @ rest)) = (b, Some rest)"
  by (simp add: get_beacon_def put_beacon_def text_laws_read [OF assms])

lemma get_put_context:
  assumes "text_laws L T" and "my_id ctx < 2 ^ 64" and "length (pk_map ctx) \<le> cap" and "cap < 2 ^ 64"
  shows "parseContext cap T (config ctx) old (Some (put_context L T ctx @ rest)) = Inr (ctx, Some rest)"
proof -
  have codec: "text_codec (\<lambda>x. True) (show1 L) (read_g1 T)" "consumes_newline (consume T)"
    using assms(1) by (simp_all add: text_laws_def)
  have "length (pk_map ctx) < 2 ^ 64"
    using assms(3,4) by linarith
  then have "deserializeVector cap (read_g1 T) (consume T) (Some (serializeVector (show1 L) (pk_map ctx) @ r)) =
      Inr (pk_map ctx, Some r)" for r
    using assms(3) by (intro text_codec.deserialize_serialize [OF codec]) simp_all
  then show ?thesis
    using size_text.get_put_line [OF assms(2), of old]
    by (simp add: parseContext_def put_context_def text_laws_read [OF assms(1)])
qed

text \<open>Decryptions, beacons and contexts are read back from the text they are written as; a
  context takes its configuration from the factory.\<close>

theorem pvss_text_roundtrips:
  assumes "text_laws L T" and "origin d < 2 ^ 64" and "my_id ctx < 2 ^ 64"
    and "length (pk_map ctx) \<le> cap" and "cap < 2 ^ 64"
  shows "get_decryption T old (Some (put_decryption L T d @ rest)) = (d, Some rest) \<and>
    get_beacon T (Some (put_beacon L T b @ rest)) = (b, Some rest) \<and>
    parseContext cap T (config ctx) old (Some (put_context L T ctx @ rest)) = Inr (ctx, Some rest)"
  using get_put_decryption [OF assms(1,2)] get_put_beacon [OF assms(1)]
    get_put_context [OF assms(1,3-5)] by blast

theorem pvss_text_roundtrips_witness:
  "\<exists>ctx. pk_map ctx = [True] \<and>
     get_decryption bit_text 0 (Some (put_decryption bit_lib bit_text
       \<lparr>dec = True, dec_pi = \<lparr>dleq_gr = True, dleq_pi = False\<rparr>, origin = 3\<rparr> @ ''x'')) =
       (\<lparr>dec = True, dec_pi = \<lparr>dleq_gr = True, dleq_pi = False\<rparr>, origin = 3\<rparr>, Some ''x'') \<and>
     get_beacon bit_text (Some (put_beacon bit_lib bit_text \<lparr>recon = True, beacon_value = False\<rparr> @ ''x'')) =
       (\<lparr>recon = True, beacon_value = False\<rparr>, Some ''x'') \<and>
     parseContext 9 bit_text (config ctx) 0 (Some (put_context bit_lib bit_text ctx @ ''x'')) =
       Inr (ctx, Some ''x'')"
proof -
  let ?ctx = "\<lparr>pk_map = [True], config = FromNumReplicas 1, ctx_g1 = True, ctx_g2 = False,
      ctx_h1 = True, ctx_h2 = False, secret_key = True, my_id = 0\<rparr>"
  show ?thesis
    using pvss_text_roundtrips [OF bit_text_laws, of "\<lparr>dec = True, dec_pi = \<lparr>dleq_gr = True,
        dleq_pi = False\<rparr>, origin = 3\<rparr>" ?ctx 9 0 "''x''" "\<lparr>recon = True, beacon_value = False\<rparr>"]
    by (intro exI [of _ ?ctx]) simp
qed

end
