(* ===== verification/Drg_Core.thy ===== *)
theory Drg_Core
  imports Drg_Messages Pvss_Text Merkle_Walk
begin

text \<open>
  The protocol core (\<open>DrgCore\<close> of \<open>include/DrgCore.hpp\<close> and \<open>src/DrgCore.cpp\<close>): the state
  of a replica and its handlers. A handler takes and returns the state of the replica and of
  the random generator and gives the list of calls it makes to the virtual functions of the
  network layer, in their order. The record \<open>drg_env\<close> holds what does not change: the
  libraries (the curve with its text operators, jerasure, salticidae's streams, libsodium's
  VRF), the hash function of the tree, the number of elements a vector can hold, and what a
  default-constructed object of libff holds.

  An exception ends the handler with a fault; its state is then not given. The chunks that
  \<open>decode\<close> restores in place are those of \<open>arr\<close> behind the threshold, which nobody else
  holds.
\<close>

section \<open>Environment, state and outputs\<close>

record 's vrf_lib =
  vrf_outputbytes :: nat
  vrf_publickeybytes :: nat
  vrf_secretkeybytes :: nat
  vrf_keypair :: "'s \<Rightarrow> (bytes \<times> bytes) \<times> 's"
  vrf_prove :: "bytes \<Rightarrow> bytes \<Rightarrow> bytes"
  vrf_proof_to_hash :: "bytes \<Rightarrow> bytes"
  vrf_randombytes :: "nat \<Rightarrow> 's \<Rightarrow> bytes \<times> 's"

record ('f, 'g1, 'g2, 'gt, 's, 'mat, 'h) drg_env =
  env_lib :: "('f, 'g1, 'g2, 'gt, 's) pairing_lib"
  env_text :: "('f, 'g1, 'g2, 'gt) text_lib"
  env_coder :: "'mat jerasure"
  env_streams :: "'h stream_lib"
  env_vrf :: "'s vrf_lib"
  env_hash :: "hash \<Rightarrow> hash \<Rightarrow> hash"
  env_capacity :: nat
  env_sharing :: "('f, 'g1, 'g2) pvss_sharing"
  env_origin :: nat

definition HASH_SIZE :: nat where
  "HASH_SIZE = 32"

record ('f, 'g1, 'g2, 'a) drg_core =
  core_id :: ReplicaID
  core_round :: int
  core_random :: bytes
  core_difficulty :: bytes
  core_vrfpk :: bytes
  core_vrfsk :: bytes
  core_context :: "('f, 'g1, 'g2) pvss_context"
  core_config :: "'a ReplicaConfig"
  sharechunk_matrix :: "(ReplicaID, (u32, chunk_t) umap) umap"
  sharing_map :: "(ReplicaID, ('f, 'g1, 'g2) pvss_sharing) umap"
  dec_share_vec :: "('f, 'g1) decryption list"

datatype 'h drg_call =
    Do_Sharechunk "'h share_chunk" ReplicaID
  | Do_Share share ReplicaID
  | Do_Broadcast_Sharechunk "'h share_chunk"
  | Do_Broadcast_Share share

section \<open>Construction\<close>

definition core_make ::
  "('f, 'g1, 'g2, 'gt, 's, 'mat, 'h) drg_env \<Rightarrow> ReplicaID \<Rightarrow> ('f, 'g1, 'g2) pvss_context \<Rightarrow> 's \<Rightarrow>
   ('f, 'g1, 'g2, 'a) drg_core \<times> 's" where
  "core_make E rid ctx s =
     (let (rnd, s) = vrf_randombytes (env_vrf E) 32 s
      in (\<lparr>core_id = rid, core_round = 0, core_random = rnd,
           core_difficulty = (replicate (vrf_outputbytes (env_vrf E)) 0)[0 := 128],
           core_vrfpk = replicate (vrf_publickeybytes (env_vrf E)) 0,
           core_vrfsk = replicate (vrf_secretkeybytes (env_vrf E)) 0,
           core_context = ctx, core_config = config_make 0 0,
           sharechunk_matrix = [], sharing_map = [], dec_share_vec = []\<rparr>, s))"

definition core_add_replica ::
  "ReplicaID \<Rightarrow> 'a \<Rightarrow> ('f, 'g1, 'g2, 'a) drg_core \<Rightarrow> ('f, 'g1, 'g2, 'a) drg_core" where
  "core_add_replica rid addr st =
     st\<lparr>core_config := config_add_replica rid \<lparr>info_id = rid, info_addr = addr\<rparr> (core_config st)\<rparr>"

text \<open>\<open>floor(nreplicas / 4.0) + 1\<close>; the quotient is exact in a \<open>double\<close> up to \<open>2 ^ 53\<close> replicas.\<close>

definition on_init :: "('f, 'g1, 'g2, 'a) drg_core \<Rightarrow> ('f, 'g1, 'g2, 'a) drg_core" where
  "on_init st =
     st\<lparr>core_config := (core_config st)\<lparr>nreconthres := nreplicas (core_config st) div 4 + 1\<rparr>\<rparr>"

section \<open>The start of a round\<close>

fun compare_loop :: "bytes \<Rightarrow> bytes \<Rightarrow> nat list \<Rightarrow> bool res" where
  "compare_loop a b [] = Inr True"
| "compare_loop a b (i # is) =
     res_bind (vec_get a i) (\<lambda>x. res_bind (vec_get b i) (\<lambda>y.
       if y < x then Inr False else compare_loop a b is))"

definition unsigned_char_compare :: "bytes \<Rightarrow> bytes \<Rightarrow> nat \<Rightarrow> bool res" where
  "unsigned_char_compare a b len = compare_loop a b [0..<len]"

definition vrf_hash ::
  "('f, 'g1, 'g2, 'gt, 's, 'mat, 'h) drg_env \<Rightarrow> ('f, 'g1, 'g2, 'a) drg_core \<Rightarrow> 's \<Rightarrow>
   bytes \<times> ('f, 'g1, 'g2, 'a) drg_core \<times> 's" where
  "vrf_hash E st s =
     (let V = env_vrf E;
          ((pk, sk), s) = vrf_keypair V s;
          st = st\<lparr>core_vrfpk := pk, core_vrfsk := sk\<rparr>;
          proof = vrf_prove V sk (core_random st)
      in (vrf_proof_to_hash V proof, st, s))"

section \<open>Dealing\<close>

text \<open>\<open>(int) config.nreconthres\<close> and \<open>(int)(config.nreplicas - config.nreconthres)\<close>. A negative
  count would be the size of an allocation.\<close>

definition code_sizes :: "'a ReplicaConfig \<Rightarrow> (nat \<times> nat) res" where
  "code_sizes cfg =
     (let k = to_int32 (int (nreconthres cfg));
          m = to_int32 (int (size_sub (nreplicas cfg) (nreconthres cfg)))
      in if k < 0 \<or> m < 0 then Inl Undefined_Read else Inr (nat k, nat m))"

text \<open>The sharing as text, its length in front of it.\<close>

definition sharing_stream ::
  "('f, 'g1, 'g2, 'gt, 's, 'mat, 'h) drg_env \<Rightarrow> ('f, 'g1, 'g2) pvss_sharing \<Rightarrow> bytes" where
  "sharing_stream E sharing =
     (let sharingbytes = string_bytes (put_sharing (env_lib E) (env_text E) sharing)
      in put_u32 (env_streams E) (htole (env_streams E) (word_of_nat (length sharingbytes))) @ sharingbytes)"

fun insert_chunks :: "chunk_t list \<Rightarrow> nat list \<Rightarrow> mtree \<Rightarrow> mtree res" where
  "insert_chunks chunks [] t = Inr t"
| "insert_chunks chunks (i # is) t =
     res_bind (chunk_at chunks i) (\<lambda>c.
     res_bind (hash_of_vector HASH_SIZE (chunk_data c)) (\<lambda>h. insert_chunks chunks is (tree_insert h t)))"

fun send_chunks ::
  "('f, 'g1, 'g2, 'gt, 's, 'mat, 'h) drg_env \<Rightarrow> ReplicaID \<Rightarrow> 'h \<Rightarrow> chunk_t list \<Rightarrow> nat list \<Rightarrow> mtree \<Rightarrow>
   'h drg_call list res" where
  "send_chunks E rid rt chunks [] t = Inr []"
| "send_chunks E rid rt chunks (i # is) t =
     res_bind (tree_path (env_hash E) HASH_SIZE i t) (\<lambda>(p, t).
       let patharr = path_serialise p []
       in res_bind
            (if i \<noteq> unat rid
             then res_bind (vec_get chunks i) (\<lambda>c.
               Inr [Do_Sharechunk \<lparr>sc_replica = rid, sc_idx = word_of_nat i, sc_round = 0, sc_chunk = c,
                      sc_root = rt, sc_proof = patharr\<rparr> (word_of_nat i)])
             else Inr [])
            (\<lambda>calls. res_bind (send_chunks E rid rt chunks is t) (\<lambda>rest. Inr (calls @ rest))))"

definition deliver_chunk ::
  "('f :: field, 'g1 :: ab_group_add, 'g2 :: ab_group_add, 'gt, 's, 'mat, 'h) drg_env \<Rightarrow>
   ('f, 'g1, 'g2, 'a) drg_core \<Rightarrow> 's \<Rightarrow> ('h drg_call list \<times> 's) res" where
  "deliver_chunk E st s =
     res_bind (create_sharing (env_lib E) (core_context st) s) (\<lambda>(sharing, s).
     res_bind (code_sizes (core_config st)) (\<lambda>(k, m).
     res_bind (encode (env_coder E) (env_streams E) k m 8 (sharing_stream E sharing)) (\<lambda>chunk_array.
     res_bind (insert_chunks chunk_array [0..<nreplicas (core_config st)] tree_empty) (\<lambda>t.
     res_bind (tree_root (env_hash E) HASH_SIZE t) (\<lambda>(rt, t).
       let hash = u256_of_bytes (env_streams E) (hash_serialise rt [])
       in res_bind (send_chunks E (core_id st) hash chunk_array [0..<nreplicas (core_config st)] t)
            (\<lambda>calls. Inr (calls, s)))))))"

definition vrf ::
  "('f :: field, 'g1 :: ab_group_add, 'g2 :: ab_group_add, 'gt, 's, 'mat, 'h) drg_env \<Rightarrow>
   ('f, 'g1, 'g2, 'a) drg_core \<Rightarrow> 's \<Rightarrow> (('f, 'g1, 'g2, 'a) drg_core \<times> 'h drg_call list \<times> 's) res" where
  "vrf E st s =
     (let (hash, st, s) = vrf_hash E st s
      in res_bind (unsigned_char_compare hash (core_difficulty st) (vrf_outputbytes (env_vrf E))) (\<lambda>below.
           if below then res_bind (deliver_chunk E st s) (\<lambda>(calls, s). Inr (st, calls, s))
           else Inr (st, [], s)))"

definition on_receive_start ::
  "('f :: field, 'g1 :: ab_group_add, 'g2 :: ab_group_add, 'gt, 's, 'mat, 'h) drg_env \<Rightarrow>
   ('f, 'g1, 'g2, 'a) drg_core \<Rightarrow> 's \<Rightarrow> (('f, 'g1, 'g2, 'a) drg_core \<times> 'h drg_call list \<times> 's) res" where
  "on_receive_start E st s = vrf E st s"

text \<open>The numbers of replicas and of chunks of a configuration, in the range of the code.\<close>

definition counts_ok :: "'a ReplicaConfig \<Rightarrow> bool" where
  "counts_ok cfg \<longleftrightarrow> 0 < nreconthres cfg \<and> nreconthres cfg \<le> nreplicas cfg \<and> nreplicas cfg \<le> 2 ^ 16"

lemma code_sizes_ok:
  assumes "counts_ok cfg"
  shows "code_sizes cfg = Inr (nreconthres cfg, nreplicas cfg - nreconthres cfg)"
proof -
  have "nreplicas cfg < 2 ^ 31" "nreplicas cfg < 2 ^ 64"
    using assms by (simp_all add: counts_ok_def order_le_less_trans)
  moreover from this have "nreconthres cfg < 2 ^ 31" "nreplicas cfg - nreconthres cfg < 2 ^ 31"
    using assms by (simp_all add: counts_ok_def less_imp_diff_less)
  ultimately show ?thesis
    using assms by (simp add: code_sizes_def counts_ok_def size_sub_le to_int32_of_nat Let_def del: of_nat_diff)
qed

section \<open>What is relied on of the libraries\<close>

definition env_laws ::
  "('f :: field, 'g1 :: ab_group_add, 'g2 :: ab_group_add, 'gt, 's, 'mat, 'h) drg_env \<Rightarrow> nat \<Rightarrow> nat \<Rightarrow> bool" where
  "env_laws E k m \<longleftrightarrow> lib_laws (env_lib E) \<and> text_laws (env_lib E) (env_text E) \<and>
     stream_laws (env_streams E) \<and> jerasure_laws (env_coder E) k m 8 \<and>
     (\<forall>a b. length (env_hash E a b) = HASH_SIZE) \<and> env_capacity E < 2 ^ 64 \<and>
     commitments (env_sharing E) = [] \<and> dleq_proofs (env_sharing E) = []"

end
