(* ===== verification/Drg_Handlers.thy ===== *)
theory Drg_Handlers
  imports Drg_Core
begin

text \<open>
  The receiving handlers of the protocol core (\<open>on_receive_shareChunk\<close> and
  \<open>on_receive_share\<close> of \<open>src/DrgCore.cpp\<close>), in pieces that follow the handler from its
  first line to its last: the check of the path, the row of chunks it decodes, decoding,
  and what is done when the sharings of the first \<open>nreconthres\<close> replicas are there.
\<close>

section \<open>Shares\<close>

definition on_receive_share ::
  "('f :: field, 'g1 :: ab_group_add, 'g2, 'gt, 's, 'mat, 'h) drg_env \<Rightarrow> share \<Rightarrow>
   ('f, 'g1, 'g2, 'a) drg_core \<Rightarrow> ('f, 'g1, 'g2, 'a) drg_core res" where
  "on_receive_share E sh st =
     (let qsize = length (dec_share_vec st); k = nreconthres (core_config st)
      in if k \<le> qsize then Inr st
         else let (d, _) = get_decryption (env_text E) (env_origin E) (Some (bytes_string (share_bt sh)));
                  st = st\<lparr>dec_share_vec := dec_share_vec st @ [d]\<rparr>
              in if qsize + 1 = k
                 then res_bind (reconstruct (env_lib E) (core_context st) (dec_share_vec st)) (\<lambda>b.
                        let beacon_bytes = string_bytes (put_beacon (env_lib E) (env_text E) b)
                        in Inr st)
                 else Inr st)"

section \<open>Chunks\<close>

definition path_checks ::
  "('f, 'g1, 'g2, 'gt, 's, 'mat, 'h) drg_env \<Rightarrow> 'h share_chunk \<Rightarrow> bool res" where
  "path_checks E sc =
     res_bind (hash_of_vector HASH_SIZE (u256_bytes (env_streams E) (sc_root sc))) (\<lambda>rt.
     res_bind (path_of_bytes HASH_SIZE (sc_proof sc)) (\<lambda>p.
       Inr (path_verify (env_hash E) p rt)))"

text \<open>
  The first part of the handler: a chunk whose index is not in its dealer's row is stored if
  its path leads to its root, and sent on in either case. The result has the size of the row.
\<close>

definition store_chunk ::
  "('f, 'g1, 'g2, 'gt, 's, 'mat, 'h) drg_env \<Rightarrow> 'h share_chunk \<Rightarrow> ('f, 'g1, 'g2, 'a) drg_core \<Rightarrow>
   (nat \<times> ('f, 'g1, 'g2, 'a) drg_core \<times> 'h drg_call list) res" where
  "store_chunk E sc st =
     (let (row, M) = um_index [] (sc_replica sc) (sharechunk_matrix st);
          st = st\<lparr>sharechunk_matrix := M\<rparr>; qsize = um_size row
      in if um_find row (sc_idx sc) = None
         then res_bind (path_checks E sc) (\<lambda>ok.
                if ok
                then Inr (qsize + 1,
                       st\<lparr>sharechunk_matrix := um_set (sc_replica sc) (um_set (sc_idx sc) (sc_chunk sc) row) M\<rparr>,
                       [Do_Broadcast_Sharechunk sc])
                else Inr (qsize, st, [Do_Broadcast_Sharechunk sc]))
         else Inr (qsize, st, []))"

text \<open>\<open>arr.push_back(sharechunk_matrix[_round][i])\<close>: both indexing operators insert what is not
  there, the inner one a null pointer. The round is converted to the type of the keys.\<close>

fun take_row ::
  "ReplicaID \<Rightarrow> nat list \<Rightarrow> (ReplicaID, (u32, chunk_t) umap) umap \<Rightarrow>
   chunk_t list \<times> (ReplicaID, (u32, chunk_t) umap) umap" where
  "take_row r [] M = ([], M)"
| "take_row r (i # is) M =
     (let (row, M) = um_index [] r M;
          (c, row) = um_index None (word_of_nat i) row;
          (cs, M) = take_row r is (um_set r row M)
      in (c # cs, M))"

text \<open>Decoding of the first \<open>k\<close> chunks, with zeros in place of the others, and parsing of the
  sharing. That \<open>decode\<close> may have failed is not looked at.\<close>

definition decode_sharing ::
  "('f, 'g1, 'g2, 'gt, 's, 'mat, 'h) drg_env \<Rightarrow> nat \<Rightarrow> nat \<Rightarrow> chunk_t list \<Rightarrow> chunk \<Rightarrow>
   ('f, 'g1, 'g2) pvss_sharing res" where
  "decode_sharing E k m row c =
     (let blank = Some \<lparr>chunk_size = chunk_size c, chunk_data = replicate (length (chunk_data c)) 0\<rparr>;
          arr = row @ replicate m blank;
          erasures = map int [k..<k + m] @ [- 1]
      in res_bind (decode (env_coder E) k m 8 arr erasures []) (\<lambda>(_, d).
         res_bind (get_u32 (env_streams E) d) (\<lambda>(n, d).
         res_bind (get_data_inplace (env_streams E) (unat (letoh (env_streams E) n)) d) (\<lambda>(extra, d).
         res_bind (get_sharing (env_capacity E) (env_text E) (env_sharing E) (Some (bytes_string extra)))
           (\<lambda>(sharing, _). Inr sharing)))))"

text \<open>The loop over the first \<open>k\<close> replicas: \<open>None\<close> when one of them has no sharing yet.\<close>

fun first_sharings ::
  "(ReplicaID, ('f, 'g1, 'g2) pvss_sharing) umap \<Rightarrow> nat list \<Rightarrow> ('f, 'g1, 'g2) pvss_sharing list option" where
  "first_sharings m [] = Some []"
| "first_sharings m (i # is) =
     (case um_find m (word_of_nat i) of
       None \<Rightarrow> None
     | Some sh \<Rightarrow> map_option (\<lambda>shs. sh # shs) (first_sharings m is))"

text \<open>Aggregation, decryption, and the share that is sent to the others.\<close>

definition make_share ::
  "('f :: field, 'g1 :: ab_group_add, 'g2 :: ab_group_add, 'gt, 's, 'mat, 'h) drg_env \<Rightarrow>
   ('f, 'g1, 'g2) pvss_sharing list \<Rightarrow> nat list \<Rightarrow> ('f, 'g1, 'g2, 'a) drg_core \<Rightarrow> 's \<Rightarrow> (share \<times> 's) res" where
  "make_share E sharing_vec ids st s =
     res_bind (aggregate sharing_vec ids) (\<lambda>agg.
     res_bind (decrypt (env_lib E) (core_context st) agg s) (\<lambda>(d, s).
       Inr (\<lparr>share_replica = core_id st,
             share_bt = string_bytes (put_decryption (env_lib E) (env_text E) d)\<rparr>, s)))"

text \<open>The part of the handler behind the test \<open>qsize == config.nreconthres\<close>.\<close>

definition complete_row ::
  "('f :: field, 'g1 :: ab_group_add, 'g2 :: ab_group_add, 'gt, 's, 'mat, 'h) drg_env \<Rightarrow>
   'h share_chunk \<Rightarrow> chunk \<Rightarrow> ('f, 'g1, 'g2, 'a) drg_core \<Rightarrow> 's \<Rightarrow>
   (('f, 'g1, 'g2, 'a) drg_core \<times> 'h drg_call list \<times> 's) res" where
  "complete_row E sc c st s =
     res_bind (code_sizes (core_config st)) (\<lambda>(k, m).
       let (row, M) = take_row (ucast (sc_round sc)) [0..<k] (sharechunk_matrix st);
           st = st\<lparr>sharechunk_matrix := M\<rparr>
       in res_bind (decode_sharing E k m row c) (\<lambda>sharing.
            let st = st\<lparr>sharing_map := um_set (sc_replica sc) sharing (sharing_map st)\<rparr>
            in case first_sharings (sharing_map st) [0..<k] of
                 None \<Rightarrow> Inr (st, [], s)
               | Some sharing_vec \<Rightarrow>
                   res_bind (make_share E sharing_vec [0..<k] st s) (\<lambda>(sh, s).
                   res_bind (on_receive_share E sh st) (\<lambda>st.
                     Inr (st, [Do_Broadcast_Share sh], s)))))"

definition on_receive_shareChunk ::
  "('f :: field, 'g1 :: ab_group_add, 'g2 :: ab_group_add, 'gt, 's, 'mat, 'h) drg_env \<Rightarrow>
   'h share_chunk \<Rightarrow> ('f, 'g1, 'g2, 'a) drg_core \<Rightarrow> 's \<Rightarrow>
   (('f, 'g1, 'g2, 'a) drg_core \<times> 'h drg_call list \<times> 's) res" where
  "on_receive_shareChunk E sc st s =
     (let (row, M) = um_index [] (sc_replica sc) (sharechunk_matrix st)
      in if nreconthres (core_config st) < um_size row then Inr (st\<lparr>sharechunk_matrix := M\<rparr>, [], s)
         else res_bind (store_chunk E sc st) (\<lambda>(qsize, st, calls).
           case sc_chunk sc of
             None \<Rightarrow> Inl Undefined_Read
           | Some c \<Rightarrow>
               if qsize = nreconthres (core_config st)
               then res_bind (complete_row E sc c st s) (\<lambda>(st, calls', s). Inr (st, calls @ calls', s))
               else Inr (st, calls, s)))"

end
