(* ===== verification/Drg_Example.thy ===== *)
theory Drg_Example
  imports Drg_Core Pvss_Correct
begin

text \<open>
  An instance of everything the protocol takes from libraries, small enough to compute with: the
  field of three elements, which is also both groups and the target of the pairing, elements
  that print as one digit, the code that copies its single block, streams in the byte order of
  the machine, and a hash function that fills. Witnesses of the protocol's theorems use it with
  two replicas.
\<close>

datatype gf3 = Zero3 | One3 | Two3

instantiation gf3 :: field
begin

definition zero_gf3 :: gf3 where
  "zero_gf3 = Zero3"

definition one_gf3 :: gf3 where
  "one_gf3 = One3"

fun plus_gf3 :: "gf3 \<Rightarrow> gf3 \<Rightarrow> gf3" where
  "plus_gf3 Zero3 y = y"
| "plus_gf3 x Zero3 = x"
| "plus_gf3 One3 One3 = Two3"
| "plus_gf3 One3 Two3 = Zero3"
| "plus_gf3 Two3 One3 = Zero3"
| "plus_gf3 Two3 Two3 = One3"

fun uminus_gf3 :: "gf3 \<Rightarrow> gf3" where
  "uminus_gf3 Zero3 = Zero3"
| "uminus_gf3 One3 = Two3"
| "uminus_gf3 Two3 = One3"

definition minus_gf3 :: "gf3 \<Rightarrow> gf3 \<Rightarrow> gf3" where
  "minus_gf3 x y = x + - y"

fun times_gf3 :: "gf3 \<Rightarrow> gf3 \<Rightarrow> gf3" where
  "times_gf3 Zero3 y = Zero3"
| "times_gf3 x Zero3 = Zero3"
| "times_gf3 One3 y = y"
| "times_gf3 x One3 = x"
| "times_gf3 Two3 Two3 = One3"

definition inverse_gf3 :: "gf3 \<Rightarrow> gf3" where
  "inverse_gf3 x = x"

definition divide_gf3 :: "gf3 \<Rightarrow> gf3 \<Rightarrow> gf3" where
  "divide_gf3 x y = x * inverse y"

instance
proof
  fix a b c :: gf3
  show "a + b + c = a + (b + c)" by (cases a; cases b; cases c; simp)
  show "a + b = b + a" by (cases a; cases b; simp)
  show "0 + a = a" by (simp add: zero_gf3_def)
  show "- a + a = 0" by (cases a; simp add: zero_gf3_def)
  show "a - b = a + - b" by (simp add: minus_gf3_def)
  show "a * b * c = a * (b * c)" by (cases a; cases b; cases c; simp)
  show "a * b = b * a" by (cases a; cases b; simp)
  show "1 * a = a" by (cases a; simp add: one_gf3_def)
  show "(a + b) * c = a * c + b * c" by (cases a; cases b; cases c; simp)
  show "(0 :: gf3) \<noteq> 1" by (simp add: zero_gf3_def one_gf3_def)
  show "a \<noteq> 0 \<Longrightarrow> inverse a * a = 1" by (cases a; simp add: zero_gf3_def one_gf3_def inverse_gf3_def)
  show "a div b = a * inverse b" by (simp add: divide_gf3_def)
  show "inverse (0 :: gf3) = 0" by (simp add: inverse_gf3_def)
qed

end

fun gf3_show :: "gf3 \<Rightarrow> string" where
  "gf3_show Zero3 = ''0''"
| "gf3_show One3 = ''1''"
| "gf3_show Two3 = ''2''"

fun gf3_read :: "istream \<Rightarrow> gf3 \<times> istream" where
  "gf3_read (Some (c # s)) =
     (if c = CHR ''0'' then Zero3 else if c = CHR ''1'' then One3 else Two3, Some s)"
| "gf3_read st = (Zero3, None)"

definition gf3_lib :: "(gf3, gf3, gf3, gf3, unit) pairing_lib" where
  "gf3_lib = \<lparr>smul1 = (*), smul2 = (*), show1 = gf3_show, show2 = gf3_show, of_hex = (\<lambda>h. One3),
     random_fr = (\<lambda>s. (One3, s)), random_g1 = (\<lambda>s. (One3, s)), random_g2 = (\<lambda>s. (One3, s)),
     pairing = (*), reduced_pairing = (*)\<rparr>"

definition gf3_text :: "(gf3, gf3, gf3, gf3) text_lib" where
  "gf3_text = \<lparr>show_fr = gf3_show, show_gt = gf3_show, read_fr = gf3_read, read_g1 = gf3_read,
     read_g2 = gf3_read, read_gt = gf3_read, output_newline = newline, consume = map_option tl\<rparr>"

definition example_vrf :: "unit vrf_lib" where
  "example_vrf = \<lparr>vrf_outputbytes = 2, vrf_publickeybytes = 1, vrf_secretkeybytes = 1,
     vrf_keypair = (\<lambda>s. (([1], [2]), s)), vrf_prove = (\<lambda>sk msg. sk), vrf_proof_to_hash = (\<lambda>proof. [100, 0]),
     vrf_randombytes = (\<lambda>n s. (replicate n 7, s))\<rparr>"

definition example_sharing :: "(gf3, gf3, gf3) pvss_sharing" where
  "example_sharing = \<lparr>encryptions = [], commitments = [], dleq_proofs = [],
     decomp_pi = \<lparr>decomp_dleq = \<lparr>dleq_gr = 0, dleq_pi = 0\<rparr>, decomp_gs = 0\<rparr>, secret = 0\<rparr>"

definition example_env :: "(gf3, gf3, gf3, gf3, unit, unit, 256 word) drg_env" where
  "example_env = \<lparr>env_lib = gf3_lib, env_text = gf3_text, env_coder = copy_code, env_streams = le_streams,
     env_vrf = example_vrf, env_hash = (\<lambda>a b. replicate HASH_SIZE 5), env_capacity = 100,
     env_sharing = example_sharing, env_origin = 0\<rparr>"

lemma gf3_lib_laws: "lib_laws gf3_lib"
  using module_times by (simp add: lib_laws_def gf3_lib_def)

lemma gf3_text_laws: "text_laws gf3_lib gf3_text"
proof -
  have "gf3_read (Some (gf3_show x @ newline @ rest)) = (x, Some (newline @ rest))" for x rest
    by (cases x) simp_all
  then have "text_codec (\<lambda>x. True) gf3_show gf3_read"
    by unfold_locales simp
  then show ?thesis
    by (simp add: text_laws_def gf3_lib_def gf3_text_def consumes_newline_def)
qed

lemma example_env_laws: "env_laws example_env 1 1"
  using gf3_lib_laws gf3_text_laws le_streams_laws copy_code_laws
  by (simp add: env_laws_def example_env_def example_sharing_def)

lemma gf3_fits: "field_fits TYPE(gf3) 2"
proof -
  have "{..2 :: nat} = {0, 1, 2}"
    by auto
  moreover have "(2 :: gf3) = Two3"
    by (simp add: one_gf3_def flip: one_add_one)
  ultimately have "inj_on (of_nat :: nat \<Rightarrow> gf3) {..2}"
    by (simp add: zero_gf3_def one_gf3_def)
  then show ?thesis
    by (simp add: field_fits_def fr_max_size_def)
qed

text \<open>The context of replica \<open>i\<close> of two.\<close>

definition example_context :: "nat \<Rightarrow> (gf3, gf3, gf3) pvss_context" where
  "example_context i = \<lparr>pk_map = [1, 1], config = FromNumReplicas 2, ctx_g1 = 1, ctx_g2 = 1, ctx_h1 = 1, ctx_h2 = 1,
     secret_key = 1, my_id = i\<rparr>"

lemma example_context_eq:
  "i < 2 \<Longrightarrow> example_context i = factory_context gf3_lib (FromNumReplicas 2) 1 1 1 1 [1, 1] i"
  by (auto simp: example_context_def factory_context_def gf3_lib_def less_2_cases_iff)

lemma example_sizes: "num_replicas (FromNumReplicas 2) = 2" "num_faults (FromNumReplicas 2) = 0"
    "sizes_ok TYPE(gf3) (FromNumReplicas 2)"
  using gf3_fits num_replicas_FromNumReplicas [of 2] num_faults_FromNumReplicas [of 2]
  by (simp_all add: sizes_ok_def)

lemma example_create_sharing:
  obtains p sh where "create_sharing gf3_lib (example_context i) () = Inr (sh, ())"
    and "sharing_of gf3_lib (example_context i) p sh"
  using create_sharing_ok [OF gf3_lib_laws, of "example_context i" "()"] example_sizes
  by (auto simp: example_context_def)

end
