(* ===== verification/Drg_Base.thy ===== *)
theory Drg_Base
  imports Drg_Handlers Drg_Example
begin

text \<open>
  The network layer of a replica (\<open>DrgBase\<close> of \<open>include/DrgBase.hpp\<close> and
  \<open>src/DrgBase.cpp\<close>): its peers, the messages its virtual functions send, and the handlers
  it registers. A packet is the address it goes to, the opcode and the body. The network
  library (\<open>salticidae::PeerNetwork\<close>) calls a handler with the address of the sender, or none,
  and drops packets whose opcode has no handler. The calls of the constructor and of \<open>start\<close>
  to the network library are recorded in the order they are made.

  The calls of a handler of the core are turned into packets after the handler; between the
  two nothing changes that the packets depend on.
\<close>

record 'a packet =
  pk_dest :: 'a
  pk_opcode :: u8
  pk_body :: bytes

datatype 'a net_command =
    Net_Reg_Conn_Handler
  | Net_Reg_Handler u8
  | Net_Start
  | Net_Listen 'a
  | Net_Add_Peer 'a
  | Net_Set_Peer_Addr 'a 'a
  | Net_Conn_Peer 'a
  | Net_Send "'a packet"

record ('f, 'g1, 'g2, 'a) drg_base =
  base_core :: "('f, 'g1, 'g2, 'a) drg_core"
  listen_addr :: 'a
  peers :: "'a list"
  base_net :: "'a net_command list"

definition MsgStart_opcode :: u8 where
  "MsgStart_opcode = 0"

definition MsgShareChunk_opcode :: u8 where
  "MsgShareChunk_opcode = 1"

definition MsgShare_opcode :: u8 where
  "MsgShare_opcode = 2"

section \<open>Start\<close>

text \<open>The handlers the constructor registers, with the opcodes of their messages. There is none
  for \<open>MsgShare\<close>.\<close>

datatype drg_handler = Sharechunk_Handler | Start_Handler

definition base_handlers :: "(u8 \<times> drg_handler) list" where
  "base_handlers = [(MsgShareChunk_opcode, Sharechunk_Handler), (MsgStart_opcode, Start_Handler)]"

definition base_call :: "'a net_command \<Rightarrow> ('f, 'g1, 'g2, 'a) drg_base \<Rightarrow> ('f, 'g1, 'g2, 'a) drg_base" where
  "base_call c b = b\<lparr>base_net := base_net b @ [c]\<rparr>"

definition base_make ::
  "('f, 'g1, 'g2, 'gt, 's, 'mat, 'h) drg_env \<Rightarrow> ReplicaID \<Rightarrow> 'a \<Rightarrow> ('f, 'g1, 'g2) pvss_context \<Rightarrow> 's \<Rightarrow>
   ('f, 'g1, 'g2, 'a) drg_base \<times> 's" where
  "base_make E rid addr ctx s =
     (let (core, s) = core_make E rid ctx s
      in (\<lparr>base_core = core, listen_addr = addr, peers = [],
           base_net = Net_Reg_Conn_Handler # map (Net_Reg_Handler \<circ> fst) base_handlers @
             [Net_Start, Net_Listen addr]\<rparr>, s))"

fun start_loop :: "nat \<Rightarrow> 'a list \<Rightarrow> ('f, 'g1, 'g2, 'a) drg_base \<Rightarrow> ('f, 'g1, 'g2, 'a) drg_base" where
  "start_loop i [] b = b"
| "start_loop i (addr # addrs) b =
     (let b = b\<lparr>base_core := core_add_replica (word_of_nat i) addr (base_core b)\<rparr>;
          b = (if addr \<noteq> listen_addr b
               then base_call (Net_Set_Peer_Addr addr addr)
                 (base_call (Net_Add_Peer addr) (b\<lparr>peers := peers b @ [addr]\<rparr>))
               else b)
      in start_loop (i + 1) addrs b)"

text \<open>The event loop that \<open>start\<close> enters at its end calls the handlers.\<close>

definition base_start :: "'a list \<Rightarrow> 'a \<Rightarrow> ('f, 'g1, 'g2, 'a) drg_base \<Rightarrow> ('f, 'g1, 'g2, 'a) drg_base" where
  "base_start replicas client b =
     (let b = start_loop 0 replicas b;
          b = base_call (Net_Set_Peer_Addr client client) (base_call (Net_Add_Peer client) b)
      in b\<lparr>base_core := on_init (base_core b)\<rparr>)"

section \<open>Messages\<close>

definition msg_sharechunk ::
  "('f, 'g1, 'g2, 'gt, 's, 'mat, 'h) drg_env \<Rightarrow> 'h share_chunk \<Rightarrow> 'a \<Rightarrow> 'a packet res" where
  "msg_sharechunk E sc dest =
     res_bind (share_chunk_serialize (env_streams E) sc []) (\<lambda>body.
       Inr \<lparr>pk_dest = dest, pk_opcode = MsgShareChunk_opcode, pk_body = body\<rparr>)"

definition msg_share ::
  "('f, 'g1, 'g2, 'gt, 's, 'mat, 'h) drg_env \<Rightarrow> share \<Rightarrow> 'a \<Rightarrow> 'a packet" where
  "msg_share E sh dest =
     \<lparr>pk_dest = dest, pk_opcode = MsgShare_opcode, pk_body = share_serialize (env_streams E) sh []\<rparr>"

definition do_sharechunk ::
  "('f, 'g1, 'g2, 'gt, 's, 'mat, 'h) drg_env \<Rightarrow> ('f, 'g1, 'g2, 'a) drg_base \<Rightarrow> 'h share_chunk \<Rightarrow> ReplicaID \<Rightarrow>
   'a packet list res" where
  "do_sharechunk E b sc dest =
     res_bind (get_addr (core_config (base_core b)) dest) (\<lambda>a.
     res_bind (msg_sharechunk E sc a) (\<lambda>p. Inr [p]))"

definition do_share ::
  "('f, 'g1, 'g2, 'gt, 's, 'mat, 'h) drg_env \<Rightarrow> ('f, 'g1, 'g2, 'a) drg_base \<Rightarrow> share \<Rightarrow> ReplicaID \<Rightarrow>
   'a packet list res" where
  "do_share E b sh dest =
     res_bind (get_addr (core_config (base_core b)) dest) (\<lambda>a. Inr [msg_share E sh a])"

definition do_broadcast_share ::
  "('f, 'g1, 'g2, 'gt, 's, 'mat, 'h) drg_env \<Rightarrow> ('f, 'g1, 'g2, 'a) drg_base \<Rightarrow> share \<Rightarrow> 'a packet list" where
  "do_broadcast_share E b sh = map (msg_share E sh) (peers b)"

definition do_broadcast_sharechunk ::
  "('f, 'g1, 'g2, 'gt, 's, 'mat, 'h) drg_env \<Rightarrow> ('f, 'g1, 'g2, 'a) drg_base \<Rightarrow> 'h share_chunk \<Rightarrow>
   'a packet list res" where
  "do_broadcast_sharechunk E b sc = res_map (msg_sharechunk E sc) (peers b)"

fun perform ::
  "('f, 'g1, 'g2, 'gt, 's, 'mat, 'h) drg_env \<Rightarrow> ('f, 'g1, 'g2, 'a) drg_base \<Rightarrow> 'h drg_call \<Rightarrow>
   'a packet list res" where
  "perform E b (Do_Sharechunk sc dest) = do_sharechunk E b sc dest"
| "perform E b (Do_Share sh dest) = do_share E b sh dest"
| "perform E b (Do_Broadcast_Sharechunk sc) = do_broadcast_sharechunk E b sc"
| "perform E b (Do_Broadcast_Share sh) = Inr (do_broadcast_share E b sh)"

definition perform_all ::
  "('f, 'g1, 'g2, 'gt, 's, 'mat, 'h) drg_env \<Rightarrow> ('f, 'g1, 'g2, 'a) drg_base \<Rightarrow> 'h drg_call list \<Rightarrow>
   'a packet list res" where
  "perform_all E b calls = res_bind (res_map (perform E b) calls) (\<lambda>ps. Inr (concat ps))"

section \<open>Handlers\<close>

definition conn_handler :: "bool \<Rightarrow> bool" where
  "conn_handler c = True"

text \<open>The handler of the client's start message does nothing.\<close>

definition start_handler ::
  "'a option \<Rightarrow> ('f, 'g1, 'g2, 'a) drg_base \<Rightarrow> ('f, 'g1, 'g2, 'a) drg_base" where
  "start_handler peer b = b"

definition MsgShareChunk_parse ::
  "('f, 'g1, 'g2, 'gt, 's, 'mat, 'h) drg_env \<Rightarrow> bytes \<Rightarrow> ('h share_chunk \<times> bytes) res" where
  [simp]: "MsgShareChunk_parse E serialized = share_chunk_unserialize (env_streams E) serialized"

definition MsgShare_parse ::
  "('f, 'g1, 'g2, 'gt, 's, 'mat, 'h) drg_env \<Rightarrow> bytes \<Rightarrow> (share \<times> bytes) res" where
  "MsgShare_parse E serialized = share_unserialize (env_streams E) serialized"

definition sharechunk_handler ::
  "('f :: field, 'g1 :: ab_group_add, 'g2 :: ab_group_add, 'gt, 's, 'mat, 'h) drg_env \<Rightarrow> 'a option \<Rightarrow> bytes \<Rightarrow>
   ('f, 'g1, 'g2, 'a) drg_base \<Rightarrow> 's \<Rightarrow> (('f, 'g1, 'g2, 'a) drg_base \<times> 'a packet list \<times> 's) res" where
  "sharechunk_handler E peer body b s =
     (if peer = None then Inr (b, [], s)
      else res_bind (MsgShareChunk_parse E body) (\<lambda>(sc, _).
           res_bind (on_receive_shareChunk E sc (base_core b) s) (\<lambda>(core, calls, s).
           res_bind (perform_all E b calls) (\<lambda>packets.
             Inr (b\<lparr>base_core := core\<rparr>, packets, s)))))"

text \<open>The network library looks the handler of a packet up by its opcode.\<close>

definition receive_packet ::
  "('f :: field, 'g1 :: ab_group_add, 'g2 :: ab_group_add, 'gt, 's, 'mat, 'h) drg_env \<Rightarrow> 'a option \<Rightarrow> 'a packet \<Rightarrow>
   ('f, 'g1, 'g2, 'a) drg_base \<Rightarrow> 's \<Rightarrow> (('f, 'g1, 'g2, 'a) drg_base \<times> 'a packet list \<times> 's) res" where
  "receive_packet E peer p b s =
     (case map_of base_handlers (pk_opcode p) of
        Some Sharechunk_Handler \<Rightarrow> sharechunk_handler E peer (pk_body p) b s
      | Some Start_Handler \<Rightarrow> Inr (start_handler peer b, [], s)
      | None \<Rightarrow> Inr (b, [], s))"

lemma receive_packet_eq:
  "receive_packet E peer p b s =
     (if pk_opcode p = MsgShareChunk_opcode then sharechunk_handler E peer (pk_body p) b s
      else if pk_opcode p = MsgStart_opcode then Inr (start_handler peer b, [], s)
      else Inr (b, [], s))"
  by (simp add: receive_packet_def base_handlers_def)

section \<open>Start of a replica\<close>

definition peer_calls :: "'a list \<Rightarrow> 'a net_command list" where
  "peer_calls addrs = concat (map (\<lambda>a. [Net_Add_Peer a, Net_Set_Peer_Addr a a]) addrs)"

lemma start_loop_eq:
  "start_loop i addrs b =
     b\<lparr>base_core := (base_core b)\<lparr>core_config := config_add_all i addrs (core_config (base_core b))\<rparr>,
       peers := peers b @ filter (\<lambda>a. a \<noteq> listen_addr b) addrs,
       base_net := base_net b @ peer_calls (filter (\<lambda>a. a \<noteq> listen_addr b) addrs)\<rparr>"
  by (induction addrs arbitrary: i b) (simp_all add: core_add_replica_def base_call_def peer_calls_def)

lemmas base_start_simps = base_start_def start_loop_eq on_init_def base_call_def base_make_def core_make_def

text \<open>A replica that has been started knows all replicas of the list, waits for a quarter of
  them plus one, has every address but its own as a peer, and holds no chunks, sharings or
  shares. It has registered its handlers before it listens, and has named its peers and the
  client, in this order, to the network.\<close>

theorem base_start_state:
  fixes addrs :: "'a list"
  assumes "length addrs \<le> 2 ^ 16"
  shows "\<exists>b rnd s'. base_make E rid addr ctx s = (b, s') \<and> vrf_randombytes (env_vrf E) 32 s = (rnd, s') \<and>
    peers (base_start addrs client b) = filter (\<lambda>a. a \<noteq> addr) addrs \<and>
    nreplicas (core_config (base_core (base_start addrs client b))) = length addrs \<and>
    nreconthres (core_config (base_core (base_start addrs client b))) = length addrs div 4 + 1 \<and>
    (\<forall>j<length addrs. get_addr (core_config (base_core (base_start addrs client b))) (word_of_nat j) = Inr (addrs ! j)) \<and>
    sharechunk_matrix (base_core (base_start addrs client b)) = [] \<and>
    sharing_map (base_core (base_start addrs client b)) = [] \<and> dec_share_vec (base_core (base_start addrs client b)) = [] \<and>
    base_net (base_start addrs client b) =
      [Net_Reg_Conn_Handler, Net_Reg_Handler MsgShareChunk_opcode, Net_Reg_Handler MsgStart_opcode,
       Net_Start, Net_Listen addr] @
      peer_calls (filter (\<lambda>a. a \<noteq> addr) addrs @ [client])"
proof -
  obtain rnd s' where r: "vrf_randombytes (env_vrf E) 32 s = (rnd, s')"
    by (cases "vrf_randombytes (env_vrf E) 32 s")
  define b where "b = fst (base_make E rid addr ctx s)"
  have b: "base_make E rid addr ctx s = (b, s')" "peers b = []" "listen_addr b = addr"
      "core_config (base_core b) = config_make 0 0" "sharechunk_matrix (base_core b) = []"
      "sharing_map (base_core b) = []" "dec_share_vec (base_core b) = []"
      "base_net b = [Net_Reg_Conn_Handler, Net_Reg_Handler MsgShareChunk_opcode,
         Net_Reg_Handler MsgStart_opcode, Net_Start, Net_Listen addr]"
    by (simp_all add: b_def base_make_def core_make_def base_handlers_def r)
  have "length addrs < 2 ^ 64"
    using assms by (rule order_le_less_trans) simp
  then have n: "nreplicas (config_add_all 0 addrs (config_make 0 0 :: 'a ReplicaConfig)) = length addrs"
    using config_add_all_counts [of "config_make 0 0 :: 'a ReplicaConfig" addrs 0] by (simp add: config_make_def)
  have "get_addr (config_add_all 0 addrs (config_make 0 0)) (word_of_nat j) = Inr (addrs ! j)" if "j < length addrs" for j
    using get_addr_add_all [of 0 addrs "config_make 0 0" j] assms that
    by (simp add: config_make_def um_simps)
  then have "get_addr (cfg\<lparr>nreconthres := k\<rparr>) (word_of_nat j) = Inr (addrs ! j)"
    if "j < length addrs" "cfg = config_add_all 0 addrs (config_make 0 0)" for j k cfg
    using that by (simp add: get_addr_def get_info_def)
  with r b n show ?thesis
    by (intro exI [of _ b] exI [of _ rnd] exI [of _ s']) (simp add: base_start_def start_loop_eq on_init_def base_call_def peer_calls_def)
qed

theorem base_start_state_witness:
  "\<exists>b. base_make example_env 1 ''b'' (example_context 1) () = (b, ()) \<and>
    peers (base_start [''a'', ''b'', ''c''] ''d'' b) = [''a'', ''c''] \<and>
    nreconthres (core_config (base_core (base_start [''a'', ''b'', ''c''] ''d'' b))) = 1 \<and>
    Net_Add_Peer ''d'' \<in> set (base_net (base_start [''a'', ''b'', ''c''] ''d'' b))"
  using base_start_state [of "[''a'', ''b'', ''c'']" example_env 1 "''b''" "example_context 1" "()" "''d''"]
  by (fastforce simp: peer_calls_def)

text \<open>For the witnesses: replica \<open>rid\<close> of two.\<close>

definition example_base :: "ReplicaID \<Rightarrow> string \<Rightarrow> (gf3, gf3, gf3, string) drg_base" where
  "example_base rid addr =
     base_start [''a'', ''b''] ''c'' (fst (base_make example_env rid addr (example_context (unat rid)) ()))"

lemma example_base_core:
  "core_id (base_core (example_base rid addr)) = rid"
  "core_context (base_core (example_base rid addr)) = example_context (unat rid)"
  "nreplicas (core_config (base_core (example_base rid addr))) = 2"
  "nreconthres (core_config (base_core (example_base rid addr))) = 1"
  "sharechunk_matrix (base_core (example_base rid addr)) = []"
  "sharing_map (base_core (example_base rid addr)) = []"
  "dec_share_vec (base_core (example_base rid addr)) = []"
  "core_difficulty (base_core (example_base rid addr)) = [128, 0]"
  "core_random (base_core (example_base rid addr)) = replicate 32 7"
  "counts_ok (core_config (base_core (example_base rid addr)))"
proof -
  have "[128, 0 :: u8] = (replicate 2 0)[0 := 128]"
    by (simp add: numeral_2_eq_2)
  then show "core_difficulty (base_core (example_base rid addr)) = [128, 0]"
    by (simp add: example_base_def base_start_simps
        example_env_def example_vrf_def)
qed (simp_all add: example_base_def base_start_simps
      config_make_def config_add_replica_def example_env_def example_vrf_def counts_ok_def)

end
