(* ===== verification/Pvss_Setup.thy ===== *)
theory Pvss_Setup
  imports Drg_Example
begin

text \<open>
  The set-up program \<open>src/pvss_setup.cpp\<close>, which writes a context for each replica and a file
  of aggregated transcripts, with the text of configurations (\<open>include/pvss/Config.hpp\<close>), of
  optional values (\<open>include/pvss/Serialization.hpp\<close>) and of aggregates
  (\<open>include/pvss/Aggregation.hpp\<close>). A file is its name with its content. The numbers of the
  program are of type \<open>int\<close>; its count \<open>n\<close> is a natural number here (a negative one is rejected as
  \<open>0\<close> is), and the sums it computes from it, \<open>2*n\<close> and \<open>i + f + 1\<close>, end in \<open>Int_Overflow\<close> when they
  do not fit an \<open>int\<close>.
\<close>

section \<open>Text of configurations and optional values\<close>

definition system_is_valid :: "SyncSystemConfig \<Rightarrow> bool" where
  "system_is_valid c \<longleftrightarrow> num_faults c < num_replicas c"

definition system_pretty_print :: "SyncSystemConfig \<Rightarrow> string" where
  "system_pretty_print c =
     ''SystemConfig { # Replicas: '' @ put_size (num_replicas c) @ '', # Faults: '' @
     put_size (num_faults c) @ '' }''"

definition pretty_print :: "SyncSystemConfig \<Rightarrow> string" where
  "pretty_print c =
     ''SyncSystemConfig { # Replicas: '' @ put_size (num_replicas c) @ '', # Faults: '' @
     put_size (num_faults c) @ '' }''"

definition put_config :: "SyncSystemConfig \<Rightarrow> string" where
  "put_config c = put_size (num_replicas c) @ newline @ put_size (num_faults c) @ newline"

definition get_config ::
  "(istream \<Rightarrow> istream) \<Rightarrow> SyncSystemConfig \<Rightarrow> istream \<Rightarrow> SyncSystemConfig \<times> istream" where
  "get_config consum self st =
     (let (n, st) = get_size (num_replicas self) st; st = consum st;
          (f, st) = get_size (num_faults self) st; st = consum st
      in (\<lparr>num_replicas = n, num_faults = f\<rparr>, st))"

lemma get_put_config:
  assumes "consumes_newline consum" and "num_replicas c < 2 ^ 64" and "num_faults c < 2 ^ 64"
  shows "get_config consum self (Some (put_config c @ rest)) = (c, Some rest)"
  using size_text.get_put_line [OF assms(2), of "num_replicas self"]
    size_text.get_put_line [OF assms(3), of "num_faults self"]
  by (simp add: get_config_def put_config_def consumes_newlineD [OF assms(1)])

text \<open>\<open>in >> hasVal\<close>: a number other than \<open>0\<close> and \<open>1\<close> sets the variable and fails.\<close>

definition get_bool :: "istream \<Rightarrow> bool \<times> istream" where
  "get_bool st =
     (case get_size 0 st of (n, None) \<Rightarrow> (n \<noteq> 0, None)
      | (n, Some s) \<Rightarrow> if n \<le> 1 then (n = 1, Some s) else (True, None))"

definition put_optional :: "('a \<Rightarrow> string) \<Rightarrow> 'a option \<Rightarrow> string" where
  "put_optional put x =
     (case x of Some v \<Rightarrow> put_size 1 @ newline @ put v @ newline | None \<Rightarrow> put_size 0 @ newline)"

definition get_optional ::
  "(istream \<Rightarrow> 'a \<times> istream) \<Rightarrow> (istream \<Rightarrow> istream) \<Rightarrow> 'a option \<Rightarrow> istream \<Rightarrow>
   ('a option \<times> istream) res" where
  "get_optional get consum x st =
     (if st = None then Inl Undefined_Read
      else let (has_val, st) = get_bool st; st = consum st
        in Inr (if has_val then let (v, st) = get st; st = consum st in (Some v, st) else (x, st)))"

lemma get_bool_line:
  "get_bool (Some (put_size 1 @ newline @ rest)) = (True, Some (newline @ rest))"
  "get_bool (Some (put_size 0 @ newline @ rest)) = (False, Some (newline @ rest))"
  using get_put_size [of 1 0 rest] get_put_size [of 0 0 rest] by (simp_all add: get_bool_def)

text \<open>An optional value is read back into an empty variable; the text of no value leaves a
  variable as it is.\<close>

lemma get_put_optional:
  assumes "text_codec (\<lambda>x. True) put get" and "consumes_newline consum"
  shows "get_optional get consum old (Some (put_optional put x @ rest)) =
    Inr (if x = None then old else x, Some rest)"
proof (cases x)
  case None
  then show ?thesis
    using get_bool_line(2) [of rest] consumes_newlineD [OF assms(2)]
    by (simp add: get_optional_def put_optional_def)
next
  case (Some v)
  then show ?thesis
    using get_bool_line(1) [of "put v @ newline @ rest"] consumes_newlineD [OF assms(2)]
      text_codec_line [OF assms(1)]
    by (simp add: get_optional_def put_optional_def)
qed

section \<open>Text of aggregates\<close>

text \<open>
  Without \<open>NDEBUG\<close> an aggregate has a member \<open>secret\<close>, which is written and read at the end;
  \<open>sec\<close> is its value, or \<open>None\<close> in a build with \<open>NDEBUG\<close>.
\<close>

definition put_aggregate ::
  "('f, 'g1, 'g2, 'gt, 's) pairing_lib \<Rightarrow> ('f, 'g1, 'g2, 'gt) text_lib \<Rightarrow> 'f option \<Rightarrow>
   ('f, 'g1, 'g2) pvss_aggregate \<Rightarrow> string" where
  "put_aggregate L T sec agg =
     serializeVector (show1 L) (agg_encryptions agg) @
     serializeVector (show2 L) (agg_commitments agg) @
     serializeVector (put_decomp (show2 L) (show_fr T)) (decomposition agg) @
     serializeVector put_size (id_vec agg) @
     (case sec of Some x \<Rightarrow> show_fr T x @ newline | None \<Rightarrow> [])"

definition get_aggregate ::
  "nat \<Rightarrow> ('f, 'g1, 'g2, 'gt) text_lib \<Rightarrow> bool \<Rightarrow> istream \<Rightarrow>
   (('f, 'g1, 'g2) pvss_aggregate \<times> 'f option \<times> istream) res" where
  "get_aggregate cap T debug st =
     res_bind (deserializeVector cap (read_g1 T) (consume T) st) (\<lambda>(encs, st).
     res_bind (deserializeVector cap (read_g2 T) (consume T) st) (\<lambda>(comms, st).
     res_bind (deserializeVector cap (get_decomp (read_g2 T) (read_fr T) (consume T)) (consume T) st)
       (\<lambda>(decomps, st).
     res_bind (deserializeVector cap (get_size 0) (consume T) st) (\<lambda>(ids, st).
       let agg = \<lparr>agg_encryptions = encs, agg_commitments = comms, decomposition = decomps,
                  id_vec = ids\<rparr>
       in if debug
          then let (x, st) = read_fr T st; st = consume T st in Inr (agg, Some x, st)
          else Inr (agg, None, st)))))"

lemma get_put_aggregate:
  assumes "text_laws L T" and "length (agg_encryptions agg) \<le> cap"
    and "length (agg_commitments agg) \<le> cap" and "length (decomposition agg) \<le> cap"
    and "length (id_vec agg) \<le> cap" and "cap < 2 ^ 64" and "\<forall>i\<in>set (id_vec agg). i < 2 ^ 64"
  shows "get_aggregate cap T (sec \<noteq> None) (Some (put_aggregate L T sec agg @ rest)) =
    Inr (agg, sec, Some rest)"
proof -
  have codecs: "text_codec (\<lambda>x. True) (show1 L) (read_g1 T)" "text_codec (\<lambda>x. True) (show2 L) (read_g2 T)"
      "text_codec (\<lambda>x. True) (show_fr T) (read_fr T)" "consumes_newline (consume T)"
    using assms(1) by (simp_all add: text_laws_def)
  have len: "length xs \<le> cap \<Longrightarrow> length xs < 2 ^ 64" for xs :: "'z list"
    using assms(6) by linarith
  note vec = text_codec.deserialize_serialize [OF _ codecs(4)]
  show ?thesis
    unfolding get_aggregate_def put_aggregate_def append_assoc
    using vec [OF codecs(1) _ assms(2) len [OF assms(2)]] vec [OF codecs(2) _ assms(3) len [OF assms(3)]]
      vec [OF decomp_codec [OF codecs(2,3,4)] _ assms(4) len [OF assms(4)]]
      size_text.deserialize_serialize [OF codecs(4) assms(7,5) len [OF assms(5)]]
    by (cases sec) (simp_all add: text_laws_read [OF assms(1)] Let_def)
qed

section \<open>The program\<close>

fun draw_sharings ::
  "('f :: field, 'g1 :: ab_group_add, 'g2 :: ab_group_add, 'gt, 's) pairing_lib \<Rightarrow>
   ('f, 'g1, 'g2) pvss_context list \<Rightarrow> nat \<Rightarrow> nat list \<Rightarrow> ('f, 'g1, 'g2) pvss_sharing list \<Rightarrow> nat list \<Rightarrow>
   's \<Rightarrow> (('f, 'g1, 'g2) pvss_sharing list \<times> nat list \<times> 's) res" where
  "draw_sharings L ctxs n [] pvss_vec ids s = Inr (pvss_vec, ids, s)"
| "draw_sharings L ctxs n (j # js) pvss_vec ids s =
     (let k = j mod n
      in res_bind (vec_at ctxs k) (\<lambda>ctx.
         res_bind (create_sharing L ctx s) (\<lambda>(sharing, s).
         draw_sharings L ctxs n js (pvss_vec @ [sharing]) (ids @ [k]) s)))"

fun buffer_transcripts ::
  "('f :: field, 'g1 :: ab_group_add, 'g2 :: ab_group_add, 'gt, 's) pairing_lib \<Rightarrow>
   ('f, 'g1, 'g2) pvss_context list \<Rightarrow> nat \<Rightarrow> nat list \<Rightarrow> ('f, 'g1, 'g2) pvss_aggregate list \<Rightarrow> 's \<Rightarrow>
   (('f, 'g1, 'g2) pvss_aggregate list \<times> 's) res" where
  "buffer_transcripts L ctxs n [] agg_vec s = Inr (agg_vec, s)"
| "buffer_transcripts L ctxs n (i # is) agg_vec s =
     (let f = (n - 1) div 2; idx = i mod n
      in if 2 ^ 31 \<le> i + f + 1 then Inl Int_Overflow
         else res_bind (draw_sharings L ctxs n [i..<i + f + 1] [] [] s) (\<lambda>(pvss_vec, ids, s).
         res_bind (vec_at ctxs idx) (\<lambda>ctx.
         res_bind (aggregate pvss_vec ids) (\<lambda>agg.
         res_bind (verify_aggregation L ctx agg s) (\<lambda>(ok, s).
         if \<not> ok then Inl (Runtime_Error ''aggregation verification failed'')
         else buffer_transcripts L ctxs n is (agg_vec @ [agg]) s)))))"

text \<open>\<open>sec\<close> is what the uninitialised \<open>secret\<close> of an aggregate holds. \<open>error\<close> ends the
  program.\<close>

definition pvss_setup ::
  "('f :: field, 'g1 :: ab_group_add, 'g2 :: ab_group_add, 'gt, 's) pairing_lib \<Rightarrow>
   ('f, 'g1, 'g2, 'gt) text_lib \<Rightarrow> 'f option \<Rightarrow> nat \<Rightarrow> 's \<Rightarrow> ((string \<times> string) list \<times> 's) res" where
  "pvss_setup L T sec n s =
     (if n < 1 then Inl (Runtime_Error ''n must be >0'')
      else res_bind (getContext L (FromNumReplicas n) s) (\<lambda>(ctxs, s).
        res_bind (res_map (\<lambda>i. res_bind (vec_at ctxs i) (\<lambda>ctx.
            Inr (''pvss-sec'' @ put_size i @ ''.conf'', put_context L T ctx))) [0..<n]) (\<lambda>files.
        if 2 ^ 31 \<le> 2 * n then Inl Int_Overflow
        else res_bind (buffer_transcripts L ctxs n [0..<2 * n] [] s) (\<lambda>(agg_vec, s).
        Inr (files @ [(''pvss-setup.dat'', serializeVector (put_aggregate L T sec) agg_vec)], s)))))"

section \<open>Correctness\<close>

lemma length_factory: "length sks = n \<Longrightarrow> length (map (factory_context L cfg g1 g2 h1 h2 sks) [0..<n]) = n"
  by simp

lemma sharing_of_factory:
  "sharing_of L (factory_context L cfg g1 g2 h1 h2 sks i) =
   sharing_of L (factory_context L cfg g1 g2 h1 h2 sks j)"
  by (intro ext) (simp add: sharing_of_def factory_context_def)

lemma draw_sharings_ok:
  fixes L :: "('f :: field, 'g1 :: ab_group_add, 'g2 :: ab_group_add, 'gt, 's) pairing_lib"
    and g1 g2 :: 'g1 and h1 h2 :: 'g2
  assumes "lib_laws L" and "sizes_ok TYPE('f) cfg" and "length sks = num_replicas cfg"
    and "0 < num_replicas cfg"
  defines "ctx \<equiv> factory_context L cfg g1 g2 h1 h2 sks"
  shows "\<exists>ps shs s'. draw_sharings L (map ctx [0..<num_replicas cfg]) (num_replicas cfg) js pv ids s =
      Inr (pv @ shs, ids @ map (\<lambda>j. j mod num_replicas cfg) js, s') \<and>
    length shs = length js \<and> list_all2 (sharing_of L (ctx 0)) ps shs"
proof (induction js arbitrary: pv ids s)
  case Nil
  show ?case
    by (intro exI [of _ "[]"]) simp
next
  case (Cons j js)
  let ?n = "num_replicas cfg"
  have k: "j mod ?n < ?n"
    using assms(4) by simp
  have fit: "config (ctx i) = cfg" "length (pk_map (ctx i)) = ?n" for i
    using assms(3) by (simp_all add: ctx_def factory_context_def)
  obtain p sh s1 where sh: "create_sharing L (ctx (j mod ?n)) s = Inr (sh, s1)"
      "sharing_of L (ctx (j mod ?n)) p sh"
    using create_sharing_ok [OF assms(1), of "ctx (j mod ?n)" s] fit assms(2) by auto
  then have "sharing_of L (ctx 0) p sh"
    unfolding ctx_def using sharing_of_factory by metis
  moreover obtain ps shs s' where "draw_sharings L (map ctx [0..<?n]) ?n js (pv @ [sh]) (ids @ [j mod ?n]) s1 =
      Inr ((pv @ [sh]) @ shs, (ids @ [j mod ?n]) @ map (\<lambda>j. j mod ?n) js, s')"
      "length shs = length js" "list_all2 (sharing_of L (ctx 0)) ps shs"
    using Cons.IH by blast
  ultimately show ?case
    using k sh(1) by (intro exI [of _ "p # ps"] exI [of _ "sh # shs"] exI [of _ s']) simp
qed

text \<open>A transcript is good if every replica of the set-up accepts it, whatever it draws.\<close>

definition accepted_by_all ::
  "('f :: field, 'g1 :: ab_group_add, 'g2 :: ab_group_add, 'gt, 's) pairing_lib \<Rightarrow>
   ('f, 'g1, 'g2) pvss_context list \<Rightarrow> ('f, 'g1, 'g2) pvss_aggregate \<Rightarrow> bool" where
  "accepted_by_all L ctxs agg \<longleftrightarrow>
     (\<forall>ctx\<in>set ctxs. \<forall>s. \<exists>s'. verify_aggregation L ctx agg s = Inr (True, s'))"

lemma aggregate_of_factory:
  "aggregate_of L (factory_context L cfg g1 g2 h1 h2 sks i) =
   aggregate_of L (factory_context L cfg g1 g2 h1 h2 sks j)"
  by (intro ext) (simp add: aggregate_of_def factory_context_def)

lemma buffer_transcripts_ok:
  fixes L :: "('f :: field, 'g1 :: ab_group_add, 'g2 :: ab_group_add, 'gt, 's) pairing_lib"
    and g1 g2 :: 'g1 and h1 h2 :: 'g2
  assumes "lib_laws L" and "sizes_ok TYPE('f) cfg" and "length sks = num_replicas cfg"
    and "num_faults cfg = (num_replicas cfg - 1) div 2"
  defines "ctxs \<equiv> map (factory_context L cfg g1 g2 h1 h2 sks) [0..<num_replicas cfg]"
  shows "\<forall>i\<in>set is. i + num_faults cfg + 1 < 2 ^ 31 \<Longrightarrow>
    \<exists>new s'. buffer_transcripts L ctxs (num_replicas cfg) is aggs s = Inr (aggs @ new, s') \<and>
    length new = length is \<and> (\<forall>agg\<in>set new. accepted_by_all L ctxs agg)"
proof (induction "is" arbitrary: aggs s)
  case Nil
  then show ?case by simp
next
  case (Cons i "is")
  let ?n = "num_replicas cfg" and ?ctx = "factory_context L cfg g1 g2 h1 h2 sks"
  let ?f = "(?n - 1) div 2" and ?js = "[i..<i + (?n - 1) div 2 + 1]"
  have n: "0 < ?n"
    using assms(2) by (simp add: sizes_ok_def)
  have fit: "config (?ctx i) = cfg" "length (pk_map (?ctx i)) = ?n" for i
    using assms(3) by (simp_all add: factory_context_def)
  obtain ps shs s1 where d: "draw_sharings L ctxs ?n ?js [] [] s =
      Inr (shs, map (\<lambda>j. j mod ?n) ?js, s1)"
    and shs: "length shs = length ?js" "list_all2 (sharing_of L (?ctx 0)) ps shs"
    using draw_sharings_ok [OF assms(1-3) n, of g1 g2 h1 h2 ?js "[]" "[]" s] unfolding ctxs_def by auto
  have "shs \<noteq> []"
    using shs(1) by auto
  then obtain agg where agg: "aggregate shs (map (\<lambda>j. j mod ?n) ?js) = Inr agg"
      "aggregate_of L (?ctx 0) (sum_poly ps) agg" "length (decomposition agg) = length ?js"
      "id_vec agg = map (\<lambda>j. j mod ?n) ?js"
    using aggregate_ok [OF assms(1) shs(2), of "map (\<lambda>j. j mod ?n) ?js"] shs(1) by auto
  have "\<exists>s'. verify_aggregation L (?ctx j) agg s2 = Inr (True, s')" for j s2
  proof (rule verify_aggregation_ok [OF assms(1)])
    show "aggregate_of L (?ctx j) (sum_poly ps) agg"
      using agg(2) aggregate_of_factory by metis
  qed (use agg(3,4) fit assms(2,4) in auto)
  then have all: "accepted_by_all L ctxs agg"
    by (auto simp: accepted_by_all_def ctxs_def)
  have idx: "i mod ?n < ?n"
    using n by simp
  then have ctx: "vec_at ctxs (i mod ?n) = Inr (?ctx (i mod ?n))"
    by (simp add: ctxs_def)
  obtain s2 where ver: "verify_aggregation L (?ctx (i mod ?n)) agg s1 = Inr (True, s2)"
    using \<open>\<And>j s2. \<exists>s'. verify_aggregation L (?ctx j) agg s2 = Inr (True, s')\<close> by blast
  obtain new s' where "buffer_transcripts L ctxs ?n is (aggs @ [agg]) s2 = Inr ((aggs @ [agg]) @ new, s')"
      "length new = length is" "\<forall>agg\<in>set new. accepted_by_all L ctxs agg"
    using Cons.IH [of "aggs @ [agg]" s2] Cons.prems by auto
  moreover have "\<not> 2 ^ 31 \<le> i + ?f + 1"
    using Cons.prems assms(4) by simp
  ultimately show ?case
    using all by (intro exI [of _ "agg # new"] exI [of _ s'])
      (simp only: buffer_transcripts.simps Let_def d agg(1) ctx ver res_bind.simps prod.case if_False, simp)
qed

definition context_file :: "nat \<Rightarrow> string" where
  "context_file i = ''pvss-sec'' @ put_size i @ ''.conf''"

lemma pvss_setup_result:
  fixes L :: "('f :: field, 'g1 :: ab_group_add, 'g2 :: ab_group_add, 'gt, 's) pairing_lib"
  assumes "lib_laws L" and "text_laws L T" and "sizes_ok TYPE('f) (FromNumReplicas n)"
    and "n \<le> cap" and "cap < 2 ^ 64" and "2 * n + (n - 1) div 2 < 2 ^ 31"
  obtains g1 g2 h1 h2 sks ctxs aggs s' where "length sks = n"
    and "ctxs = map (factory_context L (FromNumReplicas n) g1 g2 h1 h2 sks) [0..<n]"
    and "pvss_setup L T sec n s =
      Inr (map (\<lambda>i. (context_file i, put_context L T (ctxs ! i))) [0..<n] @
        [(''pvss-setup.dat'', serializeVector (put_aggregate L T sec) aggs)], s')"
    and "\<And>i old rest. i < n \<Longrightarrow> my_id (ctxs ! i) = i \<and>
      parseContext cap T (FromNumReplicas n) old (Some (put_context L T (ctxs ! i) @ rest)) =
        Inr (ctxs ! i, Some rest)"
    and "length aggs = 2 * n" and "\<forall>agg\<in>set aggs. accepted_by_all L ctxs agg"
proof -
  let ?cfg = "FromNumReplicas n"
  have n: "0 < n" "n < 2 ^ 64"
    using assms(3-5) by (auto simp: sizes_ok_def)
  then have f: "num_faults ?cfg = (num_replicas ?cfg - 1) div 2"
    by simp
  obtain g1 g2 h1 h2 sks s1 where ctxs: "length sks = n"
    "getContext L ?cfg s = Inr (map (factory_context L ?cfg g1 g2 h1 h2 sks) [0..<n], s1)"
    using getContext_setup [of L ?cfg s] unfolding num_replicas_FromNumReplicas by blast
  let ?ctxs = "map (factory_context L ?cfg g1 g2 h1 h2 sks) [0..<n]"
  obtain aggs s2 where aggs: "buffer_transcripts L ?ctxs n [0..<2 * n] [] s1 = Inr (aggs, s2)"
    "length aggs = 2 * n" "\<forall>agg\<in>set aggs. accepted_by_all L ?ctxs agg"
    using buffer_transcripts_ok [OF assms(1,3) _ f, of sks "[0..<2 * n]" g1 g2 h1 h2 "[]" s1] ctxs(1) assms(6)
    by auto
  have files: "res_map (\<lambda>i. res_bind (vec_at ?ctxs i) (\<lambda>ctx.
        Inr (''pvss-sec'' @ put_size i @ ''.conf'', put_context L T ctx))) [0..<n] =
      Inr (map (\<lambda>i. (context_file i, put_context L T (?ctxs ! i))) [0..<n])"
    by (intro res_map_ok) (simp add: context_file_def)
  have parse: "my_id (?ctxs ! i) = i \<and>
      parseContext cap T ?cfg old (Some (put_context L T (?ctxs ! i) @ rest)) = Inr (?ctxs ! i, Some rest)"
    if "i < n" for i old rest
    using get_put_context [OF assms(2), of "?ctxs ! i" cap old rest] that n ctxs(1) assms(4,5)
    by (simp add: factory_context_def)
  have "pvss_setup L T sec n s =
      Inr (map (\<lambda>i. (context_file i, put_context L T (?ctxs ! i))) [0..<n] @
        [(''pvss-setup.dat'', serializeVector (put_aggregate L T sec) aggs)], s2)"
    using n(1) assms(6) unfolding pvss_setup_def
    by (simp only: ctxs(2) files aggs(1) res_bind.simps prod.case) simp
  then show thesis
    by (rule that [OF ctxs(1) refl _ parse aggs(2,3)])
qed

text \<open>C25: the set-up program succeeds for every number of replicas from two on as long as the largest
  number it computes, \<open>(2 n - 1) + f + 1\<close> with \<open>f = (n - 1) / 2\<close>, fits an \<open>int\<close>, the vectors of the reader
  can hold \<open>n\<close> elements and the field has enough: it writes one
  file per replica, from which \<open>parseContext\<close> reads the context of that replica, and a file
  of \<open>2 n\<close> aggregated transcripts, each of which every replica accepts. In particular it
  never throws ``aggregation verification failed'' and no \<open>int\<close> overflows.\<close>

theorem pvss_setup_succeeds:
  fixes L :: "('f :: field, 'g1 :: ab_group_add, 'g2 :: ab_group_add, 'gt, 's) pairing_lib"
  assumes "lib_laws L" and "text_laws L T" and "sizes_ok TYPE('f) (FromNumReplicas n)"
    and "n \<le> cap" and "cap < 2 ^ 64" and "2 * n + (n - 1) div 2 < 2 ^ 31"
  shows "\<exists>ctxs aggs s'. pvss_setup L T sec n s =
      Inr (map (\<lambda>i. (context_file i, put_context L T (ctxs ! i))) [0..<n] @
        [(''pvss-setup.dat'', serializeVector (put_aggregate L T sec) aggs)], s') \<and>
    length ctxs = n \<and>
    (\<forall>i<n. my_id (ctxs ! i) = i \<and>
      parseContext cap T (FromNumReplicas n) old (Some (put_context L T (ctxs ! i) @ rest)) =
        Inr (ctxs ! i, Some rest)) \<and>
    length aggs = 2 * n \<and> (\<forall>agg\<in>set aggs. accepted_by_all L ctxs agg)"
proof (rule pvss_setup_result [OF assms, of sec s])
  fix g1 g2 h1 h2 sks ctxs aggs s'
  assume "length sks = n"
    and "ctxs = map (factory_context L (FromNumReplicas n) g1 g2 h1 h2 sks) [0..<n]"
    and run: "pvss_setup L T sec n s =
      Inr (map (\<lambda>i. (context_file i, put_context L T (ctxs ! i))) [0..<n] @
        [(''pvss-setup.dat'', serializeVector (put_aggregate L T sec) aggs)], s')"
    and "\<And>i old rest. i < n \<Longrightarrow> my_id (ctxs ! i) = i \<and>
      parseContext cap T (FromNumReplicas n) old (Some (put_context L T (ctxs ! i) @ rest)) =
        Inr (ctxs ! i, Some rest)"
    and "length aggs = 2 * n" and "\<forall>agg\<in>set aggs. accepted_by_all L ctxs agg"
  then show ?thesis
    by (intro exI conjI) (rule run, auto)
qed

theorem pvss_setup_succeeds_witness:
  "\<exists>ctxs aggs s'. pvss_setup gf3_lib gf3_text (Some 0) 2 () =
      Inr ([(''pvss-sec0.conf'', put_context gf3_lib gf3_text (ctxs ! 0)),
        (''pvss-sec1.conf'', put_context gf3_lib gf3_text (ctxs ! 1)),
        (''pvss-setup.dat'', serializeVector (put_aggregate gf3_lib gf3_text (Some 0)) aggs)], s') \<and>
    length aggs = 4 \<and> (\<forall>agg\<in>set aggs. accepted_by_all gf3_lib ctxs agg)"
proof -
  have sizes: "sizes_ok TYPE(gf3) (FromNumReplicas 2)"
    using gf3_fits by (simp add: sizes_ok_def)
  have put: "put_size 0 = ''0''" "put_size (Suc 0) = ''1''"
    by (simp_all add: put_size.simps digit_def char_of_def bit_Suc_0_iff)
  show ?thesis
    using pvss_setup_succeeds [OF gf3_lib_laws gf3_text_laws sizes, of 9 "Some 0" "()" 0 "[]"]
    by (simp add: put upt_conv_Cons context_file_def) blast
qed

end
