(* ===== verification/Drg_Programs.thy ===== *)
theory Drg_Programs
  imports Drg_Base Pvss_Setup
begin

text \<open>
  The replica program (\<open>src/drg.cpp\<close>) and the client (\<open>src/client.cpp\<close>,
  \<open>include/client.hpp\<close>). The options of the command line and of \<open>drg.conf\<close>, the files and
  the parser of addresses (\<open>salticidae::NetAddr\<close>) are parameters; a program ends with the
  state in which it enters the event loop.
\<close>

section \<open>The replica program\<close>

record drg_options =
  opt_replicas :: "string list"
  opt_idx :: int
  opt_pvss_ctx :: string
  opt_client :: string

text \<open>
  The index is not checked against the list of replicas, and it is cut to 16 bits for the
  identifier. \<open>old\<close> is what the uninitialised index of a context holds before it is read.
\<close>

definition drg_program ::
  "('f :: field, 'g1 :: ab_group_add, 'g2 :: ab_group_add, 'gt, 's, 'mat, 'h) drg_env \<Rightarrow>
   (string \<Rightarrow> 'a res) \<Rightarrow> (string \<Rightarrow> string option) \<Rightarrow> nat \<Rightarrow> drg_options \<Rightarrow> 's \<Rightarrow>
   (('f, 'g1, 'g2, 'a) drg_base \<times> 's) res" where
  "drg_program E net_addr files old opts s =
     (let replicas = opt_replicas opts; idx = opt_idx opts
      in res_bind (if idx < 0 then Inl Undefined_Read else vec_get replicas (nat idx)) (\<lambda>listen.
         res_bind (net_addr listen) (\<lambda>plisten_addr.
         let conf = FromNumReplicas (length replicas)
         in case files (opt_pvss_ctx opts) of
              None \<Rightarrow> Inl (Runtime_Error ''PVSS Context File Error!'')
            | Some ctx_stream \<Rightarrow>
                res_bind (parseContext (env_capacity E) (env_text E) conf old (Some ctx_stream))
                  (\<lambda>(pvss_ctx, _).
                let (papp, s) = base_make E (word_of_int idx) plisten_addr pvss_ctx s
                in res_bind (res_map net_addr replicas) (\<lambda>reps.
                   res_bind (net_addr (opt_client opts)) (\<lambda>client. Inr (base_start reps client papp, s)))))))"

section \<open>The client\<close>

text \<open>The client's state and the calls to its network so far.\<close>

record 'a client =
  client_peers :: "'a list"
  client_net :: "'a net_command list"

definition client_make :: "'a client" where
  "client_make = \<lparr>client_peers = [], client_net = [Net_Reg_Conn_Handler]\<rparr>"

definition client_call :: "'a net_command \<Rightarrow> 'a client \<Rightarrow> 'a client" where
  "client_call c cl = cl\<lparr>client_net := client_net cl @ [c]\<rparr>"

definition client_start :: "(string \<Rightarrow> 'a res) \<Rightarrow> 'a client \<Rightarrow> 'a client res" where
  "client_start net_addr cl =
     (let cl = client_call Net_Start cl
      in res_bind (net_addr ''127.0.0.1:20001'') (\<lambda>a. Inr (client_call (Net_Listen a) cl)))"

definition client_add_peer :: "(string \<Rightarrow> 'a res) \<Rightarrow> string \<Rightarrow> 'a client \<Rightarrow> 'a client res" where
  "client_add_peer net_addr addr cl =
     res_bind (net_addr addr) (\<lambda>a.
       Inr (client_call (Net_Set_Peer_Addr a a) (client_call (Net_Add_Peer a)
         (cl\<lparr>client_peers := client_peers cl @ [a]\<rparr>))))"

text \<open>The comparison with the number of peers is unsigned: no negative index passes it.\<close>

definition msg_start :: "'a \<Rightarrow> 'a packet" where
  "msg_start dest = \<lparr>pk_dest = dest, pk_opcode = MsgStart_opcode, pk_body = []\<rparr>"

definition client_send_start :: "int \<Rightarrow> 'a client \<Rightarrow> 'a client" where
  "client_send_start peer_id cl =
     (let i = unat (word_of_int peer_id :: u64)
      in if i < length (client_peers cl)
         then client_call (Net_Send (msg_start (client_peers cl ! i))) cl else cl)"

definition client_conn_handler :: "bool \<Rightarrow> bool" where
  "client_conn_handler c = True"

definition client_main :: "(string \<Rightarrow> 'a res) \<Rightarrow> 'a client res" where
  "client_main net_addr =
     res_bind (client_start net_addr client_make) (\<lambda>cl.
     res_bind (client_add_peer net_addr ''127.0.0.1:20000'' cl) (\<lambda>cl.
     res_bind (net_addr ''127.0.0.1:20000'') (\<lambda>a.
     let cl = client_call (Net_Conn_Peer a) (client_call (Net_Set_Peer_Addr a a) cl)
     in Inr (client_send_start 0 cl))))"

lemma client_send_start_peers:
  assumes "length (client_peers cl) < 2 ^ 63" and "- (2 ^ 31) \<le> i" and "i < 2 ^ 31"
  shows "client_send_start i cl =
    (if 0 \<le> i \<and> i < int (length (client_peers cl))
     then client_call (Net_Send (msg_start (client_peers cl ! nat i))) cl else cl)"
proof (cases "0 \<le> i")
  case True
  then have "unat (word_of_int i :: u64) = nat i"
    using assms(3) by (simp add: unat_eq_nat_uint uint_word_of_int_eq take_bit_int_eq_self)
  with True show ?thesis
    by (auto simp: client_send_start_def Let_def)
next
  case False
  have "(i + 2 ^ 64) mod 2 ^ 64 = i + 2 ^ 64"
    using False assms(2) by (intro mod_pos_pos_trivial) simp_all
  then have "i mod 2 ^ 64 = i + 2 ^ 64"
    by (simp only: mod_add_self2)
  then have "unat (word_of_int i :: u64) = nat (i + 2 ^ 64)"
    by (simp add: unat_eq_nat_uint uint_word_of_int)
  then have "\<not> unat (word_of_int i :: u64) < length (client_peers cl)"
    using assms by simp
  with False show ?thesis
    by (simp add: client_send_start_def Let_def)
qed

text \<open>What the client does: one start message, to the first peer.\<close>

theorem client_main_calls:
  assumes "net_addr ''127.0.0.1:20000'' = Inr a" and "net_addr ''127.0.0.1:20001'' = Inr own"
  shows "\<exists>cl. client_main net_addr = Inr cl \<and> client_peers cl = [a] \<and>
    client_net cl = [Net_Reg_Conn_Handler, Net_Start, Net_Listen own, Net_Add_Peer a, Net_Set_Peer_Addr a a,
      Net_Set_Peer_Addr a a, Net_Conn_Peer a, Net_Send (msg_start a)]"
  using assms
  by (simp add: client_main_def client_start_def client_add_peer_def client_make_def client_call_def
      client_send_start_peers Let_def)

section \<open>From the set-up program to the replicas\<close>

lemma put_size_inject: "put_size m = put_size n \<longleftrightarrow> m = n"
  using put_size_digits by metis

lemma context_file_inject [simp]: "context_file i = context_file j \<longleftrightarrow> i = j"
  by (simp add: context_file_def put_size_inject)

lemma map_of_context_files:
  assumes "i < n"
  shows "map_of (map (\<lambda>i. (context_file i, g i)) [0..<n] @ rest) (context_file i) = Some (g i)"
proof -
  have "map_of (map (\<lambda>i. (context_file i, g i)) xs) (context_file i) = Some (g i)"
    if "i \<in> set xs" for xs
    using that by (induction xs) auto
  with assms show ?thesis
    by (simp add: map_add_def)
qed

text \<open>A started replica: its context, its identifier and its configuration.\<close>

definition started_replica ::
  "nat \<Rightarrow> 'a list \<Rightarrow> ('f, 'g1, 'g2) pvss_context \<Rightarrow> ('f, 'g1, 'g2, 'a) drg_base \<Rightarrow> bool" where
  "started_replica i addrs ctx b \<longleftrightarrow>
     core_id (base_core b) = word_of_nat i \<and> core_context (base_core b) = ctx \<and> my_id ctx = i \<and>
     peers b = filter (\<lambda>a. a \<noteq> addrs ! i) addrs \<and>
     nreplicas (core_config (base_core b)) = length addrs \<and>
     nreconthres (core_config (base_core b)) = length addrs div 4 + 1 \<and>
     (\<forall>j<length addrs. get_addr (core_config (base_core b)) (word_of_nat j) = Inr (addrs ! j)) \<and>
     sharechunk_matrix (base_core b) = [] \<and> sharing_map (base_core b) = [] \<and>
     dec_share_vec (base_core b) = []"

lemma base_make_context:
  "core_id (base_core (base_start addrs client (fst (base_make E rid addr ctx s)))) = rid"
  "core_context (base_core (base_start addrs client (fst (base_make E rid addr ctx s)))) = ctx"
  by (simp_all add: base_start_simps
      split: prod.splits)

lemma drg_program_starts:
  assumes ctx: "files (opt_pvss_ctx opts) = Some content"
    "parseContext (env_capacity E) (env_text E) (FromNumReplicas (length (opt_replicas opts))) old
       (Some content) = Inr (ctx, rest)" "my_id ctx = i"
    and idx: "opt_idx opts = int i" "i < length (opt_replicas opts)"
    and n: "length (opt_replicas opts) \<le> 2 ^ 16"
    and addrs: "res_map net_addr (opt_replicas opts) = Inr addrs" "net_addr (opt_client opts) = Inr client"
  shows "\<exists>b s'. drg_program E net_addr files old opts s = Inr (b, s') \<and> started_replica i addrs ctx b"
proof -
  have len: "length addrs = length (opt_replicas opts)"
    and at: "net_addr (opt_replicas opts ! i) = Inr (addrs ! i)"
    using res_map_nth [OF addrs(1)] idx(2) by auto
  let ?b = "fst (base_make E (word_of_nat i) (addrs ! i) ctx s)"
  obtain b rnd s' where b: "base_make E (word_of_nat i) (addrs ! i) ctx s = (b, s')"
    and st: "peers (base_start addrs client b) = filter (\<lambda>a. a \<noteq> addrs ! i) addrs"
      "nreplicas (core_config (base_core (base_start addrs client b))) = length addrs"
      "nreconthres (core_config (base_core (base_start addrs client b))) = length addrs div 4 + 1"
      "\<forall>j<length addrs. get_addr (core_config (base_core (base_start addrs client b))) (word_of_nat j) = Inr (addrs ! j)"
      "sharechunk_matrix (base_core (base_start addrs client b)) = []"
      "sharing_map (base_core (base_start addrs client b)) = []" "dec_share_vec (base_core (base_start addrs client b)) = []"
    using base_start_state [of addrs E "word_of_nat i" "addrs ! i" ctx s client] n len by auto
  have "started_replica i addrs ctx (base_start addrs client b)"
    using st ctx(3) base_make_context [of addrs client E "word_of_nat i" "addrs ! i" ctx s]
    by (simp add: started_replica_def b)
  moreover have "drg_program E net_addr files old opts s = Inr (base_start addrs client b, s')"
    using idx at ctx(1,2) addrs b by (simp add: drg_program_def vec_get_def Let_def)
  ultimately show ?thesis by blast
qed

text \<open>C36: The set-up program and the replica program fit together. For every number \<open>n\<close> of
  replicas from two on the set-up succeeds, the contexts in its files are those of one
  set-up with common generators and keys, and every replica started with the list of all
  replicas, its index and its file has that context, its index as its identifier, the
  addresses of all replicas in order, every address but its own as a peer, and no chunks,
  sharings or shares.\<close>

theorem replicas_start_from_setup:
  fixes E :: "('f :: field, 'g1 :: ab_group_add, 'g2 :: ab_group_add, 'gt, 's, 'mat, 'h) drg_env"
  assumes "lib_laws (env_lib E)" and "text_laws (env_lib E) (env_text E)"
    and "sizes_ok TYPE('f) (FromNumReplicas n)" and "n \<le> 2 ^ 16"
    and "n \<le> env_capacity E" and "env_capacity E < 2 ^ 64"
    and "length replicas = n" and "res_map net_addr replicas = Inr addrs"
    and "net_addr client_addr = Inr c"
  shows "\<exists>g1 g2 h1 h2 sks files s'. pvss_setup (env_lib E) (env_text E) sec n s = Inr (files, s') \<and>
    length sks = n \<and>
    (\<forall>i<n. \<exists>b s''. drg_program E net_addr (map_of files) old
        \<lparr>opt_replicas = replicas, opt_idx = int i, opt_pvss_ctx = context_file i,
         opt_client = client_addr\<rparr> t = Inr (b, s'') \<and>
      started_replica i addrs
        (factory_context (env_lib E) (FromNumReplicas n) g1 g2 h1 h2 sks i) b)"
proof (rule pvss_setup_result [OF assms(1-3,5,6), of sec s])
  show "2 * n + (n - 1) div 2 < 2 ^ 31"
    using assms(4) by simp
next
  fix g1 g2 h1 h2 sks ctxs aggs s'
  assume sks: "length sks = n"
    and ctxs: "ctxs = map (factory_context (env_lib E) (FromNumReplicas n) g1 g2 h1 h2 sks) [0..<n]"
    and run: "pvss_setup (env_lib E) (env_text E) sec n s =
      Inr (map (\<lambda>i. (context_file i, put_context (env_lib E) (env_text E) (ctxs ! i))) [0..<n] @
        [(''pvss-setup.dat'', serializeVector (put_aggregate (env_lib E) (env_text E) sec) aggs)], s')"
    and parse: "\<And>i old rest. i < n \<Longrightarrow> my_id (ctxs ! i) = i \<and>
      parseContext (env_capacity E) (env_text E) (FromNumReplicas n) old
        (Some (put_context (env_lib E) (env_text E) (ctxs ! i) @ rest)) = Inr (ctxs ! i, Some rest)"
  have "\<exists>b s''. drg_program E net_addr (map_of files) old
        \<lparr>opt_replicas = replicas, opt_idx = int i, opt_pvss_ctx = context_file i,
         opt_client = client_addr\<rparr> t = Inr (b, s'') \<and> started_replica i addrs (ctxs ! i) b"
    if i: "i < n" and files: "map_of files (context_file i) =
      Some (put_context (env_lib E) (env_text E) (ctxs ! i) @ [])" for i files
  proof (rule drg_program_starts)
    show "parseContext (env_capacity E) (env_text E)
        (FromNumReplicas (length (opt_replicas \<lparr>opt_replicas = replicas, opt_idx = int i,
          opt_pvss_ctx = context_file i, opt_client = client_addr\<rparr>))) old
        (Some (put_context (env_lib E) (env_text E) (ctxs ! i) @ [])) = Inr (ctxs ! i, Some [])"
      using parse [OF i, of old "[]"] assms(7) by (simp only: drg_options.simps)
  qed (use i files parse [OF i, of old "[]"] assms(4,7-9) in simp_all)
  note start = this
  let ?files = "map (\<lambda>i. (context_file i, put_context (env_lib E) (env_text E) (ctxs ! i))) [0..<n] @
    [(''pvss-setup.dat'', serializeVector (put_aggregate (env_lib E) (env_text E) sec) aggs)]"
  have "\<exists>b s''. drg_program E net_addr (map_of ?files) old
        \<lparr>opt_replicas = replicas, opt_idx = int i, opt_pvss_ctx = context_file i,
         opt_client = client_addr\<rparr> t = Inr (b, s'') \<and>
      started_replica i addrs (factory_context (env_lib E) (FromNumReplicas n) g1 g2 h1 h2 sks i) b"
    if i: "i < n" for i
  proof -
    have "ctxs ! i = factory_context (env_lib E) (FromNumReplicas n) g1 g2 h1 h2 sks i"
      using i by (simp add: ctxs)
    moreover have "map_of ?files (context_file i) =
        Some (put_context (env_lib E) (env_text E) (ctxs ! i) @ [])"
      unfolding append_Nil2 by (rule map_of_context_files [OF i])
    ultimately show ?thesis
      using start [OF i, of ?files] by (simp only:)
  qed
  with run sks show ?thesis
    by blast
qed

theorem replicas_start_from_setup_witness:
  "\<exists>files s' b s''. pvss_setup gf3_lib gf3_text (Some 0) 2 () = Inr (files, s') \<and>
     drg_program example_env Inr (map_of files) 0
       \<lparr>opt_replicas = [''a'', ''b''], opt_idx = 1, opt_pvss_ctx = context_file 1, opt_client = ''c''\<rparr> () =
       Inr (b, s'') \<and>
     peers b = [''a''] \<and> core_id (base_core b) = 1 \<and> my_id (core_context (base_core b)) = 1"
proof -
  have sizes: "sizes_ok TYPE(gf3) (FromNumReplicas 2)"
    by (rule example_sizes)
  have env: "env_lib example_env = gf3_lib" "env_text example_env = gf3_text"
      "env_capacity example_env = 100"
    by (simp_all add: example_env_def)
  show ?thesis
    using replicas_start_from_setup [of example_env 2 "[''a'', ''b'']" Inr "[''a'', ''b'']" "''c''"
        "''c''" "Some 0" "()" 0 "()", unfolded env, OF gf3_lib_laws gf3_text_laws sizes]
    by (auto simp: started_replica_def dest!: spec [of _ "1 :: nat"])
qed

end
