(* ===== verification/Drg_Deal.thy ===== *)
theory Drg_Deal
  imports Drg_Base
begin

text \<open>
  What a dealer sends: every chunk message of \<open>deliver_chunk\<close> passes the check of its
  receiver, and the first \<open>nreconthres\<close> chunks of a dealer decode to the dealer's sharing.
  \<open>env_laws\<close> collects what is relied on of the libraries.
\<close>

section \<open>Paths fit their byte format\<close>

lemma route_elements_length:
  assumes "\<And>a b. length (hf a b) = sz"
  shows "wf_node n \<Longrightarrow> hash_inv hf n \<Longrightarrow> \<not> nd_dirty n \<Longrightarrow> represents hf n xs \<Longrightarrow>
    \<forall>x\<in>set xs. length x = sz \<Longrightarrow> \<forall>e\<in>set (route_elements n i). hash_ok sz (e_hash e)"
proof (induction n arbitrary: xs i)
  case Null
  then show ?case by simp
next
  case (Node h l r s ht d)
  show ?case
  proof (cases "l = Null \<and> r = Null")
    case True
    then show ?thesis by (simp add: route_elements_def)
  next
    case False
    note w = wf_node_inner [OF Node.prems(1) False]
    have clean: "\<not> nd_dirty l" "\<not> nd_dirty r" "hash_inv hf l" "hash_inv hf r"
      using False Node.prems by auto
    obtain ys zs where xs: "xs = ys @ zs" and rep: "represents hf l ys" "represents hf r zs"
      and len: "length ys = nleaves l" "length zs = nleaves r"
      by (rule represents_inner [OF Node.prems(1) False Node.prems(4)]) (rule that)
    have all: "\<forall>x\<in>set ys. length x = sz" "\<forall>x\<in>set zs. length x = sz" "ys \<noteq> []" "zs \<noteq> []"
      using Node.prems(5) len nleaves_pos [OF w(1)] nleaves_pos [OF w(2)] by (auto simp: xs)
    have "length (nd_hash l) = sz" "length (nd_hash r) = sz"
      using merkle_root_of_clean [OF w(1) clean(3,1) rep(1)] merkle_root_of_clean [OF w(2) clean(4,2) rep(2)]
        length_merkle_root [OF all(3,1) assms] length_merkle_root [OF all(4,2) assms] by simp_all
    with Node.IH(1) [OF w(1) clean(3,1) rep(1) all(1)] Node.IH(2) [OF w(2) clean(4,2) rep(2) all(2)] False
    show ?thesis
      by (auto simp: route_elements_inner path_element_def hash_ok_def)
  qed
qed

definition path_to :: "(hash \<Rightarrow> hash \<Rightarrow> hash) \<Rightarrow> hash list \<Rightarrow> nat \<Rightarrow> path \<Rightarrow> bool" where
  "path_to hf xs i p \<longleftrightarrow> path_leaf p = xs ! i \<and> path_leaf_index p = i \<and> path_ok HASH_SIZE p \<and>
     path_verify hf p (merkle_root hf xs) \<and> length (path_elements p) \<le> 29"

lemma tree_path_to:
  assumes "tree_inv hf t xs" and "num_flushed t \<le> i" and "i < length xs"
    and "\<forall>x\<in>set xs. length x = HASH_SIZE" and "\<And>a b. length (hf a b) = HASH_SIZE"
  shows "\<exists>p t'. tree_path hf HASH_SIZE i t = Inr (p, t') \<and> path_to hf xs i p \<and>
    completed hf t' xs \<and> num_flushed t' = num_flushed t"
proof -
  obtain t' where t': "tree_path hf HASH_SIZE i t =
      Inr (path_make (xs ! i) i (route_elements (root_node t') i) (length xs - 1), t')"
      "length (route_elements (root_node t') i) \<le> 29"
      "path_verify hf (path_make (xs ! i) i (route_elements (root_node t') i) (length xs - 1)) (merkle_root hf xs)"
      "completed hf t' xs" "num_flushed t' = num_flushed t"
    using tree_path_good [OF assms(1-3)] by blast
  note c = completedD [OF t'(4)]
  have "length xs < 2 ^ 64"
    using c(8) by (simp add: max_leaves_def)
  then have "path_ok HASH_SIZE (path_make (xs ! i) i (route_elements (root_node t') i) (length xs - 1))"
    using route_elements_length [OF assms(5) c(1,3,5,2) assms(4), of i] assms(3,4)
    by (simp add: path_ok_def path_make_def hash_ok_def)
  with t' show ?thesis
    by (auto simp: path_to_def path_make_def)
qed

section \<open>Dealing\<close>

text \<open>The leaves of a dealer's tree: the first bytes of the chunks.\<close>

definition chunk_leaves :: "chunk_t list \<Rightarrow> hash list" where
  "chunk_leaves chunks = map (\<lambda>c. take HASH_SIZE (chunk_data (the c))) chunks"

lemma tree_insert_list_flushed [simp]: "num_flushed (tree_insert_list hs t) = num_flushed t"
proof -
  have "num_flushed (fold tree_insert hs t) = num_flushed t"
    by (induction hs arbitrary: t) (simp_all add: tree_insert_def)
  then show ?thesis
    by (simp add: tree_insert_list_def)
qed

lemma insert_chunks_ok:
  "\<forall>i\<in>set is. i < length chunks \<and> chunks ! i \<noteq> None \<and> HASH_SIZE \<le> length (chunk_data (the (chunks ! i))) \<and>
     length (chunk_data (the (chunks ! i))) < 2 ^ 64 \<Longrightarrow>
   insert_chunks chunks is t = Inr (tree_insert_list (map (\<lambda>i. chunk_leaves chunks ! i) is) t)"
proof (induction "is" arbitrary: t)
  case Nil
  then show ?case by (simp add: tree_insert_list_def)
next
  case (Cons i "is")
  then have "chunk_at chunks i = Inr (the (chunks ! i))"
    by (auto simp: chunk_at_def split: option.split)
  with Cons show ?case
    by (simp add: hash_of_vector_ok chunk_leaves_def tree_insert_list_def)
qed

definition chunk_message ::
  "ReplicaID \<Rightarrow> 'h \<Rightarrow> chunk_t list \<Rightarrow> nat \<Rightarrow> path \<Rightarrow> 'h share_chunk" where
  "chunk_message rid rt chunks i p =
     \<lparr>sc_replica = rid, sc_idx = word_of_nat i, sc_round = 0, sc_chunk = chunks ! i, sc_root = rt,
      sc_proof = path_serialise p []\<rparr>"

lemma send_chunks_ok:
  assumes "\<And>a b. length (env_hash E a b) = HASH_SIZE" and "\<forall>x\<in>set xs. length x = HASH_SIZE"
    and "length chunks = length xs"
  shows "completed (env_hash E) t xs \<Longrightarrow> num_flushed t = 0 \<Longrightarrow> distinct is \<Longrightarrow>
    \<forall>i\<in>set is. i < length xs \<Longrightarrow>
    \<exists>ps. send_chunks E rid rt chunks is t =
        Inr (map (\<lambda>i. Do_Sharechunk (chunk_message rid rt chunks i (ps i)) (word_of_nat i))
          (filter (\<lambda>i. i \<noteq> unat rid) is)) \<and>
      (\<forall>i\<in>set is. path_to (env_hash E) xs i (ps i))"
proof (induction "is" arbitrary: t)
  case Nil
  then show ?case by simp
next
  case (Cons i "is")
  have i: "num_flushed t \<le> i" "i < length xs"
    using Cons.prems by auto
  obtain p t' where p: "tree_path (env_hash E) HASH_SIZE i t = Inr (p, t')" "path_to (env_hash E) xs i p"
      "completed (env_hash E) t' xs" "num_flushed t' = 0"
    using tree_path_to [OF completed_tree_inv [OF Cons.prems(1)] i assms(2,1)] Cons.prems(2) by auto
  have c: "vec_get chunks i = Inr (chunks ! i)"
    using i(2) assms(3) by simp
  obtain ps where ps: "send_chunks E rid rt chunks is t' =
        Inr (map (\<lambda>i. Do_Sharechunk (chunk_message rid rt chunks i (ps i)) (word_of_nat i))
          (filter (\<lambda>i. i \<noteq> unat rid) is))"
      "\<forall>i\<in>set is. path_to (env_hash E) xs i (ps i)"
    using Cons.IH [OF p(3,4)] Cons.prems by auto
  have "\<forall>j\<in>set is. (ps(i := p)) j = ps j"
    using Cons.prems(3) by auto
  then show ?case
    using p(1,2) c ps by (intro exI [of _ "ps(i := p)"]) (auto simp: chunk_message_def cong: map_cong)
qed


lemma path_checks_path_to:
  assumes "stream_laws (env_streams E)" and "path_to (env_hash E) xs i p"
    and "length (merkle_root (env_hash E) xs) = HASH_SIZE"
  shows "path_checks E (chunk_message rid (u256_of_bytes (env_streams E) (merkle_root (env_hash E) xs)) chunks i p) =
      Inr True"
    and "length (path_serialise p []) < 2 ^ 32"
proof -
  have p: "path_ok HASH_SIZE p" "length (path_elements p) \<le> 29" "path_verify (env_hash E) p (merkle_root (env_hash E) xs)"
    using assms(2) by (simp_all add: path_to_def)
  have "length (path_serialise p []) = 56 + 33 * length (path_elements p)"
    using length_path_bytes [OF p(1)] by (simp add: path_serialise_eq HASH_SIZE_def)
  then have len: "length (path_serialise p []) \<le> 56 + 33 * 29"
    using p(2) by simp
  then show "length (path_serialise p []) < 2 ^ 32"
    by simp
  have "path_of_bytes HASH_SIZE (path_serialise p []) = Inr p"
    using len by (intro path_of_bytes_serialise [OF p(1)]) simp
  moreover have "u256_bytes (env_streams E) (u256_of_bytes (env_streams E) (merkle_root (env_hash E) xs)) =
      merkle_root (env_hash E) xs"
    using assms(1,3) by (simp add: stream_laws_def HASH_SIZE_def)
  ultimately show "path_checks E (chunk_message rid (u256_of_bytes (env_streams E) (merkle_root (env_hash E) xs)) chunks i p) =
      Inr True"
    using assms(3) p(3) by (simp add: path_checks_def chunk_message_def hash_of_vector_ok HASH_SIZE_def)
qed

text \<open>A message that a dealer may send: it passes the check, fits the byte format, carries its
  chunk, and is never the one of the dealer itself.\<close>

definition honest_chunk ::
  "('f, 'g1, 'g2, 'gt, 's, 'mat, 'h) drg_env \<Rightarrow> ReplicaID \<Rightarrow> chunk_t list \<Rightarrow> nat \<Rightarrow> 'h share_chunk \<Rightarrow> bool" where
  "honest_chunk E rid chunks i sc \<longleftrightarrow> sc_replica sc = rid \<and> sc_idx sc = word_of_nat i \<and> sc_round sc = 0 \<and>
     sc_chunk sc = chunks ! i \<and> path_checks E sc = Inr True \<and> share_chunk_fits sc \<and> i \<noteq> unat rid"

lemma deliver_chunk_ok:
  assumes "env_laws E k (n - k)" and "counts_ok (core_config st)"
    and "nreplicas (core_config st) = n" and "nreconthres (core_config st) = k"
    and "create_sharing (env_lib E) (core_context st) s = Inr (sharing, s')"
    and "length (sharing_stream E sharing) + k * 64 < 2 ^ 31"
  obtains chunks msg where
    "encode (env_coder E) (env_streams E) k (n - k) 8 (sharing_stream E sharing) = Inr chunks" and
    "deliver_chunk E st s = Inr (map (\<lambda>i. Do_Sharechunk (msg i) (word_of_nat i))
      (filter (\<lambda>i. i \<noteq> unat (core_id st)) [0..<n]), s')" and
    "\<And>i. i < n \<Longrightarrow> i \<noteq> unat (core_id st) \<Longrightarrow> honest_chunk E (core_id st) chunks i (msg i)"
proof -
  let ?J = "env_coder E" and ?S = "env_streams E" and ?hf = "env_hash E"
  let ?s = "sharing_stream E sharing"
  have kn: "0 < k" "k \<le> n" "n \<le> 2 ^ 16"
    using assms(2-4) by (simp_all add: counts_ok_def)
  have laws: "jerasure_laws ?J k (n - k) 8" "stream_laws ?S" "\<And>a b. length (?hf a b) = HASH_SIZE"
    using assms(1) by (simp_all add: env_laws_def)
  have bound: "length ?s + k * 8 * 8 < 2 ^ 31"
    using assms(6) by simp
  obtain chunks where enc: "encode ?J ?S k (n - k) 8 ?s = Inr chunks" "length chunks = k + (n - k)"
      and chunk: "\<And>i. i < k + (n - k) \<Longrightarrow> \<exists>c. chunks ! i = Some c \<and> chunk_size c = word_of_nat (length ?s) \<and>
        length (chunk_data c) = units (k * 8 * 8) (length ?s) * (8 * 8)"
    by (rule encode_chunks [OF laws(1,2) kn(1) _ bound]) (simp, rule that)
  define bs where "bs = units (k * 8 * 8) (length ?s) * (8 * 8)"
  have u: "0 < k * 8 * 8"
    using kn(1) by simp
  have "0 < length ?s"
    using laws(2) by (simp add: sharing_stream_def stream_laws_def Let_def)
  then have "0 < units (k * 8 * 8) (length ?s)"
    using units_bounds(1) [OF u, of "length ?s"] by (cases "units (k * 8 * 8) (length ?s)") auto
  then have bs: "HASH_SIZE \<le> bs" "bs < 2 ^ 31"
  proof -
    have "bs * 1 \<le> bs * k"
      using kn(1) by (intro mult_le_mono2) simp
    moreover have "bs * k = units (k * 8 * 8) (length ?s) * (k * 8 * 8)"
      by (simp add: bs_def)
    ultimately show "bs < 2 ^ 31"
      using units_bounds(2) [OF u, of "length ?s"] bound by linarith
  qed (simp add: bs_def HASH_SIZE_def)
  have n: "k + (n - k) = n"
    using kn(2) by simp
  note chunk = chunk [unfolded n, folded bs_def] and len = enc(2) [unfolded n]
  have data: "chunks ! i \<noteq> None" "length (chunk_data (the (chunks ! i))) = bs" if "i < n" for i
    using chunk [OF that] by auto
  let ?xs = "chunk_leaves chunks"
  have xs: "length ?xs = n" "\<forall>x\<in>set ?xs. length x = HASH_SIZE" "?xs \<noteq> []"
  proof -
    show "length ?xs = n" "?xs \<noteq> []"
      using len kn by (auto simp: chunk_leaves_def)
    show "\<forall>x\<in>set ?xs. length x = HASH_SIZE"
      using data(2) bs(1) len by (auto simp: chunk_leaves_def in_set_conv_nth)
  qed
  have "map (\<lambda>i. ?xs ! i) [0..<n] = ?xs"
    using xs(1) map_nth [of ?xs] by simp
  then have ins: "insert_chunks chunks [0..<n] tree_empty = Inr (tree_insert_list ?xs tree_empty)"
    using insert_chunks_ok [of "[0..<n]" chunks tree_empty] data len bs by simp
  have "tree_inv ?hf (tree_insert_list ?xs tree_empty) ?xs"
    using tree_inv_insert_list [OF tree_inv_empty, of ?xs ?hf] kn(3) xs(1) by (simp add: max_leaves_def)
  then obtain t where t: "tree_root ?hf HASH_SIZE (tree_insert_list ?xs tree_empty) = Inr (merkle_root ?hf ?xs, t)"
      "completed ?hf t ?xs" "num_flushed t = 0"
    using tree_root_ok [OF _ xs(3), of ?hf "tree_insert_list ?xs tree_empty" HASH_SIZE]
    by (auto simp: tree_empty_def)
  let ?rt = "u256_of_bytes ?S (merkle_root ?hf ?xs)"
  have ix: "length chunks = length ?xs" "\<forall>i\<in>set [0..<n]. i < length ?xs"
    using len xs(1) by simp_all
  obtain ps where ps: "send_chunks E (core_id st) ?rt chunks [0..<n] t =
        Inr (map (\<lambda>i. Do_Sharechunk (chunk_message (core_id st) ?rt chunks i (ps i)) (word_of_nat i))
          (filter (\<lambda>i. i \<noteq> unat (core_id st)) [0..<n]))"
      "\<forall>i\<in>set [0..<n]. path_to ?hf ?xs i (ps i)"
    using send_chunks_ok [OF laws(3) xs(2) ix(1) t(2,3) distinct_upt ix(2), of "core_id st" ?rt] by blast
  have path: "path_to ?hf ?xs i (ps i)" if "i < n" for i
    using ps(2) that by simp
  define msg where "msg = (\<lambda>i. chunk_message (core_id st) ?rt chunks i (ps i))"
  have "deliver_chunk E st s = Inr (map (\<lambda>i. Do_Sharechunk (msg i) (word_of_nat i))
      (filter (\<lambda>i. i \<noteq> unat (core_id st)) [0..<n]), s')"
    using assms(5) code_sizes_ok [OF assms(2)] enc(1) ins t(1) ps(1)
    by (simp add: deliver_chunk_def assms(3,4) msg_def)
  moreover have "honest_chunk E (core_id st) chunks i (msg i)" if "i < n" "i \<noteq> unat (core_id st)" for i
  proof -
    note c = path_checks_path_to [OF laws(2) path [OF that(1)] length_merkle_root [OF xs(3,2) laws(3)]]
    note d = data [OF that(1)]
    with c bs(2) that(2) show ?thesis
      by (simp add: honest_chunk_def msg_def) (auto simp: chunk_message_def share_chunk_fits_def chunk_fits_def)
  qed
  ultimately show thesis
    by (rule that [OF enc(1)])
qed

section \<open>Decoding\<close>

text \<open>A sharing as it is read: what is not written, the secret, is that of a new object.\<close>

definition received_sharing ::
  "('f, 'g1, 'g2, 'gt, 's, 'mat, 'h) drg_env \<Rightarrow> ('f, 'g1, 'g2) pvss_sharing \<Rightarrow> ('f, 'g1, 'g2) pvss_sharing" where
  "received_sharing E sh = sh\<lparr>secret := secret (env_sharing E)\<rparr>"

definition sharing_fits ::
  "('f, 'g1, 'g2, 'gt, 's, 'mat, 'h) drg_env \<Rightarrow> nat \<Rightarrow> ('f, 'g1, 'g2) pvss_sharing \<Rightarrow> bool" where
  "sharing_fits E k sh \<longleftrightarrow> length (sharing_stream E sh) + k * 64 < 2 ^ 31 \<and>
     length (encryptions sh) \<le> env_capacity E \<and> length (commitments sh) \<le> env_capacity E \<and>
     length (dleq_proofs sh) \<le> env_capacity E"

lemma decode_sharing_ok:
  assumes laws: "env_laws E k m" and k: "0 < k"
    and enc: "encode (env_coder E) (env_streams E) k m 8 (sharing_stream E sharing) = Inr chunks"
    and fits: "sharing_fits E k sharing"
    and row: "length row = k" "\<And>i. i < k \<Longrightarrow> row ! i = chunks ! i"
    and c: "Some c \<in> set chunks"
  shows "decode_sharing E k m row c = Inr (received_sharing E sharing)"
proof -
  let ?S = "env_streams E" and ?s = "sharing_stream E sharing"
  define tx where "tx = put_sharing (env_lib E) (env_text E) sharing"
  have J: "jerasure_laws (env_coder E) k m 8" and S: "stream_laws ?S"
    and T: "text_laws (env_lib E) (env_text E)" "env_capacity E < 2 ^ 64"
    using laws by (simp_all add: env_laws_def)
  have bound: "length ?s + k * 8 * 8 < 2 ^ 31"
    using fits by (simp add: sharing_fits_def)
  obtain chunks' where chunks': "encode (env_coder E) ?S k m 8 ?s = Inr chunks'" "length chunks' = k + m"
      and chunk: "\<And>i. i < k + m \<Longrightarrow> \<exists>c. chunks' ! i = Some c \<and> chunk_size c = word_of_nat (length ?s) \<and>
        length (chunk_data c) = units (k * 8 * 8) (length ?s) * (8 * 8)"
    by (rule encode_chunks [OF J S k _ bound]) (simp, rule that)
  have same: "chunks' = chunks"
    using enc chunks'(1) by simp
  have c0: "chunk_size c = word_of_nat (length ?s)" "length (chunk_data c) = length (chunk_data (the (chunks ! 0)))"
    using c chunk chunk [of 0] k chunks'(2) unfolding same by (fastforce simp: in_set_conv_nth)+
  let ?blank = "Some \<lparr>chunk_size = chunk_size c, chunk_data = replicate (length (chunk_data c)) 0\<rparr>"
  have dec: "decode (env_coder E) k m 8 (row @ replicate m ?blank) (map int [k..<k + m] @ [- 1]) [] = Inr (True, [] @ ?s)"
  proof (rule encode_decode [OF J S k _ bound enc])
    fix i
    assume "i < k + m" "i \<notin> set [k..<k + m]"
    then show "(row @ replicate m ?blank) ! i = chunks ! i"
      using row by (simp add: nth_append)
  next
    fix i
    assume "i < k + m" "i \<in> set [k..<k + m]"
    then show "\<exists>c'. (row @ replicate m ?blank) ! i = Some c' \<and> chunk_size c' = word_of_nat (length ?s) \<and>
        length (chunk_data c') = length (chunk_data (the (chunks ! 0)))"
      using row(1) c0 by (simp add: nth_append)
  qed (auto simp: row(1))
  have s: "?s = put_u32 ?S (htole ?S (word_of_nat (length (string_bytes tx)))) @ string_bytes tx"
    by (simp add: sharing_stream_def tx_def Let_def)
  then have "length (string_bytes tx) < 2 ^ 32"
    using bound by simp
  then have n: "unat (word_of_nat (length (string_bytes tx)) :: u32) = length (string_bytes tx)"
    by (rule unat_length_u32)
  have inplace: "get_data_inplace ?S (length b) b = Inr (b, [])" for b
    using S [unfolded stream_laws_def] by (metis append_Nil2)
  have u32: "get_u32 ?S ?s = Inr (htole ?S (word_of_nat (length (string_bytes tx))), string_bytes tx)"
      "letoh ?S (htole ?S x) = x" for x
    using S unfolding s by (simp_all add: stream_laws_def)
  have "get_sharing (env_capacity E) (env_text E) (env_sharing E) (Some tx) =
      Inr (sharing\<lparr>commitments := commitments (env_sharing E) @ commitments sharing,
            dleq_proofs := dleq_proofs (env_sharing E) @ dleq_proofs sharing,
            secret := secret (env_sharing E)\<rparr>, Some [])"
    using get_put_sharing [OF T(1) _ _ _ T(2), of sharing "env_sharing E" "[]"] fits
    by (simp add: sharing_fits_def tx_def)
  then show ?thesis
    using laws dec
    by (simp add: decode_sharing_def u32 n inplace env_laws_def received_sharing_def del: length_string_bytes)
qed

text \<open>The sharings of the example fit.\<close>

lemma example_sharing_fits:
  assumes "sharing_of gf3_lib (example_context i) p sh"
  shows "sharing_fits example_env 1 sh"
proof -
  have show1: "length (gf3_show x) = 1" for x
    by (cases x) simp_all
  have len: "length (encryptions sh) = 2" "length (commitments sh) = 2" "length (dleq_proofs sh) = 2"
    using assms example_sizes by (simp_all add: sharing_of_def Let_def example_context_def)
  obtain a b where e: "encryptions sh = [a, b]"
    using len(1) by (auto simp: length_Suc_conv numeral_2_eq_2)
  obtain c d where c: "commitments sh = [c, d]"
    using len(2) by (auto simp: length_Suc_conv numeral_2_eq_2)
  obtain u v where pr: "dleq_proofs sh = [u, v]"
    using len(3) by (auto simp: length_Suc_conv numeral_2_eq_2)
  have "length (put_size (Suc (Suc 0))) = 1"
    by (subst put_size.simps) simp
  then have "length (put_sharing gf3_lib gf3_text sh) < 100"
    by (simp add: put_sharing_def put_elements_def put_dual_def put_decomp_def put_dleq_def e c pr
        gf3_lib_def gf3_text_def show1)
  then have "length (sharing_stream example_env sh) < 104"
    using le_streams_laws by (simp add: sharing_stream_def Let_def example_env_def stream_laws_def)
  then show ?thesis
    using len by (simp add: sharing_fits_def) (simp add: example_env_def)
qed

lemma example_chunks:
  assumes "sharing_of gf3_lib (example_context i) p sh"
  obtains chunks c where
    "encode (env_coder example_env) (env_streams example_env) 1 1 8 (sharing_stream example_env sh) = Inr chunks"
    "length chunks = 2" "chunks ! 0 = Some c" "Some c \<in> set chunks"
proof -
  have laws: "jerasure_laws (env_coder example_env) 1 1 8" "stream_laws (env_streams example_env)"
    using example_env_laws by (simp_all add: env_laws_def)
  have bound: "length (sharing_stream example_env sh) + 1 * 8 * 8 < 2 ^ 31"
    using example_sharing_fits [OF assms] by (simp add: sharing_fits_def)
  obtain chunks where enc: "encode (env_coder example_env) (env_streams example_env) 1 1 8
        (sharing_stream example_env sh) = Inr chunks" and len: "length chunks = 1 + 1"
    and some: "\<And>j. j < 1 + 1 \<Longrightarrow> \<exists>c. chunks ! j = Some c \<and>
        chunk_size c = word_of_nat (length (sharing_stream example_env sh)) \<and>
        length (chunk_data c) = units (1 * 8 * 8) (length (sharing_stream example_env sh)) * (8 * 8)"
    by (rule encode_chunks [OF laws _ _ bound]) (simp, simp, rule that)
  obtain c where c: "chunks ! 0 = Some c"
    using some [of 0] by auto
  then have "Some c \<in> set chunks"
    using len nth_mem [of 0 chunks] by simp
  with enc len c show thesis
    by (intro that) simp_all
qed

end
