(* ===== verification/Drg_Run.thy ===== *)
theory Drg_Run
  imports Drg_Base
begin

text \<open>
  Runs of a replica: what it can be asked to do, the step relation, the states it reaches when
  the network may deliver any packets, and the invariant of its state. The relation is given a
  predicate on events, so that the runs with honest traffic are a special case.
\<close>

section \<open>Steps\<close>

datatype 'a drg_event =
    Packet "'a option" "'a packet"
  | Begin_Round
  | Own_Share share

fun handle ::
  "('f :: field, 'g1 :: ab_group_add, 'g2 :: ab_group_add, 'gt, 's, 'mat, 'h) drg_env \<Rightarrow> 'a drg_event \<Rightarrow>
   ('f, 'g1, 'g2, 'a) drg_base \<Rightarrow> 's \<Rightarrow> (('f, 'g1, 'g2, 'a) drg_base \<times> 'a packet list \<times> 's) res" where
  "handle E (Packet peer p) b s = receive_packet E peer p b s"
| "handle E Begin_Round b s =
     res_bind (on_receive_start E (base_core b) s) (\<lambda>(core, calls, s).
     res_bind (perform_all E b calls) (\<lambda>packets. Inr (b\<lparr>base_core := core\<rparr>, packets, s)))"
| "handle E (Own_Share sh) b s =
     res_bind (on_receive_share E sh (base_core b)) (\<lambda>core. Inr (b\<lparr>base_core := core\<rparr>, [], s))"

inductive replica_step ::
  "('f :: field, 'g1 :: ab_group_add, 'g2 :: ab_group_add, 'gt, 's, 'mat, 'h) drg_env \<Rightarrow>
   ('f, 'g1, 'g2, 'a) drg_base \<times> 's \<Rightarrow> 'a drg_event \<Rightarrow> 'a packet list \<Rightarrow>
   ('f, 'g1, 'g2, 'a) drg_base \<times> 's \<Rightarrow> bool" for E where
  handled: "handle E ev b s = Inr (b', packets, s') \<Longrightarrow> replica_step E (b, s) ev packets (b', s')"

inductive_cases replica_stepE [elim]: "replica_step E (b, s) ev packets (b', s')"

inductive_simps replica_step_iff: "replica_step E (b, s) ev packets (b', s')"

inductive replica_reachable ::
  "('f :: field, 'g1 :: ab_group_add, 'g2 :: ab_group_add, 'gt, 's, 'mat, 'h) drg_env \<Rightarrow> ('a drg_event \<Rightarrow> bool) \<Rightarrow>
   ('f, 'g1, 'g2, 'a) drg_base \<times> 's \<Rightarrow> ('f, 'g1, 'g2, 'a) drg_base \<times> 's \<Rightarrow> bool" for E P x where
  initial: "replica_reachable E P x x"
| step: "replica_reachable E P x (b, s) \<Longrightarrow> P ev \<Longrightarrow> replica_step E (b, s) ev packets (b', s') \<Longrightarrow>
     replica_reachable E P x (b', s')"

section \<open>Rows of chunks\<close>

definition row_ok :: "nat \<Rightarrow> (u32, chunk_t) umap \<Rightarrow> bool" where
  "row_ok k row \<longleftrightarrow> um_ok row \<and> um_size row \<le> k + 1 \<and> (\<forall>i. um_find row i \<noteq> Some None)"

definition matrix_ok :: "nat \<Rightarrow> (ReplicaID, (u32, chunk_t) umap) umap \<Rightarrow> bool" where
  "matrix_ok k M \<longleftrightarrow> um_ok M \<and> (\<forall>r row. um_find M r = Some row \<longrightarrow> row_ok k row)"

definition core_inv :: "('f, 'g1, 'g2, 'a) drg_core \<Rightarrow> bool" where
  "core_inv st \<longleftrightarrow> (let k = nreconthres (core_config st) in
     0 < k \<and> matrix_ok k (sharechunk_matrix st) \<and> um_ok (sharing_map st) \<and> length (dec_share_vec st) \<le> k)"

text \<open>What no handler changes.\<close>

definition same_setup :: "('f, 'g1, 'g2, 'a) drg_core \<Rightarrow> ('f, 'g1, 'g2, 'a) drg_core \<Rightarrow> bool" where
  "same_setup st st' \<longleftrightarrow> core_id st' = core_id st \<and> core_config st' = core_config st \<and>
     core_context st' = core_context st \<and> core_round st' = core_round st \<and>
     core_random st' = core_random st \<and> core_difficulty st' = core_difficulty st"

lemma same_setup_refl [simp]: "same_setup st st"
  by (simp add: same_setup_def)

lemma same_setup_trans: "same_setup a b \<Longrightarrow> same_setup b c \<Longrightarrow> same_setup a c"
  by (simp add: same_setup_def)

lemma row_ok_empty: "row_ok k []"
  by (simp add: row_ok_def um_simps)

lemma row_ok_set:
  assumes "row_ok k row" and "um_size row \<le> k" and "c \<noteq> None"
  shows "row_ok k (um_set i c row)"
proof -
  have "um_size (um_set i c row) \<le> Suc (um_size row)"
    using assms(1) by (intro um.entries_set_le) (simp add: row_ok_def)
  with assms show ?thesis
    by (auto simp: row_ok_def um_simps)
qed

lemma matrix_ok_set: "matrix_ok k M \<Longrightarrow> row_ok k row \<Longrightarrow> matrix_ok k (um_set r row M)"
  by (auto simp: matrix_ok_def um_simps)

lemma matrix_ok_index:
  assumes "matrix_ok k M" and "um_index [] r M = (row, M')"
  shows "row_ok k row" and "matrix_ok k M'"
  using assms matrix_ok_set [OF assms(1) row_ok_empty, of r]
  by (auto simp: um_index_def matrix_ok_def row_ok_empty split: option.splits)

lemma um_set_triv: "um_find m k = Some v \<Longrightarrow> um_set k v m = m"
  by (simp add: um_find_def um_set_def AList.update_triv)

text \<open>Taking a row changes nothing if every chunk is there.\<close>

lemma take_row_full:
  "take_row r is M = (cs, M') \<Longrightarrow> None \<notin> set cs \<Longrightarrow> M' = M"
proof (induction "is" arbitrary: M cs M')
  case Nil
  then show ?case by simp
next
  case (Cons i "is")
  obtain row M1 c row1 where ix: "um_index [] r M = (row, M1)" "um_index None (word_of_nat i) row = (c, row1)"
    by (cases "um_index [] r M", cases "um_index None (word_of_nat i) (fst (um_index [] r M))") auto
  obtain cs' where cs': "take_row r is (um_set r row1 M1) = (cs', M')" "cs = c # cs'"
    using Cons.prems(1) ix by (auto simp: split: prod.splits)
  have "c \<noteq> None"
    using Cons.prems(2) cs'(2) by (cases c) auto
  then have "um_find row (word_of_nat i) = Some c" "row1 = row"
    using ix(2) by (auto simp: um_index_def split: option.splits)
  moreover from this have "um_find M r = Some row" "M1 = M"
    using ix(1) by (auto simp: um_index_def um_simps split: option.splits)
  ultimately have "um_set r row1 M1 = M"
    by (simp add: um_set_triv)
  with Cons.IH [OF cs'(1)] Cons.prems(2) cs'(2) show ?case
    by simp
qed

lemma take_row_found:
  assumes "um_find M r = Some row"
  shows "(\<And>i. i \<in> set is \<Longrightarrow> um_find row (word_of_nat i) = Some (cs i)) \<Longrightarrow>
    take_row r is M = (map cs is, M)"
  using assms by (induction "is") (simp_all add: um_index_found um_set_triv)

lemma take_row_missing:
  assumes "um_find (case um_find M r of None \<Rightarrow> [] | Some row \<Rightarrow> row) (word_of_nat i) = None"
  shows "\<exists>cs M'. take_row r (i # is) M = (None # cs, M')"
proof -
  obtain row M1 where row: "um_index [] r M = (row, M1)" "um_find row (word_of_nat i) = None"
    using assms by (cases "um_find M r") (simp_all add: um_index_def um_simps)
  obtain cs M' where "take_row r is (um_set r (um_set (word_of_nat i) None row) M1) = (cs, M')"
    by (cases "take_row r is (um_set r (um_set (word_of_nat i) None row) M1)")
  with row show ?thesis
    by (simp add: um_index_def)
qed

section \<open>The handlers keep the invariant\<close>

lemma on_receive_share_inv:
  assumes "core_inv st" and "on_receive_share E sh st = Inr st'"
  shows "core_inv st'" and "same_setup st st'" and "sharechunk_matrix st' = sharechunk_matrix st"
    and "sharing_map st' = sharing_map st"
  using assms
  by (auto simp: on_receive_share_def core_inv_def same_setup_def Let_def res_bind_Inr_iff
      split: if_splits prod.splits)

lemma store_chunk_inv:
  assumes "core_inv st" and "um_index [] (sc_replica sc) (sharechunk_matrix st) = (row, M)"
    and "um_size row \<le> nreconthres (core_config st)" and "sc_chunk sc \<noteq> None"
    and "store_chunk E sc st = Inr (q, st', calls)"
  shows "core_inv st' \<and> same_setup st st' \<and> sharing_map st' = sharing_map st \<and>
    dec_share_vec st' = dec_share_vec st"
proof -
  let ?k = "nreconthres (core_config st)"
  have "matrix_ok ?k (sharechunk_matrix st)"
    using assms(1) by (simp add: core_inv_def Let_def)
  note ix = matrix_ok_index [OF this assms(2)]
  have "matrix_ok ?k (um_set (sc_replica sc) (um_set (sc_idx sc) (sc_chunk sc) row) M)"
    by (rule matrix_ok_set [OF ix(2) row_ok_set [OF ix(1) assms(3,4)]])
  with ix assms(1,5) show ?thesis
    unfolding store_chunk_def assms(2)
    by (auto simp: core_inv_def same_setup_def Let_def res_bind_Inr_iff split: if_splits)
qed

lemma decode_sharing_chunks:
  assumes "decode_sharing E k m row c = Inr sharing" and "length row = k"
  shows "None \<notin> set row"
proof
  assume "None \<in> set row"
  then obtain i where i: "i < k" "row ! i = None"
    using assms(2) by (auto simp: in_set_conv_nth)
  let ?arr = "row @ replicate m (Some \<lparr>chunk_size = chunk_size c, chunk_data = replicate (length (chunk_data c)) 0\<rparr>)"
  have "chunk_at ?arr i = Inl Undefined_Read"
    using i assms(2) by (simp add: chunk_at_def nth_append)
  moreover have "res_map f xs \<noteq> Inr ys" if "x \<in> set xs" "f x = Inl e" for f :: "nat \<Rightarrow> chunk res" and xs x e ys
    using that by (induction xs arbitrary: ys) (auto simp: res_bind_Inr_iff)
  ultimately have "res_map (chunk_at ?arr) [0..<k] \<noteq> Inr ys" for ys
    using i(1) by (metis atLeast_upt lessThan_iff)
  with assms(1) show False
    by (auto simp: decode_sharing_def decode_def Let_def res_bind_Inr_iff)
qed

lemma length_take_row: "take_row r is M = (cs, M') \<Longrightarrow> length cs = length is"
  by (induction "is" arbitrary: M cs M') (auto split: prod.splits)

lemma complete_row_inv:
  assumes "core_inv st" and "complete_row E sc c st s = Inr (st', calls, s')"
  shows "core_inv st' \<and> same_setup st st' \<and> sharechunk_matrix st' = sharechunk_matrix st"
proof -
  obtain k m where sizes: "code_sizes (core_config st) = Inr (k, m)"
    using assms(2) by (cases "code_sizes (core_config st)") (auto simp: complete_row_def)
  obtain row M where taken: "take_row (ucast (sc_round sc)) [0..<k] (sharechunk_matrix st) = (row, M)"
    by (cases "take_row (ucast (sc_round sc)) [0..<k] (sharechunk_matrix st)")
  obtain sharing where "decode_sharing E k m row c = Inr sharing"
    using assms(2) sizes taken by (cases "decode_sharing E k m row c") (auto simp: complete_row_def)
  note r = sizes taken this
  have "M = sharechunk_matrix st"
    using length_take_row [OF r(2)] by (intro take_row_full [OF r(2) decode_sharing_chunks [OF r(3)]]) simp
  then have M: "st\<lparr>sharechunk_matrix := M\<rparr> = st"
    by simp
  let ?st = "st\<lparr>sharing_map := um_set (sc_replica sc) sharing (sharing_map st)\<rparr>"
  have inv: "core_inv ?st"
    using assms(1) by (simp add: core_inv_def Let_def um_simps)
  have frame: "same_setup st ?st"
    by (simp add: same_setup_def)
  show ?thesis
  proof (cases "first_sharings (sharing_map ?st) [0..<k]")
    case None
    then have "st' = ?st"
      using assms(2) r M by (simp add: complete_row_def Let_def)
    with inv frame show ?thesis by simp
  next
    case (Some shs)
    then obtain sh where "on_receive_share E sh ?st = Inr st'"
      using assms(2) r M by (auto simp: complete_row_def Let_def res_bind_Inr_iff)
    with on_receive_share_inv [OF inv this] frame show ?thesis
      by (auto intro: same_setup_trans)
  qed
qed

lemma on_receive_shareChunk_inv:
  assumes "core_inv st" and "on_receive_shareChunk E sc st s = Inr (st', calls, s')"
  shows "core_inv st' \<and> same_setup st st'"
proof -
  obtain row M where ix: "um_index [] (sc_replica sc) (sharechunk_matrix st) = (row, M)"
    by (cases "um_index [] (sc_replica sc) (sharechunk_matrix st)")
  show ?thesis
  proof (cases "nreconthres (core_config st) < um_size row")
    case True
    then have "st' = st\<lparr>sharechunk_matrix := M\<rparr>"
      using assms(2) ix by (simp add: on_receive_shareChunk_def)
    moreover have "matrix_ok (nreconthres (core_config st)) (sharechunk_matrix st)"
      using assms(1) by (simp add: core_inv_def Let_def)
    ultimately show ?thesis
      using assms(1) matrix_ok_index [OF _ ix] by (simp add: core_inv_def same_setup_def Let_def)
  next
    case False
    obtain q st1 calls1 c where st1: "store_chunk E sc st = Inr (q, st1, calls1)" "sc_chunk sc = Some c"
      and rest: "(if q = nreconthres (core_config st1)
         then res_bind (complete_row E sc c st1 s) (\<lambda>(st, calls', s). Inr (st, calls1 @ calls', s))
         else Inr (st1, calls1, s)) = Inr (st', calls, s')"
      using assms(2) False ix
      by (auto simp: on_receive_shareChunk_def res_bind_Inr_iff split: option.splits)
    have inv1: "core_inv st1" "same_setup st st1"
      using store_chunk_inv [OF assms(1) ix _ _ st1(1)] False st1(2) by auto
    show ?thesis
    proof (cases "q = nreconthres (core_config st1)")
      case True
      then obtain calls' where "complete_row E sc c st1 s = Inr (st', calls', s')"
        using rest by (auto simp: res_bind_Inr_iff)
      from complete_row_inv [OF inv1(1) this] inv1(2) show ?thesis
        by (auto intro: same_setup_trans)
    next
      case False
      with rest inv1 show ?thesis by simp
    qed
  qed
qed

lemma on_receive_start_frame:
  assumes "on_receive_start E st s = Inr (st', calls, s')"
  shows "\<exists>pk sk. st' = st\<lparr>core_vrfpk := pk, core_vrfsk := sk\<rparr>"
  using assms
  by (auto simp: on_receive_start_def vrf_def vrf_hash_def Let_def res_bind_Inr_iff split: prod.splits if_splits)

lemma on_receive_start_inv:
  assumes "core_inv st" and "on_receive_start E st s = Inr (st', calls, s')"
  shows "core_inv st' \<and> same_setup st st'"
  using on_receive_start_frame [OF assms(2)] assms(1) by (auto simp: core_inv_def same_setup_def)

text \<open>What a step does to the core: nothing, or what one of its handlers does.\<close>

lemma handle_core:
  assumes "handle E ev b s = Inr (b', packets, s')"
  shows "b' = b \<or> (\<exists>core. b' = b\<lparr>base_core := core\<rparr> \<and>
    ((\<exists>peer p sc rest calls s''. ev = Packet peer p \<and> pk_opcode p = MsgShareChunk_opcode \<and>
        share_chunk_unserialize (env_streams E) (pk_body p) = Inr (sc, rest) \<and>
        on_receive_shareChunk E sc (base_core b) s = Inr (core, calls, s'')) \<or>
     (ev = Begin_Round \<and> (\<exists>calls s''. on_receive_start E (base_core b) s = Inr (core, calls, s''))) \<or>
     (\<exists>sh. ev = Own_Share sh \<and> on_receive_share E sh (base_core b) = Inr core)))"
proof (cases ev)
  case (Packet peer p)
  with assms show ?thesis
    by (auto simp: receive_packet_eq sharechunk_handler_def start_handler_def res_bind_Inr_iff split: if_splits)
next
  case Begin_Round
  with assms show ?thesis
    by (auto simp: res_bind_Inr_iff)
next
  case (Own_Share sh)
  with assms show ?thesis
    by (auto simp: res_bind_Inr_iff)
qed

lemma replica_step_inv:
  assumes "replica_step E (b, s) ev packets (b', s')" and "core_inv (base_core b)"
  shows "core_inv (base_core b') \<and> same_setup (base_core b) (base_core b') \<and>
    peers b' = peers b \<and> listen_addr b' = listen_addr b"
proof -
  have "handle E ev b s = Inr (b', packets, s')"
    using assms(1) by (rule replica_stepE)
  from handle_core [OF this] show ?thesis
  proof (elim disjE exE conjE)
    assume "b' = b"
    with assms(2) show ?thesis by simp
  next
    fix core peer p sc rest calls s''
    assume b': "b' = b\<lparr>base_core := core\<rparr>"
      and "on_receive_shareChunk E sc (base_core b) s = Inr (core, calls, s'')"
    from on_receive_shareChunk_inv [OF assms(2) this(2)] b' show ?thesis by simp
  next
    fix core calls s''
    assume b': "b' = b\<lparr>base_core := core\<rparr>"
      and "on_receive_start E (base_core b) s = Inr (core, calls, s'')"
    from on_receive_start_inv [OF assms(2) this(2)] b' show ?thesis by simp
  next
    fix core sh
    assume b': "b' = b\<lparr>base_core := core\<rparr>" and "on_receive_share E sh (base_core b) = Inr core"
    from on_receive_share_inv(1,2) [OF assms(2) this(2)] b' show ?thesis by simp
  qed
qed

lemma replica_reachable_inv:
  assumes "replica_reachable E P (b0, s0) (b, s)" and "core_inv (base_core b0)"
  shows "core_inv (base_core b) \<and> same_setup (base_core b0) (base_core b) \<and>
    peers b = peers b0 \<and> listen_addr b = listen_addr b0"
  using assms(1)
proof (induction "(b, s)" arbitrary: b s rule: replica_reachable.induct)
  case initial
  with assms(2) show ?case by simp
next
  case (step b s ev packets b' s')
  from replica_step_inv [OF step.hyps(4)] step.hyps(2) show ?case
    by (auto intro: same_setup_trans)
qed

section \<open>The invariant of a replica\<close>

lemma core_inv_started:
  "core_inv (base_core (base_start addrs client (fst (base_make E rid addr ctx s))))"
  by (simp add: core_inv_def base_start_simps matrix_ok_def
      um_simps case_prod_unfold Let_def)

text \<open>C33: whatever packets the network delivers to a replica that has been started, in any order
  and number, and whenever a round is begun or a share is received: as long as the handlers
  return, a dealer's row holds at most \<open>nreconthres + 1\<close> chunks, each under its own index and
  none of them a null pointer, there are at most \<open>nreconthres\<close> decryption shares, and the
  identity, the configuration, the keys and the peers are those of the start.\<close>

theorem replica_invariant:
  assumes "replica_reachable E P (base_start addrs client (fst (base_make E rid addr ctx s0)), s1) (b, s)"
  shows "core_inv (base_core b) \<and>
    same_setup (base_core (base_start addrs client (fst (base_make E rid addr ctx s0)))) (base_core b) \<and>
    peers b = peers (base_start addrs client (fst (base_make E rid addr ctx s0)))"
  using replica_reachable_inv [OF assms core_inv_started] by simp

theorem replica_invariant_witness:
  "\<exists>b. replica_reachable example_env (\<lambda>ev. True) (example_base 1 ''b'', ()) (b, ()) \<and>
     length (dec_share_vec (base_core b)) \<le> 1 \<and> core_inv (base_core b) \<and> peers b = [''a'']"
proof -
  let ?b = "example_base 1 ''b''"
  let ?ev = "Packet (Some ''a'') \<lparr>pk_dest = ''b'', pk_opcode = MsgStart_opcode, pk_body = []\<rparr>"
  have "replica_step example_env (?b, ()) ?ev [] (?b, ())"
    by (rule replica_step.handled) (simp add: receive_packet_eq start_handler_def MsgStart_opcode_def MsgShareChunk_opcode_def)
  then have r: "replica_reachable example_env (\<lambda>ev. True) (?b, ()) (?b, ())"
    by (rule replica_reachable.step [OF replica_reachable.initial TrueI])
  have "peers ?b = [''a'']"
    by (simp add: example_base_def base_start_simps case_prod_unfold)
  with replica_invariant [OF r [unfolded example_base_def], folded example_base_def] r show ?thesis
    by (intro exI [of _ ?b]) (simp add: example_base_core)
qed

end
