(* ===== verification/Drg_Protocol.thy ===== *)
theory Drg_Protocol
  imports Drg_Deal Drg_Run Pvss_Beacon
begin

text \<open>
  Properties of the protocol: when a replica deals, what it deals, what the dealt chunks decode to, and what
  does not happen when all dealers are honest.
\<close>

section \<open>When a replica deals\<close>

lemma compare_loop_ok:
  "\<forall>i\<in>set is. i < length a \<and> i < length b \<Longrightarrow>
   compare_loop a b is = Inr (\<forall>i\<in>set is. a ! i \<le> b ! i)"
  by (induction "is") (auto simp: not_less)

text \<open>C40: a replica deals exactly when the first byte of its VRF output is at most 128 and all
  other bytes are zero: the comparison is byte by byte, not one of numbers. Otherwise it only
  keeps the fresh keys.\<close>

theorem start_deals_iff:
  assumes "vrf_keypair (env_vrf E) s = ((pk, sk), s')"
    and "hash = vrf_proof_to_hash (env_vrf E) (vrf_prove (env_vrf E) sk (core_random st))"
    and "length hash = vrf_outputbytes (env_vrf E)" and "0 < length hash"
    and "core_difficulty st = (replicate (vrf_outputbytes (env_vrf E)) 0)[0 := 128]"
    and "st' = st\<lparr>core_vrfpk := pk, core_vrfsk := sk\<rparr>"
  shows "on_receive_start E st s =
    (if hash ! 0 \<le> 128 \<and> (\<forall>i<length hash. 0 < i \<longrightarrow> hash ! i = 0)
     then res_bind (deliver_chunk E st' s') (\<lambda>(calls, s''). Inr (st', calls, s''))
     else Inr (st', [], s'))"
proof -
  let ?n = "vrf_outputbytes (env_vrf E)"
  have "compare_loop hash ((replicate ?n 0)[0 := 128]) [0..<?n] =
      Inr (\<forall>i<?n. hash ! i \<le> (replicate ?n 0)[0 := 128] ! i)"
    using assms(3) by (subst compare_loop_ok) auto
  also have "(\<forall>i<?n. hash ! i \<le> (replicate ?n 0)[0 := 128] ! i) \<longleftrightarrow>
      hash ! 0 \<le> 128 \<and> (\<forall>i<length hash. 0 < i \<longrightarrow> hash ! i = 0)"
    using assms(3,4) by (auto simp: nth_list_update word_le_0_iff split: if_splits)
  finally have below: "unsigned_char_compare hash (core_difficulty st') ?n =
      Inr (hash ! 0 \<le> 128 \<and> (\<forall>i<length hash. 0 < i \<longrightarrow> hash ! i = 0))"
    by (simp add: unsigned_char_compare_def assms(5,6))
  have "vrf_hash E st s = (hash, st', s')"
    by (simp add: vrf_hash_def assms(1,2,6) Let_def)
  with below show ?thesis
    by (simp add: on_receive_start_def vrf_def)
qed

theorem start_deals_iff_witness:
  "\<exists>st'. st' = (base_core (example_base 1 ''b''))\<lparr>core_vrfpk := [1], core_vrfsk := [2]\<rparr> \<and>
     on_receive_start example_env (base_core (example_base 1 ''b'')) () =
       res_bind (deliver_chunk example_env st' ()) (\<lambda>(calls, s). Inr (st', calls, s))"
proof -
  let ?st = "base_core (example_base 1 ''b'')"
  let ?st' = "?st\<lparr>core_vrfpk := [1], core_vrfsk := [2]\<rparr>"
  have vrf: "vrf_keypair (env_vrf example_env) () = (([1], [2]), ())"
      "[100, 0] = vrf_proof_to_hash (env_vrf example_env) (vrf_prove (env_vrf example_env) [2] (core_random ?st))"
      "length [100, 0 :: u8] = vrf_outputbytes (env_vrf example_env)"
    by (simp_all add: example_env_def example_vrf_def)
  have difficulty: "core_difficulty ?st = (replicate (vrf_outputbytes (env_vrf example_env)) 0)[0 := 128]"
    unfolding vrf(3) [symmetric] by (simp add: example_base_core)
  have below: "[100, 0 :: u8] ! 0 \<le> 128 \<and> (\<forall>i<length [100, 0 :: u8]. 0 < i \<longrightarrow> [100, 0 :: u8] ! i = 0)"
    by (simp add: less_Suc_eq)
  have "on_receive_start example_env ?st () =
      res_bind (deliver_chunk example_env ?st' ()) (\<lambda>(calls, s). Inr (?st', calls, s))"
    by (rule trans [OF start_deals_iff [OF vrf(1,2,3) _ difficulty refl]], simp, rule if_P [OF below])
  then show ?thesis
    by blast
qed

section \<open>What it deals\<close>

text \<open>C31: a dealer creates a sharing, encodes it and sends every other replica the chunk of its
  index: the message passes the receiver's check of the path against the root, fits the byte
  format, names the dealer and the index, and carries round 0. It never sends the chunk of its
  own index to anybody.\<close>

theorem deliver_chunk_sends:
  assumes "env_laws E (nreconthres (core_config st)) (nreplicas (core_config st) - nreconthres (core_config st))"
    and "counts_ok (core_config st)"
    and "create_sharing (env_lib E) (core_context st) s = Inr (sharing, s')"
    and "sharing_fits E (nreconthres (core_config st)) sharing"
  shows "\<exists>chunks msg. deliver_chunk E st s = Inr (map (\<lambda>i. Do_Sharechunk (msg i) (word_of_nat i))
      (filter (\<lambda>i. i \<noteq> unat (core_id st)) [0..<nreplicas (core_config st)]), s') \<and>
    (\<forall>i<nreplicas (core_config st). i \<noteq> unat (core_id st) \<longrightarrow> honest_chunk E (core_id st) chunks i (msg i)) \<and>
    encode (env_coder E) (env_streams E) (nreconthres (core_config st))
      (nreplicas (core_config st) - nreconthres (core_config st)) 8 (sharing_stream E sharing) = Inr chunks"
proof -
  have "length (sharing_stream E sharing) + nreconthres (core_config st) * 64 < 2 ^ 31"
    using assms(4) by (simp add: sharing_fits_def)
  then obtain chunks msg where d:
    "encode (env_coder E) (env_streams E) (nreconthres (core_config st))
      (nreplicas (core_config st) - nreconthres (core_config st)) 8 (sharing_stream E sharing) = Inr chunks"
    "deliver_chunk E st s = Inr (map (\<lambda>i. Do_Sharechunk (msg i) (word_of_nat i))
      (filter (\<lambda>i. i \<noteq> unat (core_id st)) [0..<nreplicas (core_config st)]), s')"
    "\<And>i. i < nreplicas (core_config st) \<Longrightarrow> i \<noteq> unat (core_id st) \<Longrightarrow> honest_chunk E (core_id st) chunks i (msg i)"
    by (rule deliver_chunk_ok [OF assms(1,2) refl refl assms(3)]) (rule that)
  show ?thesis
    by (intro exI [of _ chunks] exI [of _ msg] conjI allI impI) (rule d, rule d(3), assumption, assumption, rule d)
qed

theorem deliver_chunk_sends_witness:
  "\<exists>chunks msg. deliver_chunk example_env (base_core (example_base 1 ''b'')) () = Inr ([Do_Sharechunk (msg 0) 0], ()) \<and>
     honest_chunk example_env 1 chunks 0 (msg 0)"
proof -
  let ?st = "base_core (example_base 1 ''b'')"
  obtain p sh where sh: "create_sharing gf3_lib (example_context 1) () = Inr (sh, ())"
      "sharing_of gf3_lib (example_context 1) p sh"
    by (rule example_create_sharing)
  have lib: "env_lib example_env = gf3_lib"
    by (simp add: example_env_def)
  have "filter (\<lambda>i. i \<noteq> unat (1 :: ReplicaID)) [0..<2] = [0]"
    by (simp add: upt_conv_Cons)
  with deliver_chunk_sends [of example_env ?st "()" sh "()"] sh(1) example_sharing_fits [OF sh(2)] example_env_laws
  show ?thesis
    by (fastforce simp: example_base_core lib)
qed

section \<open>Decoding what was dealt\<close>

text \<open>The first \<open>nreconthres\<close> chunks of an encoded sharing decode to this sharing, with
  whatever secret a new object has, and however many chunks behind them are missing.\<close>

theorem dealt_chunks_decode:
  assumes "env_laws E k m" and "0 < k"
    and "encode (env_coder E) (env_streams E) k m 8 (sharing_stream E sharing) = Inr chunks"
    and "sharing_fits E k sharing" and "Some c \<in> set chunks"
  shows "decode_sharing E k m (take k chunks) c = Inr (received_sharing E sharing)"
proof (rule decode_sharing_ok [OF assms(1-4) _ _ assms(5)])
  obtain chunks' where "encode (env_coder E) (env_streams E) k m 8 (sharing_stream E sharing) = Inr chunks'"
      "length chunks' = k + m"
    by (rule encode_chunks [of "env_coder E" k m 8 "env_streams E" "sharing_stream E sharing"])
      (use assms(1,2,4) in \<open>simp_all add: env_laws_def sharing_fits_def\<close>)
  with assms(3) show "length (take k chunks) = k"
    by simp
qed simp

theorem dealt_chunks_decode_witness:
  "\<exists>sh chunks c. create_sharing gf3_lib (example_context 0) () = Inr (sh, ()) \<and> length chunks = 2 \<and>
     decode_sharing example_env 1 1 (take 1 chunks) c = Inr (received_sharing example_env sh)"
proof -
  obtain p sh where sh: "create_sharing gf3_lib (example_context 0) () = Inr (sh, ())"
      "sharing_of gf3_lib (example_context 0) p sh"
    by (rule example_create_sharing)
  obtain chunks c where c: "encode (env_coder example_env) (env_streams example_env) 1 1 8
        (sharing_stream example_env sh) = Inr chunks"
      "length chunks = 2" "chunks ! 0 = Some c" "Some c \<in> set chunks"
    by (rule example_chunks [OF sh(2)])
  from dealt_chunks_decode [OF example_env_laws _ c(1) example_sharing_fits [OF sh(2)] c(4)] sh(1) c(2)
  show ?thesis by auto
qed

section \<open>Runs with honest dealers\<close>

text \<open>Messages as dealers send them: round 0, and never the chunk of the dealer's own index.\<close>

definition dealt_form :: "'h share_chunk \<Rightarrow> bool" where
  "dealt_form sc \<longleftrightarrow> sc_round sc = 0 \<and> sc_idx sc \<noteq> ucast (sc_replica sc)"

fun honest_event ::
  "('f, 'g1, 'g2, 'gt, 's, 'mat, 'h) drg_env \<Rightarrow> 'a drg_event \<Rightarrow> bool" where
  "honest_event E (Packet peer p) =
     (pk_opcode p = MsgShareChunk_opcode \<longrightarrow>
        (case share_chunk_unserialize (env_streams E) (pk_body p) of
           Inl e \<Rightarrow> True
         | Inr (sc, _) \<Rightarrow> dealt_form sc))"
| "honest_event E Begin_Round = True"
| "honest_event E (Own_Share sh) = False"

lemma honest_chunk_dealt_form:
  assumes "honest_chunk E rid chunks i sc" and "i < 2 ^ 16"
  shows "dealt_form sc"
proof -
  have "unat rid < 2 ^ 16"
    using unsigned_less [of rid] by simp
  then have "unat (word_of_nat i :: u32) = i" "unat (ucast rid :: u32) = unat rid"
    using assms(2) by (simp_all add: unat_of_nat unsigned_ucast_eq take_bit_nat_eq_self_iff)
  with assms show ?thesis
    by (auto simp: honest_chunk_def dealt_form_def)
qed

definition own_free :: "(ReplicaID, (u32, chunk_t) umap) umap \<Rightarrow> bool" where
  "own_free M \<longleftrightarrow> (\<forall>r row. um_find M r = Some row \<longrightarrow> um_find row (ucast r) = None)"

lemma own_free_index:
  assumes "own_free M" and "um_index [] r M = (row, M')"
  shows "um_find row (ucast r) = None" and "own_free M'"
  using assms by (auto simp: um_index_def own_free_def um_simps split: option.splits if_splits)

lemma own_free_set: "own_free M \<Longrightarrow> um_find row (ucast r) = None \<Longrightarrow> own_free (um_set r row M)"
  by (auto simp: own_free_def um_simps)

lemma complete_row_stalls:
  assumes "own_free (sharechunk_matrix st)" and "counts_ok (core_config st)" and "sc_round sc = 0"
  shows "complete_row E sc c st s = Inl Undefined_Read"
proof -
  let ?k = "nreconthres (core_config st)" and ?m = "nreplicas (core_config st) - nreconthres (core_config st)"
  have k: "[0..<?k] = 0 # [1..<?k]"
    using assms(2) by (simp add: counts_ok_def upt_conv_Cons)
  have "um_find (case um_find (sharechunk_matrix st) 0 of None \<Rightarrow> [] | Some row \<Rightarrow> row) (word_of_nat 0) = None"
    using assms(1) by (auto simp: own_free_def um_simps split: option.split dest: spec [of _ 0])
  then obtain cs M where row: "take_row 0 [0..<?k] (sharechunk_matrix st) = (None # cs, M)"
    unfolding k using take_row_missing by blast
  have "decode_sharing E ?k ?m (None # cs) c = Inl Undefined_Read"
    by (simp add: decode_sharing_def decode_def chunk_at_def Let_def)
  then show ?thesis
    using code_sizes_ok [OF assms(2)] row assms(3) by (simp add: complete_row_def)
qed

lemma honest_chunk_step:
  assumes "own_free (sharechunk_matrix st)" and "counts_ok (core_config st)" and "dealt_form sc"
    and "on_receive_shareChunk E sc st s = Inr (st', calls, s')"
  shows "own_free (sharechunk_matrix st') \<and> sharing_map st' = sharing_map st \<and>
    dec_share_vec st' = dec_share_vec st"
proof -
  obtain row M where ix: "um_index [] (sc_replica sc) (sharechunk_matrix st) = (row, M)"
    by (cases "um_index [] (sc_replica sc) (sharechunk_matrix st)")
  note free = own_free_index [OF assms(1) ix]
  have "um_find (um_set (sc_idx sc) (sc_chunk sc) row) (ucast (sc_replica sc)) = None"
    using free(1) assms(3) by (auto simp: um_simps dealt_form_def)
  note free' = own_free_set [OF free(2) this]
  have store: "own_free (sharechunk_matrix st1) \<and> core_config st1 = core_config st \<and>
      sharing_map st1 = sharing_map st \<and> dec_share_vec st1 = dec_share_vec st"
    if "store_chunk E sc st = Inr (q, st1, calls1)" for q st1 calls1
    using that free(2) free' ix by (auto simp: store_chunk_def Let_def res_bind_Inr_iff split: if_splits)
  show ?thesis
  proof (cases "nreconthres (core_config st) < um_size row")
    case True
    then show ?thesis
      using assms(4) ix free(2) by (auto simp: on_receive_shareChunk_def)
  next
    case False
    then obtain q st1 calls1 where st1: "store_chunk E sc st = Inr (q, st1, calls1)"
      using assms(4) ix by (cases "store_chunk E sc st") (auto simp: on_receive_shareChunk_def)
    note s1 = store [OF st1]
    have "complete_row E sc c st1 s = Inl Undefined_Read" for c
      using s1 assms(2,3) by (intro complete_row_stalls) (auto simp: dealt_form_def)
    with assms(4) False ix st1 have "st' = st1"
      by (auto simp: on_receive_shareChunk_def split: option.splits if_splits)
    with s1 show ?thesis by simp
  qed
qed

definition stalled :: "('f, 'g1, 'g2, 'a) drg_core \<Rightarrow> bool" where
  "stalled st \<longleftrightarrow> own_free (sharechunk_matrix st) \<and> counts_ok (core_config st) \<and> sharing_map st = [] \<and>
     dec_share_vec st = []"

lemma stalled_step:
  assumes "replica_step E (b, s) ev packets (b', s')" and "honest_event E ev" and "stalled (base_core b)"
    and "core_inv (base_core b)"
  shows "stalled (base_core b')"
proof -
  have "handle E ev b s = Inr (b', packets, s')"
    using assms(1) by (rule replica_stepE)
  from handle_core [OF this] show ?thesis
  proof (elim disjE exE conjE)
    assume "b' = b"
    with assms(3) show ?thesis by simp
  next
    fix core peer p sc rest calls s''
    assume b': "b' = b\<lparr>base_core := core\<rparr>" and "ev = Packet peer p" "pk_opcode p = MsgShareChunk_opcode"
        "share_chunk_unserialize (env_streams E) (pk_body p) = Inr (sc, rest)"
      and h: "on_receive_shareChunk E sc (base_core b) s = Inr (core, calls, s'')"
    then have "dealt_form sc"
      using assms(2) by simp
    moreover have "core_config core = core_config (base_core b)"
      using on_receive_shareChunk_inv [OF assms(4) h] by (simp add: same_setup_def)
    ultimately show ?thesis
      using honest_chunk_step [OF _ _ _ h] assms(3) b' by (simp add: stalled_def)
  next
    fix core calls s''
    assume "b' = b\<lparr>base_core := core\<rparr>" "on_receive_start E (base_core b) s = Inr (core, calls, s'')"
    with on_receive_start_frame [OF this(2)] assms(3) show ?thesis
      by (auto simp: stalled_def)
  next
    fix core sh
    assume "ev = Own_Share sh"
    with assms(2) show ?thesis by simp
  qed
qed

text \<open>C34: while all chunk messages are of the form in which dealers send them, no replica ever
  decodes a sharing or makes a share, whatever the order of the packets: the row that is decoded
  is that of round 0, replica 0 sends nobody the chunk of index 0, and the handler that completes
  a row reads through the null pointer that stands for it.\<close>

theorem honest_runs_stall:
  assumes "replica_reachable E (honest_event E)
      (base_start addrs client (fst (base_make E rid addr ctx s0)), s1) (b, s)"
    and "addrs \<noteq> []" and "length addrs \<le> 2 ^ 16"
  shows "sharing_map (base_core b) = [] \<and> dec_share_vec (base_core b) = [] \<and>
    (\<forall>sc c row. dealt_form sc \<and> sc_chunk sc = Some c \<and> path_checks E sc = Inr True \<and>
       row = (case um_find (sharechunk_matrix (base_core b)) (sc_replica sc) of None \<Rightarrow> [] | Some row \<Rightarrow> row) \<and>
       um_find row (sc_idx sc) = None \<and> um_size row + 1 = nreconthres (core_config (base_core b)) \<longrightarrow>
       on_receive_shareChunk E sc (base_core b) s = Inl Undefined_Read)"
proof -
  let ?b0 = "base_start addrs client (fst (base_make E rid addr ctx s0))"
  have "length addrs < 2 ^ 64"
    using assms(3) by (rule order_le_less_trans) simp
  then have "nreplicas (config_add_all 0 addrs (config_make 0 0)) = length addrs"
    using config_add_all_counts [of "config_make 0 0" addrs 0] by (simp add: config_make_def)
  moreover have "length addrs div 4 + 1 \<le> length addrs"
  proof -
    have "0 < length addrs"
      using assms(2) by simp
    then show ?thesis
      by presburger
  qed
  ultimately have "stalled (base_core ?b0)"
    using assms(3)
    by (simp add: stalled_def own_free_def base_start_simps
        um_simps case_prod_unfold Let_def counts_ok_def)
  have "stalled (base_core b) \<and> core_inv (base_core b)"
    using assms(1)
  proof (induction "(b, s)" arbitrary: b s rule: replica_reachable.induct)
    case initial
    with \<open>stalled (base_core ?b0)\<close> core_inv_started show ?case by simp
  next
    case (step b s ev packets b' s')
    with stalled_step [OF step.hyps(4,3)] replica_step_inv [OF step.hyps(4)] show ?case by simp
  qed
  then have st: "own_free (sharechunk_matrix (base_core b))" "counts_ok (core_config (base_core b))"
      "sharing_map (base_core b) = []" "dec_share_vec (base_core b) = []"
    by (simp_all add: stalled_def)
  have "on_receive_shareChunk E sc (base_core b) s = Inl Undefined_Read"
    if h: "dealt_form sc" "sc_chunk sc = Some c" "path_checks E sc = Inr True"
      "row = (case um_find (sharechunk_matrix (base_core b)) (sc_replica sc) of None \<Rightarrow> [] | Some row \<Rightarrow> row)"
      "um_find row (sc_idx sc) = None" "um_size row + 1 = nreconthres (core_config (base_core b))" for sc c row
  proof -
    obtain M where ix: "um_index [] (sc_replica sc) (sharechunk_matrix (base_core b)) = (row, M)"
      using h(4) by (cases "um_find (sharechunk_matrix (base_core b)) (sc_replica sc)") (auto simp: um_index_def)
    let ?M = "um_set (sc_replica sc) (um_set (sc_idx sc) (sc_chunk sc) row) M"
    note free = own_free_index [OF st(1) ix]
    have "own_free ?M"
      using h(1) free(1) by (intro own_free_set [OF free(2)]) (auto simp: um_simps dealt_form_def)
    then have "complete_row E sc c ((base_core b)\<lparr>sharechunk_matrix := ?M\<rparr>) s = Inl Undefined_Read"
      using st(2) h(1) by (intro complete_row_stalls) (simp_all add: dealt_form_def)
    with h ix show ?thesis
      by (simp add: on_receive_shareChunk_def store_chunk_def)
  qed
  with st show ?thesis by blast
qed

text \<open>For the witnesses: a message whose path has no elements, so that its leaf is the root.\<close>

definition example_leaf :: hash where
  "example_leaf = replicate HASH_SIZE 9"

definition example_message :: "ReplicaID \<Rightarrow> chunk_t list \<Rightarrow> 256 word share_chunk" where
  "example_message rid chunks = chunk_message rid (u256_of_bytes le_streams example_leaf) chunks 0
     (path_make example_leaf 0 [] 0)"

lemma example_message_checks: "path_checks example_env (example_message rid chunks) = Inr True"
proof -
  have "path_to (env_hash example_env) [example_leaf] 0 (path_make example_leaf 0 [] 0)"
    by (simp add: path_to_def path_make_def path_ok_def hash_ok_def path_verify_def path_root_def example_leaf_def)
  moreover have "length (merkle_root (env_hash example_env) [example_leaf]) = HASH_SIZE"
    by (simp add: example_leaf_def)
  moreover have "env_streams example_env = le_streams"
    by (simp add: example_env_def)
  ultimately show ?thesis
    using path_checks_path_to(1) [of example_env "[example_leaf]" 0 "path_make example_leaf 0 [] 0" rid chunks]
      le_streams_laws by (simp add: example_message_def)
qed

theorem honest_runs_stall_witness:
  "replica_reachable example_env (honest_event example_env) (example_base 0 ''a'', ()) (example_base 0 ''a'', ()) \<and>
   on_receive_shareChunk example_env (example_message 1 [Some \<lparr>chunk_size = 0, chunk_data = []\<rparr>])
     (base_core (example_base 0 ''a'')) () = Inl Undefined_Read"
proof
  show r: "replica_reachable example_env (honest_event example_env) (example_base 0 ''a'', ()) (example_base 0 ''a'', ())"
    by (rule replica_reachable.initial)
  let ?sc = "example_message 1 [Some \<lparr>chunk_size = 0, chunk_data = []\<rparr>]"
  have sc: "dealt_form ?sc" "sc_chunk ?sc = Some \<lparr>chunk_size = 0, chunk_data = []\<rparr>" "path_checks example_env ?sc = Inr True"
    by (simp_all add: dealt_form_def example_message_checks) (simp_all add: example_message_def chunk_message_def)
  have row: "um_find (sharechunk_matrix (base_core (example_base 0 ''a''))) (sc_replica ?sc) = None"
      "um_size ([] :: (u32, chunk_t) umap) + 1 = nreconthres (core_config (base_core (example_base 0 ''a'')))"
      "um_find ([] :: (u32, chunk_t) umap) (sc_idx ?sc) = None"
    by (simp_all add: example_base_core um_simps)
  have started: "replica_reachable example_env (honest_event example_env)
      (base_start [''a'', ''b''] ''c'' (fst (base_make example_env 0 ''a'' (example_context (unat (0 :: ReplicaID))) ())), ())
      (example_base 0 ''a'', ())"
    unfolding example_base_def by (rule replica_reachable.initial)
  show "on_receive_shareChunk example_env ?sc (base_core (example_base 0 ''a'')) () = Inl Undefined_Read"
    by (rule honest_runs_stall [OF started, THEN conjunct2, THEN conjunct2, rule_format])
      (use sc row in simp_all)
qed

end
