(* ===== verification/Drg_Shares.thy ===== *)
theory Drg_Shares
  imports Drg_Run Pvss_Beacon
begin

text \<open>
  The second half of the protocol: the share a replica makes of an aggregate, what becomes of
  the shares a replica receives, up to the beacon, and the delivery of messages between two
  replicas.
\<close>

section \<open>Making a share\<close>

text \<open>C32: the share a replica makes of honest sharings carries its own identifier and parses, in whatever
  object it is read into and to the last character, to its decryption of their aggregate: the generator times the
  value of the sum of the dealers' polynomials at its point, which every replica accepts.\<close>

theorem make_share_verifies:
  fixes E :: "('f :: field, 'g1 :: ab_group_add, 'g2 :: ab_group_add, 'gt, 's, 'mat, 'h) drg_env"
  assumes "lib_laws (env_lib E)" and "text_laws (env_lib E) (env_text E)"
    and "core_context st = factory_context (env_lib E) cfg g1 g2 h1 h2 sks i"
    and "length sks = num_replicas cfg" and "i < num_replicas cfg" and "num_replicas cfg < 2 ^ 64"
    and "sks ! i \<noteq> 0" and "list_all2 (sharing_of (env_lib E) (core_context st)) ps shs" and "shs \<noteq> []"
    and "length shs \<le> length ids"
  shows "\<exists>sh agg d s'. make_share E shs ids st s = Inr (sh, s') \<and> aggregate shs ids = Inr agg \<and>
    share_replica sh = core_id st \<and>
    get_decryption (env_text E) old (Some (bytes_string (share_bt sh))) = (d, Some []) \<and>
    dec d = smul1 (env_lib E) (sum_poly ps (fr_of_long (i + 1))) g1 \<and> origin d = i \<and>
    verify_decryption (env_lib E) agg d = Inr True"
proof -
  obtain agg where agg: "aggregate shs ids = Inr agg"
      "aggregate_of (env_lib E) (core_context st) (sum_poly ps) agg"
    using aggregate_ok [OF assms(1,8-10)] by auto
  obtain d s' where d: "decrypt (env_lib E) (core_context st) agg s = Inr (d, s')"
      "dec d = smul1 (env_lib E) (sum_poly ps (fr_of_long (i + 1))) g1" "origin d = i"
      "verify_decryption (env_lib E) agg d = Inr True"
    using decrypt_ok [OF assms(1) agg(2) [unfolded assms(3)] assms(4,5,7), of s] unfolding assms(3) by auto
  have "origin d < 2 ^ 64"
    using d(3) assms(5,6) by simp
  then have "get_decryption (env_text E) old (Some (put_decryption (env_lib E) (env_text E) d)) = (d, Some [])"
    using get_put_decryption [OF assms(2), of d old "[]"] by simp
  with agg(1) d show ?thesis
    by (simp add: make_share_def)
qed

text \<open>For the witnesses: the aggregate of one sharing in the example.\<close>

lemma example_lib: "env_lib example_env = gf3_lib" "env_text example_env = gf3_text"
    "env_streams example_env = le_streams"
  by (simp_all add: example_env_def)

lemma example_context_1: "example_context (unat (1 :: ReplicaID)) =
    factory_context gf3_lib (FromNumReplicas 2) 1 1 1 1 [1, 1] 1"
  using example_context_eq [of 1] by simp

theorem make_share_verifies_witness:
  "\<exists>sharing sh agg d s'. make_share example_env [sharing] [0] (base_core (example_base 1 ''b'')) () = Inr (sh, s') \<and>
     get_decryption gf3_text 0 (Some (bytes_string (share_bt sh))) = (d, Some []) \<and> origin d = 1 \<and>
     verify_decryption gf3_lib agg d = Inr True"
proof -
  let ?st = "base_core (example_base 1 ''b'')"
  obtain p sharing where sharing: "sharing_of gf3_lib (example_context (unat (1 :: ReplicaID))) p sharing"
    by (rule example_create_sharing)
  then have all: "list_all2 (sharing_of (env_lib example_env) (core_context ?st)) [p] [sharing]"
    by (simp add: example_lib example_base_core)
  have ctx: "core_context ?st = factory_context (env_lib example_env) (FromNumReplicas 2) 1 1 1 1 [1, 1] 1"
    by (simp only: example_lib example_base_core example_context_1)
  have laws: "lib_laws (env_lib example_env)" "text_laws (env_lib example_env) (env_text example_env)"
    by (simp_all add: example_lib gf3_lib_laws gf3_text_laws)
  have "\<exists>sh agg d s'. make_share example_env [sharing] [0] ?st () = Inr (sh, s') \<and>
    aggregate [sharing] [0] = Inr agg \<and> share_replica sh = core_id ?st \<and>
    get_decryption (env_text example_env) 0 (Some (bytes_string (share_bt sh))) = (d, Some []) \<and>
    dec d = smul1 (env_lib example_env) (sum_poly [p] (fr_of_long (1 + 1))) 1 \<and> origin d = 1 \<and>
    verify_decryption (env_lib example_env) agg d = Inr True"
    by (rule make_share_verifies [OF laws ctx _ _ _ _ all]) (simp_all add: example_sizes)
  then show ?thesis
    unfolding example_lib by blast
qed

section \<open>Collecting shares\<close>

fun receive_shares ::
  "('f :: field, 'g1 :: ab_group_add, 'g2, 'gt, 's, 'mat, 'h) drg_env \<Rightarrow> share list \<Rightarrow>
   ('f, 'g1, 'g2, 'a) drg_core \<Rightarrow> ('f, 'g1, 'g2, 'a) drg_core res" where
  "receive_shares E [] st = Inr st"
| "receive_shares E (sh # shs) st = res_bind (on_receive_share E sh st) (receive_shares E shs)"

text \<open>The share that carries a decryption.\<close>

definition share_of ::
  "('f, 'g1, 'g2, 'gt, 's, 'mat, 'h) drg_env \<Rightarrow> ReplicaID \<Rightarrow> ('f, 'g1) decryption \<Rightarrow> share" where
  "share_of E rid d =
     \<lparr>share_replica = rid, share_bt = string_bytes (put_decryption (env_lib E) (env_text E) d)\<rparr>"

lemma on_receive_share_of:
  assumes "text_laws (env_lib E) (env_text E)" and "origin d < 2 ^ 64"
  shows "on_receive_share E (share_of E rid d) st =
    (if nreconthres (core_config st) \<le> length (dec_share_vec st) then Inr st
     else let st' = st\<lparr>dec_share_vec := dec_share_vec st @ [d]\<rparr>
          in if length (dec_share_vec st) + 1 = nreconthres (core_config st)
             then res_bind (reconstruct (env_lib E) (core_context st) (dec_share_vec st @ [d])) (\<lambda>b. Inr st')
             else Inr st')"
  using get_put_decryption [OF assms, of "env_origin E" "[]"]
  by (simp add: on_receive_share_def share_of_def Let_def)

lemma receive_shares_done:
  assumes "nreconthres (core_config st) \<le> length (dec_share_vec st)"
  shows "receive_shares E shs st = Inr st"
  using assms by (induction shs) (simp_all add: on_receive_share_def)

lemma receive_shares_all:
  assumes "text_laws (env_lib E) (env_text E)"
  shows "(\<forall>d\<in>set ds. origin d < 2 ^ 64) \<Longrightarrow> length (dec_share_vec st) < nreconthres (core_config st) \<Longrightarrow>
    receive_shares E (map (share_of E rid) ds) st =
      (let k = nreconthres (core_config st); all = dec_share_vec st @ ds
       in if length all < k then Inr (st\<lparr>dec_share_vec := all\<rparr>)
          else res_bind (reconstruct (env_lib E) (core_context st) (take k all)) (\<lambda>b.
            Inr (st\<lparr>dec_share_vec := take k all\<rparr>)))"
proof (induction ds arbitrary: st)
  case Nil
  then show ?case by simp
next
  case (Cons d ds)
  let ?k = "nreconthres (core_config st)" and ?st = "st\<lparr>dec_share_vec := dec_share_vec st @ [d]\<rparr>"
  note recv = on_receive_share_of [OF assms, of d rid st]
  show ?case
  proof (cases "length (dec_share_vec st) + 1 = ?k")
    case True
    then have "receive_shares E shs ?st = Inr ?st" for shs
      by (intro receive_shares_done) simp
    moreover have "take ?k (dec_share_vec st @ d # ds) = dec_share_vec st @ [d]"
      using True by (simp add: take_Cons')
    ultimately show ?thesis
      using recv Cons.prems True by (simp add: res_bind_assoc)
  next
    case False
    with Cons.IH [of ?st] Cons.prems recv show ?thesis
      by (auto simp: Let_def)
  qed
qed

text \<open>A replica without shares that receives any number of shares, in any order, keeps the
  first \<open>nreconthres\<close> of them and ignores the others; when it has that many it reconstructs, and
  a fault of the reconstruction is one of the handler. Below that number it keeps them all.\<close>

theorem shares_collected:
  assumes "text_laws (env_lib E) (env_text E)" and "\<forall>d\<in>set ds. origin d < 2 ^ 64"
    and "dec_share_vec st = []" and "k = nreconthres (core_config st)" and "0 < k"
  shows "receive_shares E (map (share_of E rid) ds) st =
    (if length ds < k then Inr (st\<lparr>dec_share_vec := ds\<rparr>)
     else res_bind (reconstruct (env_lib E) (core_context st) (take k ds)) (\<lambda>b.
       Inr (st\<lparr>dec_share_vec := take k ds\<rparr>)))"
  using receive_shares_all [OF assms(1,2), of st rid] assms(3-5) by (simp add: Let_def)

definition example_decryption :: "(gf3, gf3) decryption" where
  "example_decryption = \<lparr>dec = 1, dec_pi = \<lparr>dleq_gr = 1, dleq_pi = 1\<rparr>, origin = 0\<rparr>"

theorem shares_collected_witness:
  "receive_shares example_env [] (base_core (example_base 1 ''b'')) = Inr (base_core (example_base 1 ''b'')) \<and>
   (\<exists>b. reconstruct gf3_lib (example_context 1) [example_decryption] = Inr b \<and>
     receive_shares example_env (map (share_of example_env 0) [example_decryption, example_decryption])
       (base_core (example_base 1 ''b'')) =
     Inr ((base_core (example_base 1 ''b''))\<lparr>dec_share_vec := [example_decryption]\<rparr>))"
proof -
  let ?st = "base_core (example_base 1 ''b'')"
  have T: "text_laws (env_lib example_env) (env_text example_env)"
    by (simp add: example_lib gf3_text_laws)
  have "polyfn 0 1 (\<lambda>x :: gf3. 1)"
    by (simp add: polyfn_const)
  then have "polyfn (num_faults (config (example_context 1))) 1 (\<lambda>x :: gf3. 1)"
    using example_sizes by (simp add: example_context_def)
  from reconstruct_ok [OF gf3_lib_laws this, of "[example_decryption]" 1]
  obtain b where b: "reconstruct gf3_lib (example_context 1) [example_decryption] = Inr b"
    using example_sizes by (auto simp: example_context_def example_decryption_def gf3_lib_def)
  have "receive_shares example_env (map (share_of example_env 0) [example_decryption, example_decryption]) ?st =
     Inr (?st\<lparr>dec_share_vec := [example_decryption]\<rparr>)"
    by (subst shares_collected [OF T, of _ ?st 1])
      (use b in \<open>simp_all add: example_base_core example_lib example_decryption_def\<close>)
  with b show ?thesis by simp
qed

text \<open>C35: what becomes of the shares a replica receives, whoever sent them and whatever they decrypt to. Below
  \<open>nreconthres\<close> it keeps them all. The share that completes the threshold makes the handler reconstruct: if
  the threshold is not above the number of faults, the assertion of \<open>reconstruct\<close> fails; if two of the first
  \<open>f + 1\<close> shares have one origin, the interpolation inverts zero; otherwise the reconstruction succeeds,
  the first \<open>nreconthres\<close> shares stay and the later ones are ignored. The handler drops the beacon it has
  computed. In the code the threshold is above the number of faults for one, two and four replicas only.\<close>

theorem received_shares_outcome:
  fixes E :: "('f :: field, 'g1 :: ab_group_add, 'g2 :: ab_group_add, 'gt, 's, 'mat, 'h) drg_env"
  assumes "text_laws (env_lib E) (env_text E)" and "config (core_context st) = cfg"
    and "field_fits TYPE('f) (num_replicas cfg)" and "num_faults cfg < num_replicas cfg"
    and "\<forall>d\<in>set ds. origin d < num_replicas cfg"
    and "dec_share_vec st = []" and "k = nreconthres (core_config st)" and "0 < k"
  shows "receive_shares E (map (share_of E rid) ds) st =
    (if length ds < k then Inr (st\<lparr>dec_share_vec := ds\<rparr>)
     else if k \<le> num_faults cfg then Inl Assertion_Failed
     else if \<not> distinct (take (num_faults cfg + 1) (map origin ds)) then Inl Division_By_Zero
     else Inr (st\<lparr>dec_share_vec := take k ds\<rparr>))"
proof -
  let ?r = "reconstruct (env_lib E) (core_context st) (take k ds)"
  have n: "num_faults cfg < SIZE_MAX" "num_replicas cfg < 2 ^ 64"
    using assms(3,4) by (simp_all add: field_fits_def fr_max_size_def)
  then have "\<forall>d\<in>set ds. origin d < 2 ^ 64"
    using assms(5) by fastforce
  then have all: "receive_shares E (map (share_of E rid) ds) st =
      (if length ds < k then Inr (st\<lparr>dec_share_vec := ds\<rparr>) else res_bind ?r (\<lambda>b. Inr (st\<lparr>dec_share_vec := take k ds\<rparr>)))"
    using receive_shares_all [OF assms(1), of ds st rid] assms(6-8) by (simp add: Let_def)
  have first: "take (num_faults cfg + 1) (map origin (take k ds)) = take (num_faults cfg + 1) (map origin ds)"
    if "num_faults cfg < k"
    using that by (simp add: take_map min_def)
  note faults = reconstruct_faults [of "core_context st", unfolded assms(2), OF n(1), of "take k ds" "env_lib E"]
  show ?thesis
  proof (cases "length ds < k \<or> k \<le> num_faults cfg \<or> \<not> distinct (take (num_faults cfg + 1) (map origin ds))")
    case True
    then show ?thesis
      using faults first unfolding all by auto
  next
    case False
    moreover have "set (take k ds) \<subseteq> set ds"
      by (rule set_take_subset)
    ultimately have "\<exists>b. ?r = Inr b"
      using assms(3-5) first by (intro reconstruct_returns) (auto simp: assms(2))
    with False show ?thesis
      unfolding all by auto
  qed
qed

theorem received_shares_outcome_witness:
  "\<exists>st :: (gf3, gf3, gf3, string) drg_core. \<exists>d.
     receive_shares example_env (map (share_of example_env 0) [d, example_decryption]) st =
       Inr (st\<lparr>dec_share_vec := [d, example_decryption]\<rparr>) \<and>
     receive_shares example_env (map (share_of example_env 0) [d, d]) st = Inl Division_By_Zero \<and>
     receive_shares example_env (map (share_of example_env 0) [d]) st = Inr (st\<lparr>dec_share_vec := [d]\<rparr>)"
proof -
  let ?b = "base_core (example_base 1 ''b'')"
  define st where "st = ?b\<lparr>core_config := (core_config ?b)\<lparr>nreconthres := 2\<rparr>,
      core_context := (example_context 1)\<lparr>config := \<lparr>num_replicas = 2, num_faults = 1\<rparr>\<rparr>\<rparr>"
  define d where "d = example_decryption\<lparr>origin := 1\<rparr>"
  have T: "text_laws (env_lib example_env) (env_text example_env)"
    by (simp add: example_lib gf3_text_laws)
  have st: "config (core_context st) = \<lparr>num_replicas = 2, num_faults = 1\<rparr>" "dec_share_vec st = []"
      "2 = nreconthres (core_config st)"
    by (simp_all add: st_def example_base_core)
  have out: "receive_shares example_env (map (share_of example_env 0) ds) st =
    (if length ds < 2 then Inr (st\<lparr>dec_share_vec := ds\<rparr>)
     else if \<not> distinct (take 2 (map origin ds)) then Inl Division_By_Zero
     else Inr (st\<lparr>dec_share_vec := take 2 ds\<rparr>))" if "\<forall>d\<in>set ds. origin d < 2" for ds
    using received_shares_outcome [OF T st(1) _ _ _ st(2,3), of ds 0] that gf3_fits
    by (simp add: numeral_2_eq_2 [symmetric] del: One_nat_def)
  have o: "origin d = 1" "origin example_decryption = 0"
    by (simp_all add: d_def example_decryption_def)
  have "receive_shares example_env (map (share_of example_env 0) [d, example_decryption]) st =
       Inr (st\<lparr>dec_share_vec := [d, example_decryption]\<rparr>)"
    by (subst out) (simp_all only: o list.set list.map ball_simps insert_iff empty_iff, simp_all add: o)
  moreover have "receive_shares example_env (map (share_of example_env 0) [d, d]) st = Inl Division_By_Zero"
    by (subst out) (simp_all add: o)
  moreover have "receive_shares example_env (map (share_of example_env 0) [d]) st = Inr (st\<lparr>dec_share_vec := [d]\<rparr>)"
    by (subst out) (simp_all add: o)
  ultimately show ?thesis
    by blast
qed

section \<open>The number of shares\<close>

lemma threshold_at_most_faults:
  fixes n :: nat
  assumes "0 < n" and "n \<notin> {1, 2, 4}"
  shows "n div 4 + 1 \<le> (n - 1) div 2"
proof -
  have "n = 3 \<or> 5 \<le> n"
    using assms by auto
  then show ?thesis
    by auto
qed

text \<open>C39: with any number of replicas but one, two or four the threshold of the protocol core is
  not above the number of faults of the secret sharing: the share that should complete a beacon
  fails the assertion of \<open>reconstruct\<close>, whoever sent the shares.\<close>

theorem share_threshold_too_low:
  assumes "text_laws (env_lib E) (env_text E)" and "\<forall>d\<in>set ds. origin d < 2 ^ 64"
    and "0 < n" and "n \<notin> {1, 2, 4}" and "n < 2 ^ 64"
    and "nreplicas (core_config st) = n" and "config (core_context st) = FromNumReplicas n"
    and "dec_share_vec st = []" and "n div 4 + 1 \<le> length ds"
  shows "receive_shares E (map (share_of E rid) ds) (on_init st) = Inl Assertion_Failed"
proof -
  have "num_faults (FromNumReplicas n) = (n - 1) div 2"
    using assms(3,5) by (simp add: num_faults_FromNumReplicas)
  then have "\<not> num_faults (config (core_context (on_init st))) < length (take (n div 4 + 1) ds)"
    using threshold_at_most_faults [OF assms(3,4)] assms(7,9) by (simp add: on_init_def)
  then have "reconstruct (env_lib E) (core_context (on_init st)) (take (n div 4 + 1) ds) = Inl Assertion_Failed"
    by (simp add: reconstruct_def)
  with receive_shares_all [OF assms(1,2), of "on_init st" rid] assms(6,8,9) show ?thesis
    by (simp add: on_init_def)
qed

theorem share_threshold_too_low_witness:
  "\<exists>st :: (gf3, gf3, gf3, string) drg_core. nreplicas (core_config st) = 3 \<and>
     receive_shares example_env (map (share_of example_env 0) [example_decryption]) (on_init st) = Inl Assertion_Failed"
proof -
  let ?b = "base_core (example_base 1 ''b'')"
  let ?st = "?b\<lparr>core_config := (core_config ?b)\<lparr>nreplicas := 3\<rparr>,
      core_context := (example_context 1)\<lparr>config := FromNumReplicas 3\<rparr>\<rparr>"
  have T: "text_laws (env_lib example_env) (env_text example_env)"
    by (simp add: example_lib gf3_text_laws)
  have "receive_shares example_env (map (share_of example_env 0) [example_decryption]) (on_init ?st) = Inl Assertion_Failed"
    by (rule share_threshold_too_low [OF T, of _ 3]) (simp_all add: example_decryption_def example_base_core)
  then show ?thesis
    by (intro exI [of _ ?st]) simp
qed

section \<open>Delivery\<close>

text \<open>The message a replica sends to another one is handled there as the same chunk message,
  and its answer is what the core of the receiver asks for; without a sender's address it is
  ignored.\<close>

theorem packet_delivered:
  assumes "stream_laws (env_streams E)" and "share_chunk_fits sc"
    and "get_addr (core_config (base_core b)) dest = Inr a"
  shows "\<exists>p. do_sharechunk E b sc dest = Inr [p] \<and> pk_dest p = a \<and>
    receive_packet E (Some peer) p b2 s =
      res_bind (on_receive_shareChunk E sc (base_core b2) s) (\<lambda>(core, calls, s).
      res_bind (perform_all E b2 calls) (\<lambda>packets. Inr (b2\<lparr>base_core := core\<rparr>, packets, s))) \<and>
    receive_packet E None p b2 s = Inr (b2, [], s)"
proof -
  obtain c where "sc_chunk sc = Some c"
    using assms(2) by (auto simp: share_chunk_fits_def)
  then have "share_chunk_serialize (env_streams E) sc [] = Inr (share_chunk_bytes (env_streams E) sc)"
    by (simp add: share_chunk_serialize_eq)
  moreover have "share_chunk_unserialize (env_streams E) (share_chunk_bytes (env_streams E) sc) = Inr (sc, [])"
    using share_chunk_codec.get_put_all [of "env_streams E" sc] assms(1,2) by simp
  ultimately show ?thesis
    using assms(3) by (simp add: do_sharechunk_def msg_sharechunk_def receive_packet_eq sharechunk_handler_def)
qed

theorem packet_delivered_witness:
  "\<exists>sc p. sc_idx sc = 0 \<and> do_sharechunk example_env (example_base 1 ''b'') sc 0 = Inr [p] \<and> pk_dest p = ''a'' \<and>
     receive_packet example_env None p (example_base 0 ''a'') () = Inr (example_base 0 ''a'', [], ())"
proof -
  let ?sc = "\<lparr>sc_replica = 1, sc_idx = 0, sc_round = 0, sc_chunk = Some \<lparr>chunk_size = 1, chunk_data = [7]\<rparr>,
    sc_root = 5, sc_proof = []\<rparr> :: 256 word share_chunk"
  have "get_addr (core_config (base_core (example_base 1 ''b''))) 0 = Inr ''a''"
    by (simp add: example_base_def base_start_simps
        case_prod_unfold config_make_def config_add_replica_def get_addr_def get_info_def um_insert_find um_simps)
  moreover have "stream_laws (env_streams example_env)" "share_chunk_fits ?sc"
    by (simp_all add: example_lib le_streams_laws share_chunk_fits_def chunk_fits_def)
  ultimately obtain p where "do_sharechunk example_env (example_base 1 ''b'') ?sc 0 = Inr [p]" "pk_dest p = ''a''"
      "receive_packet example_env None p (example_base 0 ''a'') () = Inr (example_base 0 ''a'', [], ())"
    using packet_delivered [of example_env ?sc "example_base 1 ''b''" 0 "''a''" "''b''" "example_base 0 ''a''" "()"]
    by blast
  then show ?thesis
    by (intro exI [of _ ?sc] exI [of _ p]) simp
qed

text \<open>The start message of the client and the shares of the other replicas change nothing at
  their receiver: the handler of the first is empty and the second have none.\<close>

theorem packets_ignored:
  "map (\<lambda>p. receive_packet E peer p b2 s) (do_broadcast_share E b sh) = map (\<lambda>a. Inr (b2, [], s)) (peers b) \<and>
   receive_packet E peer \<lparr>pk_dest = a, pk_opcode = MsgStart_opcode, pk_body = body\<rparr> b2 s = Inr (b2, [], s)"
  by (simp add: do_broadcast_share_def msg_share_def receive_packet_eq start_handler_def MsgShare_opcode_def
      MsgShareChunk_opcode_def MsgStart_opcode_def)

end
