(* ===== verification/Spec2Isabelle.thy ===== *)
theory Spec2Isabelle
  imports Merkle_Typed Merkle_Copy Merkle_Heap_Life Merkle_Convert Merkle_Sha_Libs Pvss_Beacon Pvss_Total Drg_Programs Drg_Protocol Drg_Shares
begin

text \<open>
  A verification of the random beacon of this repository: replicas that share secrets with a
  publicly verifiable secret sharing, spread the sharings in erasure-coded chunks under a
  Merkle tree, aggregate them, and reconstruct a common random value from the shares of an
  aggregate.

  \<^bold>\<open>The program and the theories.\<close> The theories follow the sources; every definition is
  named after the function it translates.

  \<^item> \<open>Beacon_Prelude\<close>: machine integers (\<open>size_t\<close> has 64 bits), the result type
    \<open>'a res\<close> with the faults an operation can end in, vectors with checked and unchecked
    indexing, text and bytes.

  \<^item> \<open>include/merklecpp.h\<close>. \<open>Merkle_Hash\<close>: \<open>HashT\<close> and the integer codec; the locale
    \<open>position_codec\<close> is the contract of reading at a position, interpreted for integers,
    hashes and paths. \<open>Merkle_Path\<close>: \<open>PathT\<close>. \<open>Merkle_Node\<close>: \<open>TreeT::Node\<close>, \<open>hash\<close>,
    \<open>copy_node\<close>; the invariants \<open>wf_node\<close>, \<open>hash_inv\<close>, \<open>represents\<close>, \<open>conflated_below\<close>.
    \<open>Merkle_Tree\<close>: the state of \<open>TreeT\<close>, the insertion stack, \<open>insert\<close>, \<open>operator=\<close>.
    \<open>Merkle_Root\<close>: the invariant \<open>tree_inv hf t xs\<close> (the tree \<open>t\<close> stands for the leaves
    \<open>xs\<close>, in any stage of insertion), \<open>root\<close>, \<open>size\<close>. \<open>Merkle_Walk\<close>: \<open>walk_to\<close>,
    \<open>path\<close>, \<open>past_root\<close>, \<open>flush_to\<close>, \<open>retract_to\<close>, the last two verified in
    \<open>Merkle_Retract\<close>. \<open>Merkle_Past_Path\<close>: \<open>past_path\<close>. \<open>Merkle_Serial\<close>: the byte
    format of trees. \<open>Merkle_Copy\<close>: assignment and copy. \<open>Merkle_Convert\<close>: the remaining
    constructors and conversions. \<open>Merkle_Text\<close>: \<open>to_string\<close> and the constructor from
    hexadecimal digits. \<open>Merkle_Refine\<close>: a tree refines the list of its leaves, by the
    locale \<open>simulation\<close>. \<open>Merkle_Typed\<close>: the types of reachable trees and of answers.
    The same operations over nodes with addresses, their names ending in \<open>_h\<close>: \<open>Merkle_Heap\<close>
    (nodes, \<open>new\<close> and \<open>delete\<close>, the relation \<open>holds\<close>), \<open>Merkle_Heap_Insert\<close> (insertion and
    hashing), \<open>Merkle_Heap_Tree\<close> (the tree, \<open>root\<close>, \<open>size\<close>, \<open>operator=\<close>, moves),
    \<open>Merkle_Heap_Own\<close> and \<open>Merkle_Heap_Copy\<close> (destructor and copies), \<open>Merkle_Heap_Walk\<close>
    (\<open>walk_to\<close> with the locale \<open>walk_callback\<close> for what it is called with, interpreted for
    \<open>path\<close>, \<open>flush_to\<close> and the serialisation), \<open>Merkle_Heap_Retract\<close>, \<open>Merkle_Heap_Ops\<close>,
    \<open>Merkle_Heap_Past\<close>, \<open>Merkle_Heap_Serial\<close>, \<open>Merkle_Heap_Read\<close> (\<open>deserialise\<close>).
    \<open>Merkle_Heap_Refine\<close>: the simulation by the list of leaves again, with the heap accounted
    for; \<open>Merkle_Heap_Life\<close>: what copies, assignments, moves and \<open>size\<close> do to the memory.
    \<open>Merkle_Sha256\<close>, \<open>Merkle_Sha_Libs\<close>: the hash functions of the tree against the
    specification \<open>Sha256_Spec\<close> (FIPS 180-4).

  \<^item> \<open>include/pvss\<close>. \<open>Picosha\<close>: the SHA-256 hasher of \<open>internal/picosha.h\<close>, with its 64-bit
    arithmetic. \<open>Interpolation\<close>: the mathematics of polynomial functions. \<open>Pvss_Poly\<close>:
    \<open>Config.hpp\<close>, \<open>PolyOps.hpp\<close>. \<open>Pvss_Dleq\<close>: \<open>Dleq.hpp\<close>, \<open>DecompProof.hpp\<close>.
    \<open>Pvss\<close>: the operations of \<open>Context\<close> (\<open>pvss.hpp\<close>, \<open>Factory.hpp\<close> and their data);
    \<open>Pvss_Correct\<close>, \<open>Pvss_Beacon\<close>, \<open>Pvss_Total\<close>: what they guarantee. \<open>Text_Stream\<close>,
    \<open>Pvss_Text\<close>: \<open>Serialization.hpp\<close> and the stream operators, with the locale
    \<open>text_codec\<close>. \<open>Pvss_Setup\<close>: \<open>src/pvss_setup.cpp\<close>.

  \<^item> \<open>Erasure\<close>: \<open>include/erasure.h\<close> and \<open>src/erasure.cpp\<close>. \<open>Hash_Map\<close>:
    \<open>std::unordered_map\<close>, with the locale \<open>unordered_map\<close>. \<open>Replica_Config\<close>:
    \<open>include/ReplicaConfig.hpp\<close>, \<open>include/drgerror.hpp\<close>. \<open>Drg_Messages\<close>: the messages of
    \<open>include/DrgCore.hpp\<close>, with the locale \<open>stream_codec\<close> interpreted for chunks and both
    messages. \<open>Drg_Core\<close>, \<open>Drg_Handlers\<close>: \<open>DrgCore\<close>. \<open>Drg_Base\<close>: \<open>DrgBase\<close>.
    \<open>Drg_Programs\<close>: \<open>src/drg.cpp\<close> and the client. \<open>Drg_Example\<close>: a small instance of all
    parameters, for the witnesses. \<open>Drg_Deal\<close>, \<open>Drg_Run\<close>, \<open>Drg_Protocol\<close>,
    \<open>Drg_Shares\<close>: properties of the protocol; \<open>Drg_Run\<close> has the step relation
    \<open>replica_step\<close> and the reachable states \<open>replica_reachable\<close>.

  \<^bold>\<open>How the parts interact.\<close> The set-up program writes a context for each replica; the replica
  program reads it and starts \<open>DrgBase\<close>, which turns packets into calls of the handlers of
  \<open>DrgCore\<close> and their calls into packets. A dealer makes a sharing (\<open>Context\<close>), prints it,
  encodes it (\<open>Erasure\<close>), hashes the chunks into a tree and sends each replica a chunk with
  its path. A receiver checks the path, collects the chunks of each dealer, decodes and
  aggregates the sharings and broadcasts its share; enough shares give the beacon.

  \<^bold>\<open>State and effects.\<close> Objects are records that operations take and return. An operation that
  can throw, fail an assertion or leave the defined behaviour of C++ (\<open>Undefined_Read\<close>,
  \<open>Int_Overflow\<close>) returns \<open>Inl\<close> of a fault; the state after a fault is not given. Assertions are on, as in a build without
  \<open>NDEBUG\<close>. Random generators are functions on a state \<open>'s\<close> that is passed on. A handler
  returns the list of its calls to the network layer, \<open>DrgBase\<close> that of its calls to the
  network library. Trees are modelled twice. As values,
  \<open>_root\<close> and the nodes are a datatype with \<open>Null\<close> for the null pointer. With addresses, a
  heap \<open>nheap\<close> maps the addresses of the nodes in use to their fields, \<open>_root\<close>, the two
  vectors of leaves and the insertion stack hold pointers, and reading or deleting what is not
  in use is the fault \<open>Undefined_Read\<close>. \<open>tree_holds h T t F G\<close> relates the two: \<open>F\<close> are
  the nodes below \<open>_root\<close>, \<open>G\<close> those that only the insertion stack leads to. The assertions
  on the nodes of a walk and on new nodes are in the second model.

  \<^bold>\<open>What the lemmas show.\<close> Of the tree: every operation keeps \<open>tree_inv\<close>; any sequence of
  operations gives the answers of the same operations on the list of leaves; paths verify;
  equal roots with equal directions mean equal leaves or a collision; trees, segments and
  paths are read back from their bytes; copies are copies if the insertion stack is empty; over
  nodes with addresses all this holds as well, no operation reads a freed node, and the
  destructor restores the heap, with the exceptions the code has (moves, \<open>operator=\<close>, also of a tree to itself, \<open>size\<close>). Of
  the hash functions: they compute SHA-256, or its compression function. Of the secret
  sharing: honest sharings, aggregates, decryptions and beacons are accepted; enough
  decryptions give the same beacon whoever made them; a replica that has accepted an aggregate, honest or not, accepts
  exactly the beacon that is reconstructed from it;
  verification returns on every input; two accepted proofs give the witness away. Of the
  text and byte formats: round trips. Of the protocol: the invariant of a replica in every
  reachable state; what a dealer sends passes its receivers' checks and decodes; a share made of honest
  sharings is the decryption of their aggregate; what the handler of shares does with any sequence of
  them, the failed assertion and the inverse of zero included; and that with honest dealers no replica gets that far, since the
  handler decodes the row of the wrong replica (\<open>honest_runs_stall\<close>). Of the programs:
  replicas started with the files of the set-up program have matching contexts and addresses.

  \<^bold>\<open>Parameters.\<close> Code that is not in this repository is a parameter with named laws:
  libff's curve is the record \<open>pairing_lib\<close> (\<open>lib_laws\<close>: the scalar multiplications are
  those of modules and the pairing moves scalars between its arguments), its operators on streams are
  \<open>text_lib\<close> (\<open>text_laws\<close>), jerasure is \<open>jerasure\<close> (\<open>jerasure_laws\<close>: what is encoded, in
  blocks whose size is a multiple of 8, is decoded if at most \<open>m\<close> of the \<open>k + m\<close> blocks are erased), salticidae's streams are \<open>stream_lib\<close>
  (\<open>stream_laws\<close>: what is written is read), libsodium's VRF is \<open>vrf_lib\<close>, OpenSSL and mbedTLS
  are \<open>sha_lib\<close> (\<open>sha_lib_laws\<close>). The allocator of nodes is a function on heaps
  (\<open>fresh_addr\<close>: the address it returns is not in use). \<open>env_laws\<close> collects the laws for
  the protocol. The field is a type of class \<open>field\<close>; \<open>gf3\<close>, the field of three elements, is an instance with which
  all hypotheses are satisfied in the witnesses.

  \<^bold>\<open>Bounds and fuel.\<close> Trees have at most \<open>max_leaves = 2 ^ 29\<close> leaves: up to there
  \<open>(1 << height) - 1\<close> is defined for an \<open>int\<close>, as heights do not exceed 30; reading a tree from bytes, which
  takes any number of flushed leaves, and the operations over the heap end in \<open>Int_Overflow\<close> above. Messages to hash are shorter than \<open>2 ^ 60\<close> bytes,
  so that their length in bits fits the counter. Encoded data is shorter than \<open>2 ^ 31\<close>
  bytes, the range of the \<open>int\<close> in the block sizes; the set-up program's counts fit an \<open>int\<close> up to
  \<open>2 n + (n - 1) / 2\<close>; outside these ranges both end in \<open>Int_Overflow\<close> or \<open>Undefined_Read\<close>. There are at most \<open>2 ^ 16\<close> replicas, the
  range of their identifiers. \<open>cap\<close> is the number of elements a vector can reserve;
  \<open>sizes_ok\<close> says that a field has enough elements for the points of the replicas. No loop
  runs on fuel: \<open>walk_to\<close>, which does not end when its callback stops it, and the routines that
  follow pointers, which do not end on a cycle, are partial functions with the value \<open>None\<close>
  then, and their lemmas prove that they end for the callbacks and the trees of the code; the
  other loops terminate by a measure, and where the code would loop forever (a read buffer of size \<open>0\<close>, an interpolation of degree
  \<open>SIZE_MAX\<close>) the model has the fault \<open>No_Return\<close>. A loop that only ends when a vector cannot grow any
  more (drawing a polynomial of degree \<open>SIZE_MAX\<close>) ends in \<open>Length_Error\<close>.

  \<^bold>\<open>Not modelled.\<close> The state of an object after an exception; the capacity of memory, so
  that \<open>new\<close> does not fail; the trace output; the event loop, the connections and the
  threads of salticidae, so that a replica is a state that handles one packet after the other; the parsing of options and the
  opening of files; the initialisation of libff; logging; the configuration generator
  \<open>scripts/gen_conf.py\<close>, which is not part of the C++ program. Probabilities: the theorems
  hold for whatever the random generators draw, except for the soundness of the proofs and
  the binding of the tree, which name the exception (equal challenges, a collision).
\<close>

end
